(* ===== verification/Rust_Str.thy ===== *)
theory Rust_Str
  imports Prelude "HOL-Library.Char_ord" "HOL-Library.List_Lexorder"
begin

text \<open>
  Rust's \<open>str\<close> on UTF-8 bytes, as far as the program uses it: characters and their boundaries,
  white space, trimming and splitting, searching, number parsing and printing. Bytes are
  \<open>char\<close>s, so an ASCII literal of the source is the same literal here.
\<close>

section \<open>Characters\<close>

definition byte_of :: "char \<Rightarrow> nat" where
  "byte_of c = of_char c"

text \<open>A continuation byte \<open>0b10xxxxxx\<close>: not the start of a character.\<close>

definition utf8_cont :: "char \<Rightarrow> bool" where
  "utf8_cont c = (128 \<le> byte_of c \<and> byte_of c < 192)"

definition is_char_boundary :: "string \<Rightarrow> nat \<Rightarrow> bool" where
  "is_char_boundary s i = (i = length s \<or> i < length s \<and> \<not> utf8_cont (s ! i))"

fun utf8_chars :: "string \<Rightarrow> string list" where
  "utf8_chars [] = []"
| "utf8_chars (c # cs) = (c # takeWhile utf8_cont cs) # utf8_chars (dropWhile utf8_cont cs)"

text \<open>\<open>str::get(..n)\<close>: \<open>None\<close> past the end or inside a character.\<close>

definition str_get_to :: "nat \<Rightarrow> string \<Rightarrow> string option" where
  "str_get_to n s = (if n \<le> length s \<and> is_char_boundary s n then Some (take n s) else None)"

text \<open>Unicode \<open>White_Space\<close>, as \<open>char::is_whitespace\<close> tests it, one character in UTF-8.\<close>

definition is_whitespace :: "string \<Rightarrow> bool" where
  "is_whitespace ch =
     (case map byte_of ch of
        [b] \<Rightarrow> b = 32 \<or> 9 \<le> b \<and> b \<le> 13
      | [a, b] \<Rightarrow> a = 194 \<and> (b = 133 \<or> b = 160)
      | [a, b, c] \<Rightarrow>
          a = 225 \<and> b = 154 \<and> c = 128
        \<or> a = 226 \<and> b = 128 \<and> (128 \<le> c \<and> c \<le> 138 \<or> c = 168 \<or> c = 169 \<or> c = 175)
        \<or> a = 226 \<and> b = 129 \<and> c = 159
        \<or> a = 227 \<and> b = 128 \<and> c = 128
      | _ \<Rightarrow> False)"

definition str_trim :: "string \<Rightarrow> string" where
  "str_trim s =
     concat (rev (dropWhile is_whitespace (rev (dropWhile is_whitespace (utf8_chars s)))))"

text \<open>The maximal runs of characters that fail \<open>p\<close>, the empty ones dropped.\<close>

fun words_by :: "('a \<Rightarrow> bool) \<Rightarrow> 'a list \<Rightarrow> 'a list list" where
  "words_by p [] = []"
| "words_by p (x # xs) =
     (if p x then words_by p xs
      else (x # takeWhile (\<lambda>y. \<not> p y) xs) # words_by p (dropWhile (\<lambda>y. \<not> p y) xs))"

definition split_whitespace :: "string \<Rightarrow> string list" where
  "split_whitespace s = map concat (words_by is_whitespace (utf8_chars s))"

text \<open>\<open>str::split\<close> at every character that satisfies \<open>p\<close>; the pieces may be empty.\<close>

fun split_at :: "('a \<Rightarrow> bool) \<Rightarrow> 'a list \<Rightarrow> 'a list list" where
  "split_at p [] = [[]]"
| "split_at p (x # xs) =
     (if p x then [] # split_at p xs
      else (case split_at p xs of [] \<Rightarrow> [[x]] | w # ws \<Rightarrow> (x # w) # ws))"

fun join :: "string \<Rightarrow> string list \<Rightarrow> string" where
  "join sep [] = []"
| "join sep [w] = w"
| "join sep (w # ws) = w @ sep @ join sep ws"

section \<open>Search\<close>

text \<open>\<open>str::find\<close> of a string: the offset of its first occurrence.\<close>

fun str_find :: "string \<Rightarrow> string \<Rightarrow> nat option" where
  "str_find pat [] = (if pat = [] then Some 0 else None)"
| "str_find pat (c # cs) =
     (if prefix pat (c # cs) then Some 0 else map_option Suc (str_find pat cs))"

definition str_contains :: "string \<Rightarrow> string \<Rightarrow> bool" where
  "str_contains s pat = (str_find pat s \<noteq> None)"

definition split_once :: "string \<Rightarrow> string \<Rightarrow> (string \<times> string) option" where
  "split_once pat s =
     map_option (\<lambda>i. (take i s, drop (i + length pat) s)) (str_find pat s)"

definition strip_suffix :: "string \<Rightarrow> string \<Rightarrow> string option" where
  "strip_suffix suf s =
     (if suffix suf s then Some (take (length s - length suf) s) else None)"

definition to_ascii_lowercase :: "string \<Rightarrow> string" where
  "to_ascii_lowercase s =
     map (\<lambda>c. if 65 \<le> byte_of c \<and> byte_of c \<le> 90 then char_of (byte_of c + 32) else c) s"

section \<open>Numbers\<close>

definition is_ascii_digit :: "char \<Rightarrow> bool" where
  "is_ascii_digit c = (48 \<le> byte_of c \<and> byte_of c \<le> 57)"

definition digits_value :: "string \<Rightarrow> nat" where
  "digits_value ds = foldl (\<lambda>n c. 10 * n + (byte_of c - 48)) 0 ds"

text \<open>\<open>FromStr\<close> of an unsigned integer below \<open>bound\<close>: an optional plus sign, then digits.\<close>

definition parse_nat :: "nat \<Rightarrow> string \<Rightarrow> nat option" where
  "parse_nat bound s =
     (let ds = (case s of c # cs \<Rightarrow> if c = CHR ''+'' then cs else s | [] \<Rightarrow> []) in
      if ds \<noteq> [] \<and> list_all is_ascii_digit ds \<and> digits_value ds < bound
      then Some (digits_value ds) else None)"

text \<open>\<open>FromStr\<close> of an \<open>i32\<close>: as above, with an optional minus sign instead.\<close>

definition parse_i32 :: "string \<Rightarrow> int option" where
  "parse_i32 s =
     (case s of
        CHR ''-'' # ds \<Rightarrow>
          (if ds \<noteq> [] \<and> list_all is_ascii_digit ds \<and> digits_value ds \<le> 2 ^ 31
           then Some (- int (digits_value ds)) else None)
      | _ \<Rightarrow> map_option int (parse_nat (2 ^ 31) s))"

fun nat_to_string :: "nat \<Rightarrow> string" where
  "nat_to_string n =
     (if n < 10 then [char_of (48 + n)] else nat_to_string (n div 10) @ [char_of (48 + n mod 10)])"

declare nat_to_string.simps [simp del]

definition int_to_string :: "int \<Rightarrow> string" where
  "int_to_string n =
     (if n < 0 then CHR ''-'' # nat_to_string (nat (- n)) else nat_to_string (nat n))"

section \<open>Facts\<close>

lemma byte_of_char_of [simp]: "n < 256 \<Longrightarrow> byte_of (char_of n) = n"
  by (simp add: byte_of_def)

lemma byte_of_less [simp]: "byte_of c < 256"
  unfolding byte_of_def by (metis of_char_mod_256 mod_less_divisor zero_less_numeral)

lemma byte_of_inj: "byte_of c = byte_of d \<Longrightarrow> c = d"
  by (simp add: byte_of_def)

lemma concat_utf8_chars [simp]: "concat (utf8_chars s) = s"
  by (induction s rule: utf8_chars.induct) simp_all

lemma digits_value_snoc: "digits_value (ds @ [c]) = 10 * digits_value ds + (byte_of c - 48)"
  by (simp add: digits_value_def)

lemma nat_to_string_digits:
  "nat_to_string n \<noteq> [] \<and> list_all is_ascii_digit (nat_to_string n)
     \<and> digits_value (nat_to_string n) = n"
proof (induction n rule: nat_to_string.induct)
  case (1 n)
  show ?case
  proof (cases "n < 10")
    case True
    then show ?thesis
      by (simp add: nat_to_string.simps [of n] is_ascii_digit_def digits_value_def)
  next
    case False
    with 1 have "list_all is_ascii_digit (nat_to_string (n div 10))"
      "digits_value (nat_to_string (n div 10)) = n div 10" by simp_all
    moreover have "is_ascii_digit (char_of (48 + n mod 10))"
      using mod_less_divisor [of 10 n] by (simp add: is_ascii_digit_def less_Suc_eq_le [symmetric])
    ultimately show ?thesis using False
      by (simp add: nat_to_string.simps [of n] digits_value_snoc)
  qed
qed

text \<open>Parsing a printed number gives the number back.\<close>

lemma parse_nat_to_string: "n < bound \<Longrightarrow> parse_nat bound (nat_to_string n) = Some n"
proof -
  assume n: "n < bound"
  obtain c cs where s: "nat_to_string n = c # cs" and d: "is_ascii_digit c"
    using nat_to_string_digits [of n] by (cases "nat_to_string n") auto
  from d have "c \<noteq> CHR ''+''" by (auto simp: is_ascii_digit_def byte_of_def)
  then show ?thesis using nat_to_string_digits [of n] n
    by (simp add: parse_nat_def s Let_def)
qed

lemma str_find_Some:
  "str_find pat s = Some i \<Longrightarrow> i + length pat \<le> length s \<and> take (length pat) (drop i s) = pat"
proof (induction pat s arbitrary: i rule: str_find.induct)
  case (2 pat c cs)
  show ?case
  proof (cases "prefix pat (c # cs)")
    case True
    then obtain zs where "c # cs = pat @ zs" by (auto simp: prefix_def)
    with True 2 show ?thesis
      by (metis append_eq_conv_conj drop0 length_append le_add1 option.inject plus_nat.add_0 str_find.simps(2))
  next
    case False
    with 2 show ?thesis by auto
  qed
qed (auto split: if_splits)

lemma str_find_append: "\<exists>i. str_find pat (u @ pat @ v) = Some i"
proof (induction u)
  case Nil
  then show ?case
    by (cases "pat @ v"; cases pat) (auto simp: prefix_def)
next
  case (Cons c u)
  then show ?case by auto
qed

lemma str_contains_iff: "str_contains s pat \<longleftrightarrow> (\<exists>u v. s = u @ pat @ v)"
proof
  assume "str_contains s pat"
  then obtain i where "str_find pat s = Some i" by (auto simp: str_contains_def)
  from str_find_Some [OF this] have "s = take i s @ pat @ drop (length pat) (drop i s)"
    by (metis append_take_drop_id)
  then show "\<exists>u v. s = u @ pat @ v" by blast
qed (auto simp: str_contains_def intro!: str_find_append)

lemma split_at_nonempty [simp]: "split_at p xs \<noteq> []"
  by (induction xs) (auto split: list.splits)

lemma split_at_no_sep: "w \<in> set (split_at p xs) \<Longrightarrow> x \<in> set w \<Longrightarrow> \<not> p x"
proof (induction xs arbitrary: w)
  case (Cons y ys)
  obtain u us where u: "split_at p ys = u # us" by (cases "split_at p ys") auto
  with Cons.IH [of u] Cons.IH [of w] Cons.prems show ?case by (auto split: if_splits)
qed simp

lemma split_at_elems: "w \<in> set (split_at p xs) \<Longrightarrow> set w \<subseteq> set xs"
proof (induction xs arbitrary: w)
  case (Cons y ys)
  then show ?case by (cases "split_at p ys") (fastforce split: if_splits)+
qed simp

lemma set_join: "set (join sep ws) \<subseteq> set sep \<union> (\<Union>w \<in> set ws. set w)"
  by (induction sep ws rule: join.induct) auto

end
