(* ===== verification/Float64.thy ===== *)
theory Float64
  imports Prelude "HOL-Library.Log_Nat"
begin

text \<open>
  Rust's \<open>f64\<close>, as far as the program uses it: IEEE 754 binary64 with every operation rounded to
  nearest, ties to even. A finite value is the rational it stands for. The two zeros are one
  value here: the program compares, rounds and converts floats, and none of these tells them
  apart. \<open>rnd\<close> is the rounding; monotonicity and exactness on the representable values are the
  two facts every numeric proof of the development uses.
\<close>

datatype f64 = Fin rat | PosInf | NegInf | NaN

section \<open>Rounding\<close>

text \<open>The binary exponent of a positive rational: the \<open>k\<close> with \<open>2 ^ k \<le> x < 2 ^ (k + 1)\<close>.\<close>

definition expo :: "rat \<Rightarrow> int" where
  "expo x = (let (p, q) = quotient_of x; k = bitlen p - bitlen q
             in if x < 2 powi k then k - 1 else k)"

text \<open>Round half to even.\<close>

definition rne :: "rat \<Rightarrow> int" where
  "rne y = (let n = \<lfloor>y\<rfloor>; d = y - of_int n
            in if d < 1 / 2 then n else if 1 / 2 < d then n + 1 else if even n then n else n + 1)"

text \<open>The exponent of the last place: 53 significant bits, subnormals below \<open>2 ^ -1022\<close>.\<close>

definition ulp_expo :: "rat \<Rightarrow> int" where
  "ulp_expo x = max (expo x - 52) (- 1074)"

definition rnd_pos :: "rat \<Rightarrow> rat" where
  "rnd_pos x = of_int (rne (x / 2 powi ulp_expo x)) * 2 powi ulp_expo x"

definition rnd :: "rat \<Rightarrow> rat" where
  "rnd x = (if x = 0 then 0 else if 0 < x then rnd_pos x else - rnd_pos (- x))"

text \<open>A result of magnitude \<open>2 ^ 1024\<close> or more overflows to an infinity.\<close>

definition f64_of_rat :: "rat \<Rightarrow> f64" where
  "f64_of_rat x = (let r = rnd x in
     if r = 0 \<or> expo \<bar>r\<bar> < 1024 then Fin r else if 0 < r then PosInf else NegInf)"

section \<open>Operations\<close>

fun f64_neg :: "f64 \<Rightarrow> f64" where
  "f64_neg (Fin a) = Fin (- a)"
| "f64_neg PosInf = NegInf"
| "f64_neg NegInf = PosInf"
| "f64_neg NaN = NaN"

fun f64_add :: "f64 \<Rightarrow> f64 \<Rightarrow> f64" where
  "f64_add (Fin a) (Fin b) = f64_of_rat (a + b)"
| "f64_add NaN _ = NaN"
| "f64_add _ NaN = NaN"
| "f64_add PosInf NegInf = NaN"
| "f64_add NegInf PosInf = NaN"
| "f64_add PosInf _ = PosInf"
| "f64_add _ PosInf = PosInf"
| "f64_add NegInf _ = NegInf"
| "f64_add _ NegInf = NegInf"

definition f64_sub :: "f64 \<Rightarrow> f64 \<Rightarrow> f64" where
  "f64_sub a b = f64_add a (f64_neg b)"

text \<open>The sign of a value, for products and quotients with an infinity.\<close>

fun f64_sgn :: "f64 \<Rightarrow> int" where
  "f64_sgn (Fin a) = (if a = 0 then 0 else if 0 < a then 1 else - 1)"
| "f64_sgn PosInf = 1"
| "f64_sgn NegInf = - 1"
| "f64_sgn NaN = 0"

definition f64_signed_inf :: "int \<Rightarrow> f64" where
  "f64_signed_inf s = (if s = 0 then NaN else if 0 < s then PosInf else NegInf)"

fun f64_mul :: "f64 \<Rightarrow> f64 \<Rightarrow> f64" where
  "f64_mul (Fin a) (Fin b) = f64_of_rat (a * b)"
| "f64_mul NaN _ = NaN"
| "f64_mul _ NaN = NaN"
| "f64_mul a b = f64_signed_inf (f64_sgn a * f64_sgn b)"

text \<open>
  Division by a zero would need the sign of that zero; every divisor of the program is positive
  (a bucket length, a span, an elapsed time or a checked rate), so a zero divisor counts as
  positive.
\<close>

fun f64_div :: "f64 \<Rightarrow> f64 \<Rightarrow> f64" where
  "f64_div (Fin a) (Fin b) =
     (if b = 0 then f64_signed_inf (f64_sgn (Fin a)) else f64_of_rat (a / b))"
| "f64_div NaN _ = NaN"
| "f64_div _ NaN = NaN"
| "f64_div (Fin a) _ = Fin 0"
| "f64_div a (Fin b) = f64_signed_inf (f64_sgn a * (if b < 0 then - 1 else 1))"
| "f64_div _ _ = NaN"

fun f64_lt :: "f64 \<Rightarrow> f64 \<Rightarrow> bool" where
  "f64_lt (Fin a) (Fin b) = (a < b)"
| "f64_lt NaN _ = False"
| "f64_lt _ NaN = False"
| "f64_lt NegInf b = (b \<noteq> NegInf)"
| "f64_lt a PosInf = (a \<noteq> PosInf)"
| "f64_lt _ _ = False"

fun f64_is_finite :: "f64 \<Rightarrow> bool" where
  "f64_is_finite (Fin _) = True"
| "f64_is_finite _ = False"

text \<open>\<open>f64::round\<close>: to the nearest integer, halves away from zero. A float is exact on its
  integers, so the result needs no further rounding.\<close>

definition round_away :: "rat \<Rightarrow> int" where
  "round_away x = (if 0 \<le> x then \<lfloor>x + 1 / 2\<rfloor> else - \<lfloor>- x + 1 / 2\<rfloor>)"

fun f64_round :: "f64 \<Rightarrow> f64" where
  "f64_round (Fin a) = Fin (of_int (round_away a))"
| "f64_round x = x"

text \<open>\<open>as f64\<close> of an integer, and the saturating \<open>as u64\<close>.\<close>

definition f64_of_int :: "int \<Rightarrow> f64" where
  "f64_of_int n = f64_of_rat (of_int n)"

definition f64_of_u64 :: "u64 \<Rightarrow> f64" where
  "f64_of_u64 n = f64_of_int (uint n)"

fun f64_to_u64 :: "f64 \<Rightarrow> u64" where
  "f64_to_u64 (Fin a) =
     (if a \<le> 0 then 0 else if 2 ^ 64 \<le> a then - 1 else word_of_int \<lfloor>a\<rfloor>)"
| "f64_to_u64 PosInf = - 1"
| "f64_to_u64 NegInf = 0"
| "f64_to_u64 NaN = 0"

section \<open>The exponent\<close>

lemma powi_add2: "2 powi (a + b) = (2 powi a * 2 powi b :: rat)"
  by (rule power_int_add) simp

lemma powi_pos [simp]: "0 < (2 powi k :: rat)"
  by simp

lemma powi_le: "a \<le> b \<Longrightarrow> (2 powi a :: rat) \<le> 2 powi b"
  by (rule power_int_increasing) simp_all

lemma powi_less_cancel: "(2 powi a :: rat) < 2 powi b \<Longrightarrow> a < b"
  using powi_le [of b a] by (meson not_le)

lemma powi_nonneg_int:
  assumes "0 \<le> k"
  shows "(2 powi k :: rat) = of_int (2 ^ nat k)"
  using assms by (simp add: power_int_def)

lemma bitlen_pos_bounds:
  assumes "0 < p"
  shows "(2 powi (bitlen p - 1) :: rat) \<le> of_int p" "of_int p < (2 powi bitlen p :: rat)"
proof -
  from assms have b: "2 ^ nat (bitlen p - 1) \<le> p" "p < 2 ^ nat (bitlen p)" and pos: "0 < bitlen p"
    using bitlen_bounds [of p] by (auto simp: bitlen_eq_zero_iff bitlen_nonneg order.strict_iff_order)
  then show "(2 powi (bitlen p - 1) :: rat) \<le> of_int p" "of_int p < (2 powi bitlen p :: rat)"
    by (simp_all add: powi_nonneg_int del: of_int_power)
qed

lemma expo_bounds:
  assumes "0 < x"
  shows "2 powi expo x \<le> x" "x < 2 powi (expo x + 1)"
proof -
  obtain p q where pq: "quotient_of x = (p, q)" by fastforce
  from pq have q: "0 < q" by (rule quotient_of_denom_pos)
  from pq have x: "x = of_int p / of_int q" by (rule quotient_of_div)
  with q assms have p: "0 < p" by (simp add: zero_less_divide_iff)
  let ?k = "bitlen p - bitlen q"
  have qr: "0 < (of_int q :: rat)" using q by simp
  have "x < 2 powi bitlen p / of_int q"
    unfolding x using bitlen_pos_bounds(2) [OF p] qr by (simp add: divide_strict_right_mono)
  also have "\<dots> \<le> 2 powi bitlen p / 2 powi (bitlen q - 1)"
    using bitlen_pos_bounds(1) [OF q] qr by (intro divide_left_mono) simp_all
  also have "\<dots> = 2 powi (?k + 1)"
    by (simp add: power_int_diff [symmetric] algebra_simps)
  finally have u: "x < 2 powi (?k + 1)" .
  have "2 powi (?k - 1) = (2 powi (bitlen p - 1) / 2 powi bitlen q :: rat)"
    by (simp add: power_int_diff [symmetric] algebra_simps)
  also have "\<dots> \<le> of_int p / 2 powi bitlen q"
    using bitlen_pos_bounds(1) [OF p] by (simp add: divide_right_mono)
  also have "\<dots> \<le> x"
    unfolding x using bitlen_pos_bounds(2) [OF q] qr p by (intro divide_left_mono) simp_all
  finally have l: "2 powi (?k - 1) \<le> x" .
  have e: "expo x = (if x < 2 powi ?k then ?k - 1 else ?k)"
    by (simp add: expo_def pq Let_def)
  show "2 powi expo x \<le> x" "x < 2 powi (expo x + 1)"
    using l u by (auto simp: e)
qed

lemma expo_mono:
  assumes "0 < x" "x \<le> y"
  shows "expo x \<le> expo y"
proof -
  have "(2 powi expo x :: rat) < 2 powi (expo y + 1)"
    using expo_bounds [of x] expo_bounds [of y] assms by linarith
  then have "expo x < expo y + 1" by (rule powi_less_cancel)
  then show ?thesis by simp
qed

section \<open>Rounding to an integer\<close>

lemma rne_of_int [simp]: "rne (of_int n) = n"
  by (simp add: rne_def)

lemma rne_mono:
  assumes "x \<le> y"
  shows "rne x \<le> rne y"
proof (cases "\<lfloor>x\<rfloor> = \<lfloor>y\<rfloor>")
  case True
  with assms show ?thesis by (auto simp: rne_def Let_def)
next
  case False
  with floor_mono [OF assms] have "\<lfloor>x\<rfloor> + 1 \<le> \<lfloor>y\<rfloor>" by simp
  moreover have "rne x \<le> \<lfloor>x\<rfloor> + 1" "\<lfloor>y\<rfloor> \<le> rne y"
    by (simp_all add: rne_def Let_def)
  ultimately show ?thesis by linarith
qed

lemma rne_le_int: "x \<le> of_int n \<Longrightarrow> rne x \<le> n"
  using rne_mono [of x "of_int n"] by simp

lemma rne_ge_int: "of_int n \<le> x \<Longrightarrow> n \<le> rne x"
  using rne_mono [of "of_int n" x] by simp

section \<open>Rounding is monotone and exact on representable values\<close>

lemma rnd_pos_le_powi:
  assumes "x \<le> 2 powi k" "ulp_expo x \<le> k"
  shows "rnd_pos x \<le> 2 powi k"
proof -
  let ?e = "ulp_expo x"
  have i: "(2 powi k / 2 powi ?e :: rat) = of_int (2 ^ nat (k - ?e))"
    using assms(2) by (simp add: power_int_diff [symmetric] powi_nonneg_int)
  have "x / 2 powi ?e \<le> of_int (2 ^ nat (k - ?e))"
    using assms(1) by (simp add: i [symmetric] divide_right_mono del: of_int_power)
  then have "rne (x / 2 powi ?e) \<le> 2 ^ nat (k - ?e)" by (rule rne_le_int)
  then have "of_int (rne (x / 2 powi ?e)) \<le> (2 powi k / 2 powi ?e :: rat)"
    by (simp add: i del: of_int_power)
  then show ?thesis by (simp add: rnd_pos_def pos_le_divide_eq)
qed

lemma rnd_pos_ge_powi:
  assumes "2 powi k \<le> x" "ulp_expo x \<le> k"
  shows "2 powi k \<le> rnd_pos x"
proof -
  let ?e = "ulp_expo x"
  have i: "(2 powi k / 2 powi ?e :: rat) = of_int (2 ^ nat (k - ?e))"
    using assms(2) by (simp add: power_int_diff [symmetric] powi_nonneg_int)
  have "of_int (2 ^ nat (k - ?e)) \<le> x / 2 powi ?e"
    using assms(1) by (simp add: i [symmetric] divide_right_mono del: of_int_power)
  then have "2 ^ nat (k - ?e) \<le> rne (x / 2 powi ?e)" by (rule rne_ge_int)
  then have "(2 powi k / 2 powi ?e :: rat) \<le> of_int (rne (x / 2 powi ?e))"
    by (simp add: i del: of_int_power)
  then show ?thesis by (simp add: rnd_pos_def pos_divide_le_eq)
qed

lemma rnd_pos_mono:
  assumes "0 < x" "x \<le> y"
  shows "rnd_pos x \<le> rnd_pos y"
proof (cases "ulp_expo x = ulp_expo y")
  case True
  have "rne (x / 2 powi ulp_expo y) \<le> rne (y / 2 powi ulp_expo y)"
    using assms by (intro rne_mono divide_right_mono) simp_all
  with True show ?thesis by (simp add: rnd_pos_def)
next
  case False
  have "expo x \<le> expo y" using assms by (rule expo_mono)
  with False have lt: "expo x < expo y" "ulp_expo y = expo y - 52" "ulp_expo x \<le> expo y"
    by (auto simp: ulp_expo_def max_def split: if_splits)
  have "x \<le> 2 powi (expo x + 1)" using expo_bounds(2) [OF assms(1)] by simp
  also have "\<dots> \<le> 2 powi expo y" using lt(1) by (intro powi_le) simp
  finally have "rnd_pos x \<le> 2 powi expo y" using lt(3) by (rule rnd_pos_le_powi)
  also have "\<dots> \<le> rnd_pos y"
    using expo_bounds(1) [of y] assms lt(2) by (intro rnd_pos_ge_powi) simp_all
  finally show ?thesis .
qed

lemma rnd_pos_nonneg:
  assumes "0 < x"
  shows "0 \<le> rnd_pos x"
proof -
  have "0 \<le> rne (x / 2 powi ulp_expo x)"
    using assms by (intro rne_ge_int) simp
  then show ?thesis by (simp add: rnd_pos_def)
qed

lemma rnd_0 [simp]: "rnd 0 = 0"
  by (simp add: rnd_def)

lemma rnd_minus [simp]: "rnd (- x) = - rnd x"
  by (simp add: rnd_def)

lemma rnd_nonneg: "0 \<le> x \<Longrightarrow> 0 \<le> rnd x"
  by (auto simp: rnd_def rnd_pos_nonneg)

lemma rnd_mono:
  assumes "x \<le> y"
  shows "rnd x \<le> rnd y"
proof -
  consider "0 < x" | "x \<le> 0" "0 \<le> y" | "y < 0" by linarith
  then show ?thesis
  proof cases
    case 1
    with assms show ?thesis by (simp add: rnd_def rnd_pos_mono)
  next
    case 2
    then have "0 \<le> rnd (- x)" "0 \<le> rnd y" by (simp_all only: rnd_nonneg neg_0_le_iff_le)
    then show ?thesis by simp
  next
    case 3
    with assms show ?thesis by (simp add: rnd_def rnd_pos_mono)
  qed
qed

lemma rnd_pos_exact:
  assumes m: "0 < m" "m < 2 ^ 53" and e: "- 1074 \<le> e" and x: "x = of_int m * 2 powi e"
  shows "rnd_pos x = x"
proof -
  have "0 < x" using m by (simp add: x)
  have "(of_int m :: rat) < of_int (2 ^ 53)" using m(2) by (simp only: of_int_less_iff)
  then have "x < 2 ^ 53 * 2 powi e"
    unfolding x by (intro mult_strict_right_mono) simp_all
  also have "\<dots> = 2 powi (53 + e)" by (simp add: powi_add2)
  finally have "(2 powi expo x :: rat) < 2 powi (53 + e)"
    using expo_bounds(1) [OF \<open>0 < x\<close>] by linarith
  then have "expo x < 53 + e" by (rule powi_less_cancel)
  with e have le: "ulp_expo x \<le> e" by (simp add: ulp_expo_def)
  have "x / 2 powi ulp_expo x = of_int m * 2 powi (e - ulp_expo x)"
    by (simp add: x power_int_diff)
  also have "\<dots> = of_int (m * 2 ^ nat (e - ulp_expo x))"
    using le by (simp add: powi_nonneg_int)
  finally have q: "x / 2 powi ulp_expo x = of_int (m * 2 ^ nat (e - ulp_expo x))" .
  have "rnd_pos x = x / 2 powi ulp_expo x * 2 powi ulp_expo x"
    by (simp only: rnd_pos_def q rne_of_int)
  then show ?thesis by simp
qed

lemma rnd_exact:
  assumes "\<bar>m\<bar> < 2 ^ 53" "- 1074 \<le> e" "x = of_int m * 2 powi e"
  shows "rnd x = x"
proof -
  consider "m = 0" | "0 < m" | "m < 0" by linarith
  then show ?thesis
  proof cases
    case 1
    with assms(3) show ?thesis by simp
  next
    case 2
    with assms have "rnd_pos x = x" "0 < x" by (auto intro: rnd_pos_exact)
    then show ?thesis by (simp add: rnd_def)
  next
    case 3
    then have "rnd_pos (- x) = - x"
      using assms by (intro rnd_pos_exact [of "- m" e]) simp_all
    moreover have "x < 0" using 3 assms(3) by (simp add: mult_neg_pos)
    ultimately show ?thesis by (simp add: rnd_def)
  qed
qed

lemma rnd_of_int: "\<bar>m\<bar> < 2 ^ 53 \<Longrightarrow> rnd (of_int m) = of_int m"
  by (rule rnd_exact [of m 0]) simp_all

lemma rnd_powi: "- 1074 \<le> k \<Longrightarrow> rnd (2 powi k) = 2 powi k"
  by (rule rnd_exact [of 1 k]) simp_all

lemma rnd_half_int: "\<bar>m\<bar> < 2 ^ 53 \<Longrightarrow> rnd (of_int m / 2) = of_int m / 2"
  by (rule rnd_exact [of m "- 1"]) (simp_all add: power_int_minus field_simps)

lemma rnd_le_pow2:
  assumes "x \<le> 2 ^ k"
  shows "rnd x \<le> 2 ^ k"
  using rnd_mono [OF assms] rnd_powi [of "int k"] by simp

lemma rnd_abs_le_pow2:
  assumes "\<bar>x\<bar> \<le> 2 ^ k"
  shows "\<bar>rnd x\<bar> \<le> 2 ^ k"
  using rnd_le_pow2 [of x k] rnd_le_pow2 [of "- x" k] assms by (simp add: abs_le_iff)

lemma f64_of_rat_Fin:
  assumes "\<bar>x\<bar> \<le> 2 ^ 1023"
  shows "f64_of_rat x = Fin (rnd x)"
proof -
  have le: "\<bar>rnd x\<bar> \<le> 2 ^ 1023" using assms by (rule rnd_abs_le_pow2)
  have "expo \<bar>rnd x\<bar> < 1024" if "rnd x \<noteq> 0"
  proof -
    have "2 powi expo \<bar>rnd x\<bar> \<le> \<bar>rnd x\<bar>" using that by (intro expo_bounds) simp
    also have "\<dots> \<le> 2 powi 1023" using le by (simp add: power_int_def del: power_numeral)
    also have "\<dots> < 2 powi 1024" by (rule power_int_strict_increasing) simp_all
    finally show ?thesis by (rule powi_less_cancel)
  qed
  then show ?thesis unfolding f64_of_rat_def Let_def by (cases "rnd x = 0") simp_all
qed

section \<open>Arithmetic without rounding or overflow\<close>

named_theorems f64_exact \<open>operations whose result is representable\<close>

lemma abs_le_2_1023I:
  assumes "\<bar>x\<bar> \<le> (2 :: rat) ^ k" "k \<le> 1023"
  shows "\<bar>x\<bar> \<le> 2 ^ 1023"
  using assms power_increasing [of k 1023 "2 :: rat"] by (meson order_trans one_le_numeral)

lemma f64_of_rat_int [f64_exact]:
  assumes "\<bar>m\<bar> < 2 ^ 53"
  shows "f64_of_rat (of_int m) = Fin (of_int m)"
proof -
  have "(of_int \<bar>m\<bar> :: rat) \<le> of_int (2 ^ 53)" using assms by (simp only: of_int_le_iff)
  then have "\<bar>of_int m :: rat\<bar> \<le> 2 ^ 53" by simp
  then show ?thesis
    using f64_of_rat_Fin [OF abs_le_2_1023I [of _ 53]] rnd_of_int [OF assms] by simp
qed

lemma f64_of_rat_half [f64_exact]:
  assumes "\<bar>m\<bar> < 2 ^ 53"
  shows "f64_of_rat (of_int m / 2) = Fin (of_int m / 2)"
proof -
  have "(of_int \<bar>m\<bar> :: rat) \<le> of_int (2 ^ 53)" using assms by (simp only: of_int_le_iff)
  then have "\<bar>of_int m / 2 :: rat\<bar> \<le> 2 ^ 53" by simp
  then show ?thesis
    using f64_of_rat_Fin [OF abs_le_2_1023I [of "of_int m / 2" 53]] rnd_half_int [OF assms] by simp
qed

lemma f64_of_int_exact [f64_exact]: "\<bar>m\<bar> < 2 ^ 53 \<Longrightarrow> f64_of_int m = Fin (of_int m)"
  by (simp add: f64_of_int_def f64_of_rat_int)

lemma f64_of_u64_exact [f64_exact]: "uint n < 2 ^ 53 \<Longrightarrow> f64_of_u64 n = Fin (of_int (uint n))"
  by (simp add: f64_of_u64_def f64_of_int_exact)

lemma f64_of_u64_Fin: "f64_of_u64 n = Fin (rnd (of_int (uint n)))"
proof -
  have "uint n \<le> 2 ^ 64" using uint_lt2p [of n] by simp
  then have "(of_int (uint n) :: rat) \<le> of_int (2 ^ 64)" by (simp only: of_int_le_iff)
  moreover have "(0 :: rat) \<le> of_int (uint n)" by (simp only: of_int_0_le_iff uint_ge_0)
  ultimately have "\<bar>of_int (uint n) :: rat\<bar> \<le> 2 ^ 64" by (simp del: of_int_uint)
  then show ?thesis
    using f64_of_rat_Fin [OF abs_le_2_1023I [of "of_int (uint n)" 64]]
    by (simp add: f64_of_u64_def f64_of_int_def del: of_int_uint)
qed

lemma f64_of_u64_mono: "a \<le> b \<Longrightarrow> rnd (of_int (uint a)) \<le> rnd (of_int (uint b))"
  by (intro rnd_mono) (simp only: of_int_le_iff word_le_def)

lemma round_away_of_int [simp]: "round_away (of_int n) = n"
proof -
  have "\<lfloor>of_int n + 1 / 2 :: rat\<rfloor> = n" "\<lfloor>- of_int n + 1 / 2 :: rat\<rfloor> = - n"
    by (simp_all add: floor_eq_iff)
  then show ?thesis by (simp add: round_away_def)
qed

lemma round_away_nonneg: "0 \<le> x \<Longrightarrow> 0 \<le> round_away x"
  by (simp add: round_away_def)

end
