(* ===== verification/Model.thy ===== *)
theory Model
  imports Rust_Str Float64
begin

text \<open>
  The data of \<open>src/model\<close> and \<open>src/error.rs\<close>: errors and their HTTP status, container and
  service ids, time ranges, metric samples and points, resolutions, containers, log lines.
  A struct is a record whose fields carry a short prefix of the struct's name, an enum is a
  datatype with the source's constructors.
\<close>

section \<open>Errors (error.rs)\<close>

datatype app_error =
    Docker string
  | Storage string
  | Host string
  | NotFound string
  | BadRequest string
  | Conflict string
  | Forbidden string
  | Unimplemented string

type_synonym 'a app_result = "app_error + 'a"

fun app_error_to_string :: "app_error \<Rightarrow> string" where
  "app_error_to_string (Docker m) = ''docker error: '' @ m"
| "app_error_to_string (Storage m) = ''storage error: '' @ m"
| "app_error_to_string (Host m) = ''host metrics error: '' @ m"
| "app_error_to_string (NotFound m) = ''not found: '' @ m"
| "app_error_to_string (BadRequest m) = ''invalid request: '' @ m"
| "app_error_to_string (Conflict m) = ''conflict: '' @ m"
| "app_error_to_string (Forbidden m) = ''forbidden: '' @ m"
| "app_error_to_string (Unimplemented m) = ''not implemented: '' @ m"

record error_body =
  eb_error :: string
  eb_code :: "string option"

fun error_status :: "app_error \<Rightarrow> nat" where
  "error_status (NotFound _) = 404"
| "error_status (BadRequest _) = 400"
| "error_status (Conflict _) = 409"
| "error_status (Forbidden _) = 403"
| "error_status (Unimplemented _) = 501"
| "error_status (Docker _) = 502"
| "error_status (Storage _) = 500"
| "error_status (Host _) = 500"

text \<open>The response of a failed request: its status and its JSON body.\<close>

definition into_response :: "app_error \<Rightarrow> nat \<times> error_body" where
  "into_response e = (error_status e, \<lparr>eb_error = app_error_to_string e, eb_code = None\<rparr>)"

section \<open>Container ids (container_id.rs)\<close>

text \<open>Six bytes, the first twelve hex digits of a Docker id.\<close>

datatype container_id = ContainerId u8 u8 u8 u8 u8 u8

fun as_bytes :: "container_id \<Rightarrow> u8 list" where
  "as_bytes (ContainerId a b c d e f) = [a, b, c, d, e, f]"

fun from_bytes :: "u8 list \<Rightarrow> container_id option" where
  "from_bytes [a, b, c, d, e, f] = Some (ContainerId a b c d e f)"
| "from_bytes _ = None"

definition hex_nibble :: "char \<Rightarrow> u8 option" where
  "hex_nibble b =
     (let n = byte_of b in
      if 48 \<le> n \<and> n \<le> 57 then Some (of_nat (n - 48))
      else if 97 \<le> n \<and> n \<le> 102 then Some (of_nat (n - 97 + 10))
      else None)"

text \<open>The loop over the six byte positions: each takes two hex digits of the prefix.\<close>

fun hex_pairs :: "string \<Rightarrow> u8 list option" where
  "hex_pairs (h # l # rest) =
     (case hex_nibble h of None \<Rightarrow> None
      | Some high \<Rightarrow> (case hex_nibble l of None \<Rightarrow> None
        | Some low \<Rightarrow> map_option ((#) ((push_bit 4 high) OR low)) (hex_pairs rest)))"
| "hex_pairs _ = Some []"

definition parse_cid :: "string \<Rightarrow> container_id option" where
  "parse_cid full_id =
     (case str_get_to 12 full_id of None \<Rightarrow> None
      | Some pre \<Rightarrow> (case hex_pairs pre of None \<Rightarrow> None | Some bytes \<Rightarrow> from_bytes bytes))"

definition hex_digit :: "u8 \<Rightarrow> char" where
  "hex_digit n = (if n < 10 then char_of (48 + unat n) else char_of (87 + unat n))"

definition to_hex :: "container_id \<Rightarrow> string" where
  "to_hex c = concat (map (\<lambda>b. [hex_digit (drop_bit 4 b), hex_digit (b AND 15)]) (as_bytes c))"

definition default_cid :: container_id where
  "default_cid = ContainerId 0 0 0 0 0 0"

lemma as_bytes_inj: "as_bytes a = as_bytes b \<longleftrightarrow> a = b"
  by (cases a; cases b) simp

text \<open>The derived \<open>Ord\<close>: lexicographic on the bytes.\<close>

instantiation container_id :: linorder
begin

definition less_eq_container_id :: "container_id \<Rightarrow> container_id \<Rightarrow> bool" where
  "less_eq_container_id a b = (as_bytes a \<le> as_bytes b)"

definition less_container_id :: "container_id \<Rightarrow> container_id \<Rightarrow> bool" where
  "less_container_id a b = (as_bytes a < as_bytes b)"

instance
proof
  fix a b c :: container_id
  show "a < b \<longleftrightarrow> a \<le> b \<and> \<not> b \<le> a"
    unfolding less_eq_container_id_def less_container_id_def by (rule less_le_not_le)
  show "a \<le> a"
    unfolding less_eq_container_id_def by (rule order_refl)
  show "a \<le> b \<or> b \<le> a"
    unfolding less_eq_container_id_def by (rule linear)
  show "a \<le> b \<Longrightarrow> b \<le> a \<Longrightarrow> a = b"
    unfolding less_eq_container_id_def as_bytes_inj [symmetric] by (rule antisym)
  show "a \<le> b \<Longrightarrow> b \<le> c \<Longrightarrow> a \<le> c"
    unfolding less_eq_container_id_def by (rule order_trans)
qed

end

section \<open>Service ids (service_id.rs) and time (time.rs)\<close>

datatype service_id = ServiceId u32

fun as_u32 :: "service_id \<Rightarrow> u32" where
  "as_u32 (ServiceId n) = n"

definition default_sid :: service_id where
  "default_sid = ServiceId 0"

instantiation service_id :: linorder
begin

definition less_eq_service_id :: "service_id \<Rightarrow> service_id \<Rightarrow> bool" where
  "less_eq_service_id a b = (as_u32 a \<le> as_u32 b)"

definition less_service_id :: "service_id \<Rightarrow> service_id \<Rightarrow> bool" where
  "less_service_id a b = (as_u32 a < as_u32 b)"

instance
proof
  fix a b :: service_id
  show "a \<le> b \<Longrightarrow> b \<le> a \<Longrightarrow> a = b"
    by (cases a; cases b) (simp add: less_eq_service_id_def)
qed (auto simp: less_eq_service_id_def less_service_id_def)

end

text \<open>The \<open>TryFrom\<close> of a stored id; the same function in \<open>metadata/mod.rs\<close> and \<open>metrics/schema.rs\<close>.\<close>

definition stored_service_id :: "int \<Rightarrow> service_id app_result" where
  "stored_service_id v =
     (if 0 \<le> v \<and> v < 2 ^ 32 then Inr (ServiceId (word_of_int v))
      else Inl (Storage ''stored service id is outside u32 range''))"

type_synonym timestamp_ms = i64

record time_range =
  range_from :: timestamp_ms
  range_to :: timestamp_ms

section \<open>Samples and points (metrics.rs)\<close>

record host_raw_sample =
  hr_ts :: timestamp_ms
  hr_cpu_pct :: f64
  hr_mem_used :: u64
  hr_mem_total :: u64
  hr_storage_used :: u64
  hr_storage_total :: u64
  hr_metrics_size :: u64
  hr_logs_size :: u64
  hr_net_rx :: u64
  hr_net_tx :: u64
  hr_disk_read :: u64
  hr_disk_write :: u64
  hr_log_pressure_pct_mill :: u64
  hr_app_rss_bytes :: "u64 option"

record host_sample =
  hs_ts :: timestamp_ms
  hs_cpu_pct_mill :: u64
  hs_mem_used :: u64
  hs_storage_used :: u64
  hs_metrics_size :: u64
  hs_logs_size :: u64
  hs_net_rx_rate_mill :: "u64 option"
  hs_net_tx_rate_mill :: "u64 option"
  hs_disk_read_rate_mill :: "u64 option"
  hs_disk_write_rate_mill :: "u64 option"
  hs_log_pressure_pct_mill :: "u64 option"
  hs_app_rss_bytes :: "u64 option"

record container_raw_sample =
  cr_ts :: timestamp_ms
  cr_service :: service_id
  cr_cid :: container_id
  cr_cpu_usage_ns :: u64
  cr_system_cpu_usage_ns :: u64
  cr_cpu_count :: u32
  cr_mem_used :: u64
  cr_net_rx :: u64
  cr_net_tx :: u64
  cr_blk_read :: u64
  cr_blk_write :: u64

record container_sample =
  cs_ts :: timestamp_ms
  cs_service :: service_id
  cs_cid :: container_id
  cs_cpu_pct_mill :: u64
  cs_mem_used :: u64
  cs_net_rx_rate_mill :: "u64 option"
  cs_net_tx_rate_mill :: "u64 option"
  cs_blk_read_rate_mill :: "u64 option"
  cs_blk_write_rate_mill :: "u64 option"

record host_point =
  hp_ts :: timestamp_ms
  hp_cpu_pct :: f64
  hp_mem_used :: u64
  hp_storage_used :: u64
  hp_metrics_size :: u64
  hp_logs_size :: u64
  hp_net_rx_rate :: "f64 option"
  hp_net_tx_rate :: "f64 option"
  hp_disk_read_rate :: "f64 option"
  hp_disk_write_rate :: "f64 option"
  hp_log_pressure_pct :: "f64 option"
  hp_app_rss_bytes :: "u64 option"

record current_host_point =
  ch_ts :: timestamp_ms
  ch_cpu_pct :: f64
  ch_mem_used :: u64
  ch_mem_total :: u64
  ch_storage_used :: u64
  ch_storage_total :: u64
  ch_metrics_size :: u64
  ch_logs_size :: u64
  ch_net_rx_rate :: "f64 option"
  ch_net_tx_rate :: "f64 option"
  ch_disk_read_rate :: "f64 option"
  ch_disk_write_rate :: "f64 option"
  ch_log_pressure_pct :: "f64 option"
  ch_app_rss_bytes :: "u64 option"

record container_point =
  cp_ts :: timestamp_ms
  cp_service :: string
  cp_cpu_pct :: f64
  cp_mem_used :: u64
  cp_net_rx_rate :: "f64 option"
  cp_net_tx_rate :: "f64 option"
  cp_blk_read_rate :: "f64 option"
  cp_blk_write_rate :: "f64 option"

record group_point =
  gp_ts :: timestamp_ms
  gp_cpu_pct :: f64
  gp_mem_used :: u64
  gp_net_rx_rate :: "f64 option"
  gp_net_tx_rate :: "f64 option"
  gp_blk_read_rate :: "f64 option"
  gp_blk_write_rate :: "f64 option"

definition default_group_point :: group_point where
  "default_group_point =
     \<lparr>gp_ts = 0, gp_cpu_pct = Fin 0, gp_mem_used = 0, gp_net_rx_rate = None,
      gp_net_tx_rate = None, gp_blk_read_rate = None, gp_blk_write_rate = None\<rparr>"

record container_group_metrics =
  gm_sum :: "group_point list"
  gm_containers :: "(container_id, container_point list) hash_map"

definition default_group_metrics :: container_group_metrics where
  "default_group_metrics = \<lparr>gm_sum = [], gm_containers = []\<rparr>"

record container_group_metrics_append =
  ga_sum :: "group_point option"
  ga_containers :: "(container_id, container_point) hash_map"

record metrics_snapshot =
  ms_host :: "current_host_point option"
  ms_containers :: "(container_id, container_point) hash_map"
  ms_services :: "(string, group_point) hash_map"

record containers_snapshot =
  cn_containers :: "(container_id, container_point) hash_map"
  cn_services :: "(string, group_point) hash_map"

definition mill :: "u64 \<Rightarrow> f64" where
  "mill v = f64_div (f64_of_u64 v) (f64_of_int 1000)"

definition from_mill :: "u64 option \<Rightarrow> f64 option" where
  "from_mill v = map_option mill v"

definition host_point_of_sample :: "host_sample \<Rightarrow> host_point" where
  "host_point_of_sample s =
     \<lparr>hp_ts = hs_ts s,
      hp_cpu_pct = mill (hs_cpu_pct_mill s),
      hp_mem_used = hs_mem_used s,
      hp_storage_used = hs_storage_used s,
      hp_metrics_size = hs_metrics_size s,
      hp_logs_size = hs_logs_size s,
      hp_net_rx_rate = from_mill (hs_net_rx_rate_mill s),
      hp_net_tx_rate = from_mill (hs_net_tx_rate_mill s),
      hp_disk_read_rate = from_mill (hs_disk_read_rate_mill s),
      hp_disk_write_rate = from_mill (hs_disk_write_rate_mill s),
      hp_log_pressure_pct = from_mill (hs_log_pressure_pct_mill s),
      hp_app_rss_bytes = hs_app_rss_bytes s\<rparr>"

definition current_point_of_raw :: "host_raw_sample \<Rightarrow> current_host_point" where
  "current_point_of_raw s =
     \<lparr>ch_ts = hr_ts s,
      ch_cpu_pct = hr_cpu_pct s,
      ch_mem_used = hr_mem_used s,
      ch_mem_total = hr_mem_total s,
      ch_storage_used = hr_storage_used s,
      ch_storage_total = hr_storage_total s,
      ch_metrics_size = hr_metrics_size s,
      ch_logs_size = hr_logs_size s,
      ch_net_rx_rate = None,
      ch_net_tx_rate = None,
      ch_disk_read_rate = None,
      ch_disk_write_rate = None,
      ch_log_pressure_pct = Some (mill (hr_log_pressure_pct_mill s)),
      ch_app_rss_bytes = hr_app_rss_bytes s\<rparr>"

definition container_point_from_sample :: "container_sample \<Rightarrow> string \<Rightarrow> container_point" where
  "container_point_from_sample s service =
     \<lparr>cp_ts = cs_ts s,
      cp_service = service,
      cp_cpu_pct = mill (cs_cpu_pct_mill s),
      cp_mem_used = cs_mem_used s,
      cp_net_rx_rate = from_mill (cs_net_rx_rate_mill s),
      cp_net_tx_rate = from_mill (cs_net_tx_rate_mill s),
      cp_blk_read_rate = from_mill (cs_blk_read_rate_mill s),
      cp_blk_write_rate = from_mill (cs_blk_write_rate_mill s)\<rparr>"

section \<open>Resolutions (metrics.rs)\<close>

datatype metrics_resolution = TenSeconds | OneMinute | FiveMinutes | OneHour

definition coarse :: "metrics_resolution list" where
  "coarse = [OneMinute, FiveMinutes, OneHour]"

definition all_resolutions :: "metrics_resolution list" where
  "all_resolutions = [TenSeconds, OneMinute, FiveMinutes, OneHour]"

fun bucket_ms :: "metrics_resolution \<Rightarrow> u64" where
  "bucket_ms TenSeconds = 10000"
| "bucket_ms OneMinute = 60000"
| "bucket_ms FiveMinutes = 300000"
| "bucket_ms OneHour = 3600000"

definition max_bucket_ms :: u64 where
  "max_bucket_ms = foldl (\<lambda>m r. max m (bucket_ms r)) 0 coarse"

fun resolution_as_str :: "metrics_resolution \<Rightarrow> string" where
  "resolution_as_str TenSeconds = ''10s''"
| "resolution_as_str OneMinute = ''1m''"
| "resolution_as_str FiveMinutes = ''5m''"
| "resolution_as_str OneHour = ''1h''"

definition i64_saturating_sub :: "i64 \<Rightarrow> i64 \<Rightarrow> i64" where
  "i64_saturating_sub a b = max i64_min (min i64_max (a - b))"

definition resolution_tolerance_ms :: int where
  "resolution_tolerance_ms = 60000"

definition for_range :: "time_range \<Rightarrow> metrics_resolution" where
  "for_range r =
     (let span = i64_saturating_sub (range_to r) (range_from r) in
      if span \<le> 30 * 60 * 1000 + resolution_tolerance_ms then TenSeconds
      else if span \<le> 3 * 60 * 60 * 1000 + resolution_tolerance_ms then OneMinute
      else if span \<le> 24 * 60 * 60 * 1000 + resolution_tolerance_ms then FiveMinutes
      else OneHour)"

section \<open>Containers (containers.rs)\<close>

datatype container_state =
  Created | Restarting | Running | Removing | Paused | Exited | Dead | Stopping | Empty

record container_summary =
  ct_id :: container_id
  ct_full_id :: string
  ct_name :: string
  ct_service :: string
  ct_image :: string
  ct_image_sha :: string
  ct_ports :: "string list"
  ct_labels :: "string list"
  ct_state :: "container_state option"
  ct_started_at :: "timestamp_ms option"

definition summary_log_id :: "container_summary \<Rightarrow> string" where
  "summary_log_id c = to_hex (ct_id c) @ ''@'' @ ct_service c"

record container_diff =
  cd_added :: "container_summary list"
  cd_updated :: "container_summary list"
  cd_removed :: "container_id list"

definition container_short_id :: "string \<Rightarrow> string" where
  "container_short_id s = (case str_get_to 12 s of None \<Rightarrow> s | Some p \<Rightarrow> p)"

datatype container_command_result = Submitted | Noop

record container_stats =
  st_ts :: timestamp_ms
  st_cid :: container_id
  st_cpu_usage_ns :: u64
  st_system_cpu_usage_ns :: u64
  st_cpu_count :: u32
  st_mem_used :: u64
  st_net_rx :: u64
  st_net_tx :: u64
  st_blk_read :: u64
  st_blk_write :: u64

section \<open>Logs (logs.rs)\<close>

datatype log_stream = Stdout | Stderr

fun stream_code :: "log_stream \<Rightarrow> int" where
  "stream_code Stdout = 0"
| "stream_code Stderr = 1"

definition stream_from_code :: "int \<Rightarrow> log_stream option" where
  "stream_from_code c = (if c = 0 then Some Stdout else if c = 1 then Some Stderr else None)"

datatype log_level = LogDebug | LogInfo | LogWarn | LogError

fun level_code :: "log_level \<Rightarrow> int" where
  "level_code LogDebug = 20"
| "level_code LogInfo = 30"
| "level_code LogWarn = 40"
| "level_code LogError = 50"

definition level_from_code :: "int \<Rightarrow> log_level option" where
  "level_from_code c =
     (if c = 20 then Some LogDebug else if c = 30 then Some LogInfo
      else if c = 40 then Some LogWarn else if c = 50 then Some LogError else None)"

record log_line =
  ll_ts :: timestamp_ms
  ll_service :: string
  ll_cid :: container_id
  ll_stream :: log_stream
  ll_level :: "log_level option"
  ll_line :: string

record log_cursor =
  cu_ts :: i64
  cu_week :: string
  cu_id :: i64

record log_page =
  pg_items :: "log_line list"
  pg_older_cursor :: "string option"
  pg_newer_cursor :: "string option"
  pg_has_older :: bool
  pg_has_newer :: bool

record service_status =
  ss_last_received :: "timestamp_ms option"
  ss_live :: bool

record service_diff =
  sd_added :: "(string, service_status) hash_map"
  sd_updated :: "(string, service_status) hash_map"
  sd_removed :: "string list"

record log_tail_append =
  lt_items :: "log_line list"
  lt_newer_cursor :: "string option"

record log_filter =
  lf_from :: "timestamp_ms option"
  lf_to :: "timestamp_ms option"
  lf_query :: "string option"
  lf_levels :: "log_level list"
  lf_streams :: "log_stream list"
  lf_limit :: "u32 option"
  lf_before :: "string option"
  lf_after :: "string option"

section \<open>Facts\<close>

lemma from_bytes_as_bytes [simp]: "from_bytes (as_bytes c) = Some c"
  by (cases c) simp

lemma length_as_bytes [simp]: "length (as_bytes c) = 6"
  by (cases c) simp

lemma from_bytes_None: "from_bytes bs = None \<longleftrightarrow> length bs \<noteq> 6"
  by (cases bs rule: from_bytes.cases) simp_all

lemma nibble_bounds: "unat (drop_bit 4 b :: u8) < 16" "unat (b AND 15 :: u8) < 16"
proof -
  have "unat b < 256" using unsigned_less [of b] by simp
  then show "unat (drop_bit 4 b :: u8) < 16"
    by (simp add: drop_bit_eq_div unat_div_distrib less_mult_imp_div_less)
  have "b AND 15 = take_bit 4 b"
    by (simp add: take_bit_eq_mask mask_eq_exp_minus_1)
  then show "unat (b AND 15 :: u8) < 16"
    by (simp add: take_bit_eq_mod unat_mod_distrib)
qed

lemma hex_nibble_digit:
  assumes "unat n < 16"
  shows "hex_nibble (hex_digit n) = Some n"
proof (cases "n < 10")
  case True
  then have "unat n < 10" by (simp add: word_less_nat_alt)
  with True show ?thesis by (simp add: hex_nibble_def hex_digit_def Let_def)
next
  case False
  then have "10 \<le> unat n" by (simp add: word_less_nat_alt)
  moreover from this have "(word_of_nat (unat n - 10) :: u8) = n - 10"
    by (simp add: of_nat_diff)
  ultimately show ?thesis using False assms
    by (simp add: hex_nibble_def hex_digit_def Let_def)
qed

lemma nibbles_join: "push_bit 4 (drop_bit 4 b) OR (b AND 15) = (b :: u8)"
proof -
  have "b AND 15 = take_bit 4 b" by (simp add: take_bit_eq_mask mask_eq_exp_minus_1)
  then show ?thesis by (auto intro!: bit_word_eqI simp: bit_simps)
qed

lemma hex_pairs_digits:
  "hex_pairs (concat (map (\<lambda>b. [hex_digit (drop_bit 4 b), hex_digit (b AND 15)]) bs)) = Some bs"
  by (induction bs) (simp_all add: hex_nibble_digit nibble_bounds nibbles_join)

lemma length_to_hex [simp]: "length (to_hex c) = 12"
  by (cases c) (simp add: to_hex_def)

lemma str_get_to_prefix:
  "length u = n \<Longrightarrow> v = [] \<or> \<not> utf8_cont (hd v) \<Longrightarrow> str_get_to n (u @ v) = Some u"
  by (cases v) (auto simp: str_get_to_def is_char_boundary_def nth_append)

text \<open>
  Writing a container id in hexadecimal and parsing it gives the id back, whatever valid
  UTF-8 text follows the twelve digits, as the rest of a full Docker id does.
\<close>

theorem parse_to_hex_roundtrip:
  assumes "rest = [] \<or> \<not> utf8_cont (hd rest)"
  shows "parse_cid (to_hex c @ rest) = Some c"
proof -
  have "str_get_to 12 (to_hex c @ rest) = Some (to_hex c)"
    using assms by (intro str_get_to_prefix) simp_all
  moreover have "hex_pairs (to_hex c) = Some (as_bytes c)"
    unfolding to_hex_def by (rule hex_pairs_digits)
  ultimately show ?thesis by (simp add: parse_cid_def)
qed

theorem parse_to_hex_roundtrip_witness:
  "parse_cid (to_hex (ContainerId 138 247 214 193 39 61) @ ''extra'')
     = Some (ContainerId 138 247 214 193 39 61)"
  by (rule parse_to_hex_roundtrip) (simp add: utf8_cont_def byte_of_def)

lemma stream_code_roundtrip: "stream_from_code (stream_code s) = Some s"
  by (cases s) (simp_all add: stream_from_code_def)

lemma level_code_roundtrip: "level_from_code (level_code l) = Some l"
  by (cases l) (simp_all add: level_from_code_def)

lemma stored_service_id_roundtrip:
  "stored_service_id (uint (as_u32 sid)) = Inr sid"
  using uint_lt2p [of "as_u32 sid"] by (cases sid) (simp add: stored_service_id_def)

lemma bucket_ms_pos [simp]: "0 < uint (bucket_ms r)"
  by (cases r) simp_all

lemma i64_of_bucket_ms [simp]: "i64_of_u64 (bucket_ms r) = Some (uint (bucket_ms r))"
  by (cases r) (simp_all add: i64_of_u64_def i64_max_def)

lemma bucket_ms_le_max: "r \<in> set all_resolutions \<Longrightarrow> bucket_ms r \<le> max_bucket_ms"
  by (auto simp: all_resolutions_def max_bucket_ms_def coarse_def)

end
