(* ===== verification/Log_Helpers.thy ===== *)
theory Log_Helpers
  imports Model Rust_Str
begin

text \<open>
  \<^verbatim>\<open>src/logs/helpers.rs\<close>: level detection, ANSI stripping, week database names, the full-text query
  sanitiser and the directory name of a service. Time zones, calendars, base64 and JSON are
  third-party crates: each operation that calls one takes it as an argument. A function that can
  panic on a slice returns an option, \<open>None\<close> for the panic.
\<close>

section \<open>Cursors\<close>

definition encode_cursor ::
  "(log_cursor \<Rightarrow> string + string) \<Rightarrow> (string \<Rightarrow> string) \<Rightarrow> log_cursor \<Rightarrow> string + string" where
  "encode_cursor to_json b64_encode cursor = map_sum id b64_encode (to_json cursor)"

definition decode_cursor ::
  "(string \<Rightarrow> string + string) \<Rightarrow> (string \<Rightarrow> string + log_cursor) \<Rightarrow> string \<Rightarrow> string + log_cursor" where
  "decode_cursor b64_decode from_json value =
     (case b64_decode value of Inl e \<Rightarrow> Inl e | Inr bytes \<Rightarrow> from_json bytes)"

section \<open>Levels\<close>

definition pino_level_from_number :: "nat \<Rightarrow> log_level option" where
  "pino_level_from_number n =
     (if 10 \<le> n \<and> n \<le> 29 then Some LogDebug
      else if 30 \<le> n \<and> n \<le> 39 then Some LogInfo
      else if 40 \<le> n \<and> n \<le> 49 then Some LogWarn
      else if 50 \<le> n then Some LogError else None)"

text \<open>
  The scan for one needle. The argument is \<open>value[search_start..]\<close>; no needle of the source is
  empty, which the first test records for the termination proof.
\<close>

definition skip_quote :: "string \<Rightarrow> string" where
  "skip_quote s = (case s of [] \<Rightarrow> [] | c # cs \<Rightarrow> if c = CHR 0x22 then cs else s)"

function pino_scan :: "string \<Rightarrow> string \<Rightarrow> log_level option" where
  "pino_scan needle rest =
     (if needle = [] then None else
      case str_find needle rest of
        None \<Rightarrow> None
      | Some found \<Rightarrow>
          (let after = drop (found + length needle) rest;
               digits = takeWhile is_ascii_digit (skip_quote after) in
           case (if digits = [] then None
                 else case parse_nat (2 ^ 32) digits of
                   None \<Rightarrow> None
                 | Some n \<Rightarrow> pino_level_from_number n) of
             Some level \<Rightarrow> Some level
           | None \<Rightarrow> pino_scan needle after))"
  by pat_completeness auto
termination
proof (relation "measure (\<lambda>(needle, rest). length rest)", goal_cases)
  case (2 needle rest found after digits)
  then have "found + length needle \<le> length rest" using str_find_Some by blast
  with 2 show ?case by (cases needle) auto
qed simp

declare pino_scan.simps [simp del]

definition level_needle :: string where "level_needle = CHR 0x22 # ''level'' @ [CHR 0x22, CHR '':'']"

definition detect_pino_numeric_level :: "string \<Rightarrow> log_level option" where
  "detect_pino_numeric_level v =
     (case pino_scan level_needle v of
        Some l \<Rightarrow> Some l
      | None \<Rightarrow> pino_scan ''level='' v)"

text \<open>The four \<open>contains\<close> forms of a level word: JSON field, key, bracketed, with a colon.\<close>

definition json_level :: "string \<Rightarrow> string" where
  "json_level w = level_needle @ CHR 0x22 # w @ [CHR 0x22]"

definition mentions_key :: "string \<Rightarrow> string \<Rightarrow> bool" where
  "mentions_key v w =
     (str_contains v (json_level w) \<or> str_contains v (''level='' @ w)
      \<or> str_contains v (CHR ''['' # w @ '']''))"

definition mentions :: "string \<Rightarrow> string \<Rightarrow> bool" where
  "mentions v w = (mentions_key v w \<or> str_contains v (w @ '':''))"

definition bare_word :: "string \<Rightarrow> string \<Rightarrow> bool" where
  "bare_word v w =
     (let ws = split_whitespace v;
          word1 = (case ws of [] \<Rightarrow> [] | a # _ \<Rightarrow> a);
          word2 = (case ws of _ # b # _ \<Rightarrow> b | _ \<Rightarrow> []) in
      word1 = w \<or> word2 = w)"

definition level_word :: "string \<Rightarrow> string \<Rightarrow> bool" where
  "level_word v w = (mentions v w \<or> bare_word v w)"

definition detect_level :: "string \<Rightarrow> log_level option" where
  "detect_level raw =
     (let v = to_ascii_lowercase raw in
      case detect_pino_numeric_level v of
        Some l \<Rightarrow> Some l
      | None \<Rightarrow>
          if level_word v ''error'' \<or> level_word v ''fatal'' then Some LogError
          else if level_word v ''warn'' \<or> level_word v ''warning'' then Some LogWarn
          else if level_word v ''info'' then Some LogInfo
          else if level_word v ''debug'' \<or> level_word v ''verbose'' \<or> mentions_key v ''trace''
          then Some LogDebug
          else None)"

section \<open>ANSI escape codes\<close>

abbreviation (input) ESC :: char where "ESC \<equiv> CHR 0x1B"

definition csi_final :: "char \<Rightarrow> bool" where
  "csi_final c = (64 \<le> byte_of c \<and> byte_of c \<le> 126)"

text \<open>What is left after \<open>ESC [\<close> and after \<open>ESC ]\<close>.\<close>

definition skip_csi :: "string \<Rightarrow> string" where
  "skip_csi s = drop 1 (dropWhile (\<lambda>c. \<not> csi_final c) s)"

fun skip_osc :: "string \<Rightarrow> string" where
  "skip_osc [] = []"
| "skip_osc (c # cs) =
     (if c = CHR 0x07 then cs
      else if c = ESC \<and> cs \<noteq> [] \<and> hd cs = CHR 0x5C then tl cs
      else skip_osc cs)"

lemma length_skip_osc [termination_simp]: "length (skip_osc s) \<le> length s"
  by (induction s rule: skip_osc.induct) (auto simp: le_SucI)

lemma length_skip_csi [termination_simp]: "length (skip_csi s) \<le> length s"
  by (simp add: skip_csi_def) (meson diff_le_self le_trans length_dropWhile_le)

text \<open>
  The loop, on \<open>value[index..]\<close>: \<open>None\<close> is the panic of the slice \<open>value[index..]\<close> at an index inside
  a character.
\<close>

fun strip_ansi_escape_codes :: "string \<Rightarrow> string option" where
  "strip_ansi_escape_codes [] = Some []"
| "strip_ansi_escape_codes (c # cs) =
     (if c \<noteq> ESC then
        if utf8_cont c then None
        else map_option (\<lambda>out. (c # takeWhile utf8_cont cs) @ out)
               (strip_ansi_escape_codes (dropWhile utf8_cont cs))
      else case cs of
        [] \<Rightarrow> Some []
      | d # ds \<Rightarrow>
          if d = CHR ''['' then strip_ansi_escape_codes (skip_csi ds)
          else if d = CHR '']'' then strip_ansi_escape_codes (skip_osc ds)
          else strip_ansi_escape_codes ds)"

section \<open>Week databases\<close>

text \<open>
  A date as the calendar gives it: year, month, ISO week number. \<open>date_of\<close> is
  \<open>OffsetDateTime::from_unix_timestamp\<close> with its \<open>date()\<close>, \<open>monday_of\<close> is the Unix second of
  \<open>Date::from_iso_week_date(year, week, Monday)\<close> at midnight.
\<close>

type_synonym date_fn = "int \<Rightarrow> (int \<times> nat \<times> nat) option"
type_synonym monday_fn = "int \<Rightarrow> nat \<Rightarrow> int option"

definition iso_year :: "int \<Rightarrow> nat \<Rightarrow> nat \<Rightarrow> int" where
  "iso_year y month week =
     (if month = 12 \<and> week = 1 then y + 1
      else if month = 1 \<and> (week = 52 \<or> week = 53) then y - 1 else y)"

definition pad2 :: "nat \<Rightarrow> string" where
  "pad2 n = (if n < 10 then CHR ''0'' # nat_to_string n else nat_to_string n)"

definition week_database_name :: "date_fn \<Rightarrow> i64 \<Rightarrow> string option" where
  "week_database_name date_of ts_ms =
     (case date_of (ts_ms div 1000) of
        None \<Rightarrow> None
      | Some (y, month, week) \<Rightarrow>
          Some (int_to_string (iso_year y month week) @ ''_w'' @ pad2 week @ ''.db''))"

definition database_week_start_ms :: "monday_fn \<Rightarrow> string \<Rightarrow> i64 option" where
  "database_week_start_ms monday_of name =
     (case strip_suffix ''.db'' name of
        None \<Rightarrow> None
      | Some stem \<Rightarrow>
          (case split_once ''_w'' stem of
             None \<Rightarrow> None
           | Some (year, week) \<Rightarrow>
               (case (parse_i32 year, parse_nat 256 week) of
                  (Some y, Some w) \<Rightarrow> map_option (\<lambda>s. i64_wrap (s * 1000)) (monday_of y w)
                | _ \<Rightarrow> None)))"

definition format_timestamp_ms ::
  "(int \<Rightarrow> 'dt option) \<Rightarrow> ('dt \<Rightarrow> string option) \<Rightarrow> i64 \<Rightarrow> string" where
  "format_timestamp_ms datetime_of_nanos rfc3339 ts_ms =
     (case datetime_of_nanos (ts_ms * 1000000) of
        None \<Rightarrow> ''invalid timestamp''
      | Some dt \<Rightarrow> (case rfc3339 dt of None \<Rightarrow> ''invalid timestamp'' | Some s \<Rightarrow> s))"

text \<open>\<open>nanos_of\<close> parses RFC 3339 into nanoseconds since the epoch.\<close>

definition parse_docker_timestamp :: "(string \<Rightarrow> int option) \<Rightarrow> string \<Rightarrow> i64 \<times> string" where
  "parse_docker_timestamp nanos_of raw =
     (case split_once '' '' raw of
        None \<Rightarrow> (0, raw)
      | Some (pre, message) \<Rightarrow>
          (case nanos_of pre of
             None \<Rightarrow> (0, raw)
           | Some nanos \<Rightarrow> (i64_wrap (nanos div 1000000), message)))"

section \<open>Full-text queries\<close>

abbreviation (input) DQ :: char where "DQ \<equiv> CHR 0x22"

text \<open>\<open>tokens.push(take(current))\<close> when \<open>current\<close> is not empty; tokens are kept oldest first.\<close>

definition push_token :: "string list \<Rightarrow> string \<Rightarrow> string list" where
  "push_token tokens current = (if current = [] then tokens else tokens @ [current])"

fun fts_tokens :: "string list \<Rightarrow> string \<Rightarrow> bool \<Rightarrow> string list \<Rightarrow> string list" where
  "fts_tokens tokens current in_quotes [] = push_token tokens current"
| "fts_tokens tokens current in_quotes (ch # chs) =
     (if ch = [DQ] then fts_tokens (push_token tokens current) [] (\<not> in_quotes) chs
      else if is_whitespace ch \<and> \<not> in_quotes then
        fts_tokens (push_token tokens current) [] in_quotes chs
      else fts_tokens tokens (current @ ch) in_quotes chs)"

definition double_quotes :: "string \<Rightarrow> string" where
  "double_quotes s = concat (map (\<lambda>c. if c = DQ then [DQ, DQ] else [c]) s)"

definition fts_quote :: "string \<Rightarrow> string" where
  "fts_quote token = DQ # double_quotes token @ [DQ]"

definition sanitize_fts_query :: "string \<Rightarrow> string option" where
  "sanitize_fts_query raw =
     (let tokens = fts_tokens [] [] False (utf8_chars raw) in
      if tokens = [] then None else Some (join '' OR '' (map fts_quote tokens)))"

section \<open>Service directories\<close>

definition path_parts :: "string \<Rightarrow> string list" where
  "path_parts service =
     filter (\<lambda>part. part \<noteq> [] \<and> part \<noteq> ''.'' \<and> part \<noteq> ''..'')
       (split_at (\<lambda>c. c = CHR ''/'' \<or> c = CHR 0x5C) service)"

definition safe_service_path :: "string \<Rightarrow> string" where
  "safe_service_path service = join ''_'' (path_parts service)"

section \<open>Full-text queries are disjunctions of plain phrases\<close>

text \<open>
  A reader of the FTS5 query syntax the sanitiser targets: quoted strings, in which a doubled
  quote stands for one, joined by \<open>OR\<close>. Anything else is rejected.
\<close>

fun read_phrase :: "string \<Rightarrow> string \<Rightarrow> (string \<times> string) option" where
  "read_phrase acc [] = None"
| "read_phrase acc (c # cs) =
     (if c \<noteq> DQ then read_phrase (acc @ [c]) cs
      else case cs of
        [] \<Rightarrow> Some (acc, [])
      | d # ds \<Rightarrow> if d = DQ then read_phrase (acc @ [DQ]) ds else Some (acc, cs))"

lemma read_phrase_length: "read_phrase acc s = Some (w, rest) \<Longrightarrow> length rest < length s"
  by (induction acc s rule: read_phrase.induct) (fastforce split: if_splits list.splits)+

function fts_phrases :: "string \<Rightarrow> string list option" where
  "fts_phrases s =
     (case s of
        [] \<Rightarrow> None
      | c # t \<Rightarrow>
          if c \<noteq> DQ then None
          else (case read_phrase [] t of
             None \<Rightarrow> None
           | Some (w, rest) \<Rightarrow>
               if rest = [] then Some [w]
               else if prefix '' OR '' rest then map_option ((#) w) (fts_phrases (drop 4 rest))
               else None))"
  by pat_completeness auto
termination
  by (relation "measure length") (auto dest!: read_phrase_length)

declare fts_phrases.simps [simp del]

lemma read_phrase_double_quotes:
  "rest = [] \<or> hd rest \<noteq> DQ \<Longrightarrow>
     read_phrase acc (double_quotes w @ DQ # rest) = Some (acc @ w, rest)"
  by (induction w arbitrary: acc) (auto simp: double_quotes_def split: list.splits)

lemma fts_phrases_join:
  "ws \<noteq> [] \<Longrightarrow> fts_phrases (join '' OR '' (map fts_quote ws)) = Some ws"
proof (induction ws)
  case (Cons w ws)
  show ?case
  proof (cases ws)
    case Nil
    then show ?thesis
      by (simp add: fts_quote_def fts_phrases.simps [of "DQ # _"] read_phrase_double_quotes)
  next
    case (Cons v vs)
    define rest where "rest = join '' OR '' (map fts_quote ws)"
    have "fts_phrases rest = Some ws" unfolding rest_def by (rule Cons.IH) (simp add: Cons)
    moreover have "join '' OR '' (map fts_quote (w # ws))
        = DQ # double_quotes w @ DQ # '' OR '' @ rest"
      by (simp add: rest_def Cons fts_quote_def)
    ultimately show ?thesis
      by (simp add: fts_phrases.simps [of "DQ # _"] read_phrase_double_quotes)
  qed
qed simp

definition phrase_ok :: "string \<Rightarrow> bool" where
  "phrase_ok t \<longleftrightarrow> t \<noteq> [] \<and> DQ \<notin> set t"

lemma fts_tokens_clean:
  "list_all phrase_ok tokens \<Longrightarrow> DQ \<notin> set current \<Longrightarrow>
     list_all (\<lambda>ch. ch = [DQ] \<or> DQ \<notin> set ch) chs \<Longrightarrow>
     list_all phrase_ok (fts_tokens tokens current q chs)"
proof (induction chs arbitrary: tokens current q)
  case (Cons ch chs)
  have push: "list_all phrase_ok (push_token tokens current)"
    using Cons.prems(1,2) by (cases current) (simp_all add: push_token_def phrase_ok_def [of "_ # _"])
  have chs: "list_all (\<lambda>ch. ch = [DQ] \<or> DQ \<notin> set ch) chs"
    and ch: "ch \<noteq> [DQ] \<Longrightarrow> DQ \<notin> set (current @ ch)" using Cons.prems by auto
  show ?case
    using Cons.IH [OF push _ chs] Cons.IH [OF Cons.prems(1) ch chs]
    by (cases "ch = [DQ]") simp_all
qed (simp add: push_token_def phrase_ok_def)

lemma fts_tokens_subseq:
  "subseq (concat (fts_tokens tokens current q chs)) (concat tokens @ current @ concat chs)"
proof (induction tokens current q chs rule: fts_tokens.induct)
  case (2 tokens current q ch chs)
  have p: "concat (push_token tokens current) = concat tokens @ current"
    by (simp add: push_token_def)
  have d: "subseq (concat tokens @ current @ concat chs) (concat tokens @ current @ ch @ concat chs)"
    by (simp only: subseq_append') (simp add: list_emb_append2)
  show ?case using 2 d by (auto simp: p intro: subseq_order.trans)
qed (simp add: push_token_def)

lemma push_first_word:
  "\<forall>ch \<in> set chs. ch \<noteq> [] \<Longrightarrow>
    push_token tokens (concat (takeWhile (\<lambda>c. \<not> is_whitespace c) chs))
      @ map concat (words_by is_whitespace (dropWhile (\<lambda>c. \<not> is_whitespace c) chs))
    = tokens @ map concat (words_by is_whitespace chs)"
  by (cases chs) (auto simp: push_token_def)

lemma fts_tokens_unquoted:
  assumes "\<forall>ch \<in> set chs. ch \<noteq> [DQ] \<and> ch \<noteq> []"
  shows "fts_tokens tokens current False chs =
    push_token tokens (current @ concat (takeWhile (\<lambda>c. \<not> is_whitespace c) chs))
      @ map concat (words_by is_whitespace (dropWhile (\<lambda>c. \<not> is_whitespace c) chs))"
  using assms
proof (induction chs arbitrary: tokens current)
  case (Cons ch chs)
  show ?case
  proof (cases "is_whitespace ch")
    case True
    have "fts_tokens tokens current False (ch # chs)
        = fts_tokens (push_token tokens current) [] False chs" using True Cons.prems by simp
    also have "\<dots> = push_token (push_token tokens current)
          (concat (takeWhile (\<lambda>c. \<not> is_whitespace c) chs))
        @ map concat (words_by is_whitespace (dropWhile (\<lambda>c. \<not> is_whitespace c) chs))"
      using Cons by simp
    also have "\<dots> = push_token tokens current @ map concat (words_by is_whitespace chs)"
      using Cons.prems push_first_word [of chs] by simp
    finally show ?thesis using True by simp
  next
    case False
    then show ?thesis using Cons by simp
  qed
qed (simp add: push_token_def)

lemma utf8_chars_nonempty: "ch \<in> set (utf8_chars s) \<Longrightarrow> ch \<noteq> []"
  by (induction s rule: utf8_chars.induct) auto

lemma utf8_chars_elem: "ch \<in> set (utf8_chars s) \<Longrightarrow> c \<in> set ch \<Longrightarrow> c \<in> set s"
  using concat_utf8_chars [of s] by (metis UN_I set_concat)

text \<open>
  What the proofs need of valid UTF-8: the text starts at a boundary and a continuation byte never
  follows an ASCII byte. An ASCII byte is then a character by itself.
\<close>

definition utf8_text :: "string \<Rightarrow> bool" where
  "utf8_text s \<longleftrightarrow> (s = [] \<or> \<not> utf8_cont (hd s))
     \<and> successively (\<lambda>a b. utf8_cont b \<longrightarrow> 128 \<le> byte_of a) s"

lemma utf8_text_dropWhile:
  assumes "successively (\<lambda>a b. utf8_cont b \<longrightarrow> 128 \<le> byte_of a) s"
  shows "utf8_text (dropWhile utf8_cont s)"
proof -
  have "successively (\<lambda>a b. utf8_cont b \<longrightarrow> 128 \<le> byte_of a) (dropWhile utf8_cont s)"
    using assms by (metis successively_append_iff takeWhile_dropWhile_id)
  then show ?thesis
    using hd_dropWhile [of utf8_cont s] by (auto simp: utf8_text_def)
qed

lemma utf8_chars_ascii:
  "utf8_text s \<Longrightarrow> ch \<in> set (utf8_chars s) \<Longrightarrow> c \<in> set ch \<Longrightarrow> byte_of c < 128 \<Longrightarrow> ch = [c]"
proof (induction s rule: utf8_chars.induct)
  case (2 d ds)
  have succ: "successively (\<lambda>a b. utf8_cont b \<longrightarrow> 128 \<le> byte_of a) ds"
    using "2.prems"(1) by (auto simp: utf8_text_def successively_Cons)
  show ?case
  proof (cases "ch \<in> set (utf8_chars (dropWhile utf8_cont ds))")
    case True
    with 2 utf8_text_dropWhile [OF succ] show ?thesis by blast
  next
    case False
    with "2.prems" have ch: "ch = d # takeWhile utf8_cont ds" by simp
    have "c = d" using ch "2.prems"(3,4) by (auto simp: utf8_cont_def dest!: set_takeWhileD)
    moreover have "takeWhile utf8_cont ds = []"
      using "2.prems"(1,4) \<open>c = d\<close> by (cases ds) (auto simp: utf8_text_def)
    ultimately show ?thesis by (simp add: ch)
  qed
qed simp

text \<open>
  C19. Whatever a client types into the search box, the query the store runs is a disjunction of
  plain quoted phrases, so no FTS5 operator of the input takes effect; the phrases are taken from
  the input in order, and for an input without quotes they are its words.
\<close>

theorem sanitized_query_is_phrases:
  assumes "utf8_text raw" and "sanitize_fts_query raw = Some q"
  shows "\<exists>ws. fts_phrases q = Some ws \<and> ws \<noteq> [] \<and> (\<forall>w \<in> set ws. w \<noteq> [] \<and> DQ \<notin> set w)
    \<and> subseq (concat ws) raw \<and> (DQ \<notin> set raw \<longrightarrow> ws = split_whitespace raw)"
proof -
  define ws where "ws = fts_tokens [] [] False (utf8_chars raw)"
  have q: "ws \<noteq> []" "q = join '' OR '' (map fts_quote ws)"
    using assms(2) by (auto simp: sanitize_fts_query_def ws_def Let_def split: if_splits)
  have "byte_of DQ < 128" by (simp add: byte_of_def)
  then have "list_all (\<lambda>ch. ch = [DQ] \<or> DQ \<notin> set ch) (utf8_chars raw)"
    unfolding list_all_iff using utf8_chars_ascii [OF assms(1)] by blast
  then have "list_all phrase_ok ws" unfolding ws_def by (intro fts_tokens_clean) simp_all
  then have clean: "\<forall>w \<in> set ws. w \<noteq> [] \<and> DQ \<notin> set w"
    by (simp add: list_all_iff phrase_ok_def)
  have sub: "subseq (concat ws) raw"
    using fts_tokens_subseq [of "[]" "[]" False "utf8_chars raw"] by (simp add: ws_def)
  have words: "DQ \<notin> set raw \<longrightarrow> ws = split_whitespace raw"
  proof
    assume "DQ \<notin> set raw"
    then have "\<forall>ch \<in> set (utf8_chars raw). ch \<noteq> [DQ] \<and> ch \<noteq> []"
      using utf8_chars_nonempty utf8_chars_elem by fastforce
    then show "ws = split_whitespace raw"
      unfolding ws_def split_whitespace_def
      by (simp add: fts_tokens_unquoted push_first_word)
  qed
  show ?thesis
    using fts_phrases_join [OF q(1)] q clean sub words by blast
qed

theorem sanitized_query_is_phrases_witness:
  "\<exists>ws. fts_phrases (DQ # ''a'' @ DQ # '' OR '' @ DQ # ''NOT'' @ [DQ]) = Some ws \<and> ws \<noteq> []
    \<and> (\<forall>w \<in> set ws. w \<noteq> [] \<and> DQ \<notin> set w)
    \<and> subseq (concat ws) ''a NOT'' \<and> (DQ \<notin> set ''a NOT'' \<longrightarrow> ws = split_whitespace ''a NOT'')"
  by (rule sanitized_query_is_phrases)
    (simp_all add: utf8_text_def utf8_cont_def byte_of_def sanitize_fts_query_def Let_def
      push_token_def is_whitespace_def fts_quote_def double_quotes_def)

section \<open>Stripping leaves plain text\<close>

definition ansi_text :: "string \<Rightarrow> bool" where
  "ansi_text s \<longleftrightarrow> utf8_text s \<and> successively (\<lambda>a b. a = ESC \<longrightarrow> byte_of b < 128) s"

text \<open>What follows an ASCII byte of a text is again a text.\<close>

lemma ansi_text_suffix:
  assumes "ansi_text (u @ v)" "v = [] \<or> u \<noteq> [] \<and> byte_of (last u) < 128"
  shows "ansi_text v"
  using assms by (cases v) (auto simp: ansi_text_def utf8_text_def successively_append_iff)

lemma ansi_text_char:
  assumes "ansi_text (c # cs)"
  shows "ansi_text (dropWhile utf8_cont cs)"
proof -
  have "utf8_text (dropWhile utf8_cont cs)"
    using assms by (intro utf8_text_dropWhile) (auto simp: ansi_text_def utf8_text_def successively_Cons)
  moreover have "successively (\<lambda>a b. a = ESC \<longrightarrow> byte_of b < 128)
      (takeWhile utf8_cont cs @ dropWhile utf8_cont cs)"
    using assms by (auto simp: ansi_text_def successively_Cons)
  then have "successively (\<lambda>a b. a = ESC \<longrightarrow> byte_of b < 128) (dropWhile utf8_cont cs)"
    by (simp only: successively_append_iff)
  ultimately show ?thesis by (simp add: ansi_text_def)
qed

lemma skip_csi_split:
  "\<exists>u. s = u @ skip_csi s \<and> (skip_csi s = [] \<or> u \<noteq> [] \<and> byte_of (last u) < 128)"
proof (cases "dropWhile (\<lambda>c. \<not> csi_final c) s")
  case Nil
  then have "skip_csi s = []" by (simp only: skip_csi_def) simp
  then show ?thesis by simp
next
  case (Cons c cs)
  have "csi_final c" using Cons hd_dropWhile [of "\<lambda>c. \<not> csi_final c" s] by simp
  moreover have "s = (takeWhile (\<lambda>c. \<not> csi_final c) s @ [c]) @ skip_csi s"
    using takeWhile_dropWhile_id [of "\<lambda>c. \<not> csi_final c" s] by (simp add: skip_csi_def Cons)
  ultimately show ?thesis
    by (intro exI [of _ "takeWhile (\<lambda>c. \<not> csi_final c) s @ [c]"]) (simp add: csi_final_def)
qed

lemma skip_osc_split:
  "\<exists>u. s = u @ skip_osc s \<and> (skip_osc s = [] \<or> u \<noteq> [] \<and> byte_of (last u) < 128)"
proof (induction s rule: skip_osc.induct)
  case (2 c cs)
  consider "c = CHR 0x07" | "c \<noteq> CHR 0x07" "c = ESC" "cs \<noteq> []" "hd cs = CHR 0x5C"
    | "c \<noteq> CHR 0x07" "\<not> (c = ESC \<and> cs \<noteq> [] \<and> hd cs = CHR 0x5C)" by blast
  then show ?case
  proof cases
    case 1
    then show ?thesis by (intro exI [of _ "[c]"]) (simp add: byte_of_def)
  next
    case b: 2
    then show ?thesis
      by (intro exI [of _ "[c, CHR 0x5C]"]) (cases cs; simp add: byte_of_def)
  next
    case 3
    then obtain u where "cs = u @ skip_osc cs"
      "skip_osc cs = [] \<or> u \<noteq> [] \<and> byte_of (last u) < 128" using 2 by blast
    with 3 show ?thesis by (intro exI [of _ "c # u"]) auto
  qed
qed simp

lemma strip_ansi_plain:
  "ESC \<notin> set s \<Longrightarrow> s = [] \<or> \<not> utf8_cont (hd s) \<Longrightarrow> strip_ansi_escape_codes s = Some s"
proof (induction s rule: utf8_chars.induct)
  case (2 c cs)
  have "ESC \<notin> set (dropWhile utf8_cont cs)" using "2.prems" by (auto dest: set_dropWhileD)
  moreover have "dropWhile utf8_cont cs = [] \<or> \<not> utf8_cont (hd (dropWhile utf8_cont cs))"
    using hd_dropWhile by blast
  ultimately show ?case using 2 by auto
qed simp

lemma strip_ansi_ok:
  "ansi_text s \<Longrightarrow> \<exists>out. strip_ansi_escape_codes s = Some out \<and> ESC \<notin> set out
     \<and> subseq out s \<and> (out = [] \<or> \<not> utf8_cont (hd out))"
proof (induction s rule: strip_ansi_escape_codes.induct)
  case (2 c cs)
  show ?case
  proof (cases "c = ESC")
    case False
    have nc: "\<not> utf8_cont c" using "2.prems" by (simp add: ansi_text_def utf8_text_def)
    from "2.IH"(1) [OF False nc ansi_text_char [OF "2.prems"]] obtain out where
      out: "strip_ansi_escape_codes (dropWhile utf8_cont cs) = Some out" "ESC \<notin> set out"
        "subseq out (dropWhile utf8_cont cs)" by blast
    have "ESC \<notin> set (takeWhile utf8_cont cs)"
      by (auto simp: utf8_cont_def byte_of_def dest!: set_takeWhileD)
    moreover have "subseq (takeWhile utf8_cont cs @ out) cs"
      using out(3) by (metis subseq_append' takeWhile_dropWhile_id)
    ultimately show ?thesis using False nc out by simp
  next
    case esc: True
    show ?thesis
    proof (cases cs)
      case Nil
      then show ?thesis using esc by simp
    next
      case (Cons d ds)
      have d: "byte_of d < 128" using "2.prems" by (simp add: esc Cons ansi_text_def)
      have whole: "ansi_text ((c # d # u) @ v)" if "ds = u @ v" for u v
        using "2.prems" that by (simp add: Cons)
      have rest: "ansi_text v" if "ds = u @ v" "v = [] \<or> u \<noteq> [] \<and> byte_of (last u) < 128" for u v
      proof (rule ansi_text_suffix [OF whole [OF that(1)]])
        show "v = [] \<or> c # d # u \<noteq> [] \<and> byte_of (last (c # d # u)) < 128"
          using that(2) by (cases "u = []") simp_all
      qed
      have ds: "ansi_text ds"
        using d by (intro ansi_text_suffix [OF whole [of "[]" ds]]) simp_all
      have csi: "ansi_text (skip_csi ds)" using skip_csi_split [of ds] rest by blast
      have osc: "ansi_text (skip_osc ds)" using skip_osc_split [of ds] rest by blast
      have weaken: "subseq out (c # d # ds)" if "subseq out v" "\<exists>u. ds = u @ v" for out v
      proof -
        from that(2) obtain u where "c # d # ds = (c # d # u) @ v" by auto
        with list_emb_append2 [OF that(1), of "c # d # u"] show ?thesis by simp
      qed
      consider "d = CHR ''[''" | "d \<noteq> CHR ''[''" "d = CHR '']''" | "d \<noteq> CHR ''[''" "d \<noteq> CHR '']''"
        by blast
      then show ?thesis
      proof cases
        case 1
        then have "strip_ansi_escape_codes (c # cs) = strip_ansi_escape_codes (skip_csi ds)"
          by (simp add: esc Cons)
        with "2.IH"(2) [OF _ Cons 1 csi] esc weaken [of _ "skip_csi ds"] skip_csi_split [of ds]
        show ?thesis unfolding Cons by auto
      next
        case b: 2
        then have "strip_ansi_escape_codes (c # cs) = strip_ansi_escape_codes (skip_osc ds)"
          by (simp add: esc Cons)
        with "2.IH"(3) [OF _ Cons b osc] esc weaken [of _ "skip_osc ds"] skip_osc_split [of ds]
        show ?thesis unfolding Cons by auto
      next
        case 3
        then have "strip_ansi_escape_codes (c # cs) = strip_ansi_escape_codes ds"
          by (simp add: esc Cons)
        with "2.IH"(4) [OF _ Cons 3 ds] esc weaken [of _ ds] show ?thesis unfolding Cons by auto
      qed
    qed
  qed
qed simp



text \<open>
  An escape byte in front of a character of several bytes makes \<^verbatim>\<open>strip_ansi_escape_codes\<close>
  slice inside that character: the call panics on valid UTF-8.
\<close>

theorem strip_ansi_panics:
  assumes "list_all (\<lambda>c. byte_of c < 128 \<and> c \<noteq> ESC) u" "192 \<le> byte_of c" "utf8_cont d"
  shows "strip_ansi_escape_codes (u @ ESC # c # d # rest) = None"
  using assms(1)
proof (induction u)
  case Nil
  have "c \<noteq> CHR ''[''" "c \<noteq> CHR '']''" using assms(2) by (auto simp: byte_of_def)
  moreover have "d \<noteq> ESC" using assms(3) by (auto simp: utf8_cont_def byte_of_def)
  ultimately show ?case using assms(3) by simp
next
  case (Cons a u)
  have "\<not> utf8_cont b" if "byte_of b < 128" for b using that by (simp add: utf8_cont_def)
  moreover have "byte_of ESC < 128" by (simp add: byte_of_def)
  ultimately have "dropWhile utf8_cont (u @ ESC # c # d # rest) = u @ ESC # c # d # rest"
    using Cons.prems by (cases u) auto
  with Cons show ?case by (auto simp: utf8_cont_def)
qed

section \<open>A service directory is one path component\<close>

lemma join_two: "set sep \<subseteq> set (join sep (v # w # ws))"
  by auto

text \<open>
  The directory a service name maps to is at most one component below the log root: it has no
  separator and is neither the current nor the parent directory.
\<close>

theorem safe_service_path_confined:
  "CHR ''/'' \<notin> set (safe_service_path s) \<and> CHR 0x5C \<notin> set (safe_service_path s) \<and>
   safe_service_path s \<noteq> ''.'' \<and> safe_service_path s \<noteq> ''..''"
proof -
  let ?sep = "\<lambda>c. c = CHR ''/'' \<or> c = CHR 0x5C"
  have parts: "w \<in> set (split_at ?sep s)" "w \<noteq> ''.''" "w \<noteq> ''..''" if "w \<in> set (path_parts s)" for w
    using that by (simp_all add: path_parts_def)
  have "\<not> ?sep c" if "c \<in> set (safe_service_path s)" for c
  proof -
    from that set_join [of "''_''" "path_parts s"]
    consider "c = CHR ''_''" | w where "w \<in> set (path_parts s)" "c \<in> set w"
      unfolding safe_service_path_def by auto
    then show ?thesis using parts(1) split_at_no_sep [of _ ?sep s c] by cases auto
  qed
  then have "CHR ''/'' \<notin> set (safe_service_path s)" "CHR 0x5C \<notin> set (safe_service_path s)" by auto
  moreover have "safe_service_path s \<noteq> ''.'' \<and> safe_service_path s \<noteq> ''..''"
  proof (cases "path_parts s")
    case (Cons v vs)
    show ?thesis
    proof (cases vs)
      case Nil
      with parts(2,3) show ?thesis by (simp add: safe_service_path_def Cons)
    next
      case (Cons w ws)
      have "CHR ''_'' \<in> set (safe_service_path s)"
        using join_two [of "''_''" v w ws] \<open>path_parts s = v # vs\<close>
        by (simp add: safe_service_path_def Cons)
      then show ?thesis by auto
    qed
  qed (simp add: safe_service_path_def)
  ultimately show ?thesis by simp
qed

text \<open>Two services may share a directory, and a name of dots alone maps to the root itself.\<close>

lemma safe_service_path_collision:
  "safe_service_path ''a/b'' = safe_service_path ''a_b''" "safe_service_path ''..'' = []"
  by (simp_all add: safe_service_path_def path_parts_def)

section \<open>Week names\<close>

lemma str_find_first:
  assumes "pat \<noteq> []" "hd pat \<notin> set u"
  shows "str_find pat (u @ pat @ v) = Some (length u)"
  using assms(2)
proof (induction u)
  case Nil
  then show ?case using assms(1) by (cases pat) (auto simp: prefix_def)
next
  case (Cons c u)
  then have "\<not> prefix pat ((c # u) @ pat @ v)" using assms(1) by (cases pat) auto
  with Cons show ?case by simp
qed

lemma split_once_first:
  "pat \<noteq> [] \<Longrightarrow> hd pat \<notin> set u \<Longrightarrow> split_once pat (u @ pat @ v) = Some (u, v)"
  by (simp add: split_once_def str_find_first)

lemma strip_suffix_append [simp]: "strip_suffix suf (s @ suf) = Some s"
  by (simp add: strip_suffix_def suffix_def)

lemma not_digit [simp]: "\<not> is_ascii_digit CHR ''-''" "\<not> is_ascii_digit CHR ''+''"
  "\<not> is_ascii_digit CHR ''_''"
  by (simp_all add: is_ascii_digit_def byte_of_def)

lemma digits_parse:
  "ds \<noteq> [] \<Longrightarrow> list_all is_ascii_digit ds \<Longrightarrow> digits_value ds < b \<Longrightarrow>
     parse_nat b ds = Some (digits_value ds)"
  by (cases ds) (auto simp: parse_nat_def Let_def)

lemma parse_pad2: "n < 100 \<Longrightarrow> parse_nat 256 (pad2 n) = Some n"
proof -
  assume n: "n < 100"
  have "pad2 n \<noteq> [] \<and> list_all is_ascii_digit (pad2 n) \<and> digits_value (pad2 n) = n"
    using nat_to_string_digits [of n]
    by (auto simp: pad2_def digits_value_def is_ascii_digit_def byte_of_def)
  then show ?thesis using n digits_parse [of "pad2 n" 256] by simp
qed

lemma parse_i32_no_sign:
  "c \<noteq> CHR ''-'' \<Longrightarrow> parse_i32 (c # cs) = map_option int (parse_nat (2 ^ 31) (c # cs))"
  by (auto simp: parse_i32_def simp del: numeral_power_eq_of_nat_cancel_iff split: char.split bool.split)

lemma parse_int_to_string: "\<bar>n\<bar> < 2 ^ 31 \<Longrightarrow> parse_i32 (int_to_string n) = Some n"
proof (cases "n < 0")
  case True
  moreover assume "\<bar>n\<bar> < 2 ^ 31"
  ultimately show ?thesis using nat_to_string_digits [of "nat (- n)"]
    by (simp add: parse_i32_def int_to_string_def)
next
  case False
  moreover assume "\<bar>n\<bar> < 2 ^ 31"
  moreover obtain c cs where "nat_to_string (nat n) = c # cs" "is_ascii_digit c"
    using nat_to_string_digits [of "nat n"] by (cases "nat_to_string (nat n)") auto
  moreover from this have "c \<noteq> CHR ''-''" by auto
  ultimately show ?thesis
    using parse_nat_to_string [of "nat n" "2 ^ 31"]
    by (simp add: parse_i32_no_sign int_to_string_def)
qed

lemma int_to_string_chars: "CHR ''_'' \<notin> set (int_to_string n)"
proof -
  have "CHR ''_'' \<notin> set (nat_to_string k)" for k
    using nat_to_string_digits [of k] not_digit(3) unfolding list_all_iff by blast
  then show ?thesis by (simp add: int_to_string_def)
qed

text \<open>The name of a week parses back to its Monday.\<close>

lemma week_start_of_name:
  assumes "\<bar>y\<bar> \<le> 9999" "1 \<le> w" "w \<le> 53" "monday_of (iso_year y m w) w = Some mon"
    and "in_i64 (mon * 1000)"
  shows "database_week_start_ms monday_of (int_to_string (iso_year y m w) @ ''_w'' @ pad2 w @ ''.db'')
    = Some (mon * 1000)"
proof -
  let ?y = "iso_year y m w"
  let ?stem = "int_to_string ?y @ ''_w'' @ pad2 w"
  have "\<bar>?y\<bar> < 2 ^ 31" using assms(1) by (auto simp: iso_year_def)
  then have year: "parse_i32 (int_to_string ?y) = Some ?y" by (rule parse_int_to_string)
  have split: "split_once ''_w'' ?stem = Some (int_to_string ?y, pad2 w)"
    by (rule split_once_first) (simp_all add: int_to_string_chars)
  have "database_week_start_ms monday_of (?stem @ ''.db'') = Some (mon * 1000)"
    unfolding database_week_start_ms_def strip_suffix_append
    using year split assms(3,4,5) by (simp add: parse_pad2 i64_wrap_id)
  then show ?thesis by simp
qed



section \<open>Pino levels\<close>

lemma lowercase_append [simp]:
  "to_ascii_lowercase (u @ v) = to_ascii_lowercase u @ to_ascii_lowercase v"
  by (simp add: to_ascii_lowercase_def)

lemma lowercase_digits:
  "list_all is_ascii_digit ds \<Longrightarrow> to_ascii_lowercase ds = ds"
  unfolding to_ascii_lowercase_def list_all_iff is_ascii_digit_def by (induction ds) auto

lemma lowercase_preserves:
  "byte_of c < 97 \<or> 122 < byte_of c \<Longrightarrow> c \<in> set (to_ascii_lowercase s) \<Longrightarrow> c \<in> set s"
  by (auto simp: to_ascii_lowercase_def split: if_splits)

lemma lowercase_hd_digit:
  "s \<noteq> [] \<Longrightarrow> is_ascii_digit (hd (to_ascii_lowercase s)) \<Longrightarrow> is_ascii_digit (hd s)"
  by (cases s) (auto simp: to_ascii_lowercase_def is_ascii_digit_def split: if_splits)

text \<open>
  A line of a Pino logger, which holds its numeric level in the first quoted field, is given
  the level of that number, whatever words the rest of the line contains.
\<close>

theorem pino_level_wins:
  assumes "DQ \<notin> set u" "v = [] \<or> \<not> is_ascii_digit (hd v)" "10 \<le> n" "n < 2 ^ 32"
  shows "detect_level (u @ level_needle @ nat_to_string n @ v) = pino_level_from_number n"
proof -
  define lu lv where "lu = to_ascii_lowercase u" and "lv = to_ascii_lowercase v"
  have digits: "list_all is_ascii_digit (nat_to_string n)" "nat_to_string n \<noteq> []"
    using nat_to_string_digits [of n] by simp_all
  have "to_ascii_lowercase level_needle = level_needle"
    by (simp add: to_ascii_lowercase_def level_needle_def byte_of_def)
  with digits have low: "to_ascii_lowercase (u @ level_needle @ nat_to_string n @ v)
      = lu @ level_needle @ nat_to_string n @ lv"
    by (simp add: lu_def lv_def lowercase_digits)
  have "DQ \<notin> set lu"
    using assms(1) lowercase_preserves [of DQ u] by (auto simp: lu_def byte_of_def)
  then have find: "str_find level_needle (lu @ level_needle @ nat_to_string n @ lv) = Some (length lu)"
    by (intro str_find_first) (simp_all add: level_needle_def)
  have "lv = [] \<or> \<not> is_ascii_digit (hd lv)"
    using assms(2) lowercase_hd_digit [of v] by (auto simp: lv_def to_ascii_lowercase_def)
  then have take: "takeWhile is_ascii_digit (nat_to_string n @ lv) = nat_to_string n"
    using digits(1) by (cases lv) (auto simp: list_all_iff takeWhile_append2)
  have "skip_quote (nat_to_string n @ lv) = nat_to_string n @ lv"
    using digits by (cases "nat_to_string n")
      (auto simp: skip_quote_def is_ascii_digit_def byte_of_def)
  moreover have "\<exists>l. pino_level_from_number n = Some l"
    using assms(3) by (simp add: pino_level_from_number_def)
  ultimately have "pino_scan level_needle (lu @ level_needle @ nat_to_string n @ lv)
      = pino_level_from_number n"
    using find take digits parse_nat_to_string [OF assms(4)]
    by (subst pino_scan.simps) (auto simp: level_needle_def Let_def)
  moreover obtain l where "pino_level_from_number n = Some l"
    using \<open>\<exists>l. pino_level_from_number n = Some l\<close> by blast
  ultimately have "detect_pino_numeric_level (lu @ level_needle @ nat_to_string n @ lv) = Some l"
    by (simp add: detect_pino_numeric_level_def)
  with \<open>pino_level_from_number n = Some l\<close> show ?thesis
    unfolding detect_level_def low Let_def by simp
qed

theorem pino_level_wins_witness:
  "detect_level (''{'' @ level_needle @ nat_to_string 30 @ '',msg:error:}'') = pino_level_from_number 30"
  by (rule pino_level_wins) (simp_all add: is_ascii_digit_def byte_of_def)

end
