(* ===== verification/Bucketizer.thy ===== *)
theory Bucketizer
  imports Model
begin

text \<open>
  \<open>src/metrics/bucketizer.rs\<close> and \<open>rate.rs\<close>: the sample buffer, the interpolation of bucket
  boundaries, and the gauge, maximum and counter bucketizers, with every float operation rounded
  as the source's \<open>f64\<close> rounds it. The trait is the locale \<open>bucketizer_contract\<close>, interpreted on
  the three implementations.
\<close>

section \<open>Rates of raw counters (rate.rs)\<close>

definition counter_delta :: "u64 \<Rightarrow> u64 \<Rightarrow> u64 option" where
  "counter_delta current previous = checked_sub_u64 current previous"

definition optional_rate :: "u64 \<Rightarrow> u64 \<Rightarrow> int \<Rightarrow> f64 option" where
  "optional_rate current previous dt_ms =
     (if dt_ms \<le> 0 then None
      else map_option
        (\<lambda>delta. f64_div (f64_of_u64 delta) (f64_div (f64_of_int dt_ms) (f64_of_int 1000)))
        (counter_delta current previous))"

section \<open>The sample buffer\<close>

definition counter_rate_scale :: int where
  "counter_rate_scale = 1000"

definition buffered_buckets :: nat where
  "buffered_buckets = 8"

text \<open>The collection interval is given in whole milliseconds; \<open>u128\<close> arithmetic cannot overflow here.\<close>

definition buffer_capacity :: "nat \<Rightarrow> u64 \<Rightarrow> nat" where
  "buffer_capacity interval_ms bucket_len_ms =
     max ((buffered_buckets * unat bucket_len_ms) div (max interval_ms 1)) 4"

record raw_sample =
  rs_ts :: timestamp_ms
  rs_value :: u64

record sample_buffer =
  sb_capacity :: nat
  sb_samples :: "raw_sample list"

definition sb_new :: "nat \<Rightarrow> sample_buffer" where
  "sb_new capacity = \<lparr>sb_capacity = capacity, sb_samples = []\<rparr>"

text \<open>The \<open>while len > capacity { pop_front }\<close> loop.\<close>

fun pop_excess :: "nat \<Rightarrow> 'a list \<Rightarrow> 'a list" where
  "pop_excess cap [] = []"
| "pop_excess cap (x # xs) = (if cap < length (x # xs) then pop_excess cap xs else x # xs)"

definition sb_push :: "sample_buffer \<Rightarrow> timestamp_ms \<Rightarrow> u64 \<Rightarrow> sample_buffer" where
  "sb_push b ts value =
     (if sb_capacity b = 0 then b
      else if sb_samples b \<noteq> [] \<and> ts \<le> rs_ts (last (sb_samples b)) then b
      else b\<lparr>sb_samples :=
             pop_excess (sb_capacity b) (sb_samples b @ [\<lparr>rs_ts = ts, rs_value = value\<rparr>])\<rparr>)"

definition sb_is_empty :: "sample_buffer \<Rightarrow> bool" where
  "sb_is_empty b = (sb_samples b = [])"

text \<open>\<open>Iterator::max\<close>.\<close>

definition list_max :: "'a::linorder list \<Rightarrow> 'a option" where
  "list_max xs = (case xs of [] \<Rightarrow> None | y # ys \<Rightarrow> Some (foldl max y ys))"

definition max_in :: "sample_buffer \<Rightarrow> timestamp_ms \<Rightarrow> timestamp_ms \<Rightarrow> u64 option" where
  "max_in b start end =
     list_max (map rs_value (filter (\<lambda>s. start < rs_ts s \<and> rs_ts s \<le> end) (sb_samples b)))"

text \<open>The loop that looks for the nearest samples on both sides; it stops at the first one on the right.\<close>

fun scan_neighbours ::
  "timestamp_ms \<Rightarrow> timestamp_ms \<Rightarrow> timestamp_ms \<Rightarrow> raw_sample option \<Rightarrow> raw_sample list
     \<Rightarrow> raw_sample option \<times> raw_sample option" where
  "scan_neighbours boundary left_min right_max left [] = (left, None)"
| "scan_neighbours boundary left_min right_max left (s # ss) =
     (let left' = (if left_min < rs_ts s \<and> rs_ts s < boundary then Some s else left) in
      if boundary < rs_ts s \<and> rs_ts s \<le> right_max then (left', Some s)
      else scan_neighbours boundary left_min right_max left' ss)"

text \<open>Linear interpolation between two neighbours, in floats.\<close>

definition interpolate :: "timestamp_ms \<Rightarrow> raw_sample \<Rightarrow> raw_sample \<Rightarrow> f64 option" where
  "interpolate boundary left right =
     (case checked_sub boundary (rs_ts left) of None \<Rightarrow> None
      | Some before_boundary \<Rightarrow> (case checked_sub (rs_ts right) boundary of None \<Rightarrow> None
        | Some after_boundary \<Rightarrow> (case checked_add before_boundary after_boundary of None \<Rightarrow> None
          | Some span_ms \<Rightarrow>
              if span_ms \<le> 0 then None
              else let alpha = f64_div (f64_of_int before_boundary) (f64_of_int span_ms) in
                Some (f64_add (f64_of_u64 (rs_value left))
                  (f64_mul alpha
                    (f64_sub (f64_of_u64 (rs_value right)) (f64_of_u64 (rs_value left))))))))"

definition interpolate_boundary ::
  "sample_buffer \<Rightarrow> timestamp_ms \<Rightarrow> timestamp_ms \<Rightarrow> timestamp_ms \<Rightarrow> f64 option" where
  "interpolate_boundary b boundary left_min right_max =
     (case find (\<lambda>s. rs_ts s = boundary) (sb_samples b) of
        Some s \<Rightarrow> Some (f64_of_u64 (rs_value s))
      | None \<Rightarrow>
          (case scan_neighbours boundary left_min right_max None (sb_samples b) of
             (Some left, Some right) \<Rightarrow> interpolate boundary left right
           | _ \<Rightarrow> None))"

definition bucket_points ::
  "sample_buffer \<Rightarrow> timestamp_ms \<Rightarrow> timestamp_ms \<Rightarrow> int \<Rightarrow> (timestamp_ms \<times> f64) list option" where
  "bucket_points b bucket_start bucket_end bucket_len_ms =
     (if bucket_end \<le> bucket_start \<or> bucket_len_ms \<le> 0 then None
      else case checked_sub bucket_start bucket_len_ms of None \<Rightarrow> None
      | Some previous_bucket_start \<Rightarrow> (case checked_add bucket_end bucket_len_ms of None \<Rightarrow> None
        | Some next_bucket_end \<Rightarrow>
            (case interpolate_boundary b bucket_start previous_bucket_start bucket_end of None \<Rightarrow> None
             | Some start_value \<Rightarrow>
                 (case interpolate_boundary b bucket_end bucket_start next_bucket_end of None \<Rightarrow> None
                  | Some end_value \<Rightarrow>
                      if \<not> list_ex (\<lambda>s. bucket_start < rs_ts s \<and> rs_ts s \<le> bucket_end) (sb_samples b)
                      then None
                      else Some ((bucket_start, start_value)
                        # map (\<lambda>s. (rs_ts s, f64_of_u64 (rs_value s)))
                            (filter (\<lambda>s. bucket_start < rs_ts s \<and> rs_ts s < bucket_end) (sb_samples b))
                        @ [(bucket_end, end_value)])))))"

definition round_to_u64 :: "f64 \<Rightarrow> u64 option" where
  "round_to_u64 v =
     (if \<not> f64_is_finite v \<or> f64_lt v (Fin 0) \<or> f64_lt (f64_of_u64 (- 1)) v then None
      else Some (f64_to_u64 (f64_round v)))"

section \<open>The bucketizers\<close>

text \<open>The three structs have the same two fields; what differs is \<open>collect\<close>.\<close>

record bucketizer =
  bk_buffer :: sample_buffer
  bk_len :: u64

definition bk_new :: "nat \<Rightarrow> u64 \<Rightarrow> bucketizer" where
  "bk_new capacity bucket_len_ms = \<lparr>bk_buffer = sb_new capacity, bk_len = bucket_len_ms\<rparr>"

definition bk_push :: "bucketizer \<Rightarrow> timestamp_ms \<Rightarrow> u64 \<Rightarrow> bucketizer" where
  "bk_push k ts value = k\<lparr>bk_buffer := sb_push (bk_buffer k) ts value\<rparr>"

text \<open>The trapezoid sum over the windows of two points.\<close>

fun trapezoids :: "f64 \<Rightarrow> (timestamp_ms \<times> f64) list \<Rightarrow> f64 option" where
  "trapezoids integral ((left_ts, left_value) # (right_ts, right_value) # rest) =
     (case checked_sub right_ts left_ts of None \<Rightarrow> None
      | Some dt \<Rightarrow>
          if dt \<le> 0 then None
          else trapezoids
            (f64_add integral
              (f64_mul (f64_mul (f64_add left_value right_value) (Fin (1 / 2))) (f64_of_int dt)))
            ((right_ts, right_value) # rest))"
| "trapezoids integral _ = Some integral"

definition gauge_collect :: "bucketizer \<Rightarrow> timestamp_ms \<Rightarrow> u64 option" where
  "gauge_collect k bucket_end =
     (if sb_is_empty (bk_buffer k) \<or> bk_len k = 0 then None
      else case i64_of_u64 (bk_len k) of None \<Rightarrow> None
      | Some len \<Rightarrow> (case checked_sub bucket_end len of None \<Rightarrow> None
        | Some bucket_start \<Rightarrow>
            (case bucket_points (bk_buffer k) bucket_start bucket_end len of None \<Rightarrow> None
             | Some points \<Rightarrow> (case trapezoids (Fin 0) points of None \<Rightarrow> None
               | Some integral \<Rightarrow> round_to_u64 (f64_div integral (f64_of_int len))))))"

definition max_collect :: "bucketizer \<Rightarrow> timestamp_ms \<Rightarrow> u64 option" where
  "max_collect k bucket_end =
     (case i64_of_u64 (bk_len k) of None \<Rightarrow> None
      | Some len \<Rightarrow> (case checked_sub bucket_end len of None \<Rightarrow> None
        | Some bucket_start \<Rightarrow> max_in (bk_buffer k) bucket_start bucket_end))"

text \<open>\<open>Iterator::position\<close> and \<open>rposition\<close>.\<close>

fun position :: "('a \<Rightarrow> bool) \<Rightarrow> 'a list \<Rightarrow> nat option" where
  "position p [] = None"
| "position p (x # xs) = (if p x then Some 0 else map_option Suc (position p xs))"

fun rposition :: "('a \<Rightarrow> bool) \<Rightarrow> 'a list \<Rightarrow> nat option" where
  "rposition p [] = None"
| "rposition p (x # xs) =
     (case rposition p xs of Some i \<Rightarrow> Some (Suc i) | None \<Rightarrow> if p x then Some 0 else None)"

fun non_decreasing :: "raw_sample list \<Rightarrow> bool" where
  "non_decreasing (a # b # rest) = (rs_value a \<le> rs_value b \<and> non_decreasing (b # rest))"
| "non_decreasing _ = True"

definition counter_collect :: "bucketizer \<Rightarrow> timestamp_ms \<Rightarrow> u64 option" where
  "counter_collect k bucket_end =
     (if sb_is_empty (bk_buffer k) \<or> bk_len k = 0 then None
      else case i64_of_u64 (bk_len k) of None \<Rightarrow> None
      | Some len \<Rightarrow> (case checked_sub bucket_end len of None \<Rightarrow> None
        | Some bucket_start \<Rightarrow> (case checked_sub bucket_start len of None \<Rightarrow> None
          | Some previous_bucket_start \<Rightarrow> (case checked_add bucket_end len of None \<Rightarrow> None
            | Some next_bucket_end \<Rightarrow>
                (let samples = sb_samples (bk_buffer k) in
                 case rposition (\<lambda>s. previous_bucket_start < rs_ts s \<and> rs_ts s \<le> bucket_start) samples of
                   None \<Rightarrow> None
                 | Some start_index \<Rightarrow>
                     (case position (\<lambda>s. bucket_end \<le> rs_ts s \<and> rs_ts s \<le> next_bucket_end) samples of
                        None \<Rightarrow> None
                      | Some end_index \<Rightarrow>
                          if end_index < start_index then None
                          else if \<not> non_decreasing (drop start_index (take (Suc end_index) samples))
                          then None
                          else (case bucket_points (bk_buffer k) bucket_start bucket_end len of
                                  None \<Rightarrow> None
                                | Some [] \<Rightarrow> None
                                | Some (p # ps) \<Rightarrow>
                                    let start_v = snd p; end_v = snd (last (p # ps)) in
                                    if f64_lt end_v start_v then None
                                    else round_to_u64
                                      (f64_div
                                        (f64_mul
                                          (f64_mul (f64_sub end_v start_v) (f64_of_int counter_rate_scale))
                                          (f64_of_int 1000))
                                        (f64_of_int len)))))))))"

section \<open>The buffer: invariant and refinement\<close>

definition time_sorted :: "raw_sample list \<Rightarrow> bool" where
  "time_sorted ss = sorted_wrt (<) (map rs_ts ss)"

definition sb_inv :: "sample_buffer \<Rightarrow> bool" where
  "sb_inv b \<longleftrightarrow> time_sorted (sb_samples b) \<and> length (sb_samples b) \<le> sb_capacity b"

text \<open>What the buffer accepts of an input stream: the samples later than every accepted one.\<close>

fun accept :: "timestamp_ms option \<Rightarrow> (timestamp_ms \<times> u64) list \<Rightarrow> raw_sample list" where
  "accept latest [] = []"
| "accept latest ((ts, v) # rest) =
     (if (case latest of None \<Rightarrow> False | Some l \<Rightarrow> ts \<le> l) then accept latest rest
      else \<lparr>rs_ts = ts, rs_value = v\<rparr> # accept (Some ts) rest)"

definition keep_last :: "nat \<Rightarrow> 'a list \<Rightarrow> 'a list" where
  "keep_last n xs = drop (length xs - n) xs"

definition sb_push_all :: "sample_buffer \<Rightarrow> (timestamp_ms \<times> u64) list \<Rightarrow> sample_buffer" where
  "sb_push_all b xs = foldl (\<lambda>c (ts, v). sb_push c ts v) b xs"

lemma pop_excess_eq: "pop_excess cap xs = keep_last cap xs"
  by (induction xs) (auto simp: keep_last_def Suc_diff_le)

lemma length_keep_last [simp]: "length (keep_last n xs) = min n (length xs)"
  by (simp add: keep_last_def)

lemma keep_last_short [simp]: "length xs \<le> n \<Longrightarrow> keep_last n xs = xs"
  by (simp add: keep_last_def)

lemma keep_last_append: "keep_last n (keep_last n xs @ ys) = keep_last n (xs @ ys)"
  by (cases "length xs \<le> n") (simp_all add: keep_last_def add.commute)

lemma last_keep_last: "0 < n \<Longrightarrow> xs \<noteq> [] \<Longrightarrow> last (keep_last n xs) = last xs"
  by (simp add: keep_last_def)

lemma keep_last_eq_Nil: "keep_last n xs = [] \<longleftrightarrow> n = 0 \<or> xs = []"
  by (cases xs) (auto simp: keep_last_def)

lemma time_sorted_keep_last [simp]: "time_sorted ss \<Longrightarrow> time_sorted (keep_last n ss)"
  by (simp add: time_sorted_def keep_last_def drop_map [symmetric] sorted_wrt_drop)

lemma sb_push_capacity [simp]: "sb_capacity (sb_push b ts v) = sb_capacity b"
  by (simp add: sb_push_def)

lemma sb_push_new: "sb_new c = \<lparr>sb_capacity = c, sb_samples = []\<rparr>"
  by (simp add: sb_new_def)

lemma time_sorted_drop [simp]: "time_sorted ss \<Longrightarrow> time_sorted (drop n ss)"
  by (simp add: time_sorted_def drop_map [symmetric] sorted_wrt_drop)

lemma time_sorted_Cons [simp]:
  "time_sorted (s # ss) \<longleftrightarrow> (\<forall>t \<in> set ss. rs_ts s < rs_ts t) \<and> time_sorted ss"
  by (simp add: time_sorted_def)

lemma time_sorted_Nil [simp]: "time_sorted []"
  by (simp add: time_sorted_def)

lemma time_sorted_append:
  "time_sorted (xs @ ys) \<longleftrightarrow>
     time_sorted xs \<and> time_sorted ys \<and> (\<forall>x \<in> set xs. \<forall>y \<in> set ys. rs_ts x < rs_ts y)"
  by (induction xs) auto

lemma time_sorted_last:
  assumes "time_sorted ss" "s \<in> set ss"
  shows "rs_ts s \<le> rs_ts (last ss)"
  using assms
proof (induction ss)
  case (Cons x ss)
  then show ?case by (cases "ss = []") (auto intro: less_imp_le)
qed simp

lemma sb_inv_new [simp]: "sb_inv (sb_new c)"
  by (simp add: sb_inv_def sb_new_def)

lemma sb_inv_push [simp]:
  assumes "sb_inv b"
  shows "sb_inv (sb_push b ts v)"
proof -
  let ?n = "\<lparr>rs_ts = ts, rs_value = v\<rparr>"
  show ?thesis
  proof (cases "sb_capacity b = 0 \<or> sb_samples b \<noteq> [] \<and> ts \<le> rs_ts (last (sb_samples b))")
    case True
    then have "sb_push b ts v = b" by (auto simp: sb_push_def)
    with assms show ?thesis by simp
  next
    case False
    then have "time_sorted (sb_samples b @ [?n])"
      using assms time_sorted_last [of "sb_samples b"]
      by (fastforce simp: time_sorted_append sb_inv_def)
    with False show ?thesis by (auto simp: sb_inv_def sb_push_def pop_excess_eq)
  qed
qed

lemma sb_push_all_Nil [simp]: "sb_push_all b [] = b"
  by (simp add: sb_push_all_def)

lemma sb_push_all_Cons [simp]: "sb_push_all b ((ts, v) # xs) = sb_push_all (sb_push b ts v) xs"
  by (simp add: sb_push_all_def)

text \<open>The history \<open>h\<close> is what was accepted so far; the buffer shows its last \<open>capacity\<close> samples.\<close>

lemma sb_push_all_accept:
  assumes "0 < sb_capacity b" "sb_samples b = keep_last (sb_capacity b) h"
  shows "sb_samples (sb_push_all b xs) =
    keep_last (sb_capacity b) (h @ accept (if h = [] then None else Some (rs_ts (last h))) xs)"
  using assms
proof (induction xs arbitrary: b h)
  case (Cons x xs)
  obtain ts v where x: "x = (ts, v)" by fastforce
  have nil: "sb_samples b = [] \<longleftrightarrow> h = []"
    using Cons.prems by (simp add: keep_last_eq_Nil)
  have lst: "h \<noteq> [] \<Longrightarrow> last (sb_samples b) = last h"
    using Cons.prems by (simp add: last_keep_last)
  show ?case
  proof (cases "h \<noteq> [] \<and> ts \<le> rs_ts (last h)")
    case True
    then have "sb_push b ts v = b" using nil lst by (simp add: sb_push_def)
    with Cons.IH [OF Cons.prems] True show ?thesis by (simp add: x)
  next
    case False
    then have s: "sb_samples (sb_push b ts v) =
        keep_last (sb_capacity b) (h @ [\<lparr>rs_ts = ts, rs_value = v\<rparr>])"
      using nil lst Cons.prems by (auto simp: sb_push_def pop_excess_eq keep_last_append)
    have "sb_samples (sb_push_all (sb_push b ts v) xs) =
        keep_last (sb_capacity b)
          ((h @ [\<lparr>rs_ts = ts, rs_value = v\<rparr>]) @ accept (Some ts) xs)"
      using Cons.IH [of "sb_push b ts v" "h @ [\<lparr>rs_ts = ts, rs_value = v\<rparr>]"] Cons.prems(1) s
      by simp
    with False show ?thesis by (auto simp: x)
  qed
qed simp

lemma sb_push_all_inv: "sb_inv b \<Longrightarrow> sb_inv (sb_push_all b xs)"
  by (induction xs arbitrary: b) auto

lemma accept_from_stream: "x \<in> set (accept l xs) \<Longrightarrow> (rs_ts x, rs_value x) \<in> set xs"
  by (induction l xs rule: accept.induct) (auto split: if_splits)

lemma sb_push_all_accept_new:
  "sb_samples (sb_push_all (sb_new capacity) xs) = keep_last capacity (accept None xs)"
proof (cases "capacity = 0")
  case True
  have "sb_push_all b xs = b" if "sb_capacity b = 0" for b
    using that by (induction xs) (auto simp: sb_push_def)
  with True show ?thesis by (simp add: sb_new_def keep_last_def)
next
  case False
  then show ?thesis
    using sb_push_all_accept [of "sb_new capacity" "[]" xs] by (simp add: sb_new_def)
qed

text \<open>
  C12. The buffer after any stream of pushes holds the last \<open>capacity\<close> of the accepted samples, the
  accepted ones being those later than every sample accepted before: late and duplicate samples
  leave no trace, and eviction is first in, first out.
\<close>

theorem sb_push_all_refines:
  "sb_samples (sb_push_all (sb_new capacity) xs) = keep_last capacity (accept None xs)
    \<and> sb_inv (sb_push_all (sb_new capacity) xs)"
  by (simp add: sb_push_all_accept_new sb_push_all_inv)

section \<open>Bucket points\<close>

lemma bucket_points_Some:
  assumes "bucket_points b s e len = Some pts"
  obtains sv ev where
    "s < e" "0 < len" "in_i64 (s - len)" "in_i64 (e + len)"
    "interpolate_boundary b s (s - len) e = Some sv"
    "interpolate_boundary b e s (e + len) = Some ev"
    "\<exists>x \<in> set (sb_samples b). s < rs_ts x \<and> rs_ts x \<le> e"
    "pts = (s, sv) # map (\<lambda>x. (rs_ts x, f64_of_u64 (rs_value x)))
        (filter (\<lambda>x. s < rs_ts x \<and> rs_ts x < e) (sb_samples b)) @ [(e, ev)]"
  using assms
  by (auto simp: bucket_points_def list_ex_iff split: if_splits option.splits)

lemma time_sorted_filter [simp]: "time_sorted ss \<Longrightarrow> time_sorted (filter P ss)"
  by (induction ss) auto

lemma bucket_points_ordered:
  assumes "sb_inv b" "bucket_points b s e len = Some pts"
  shows "sorted_wrt (<) (map fst pts) \<and> fst (hd pts) = s \<and> fst (last pts) = e
     \<and> map fst (butlast (tl pts)) =
         filter (\<lambda>t. s < t \<and> t < e) (map rs_ts (sb_samples b))
     \<and> (\<exists>x \<in> set (sb_samples b). s < rs_ts x \<and> rs_ts x \<le> e)"
proof -
  from assms(2) obtain sv ev where
    "s < e" and ex: "\<exists>x \<in> set (sb_samples b). s < rs_ts x \<and> rs_ts x \<le> e" and
    pts: "pts = (s, sv) # map (\<lambda>x. (rs_ts x, f64_of_u64 (rs_value x)))
        (filter (\<lambda>x. s < rs_ts x \<and> rs_ts x < e) (sb_samples b)) @ [(e, ev)]"
    by (rule bucket_points_Some)
  have "time_sorted (filter (\<lambda>x. s < rs_ts x \<and> rs_ts x < e) (sb_samples b))"
    using assms(1) by (simp add: sb_inv_def)
  then have "sorted_wrt (<) (map fst pts)"
    using \<open>s < e\<close> by (simp add: pts sorted_wrt_append time_sorted_def comp_def)
  then show ?thesis using ex by (simp add: pts comp_def filter_map)
qed

text \<open>
  The points of a bucket start and end on its two boundaries, are strictly ordered in time, and
  between the boundaries are exactly the raw samples strictly inside the bucket; and there are
  points only when a real sample lies in the half-open bucket window.
\<close>

theorem bucket_points_shape:
  assumes "sb_inv b" "bucket_points b s e len = Some pts"
  shows "sorted_wrt (<) (map fst pts) \<and> fst (hd pts) = s \<and> fst (last pts) = e
     \<and> map fst (butlast (tl pts)) =
         filter (\<lambda>t. s < t \<and> t < e) (map rs_ts (sb_samples b))
     \<and> (\<exists>x \<in> set (sb_samples b). s < rs_ts x \<and> rs_ts x \<le> e)"
  using bucket_points_ordered [OF assms] .

section \<open>Floats between bounds\<close>

text \<open>\<open>v\<close> is finite and lies between \<open>lo\<close> and \<open>hi\<close>.\<close>

definition f64_within :: "rat \<Rightarrow> rat \<Rightarrow> f64 \<Rightarrow> bool" where
  "f64_within lo hi v \<longleftrightarrow> (\<exists>r. v = Fin r \<and> lo \<le> r \<and> r \<le> hi)"

text \<open>Bounds that rounding keeps: exact and far from overflow.\<close>

definition exact_bound :: "rat \<Rightarrow> bool" where
  "exact_bound x \<longleftrightarrow> rnd x = x \<and> \<bar>x\<bar> \<le> 2 ^ 64"

lemma exact_bound_int: "\<bar>m\<bar> < 2 ^ 53 \<Longrightarrow> exact_bound (of_int m)"
proof -
  assume m: "\<bar>m\<bar> < 2 ^ 53"
  then have "(of_int \<bar>m\<bar> :: rat) \<le> of_int (2 ^ 64)" by (simp only: of_int_le_iff) simp
  with m show ?thesis by (simp add: exact_bound_def rnd_of_int)
qed

lemma f64_within_round:
  assumes "lo \<le> x" "x \<le> hi" "exact_bound lo" "exact_bound hi"
  shows "f64_within lo hi (f64_of_rat x)"
proof -
  have "\<bar>x\<bar> \<le> 2 ^ 64" using assms by (auto simp: exact_bound_def abs_le_iff)
  then have "f64_of_rat x = Fin (rnd x)"
    by (intro f64_of_rat_Fin abs_le_2_1023I [of _ 64]) simp_all
  moreover have "rnd lo \<le> rnd x" "rnd x \<le> rnd hi" using assms by (auto intro: rnd_mono)
  ultimately show ?thesis using assms by (simp add: f64_within_def exact_bound_def)
qed

lemma f64_within_mono: "f64_within a b v \<Longrightarrow> c \<le> a \<Longrightarrow> b \<le> d \<Longrightarrow> f64_within c d v"
  by (auto simp: f64_within_def)

lemma f64_within_u64:
  assumes "lo \<le> uint n" "uint n \<le> hi" "\<bar>hi\<bar> < 2 ^ 53"
  shows "f64_within (of_int lo) (of_int hi) (f64_of_u64 n)"
proof -
  have "0 \<le> uint n" by simp
  with assms have "uint n < 2 ^ 53" by linarith
  moreover have "(of_int lo :: rat) \<le> of_int (uint n)" "(of_int (uint n) :: rat) \<le> of_int hi"
    using assms(1,2) by (simp_all only: of_int_le_iff)
  ultimately show ?thesis by (auto simp: f64_within_def f64_of_u64_exact simp del: of_int_uint)
qed

lemma f64_within_add:
  assumes "f64_within a b u" "f64_within c d v" "exact_bound (a + c)" "exact_bound (b + d)"
  shows "f64_within (a + c) (b + d) (f64_add u v)"
proof -
  from assms obtain x y where "u = Fin x" "v = Fin y" "a \<le> x" "x \<le> b" "c \<le> y" "y \<le> d"
    by (auto simp: f64_within_def)
  then show ?thesis using assms(3,4) f64_within_round [of "a + c" "x + y" "b + d"] by simp
qed

lemma f64_within_scale:
  assumes "f64_within a b u" "0 \<le> c" "exact_bound (a * c)" "exact_bound (b * c)"
  shows "f64_within (a * c) (b * c) (f64_mul u (Fin c))"
proof -
  from assms obtain x where "u = Fin x" "a \<le> x" "x \<le> b" by (auto simp: f64_within_def)
  then show ?thesis
    using assms(2-4) f64_within_round [of "a * c" "x * c" "b * c"] by (simp add: mult_right_mono)
qed

section \<open>Interpolation stays between its neighbours\<close>

lemma f64_of_int_pos:
  assumes "0 < n" "n \<le> 2 ^ 63"
  shows "f64_of_int n = Fin (rnd (of_int n)) \<and> 1 \<le> rnd (of_int n)"
proof -
  have "(of_int n :: rat) \<le> of_int (2 ^ 63)" "(of_int 1 :: rat) \<le> of_int n"
    using assms by (simp_all only: of_int_le_iff)
  then have b: "\<bar>of_int n :: rat\<bar> \<le> 2 ^ 63" "(1 :: rat) \<le> of_int n" by simp_all
  have "rnd 1 = (1 :: rat)" using rnd_of_int [of 1] by simp
  then have "1 \<le> rnd (of_int n)" using rnd_mono [OF b(2)] by simp
  moreover have "f64_of_int n = Fin (rnd (of_int n))"
    unfolding f64_of_int_def using b(1) by (intro f64_of_rat_Fin abs_le_2_1023I [of _ 63]) simp_all
  ultimately show ?thesis by simp
qed

lemma interpolate_within:
  assumes ip: "interpolate t l r = Some v" and t: "rs_ts l < t" "t < rs_ts r"
    and l: "lo \<le> uint (rs_value l)" "uint (rs_value l) \<le> hi"
    and r: "lo \<le> uint (rs_value r)" "uint (rs_value r) \<le> hi" and hi: "hi < 2 ^ 53"
  shows "f64_within (of_int lo) (of_int hi) v"
proof -
  define x where "x = uint (rs_value l)"
  define y where "y = uint (rs_value r)"
  have xy: "0 \<le> x" "0 \<le> y" "x < 2 ^ 53" "y < 2 ^ 53" "lo \<le> x" "x \<le> hi" "lo \<le> y" "y \<le> hi"
    using l r hi by (simp_all add: x_def y_def)
  let ?a = "t - rs_ts l" and ?n = "rs_ts r - rs_ts l"
  have n: "in_i64 ?n" "0 < ?a" "?a \<le> ?n" and
    v: "v = f64_add (f64_of_int x) (f64_mul (f64_div (f64_of_int ?a) (f64_of_int ?n))
          (f64_sub (f64_of_int y) (f64_of_int x)))"
    using ip t by (auto simp: interpolate_def f64_of_u64_def x_def y_def Let_def split: if_splits option.splits)
  from n(1) have "?n \<le> 2 ^ 63" using in_i64D(2) by fastforce
  with n have fa: "f64_of_int ?a = Fin (rnd (of_int ?a))" "1 \<le> rnd (of_int ?a)"
    and fn: "f64_of_int ?n = Fin (rnd (of_int ?n))" "1 \<le> rnd (of_int ?n)"
    using f64_of_int_pos [of ?a] f64_of_int_pos [of ?n] by simp_all
  have "rnd (of_int ?a) \<le> rnd (of_int ?n)" using n(3) by (intro rnd_mono) (simp only: of_int_le_iff)
  with fa(2) fn(2) have q: "0 \<le> rnd (of_int ?a) / rnd (of_int ?n)" "rnd (of_int ?a) / rnd (of_int ?n) \<le> 1"
    by simp_all
  have eb: "exact_bound 0" "exact_bound 1" using exact_bound_int [of 0] exact_bound_int [of 1] by simp_all
  obtain al where al: "f64_div (f64_of_int ?a) (f64_of_int ?n) = Fin al" "0 \<le> al" "al \<le> 1"
    using f64_within_round [OF q eb] fa(1) fn by (auto simp: f64_within_def)
  have d: "f64_sub (f64_of_int y) (f64_of_int x) = Fin (of_int (y - x))"
    using xy f64_of_rat_int [of "y - x"] by (simp add: f64_sub_def f64_of_int_exact)
  have mb: "exact_bound (of_int (min 0 (y - x)))" "exact_bound (of_int (max 0 (y - x)))"
    using xy by (auto intro!: exact_bound_int)
  have "of_int (min 0 (y - x)) \<le> al * of_int (y - x) \<and> al * of_int (y - x) \<le> of_int (max 0 (y - x))"
  proof (cases "0 \<le> y - x")
    case True
    then have "(0 :: rat) \<le> of_int (y - x)" by (simp only: of_int_0_le_iff)
    with al(2,3) True show ?thesis
      using mult_right_mono [of al 1 "of_int (y - x) :: rat"] by simp
  next
    case False
    then have "of_int (y - x) \<le> (0 :: rat)" by (simp only: of_int_le_0_iff)
    with al(2,3) False show ?thesis
      using mult_right_mono_neg [of al 1 "of_int (y - x) :: rat"]
      by (simp add: mult_nonneg_nonpos)
  qed
  then have m: "f64_within (of_int (min 0 (y - x))) (of_int (max 0 (y - x))) (f64_of_rat (al * of_int (y - x)))"
    using mb by (intro f64_within_round) simp_all
  have fx: "f64_within (of_int x) (of_int x) (f64_of_int x)"
    using xy by (simp add: f64_of_int_exact f64_within_def)
  have "f64_within (of_int x + of_int (min 0 (y - x))) (of_int x + of_int (max 0 (y - x))) v"
    unfolding v al(1) d f64_mul.simps
  proof (rule f64_within_add [OF fx m])
    show "exact_bound (of_int x + of_int (min 0 (y - x)))"
      using exact_bound_int [of "x + min 0 (y - x)"] xy by simp
    show "exact_bound (of_int x + of_int (max 0 (y - x)))"
      using exact_bound_int [of "x + max 0 (y - x)"] xy by simp
  qed
  then show ?thesis
    by (rule f64_within_mono) (simp_all only: of_int_add [symmetric] of_int_le_iff, use xy in auto)
qed

section \<open>Gauge buckets stay within their samples\<close>

text \<open>The samples a bucket may look at: the bucket and its two neighbours.\<close>

definition sb_window :: "sample_buffer \<Rightarrow> timestamp_ms \<Rightarrow> timestamp_ms \<Rightarrow> raw_sample set" where
  "sb_window b start end = {x \<in> set (sb_samples b). start < rs_ts x \<and> rs_ts x \<le> end}"

lemma scan_neighbours_Some:
  assumes "scan_neighbours t l r left ss = (Some a, Some b)"
  shows "(left = Some a \<or> a \<in> set ss \<and> l < rs_ts a \<and> rs_ts a < t)
    \<and> b \<in> set ss \<and> t < rs_ts b \<and> rs_ts b \<le> r"
  using assms by (induction ss arbitrary: left) (auto simp: Let_def split: if_splits)

lemma interpolate_boundary_within:
  assumes "interpolate_boundary b t l r = Some v" "l < t" "t \<le> r"
    and "\<And>x. x \<in> sb_window b l r \<Longrightarrow> lo \<le> uint (rs_value x) \<and> uint (rs_value x) \<le> hi"
    and "0 \<le> hi" "hi < 2 ^ 53"
  shows "f64_within (of_int lo) (of_int hi) v"
proof (cases "find (\<lambda>s. rs_ts s = t) (sb_samples b)")
  case None
  with assms(1) obtain x y where
    s: "scan_neighbours t l r None (sb_samples b) = (Some x, Some y)" and ip: "interpolate t x y = Some v"
    by (auto simp: interpolate_boundary_def split: prod.splits option.splits)
  from scan_neighbours_Some [OF s] assms(2,3) have "x \<in> sb_window b l r" "y \<in> sb_window b l r"
    "rs_ts x < t" "t < rs_ts y" by (auto simp: sb_window_def)
  with ip assms(4,6) show ?thesis by (intro interpolate_within [of t x y]) auto
next
  case (Some s)
  then have "s \<in> set (sb_samples b)" "rs_ts s = t" by (auto simp: find_Some_iff)
  with assms(2,3) have "s \<in> sb_window b l r" by (simp add: sb_window_def)
  with assms(1,4-6) Some show ?thesis
    by (auto simp: interpolate_boundary_def intro!: f64_within_u64)
qed

lemma trapezoids_within:
  assumes "sorted_wrt (<) (map fst pts)" "pts \<noteq> []"
    and "\<forall>p \<in> set pts. f64_within (of_int lo) (of_int hi) (snd p)"
    and "0 \<le> lo" "hi < 2 ^ 52" "0 \<le> el" "lo \<le> hi"
    and "hi * (el + (fst (last pts) - fst (hd pts))) < 2 ^ 53"
    and "el + (fst (last pts) - fst (hd pts)) < 2 ^ 53"
    and "f64_within (of_int (lo * el)) (of_int (hi * el)) acc"
  shows "\<exists>v. trapezoids acc pts = Some v \<and>
    f64_within (of_int (lo * (el + (fst (last pts) - fst (hd pts)))))
      (of_int (hi * (el + (fst (last pts) - fst (hd pts))))) v"
  using assms
proof (induction acc pts arbitrary: el rule: trapezoids.induct)
  case (1 acc t u t' u' rest)
  define dt where "dt = t' - t"
  have lst: "t' \<le> fst (last ((t', u') # rest))"
    using "1.prems"(1) by (cases "rest = []") (auto simp: sorted_wrt_append intro: less_imp_le)
  from "1.prems"(1) have dt: "0 < dt" by (simp add: dt_def)
  have le: "el + dt \<le> el + (fst (last ((t', u') # rest)) - t)" using lst by (simp add: dt_def)
  have dt53: "dt < 2 ^ 53" "el + dt < 2 ^ 53" using le "1.prems"(6,9) dt by auto
  have hi0: "0 \<le> hi" using "1.prems"(4,7) by simp
  have "hi * (el + dt) \<le> hi * (el + (fst (last ((t', u') # rest)) - t))"
    using le hi0 by (rule mult_left_mono)
  with "1.prems"(8) have h53: "hi * (el + dt) < 2 ^ 53" by simp
  have l53: "0 \<le> lo * (el + dt)" "lo * (el + dt) \<le> hi * (el + dt)"
    using "1.prems"(4,6,7) dt by (auto intro: mult_right_mono)
  have e1: "0 \<le> lo * dt" "lo * dt \<le> hi * dt" "hi * dt \<le> hi * (el + dt)"
    using "1.prems"(4,6,7) dt hi0 by (auto intro: mult_right_mono mult_left_mono)
  have "f64_within (of_int lo + of_int lo) (of_int hi + of_int hi) (f64_add u u')"
    using "1.prems"(3,4,5,7) exact_bound_int [of "lo + lo"] exact_bound_int [of "hi + hi"]
    by (intro f64_within_add) simp_all
  then have "f64_within ((of_int lo + of_int lo) * (1 / 2)) ((of_int hi + of_int hi) * (1 / 2))
      (f64_mul (f64_add u u') (Fin (1 / 2)))"
    using "1.prems"(4,5,7) exact_bound_int [of lo] exact_bound_int [of hi]
    by (intro f64_within_scale) simp_all
  then have m: "f64_within (of_int lo) (of_int hi) (f64_mul (f64_add u u') (Fin (1 / 2)))" by simp
  have "f64_within (of_int lo * of_int dt) (of_int hi * of_int dt)
      (f64_mul (f64_mul (f64_add u u') (Fin (1 / 2))) (Fin (of_int dt)))"
  proof (rule f64_within_scale [OF m])
    have "\<bar>lo * dt\<bar> < 2 ^ 53" "\<bar>hi * dt\<bar> < 2 ^ 53" using e1 h53 by linarith+
    then show "exact_bound (of_int lo * of_int dt)" "exact_bound (of_int hi * of_int dt)"
      using exact_bound_int [of "lo * dt"] exact_bound_int [of "hi * dt"] by simp_all
  qed (use dt in simp)
  then have "f64_within (of_int (lo * el) + of_int lo * of_int dt) (of_int (hi * el) + of_int hi * of_int dt)
      (f64_add acc (f64_mul (f64_mul (f64_add u u') (Fin (1 / 2))) (Fin (of_int dt))))"
    using l53 h53 exact_bound_int [of "lo * (el + dt)"] exact_bound_int [of "hi * (el + dt)"]
    by (intro f64_within_add [OF "1.prems"(10)]) (simp_all add: algebra_simps)
  then have acc: "f64_within (of_int (lo * (el + dt))) (of_int (hi * (el + dt)))
      (f64_add acc (f64_mul (f64_mul (f64_add u u') (Fin (1 / 2))) (f64_of_int dt)))"
    using dt dt53 by (simp add: f64_of_int_exact algebra_simps)
  have c: "checked_sub t' t = Some dt" using dt dt53 by (auto simp: dt_def)
  from "1.IH" [OF c, of "el + dt"] "1.prems" acc dt show ?case
    by (simp add: c dt_def add.assoc)
qed auto

lemma round_to_u64_within:
  assumes "f64_within (of_int lo) (of_int hi) v" "0 \<le> lo" "hi < 2 ^ 53"
  shows "\<exists>n. round_to_u64 v = Some n \<and> lo \<le> uint n \<and> uint n \<le> hi"
proof -
  from assms(1) obtain r where r: "v = Fin r" "of_int lo \<le> r" "r \<le> of_int hi"
    by (auto simp: f64_within_def)
  have "(0 :: rat) \<le> of_int lo" using assms(2) by (simp only: of_int_0_le_iff)
  with r have r0: "0 \<le> r" by linarith
  define k where "k = round_away r"
  have k: "lo \<le> k" "k \<le> hi" using r r0 by (auto simp: k_def round_away_def le_floor_iff floor_le_iff)
  have mx: "f64_of_u64 (- 1) = Fin (2 ^ 64)" by code_simp
  have "(of_int hi :: rat) < of_int (2 ^ 53)" using assms(3) by (simp only: of_int_less_iff)
  with r have nlt: "\<not> f64_lt v (Fin 0)" "\<not> f64_lt (f64_of_u64 (- 1)) v" using r0 by (simp_all add: mx)
  have "(2 :: int) ^ 53 < 2 ^ 64" by simp
  then have "k < 2 ^ 64" using k(2) assms(3) by linarith
  then have "(of_int k :: rat) < of_int (2 ^ 64)" by (simp only: of_int_less_iff)
  then have "f64_to_u64 (f64_round v) = word_of_int k"
    using k assms(2) r(1) by (cases "k = 0") (auto simp: k_def [symmetric] not_le)
  moreover have "uint (word_of_int k :: u64) = k"
    using k assms(2,3) by (simp add: uint_word_of_int)
  ultimately show ?thesis using k r(1) nlt by (simp add: round_to_u64_def)
qed

text \<open>
  Ready-made for the three bucketizers: what a successful \<open>collect\<close> went through.
\<close>

lemma gauge_collect_eq:
  assumes "0 < uint (bk_len k)"
  shows "gauge_collect k e =
    (if uint (bk_len k) \<le> i64_max \<and> in_i64 (e - uint (bk_len k)) then
       (case bucket_points (bk_buffer k) (e - uint (bk_len k)) e (uint (bk_len k)) of None \<Rightarrow> None
        | Some pts \<Rightarrow> (case trapezoids (Fin 0) pts of None \<Rightarrow> None
          | Some v \<Rightarrow> round_to_u64 (f64_div v (f64_of_int (uint (bk_len k))))))
     else None)"
proof -
  have "bk_len k \<noteq> 0" using assms by auto
  moreover have "bucket_points b s e l = None" if "sb_samples b = []" for b s e l
    using that by (auto simp: bucket_points_def split: option.splits)
  ultimately show ?thesis
    by (auto simp: gauge_collect_def sb_is_empty_def i64_of_u64_def checked_sub_def)
qed

text \<open>
  C16. A gauge bucket that has its boundary values always closes with a value, and this value, after
  all float roundings of interpolation, trapezoid sum and mean, lies between any bounds of the
  raw samples in the bucket and its two neighbours, as long as the upper bound times the bucket
  length stays below \<open>2 ^ 53\<close>. For equal bounds: a constant gauge is reported exactly.
\<close>

theorem gauge_collect_within:
  assumes inv: "sb_inv (bk_buffer k)" and len: "2 \<le> uint (bk_len k)"
    and bp: "bucket_points (bk_buffer k) (e - uint (bk_len k)) e (uint (bk_len k)) \<noteq> None"
    and i64: "in_i64 (e - uint (bk_len k))"
    and w: "\<And>x. x \<in> sb_window (bk_buffer k) (e - 2 * uint (bk_len k)) (e + uint (bk_len k))
              \<Longrightarrow> lo \<le> uint (rs_value x) \<and> uint (rs_value x) \<le> hi"
    and lo: "0 \<le> lo" "lo \<le> hi" and hi: "hi * uint (bk_len k) < 2 ^ 53" "uint (bk_len k) < 2 ^ 53"
  shows "\<exists>n. gauge_collect k e = Some n \<and> lo \<le> uint n \<and> uint n \<le> hi"
proof -
  define len where "len = uint (bk_len k)"
  define b where "b = bk_buffer k"
  note defs = len_def [symmetric] b_def [symmetric]
  have hi2: "2 * hi < 2 ^ 53"
  proof -
    have "hi * 2 \<le> hi * len" using lo len by (intro mult_left_mono) (simp_all add: len_def)
    with hi show ?thesis by (simp add: len_def mult.commute)
  qed
  from bp obtain pts where pts: "bucket_points b (e - len) e len = Some pts" by (auto simp: defs)
  then obtain sv ev where
    sv: "interpolate_boundary b (e - len) (e - len - len) e = Some sv" and
    ev: "interpolate_boundary b e (e - len) (e + len) = Some ev" and
    p: "pts = (e - len, sv) # map (\<lambda>x. (rs_ts x, f64_of_u64 (rs_value x)))
        (filter (\<lambda>x. e - len < rs_ts x \<and> rs_ts x < e) (sb_samples b)) @ [(e, ev)]"
    by (rule bucket_points_Some)
  note shape = bucket_points_ordered [OF inv, of "e - len" e len pts, folded b_def, OF pts]
  have win: "lo \<le> uint (rs_value x) \<and> uint (rs_value x) \<le> hi"
    if "x \<in> sb_window b (e - 2 * len) (e + len)" for x
    using w that by (simp add: defs)
  have L: "0 < len" using len by (simp add: len_def)
  have "f64_within (of_int lo) (of_int hi) sv"
    by (rule interpolate_boundary_within [OF sv]) (use L lo hi2 win in \<open>auto simp: sb_window_def\<close>)
  moreover have "f64_within (of_int lo) (of_int hi) ev"
    by (rule interpolate_boundary_within [OF ev]) (use L lo hi2 win in \<open>auto simp: sb_window_def\<close>)
  moreover have "f64_within (of_int lo) (of_int hi) (f64_of_u64 (rs_value x))"
    if "x \<in> set (sb_samples b)" "e - len < rs_ts x" "rs_ts x < e" for x
    using that win [of x] L lo hi2 by (intro f64_within_u64) (auto simp: sb_window_def)
  ultimately have all: "\<forall>q \<in> set pts. f64_within (of_int lo) (of_int hi) (snd q)"
    by (auto simp: p)
  have el: "fst (last pts) - fst (hd pts) = len" by (simp add: p)
  have "\<exists>v. trapezoids (Fin 0) pts = Some v \<and>
      f64_within (of_int (lo * (0 + (fst (last pts) - fst (hd pts)))))
        (of_int (hi * (0 + (fst (last pts) - fst (hd pts))))) v"
    using shape lo hi hi2
    by (intro trapezoids_within [OF _ _ all])
      (simp_all only: el, simp_all add: p len_def f64_within_def)
  then obtain v where v: "trapezoids (Fin 0) pts = Some v"
    "f64_within (of_int (lo * len)) (of_int (hi * len)) v" by (auto simp: el)
  from v(2) obtain r where r: "v = Fin r" "of_int (lo * len) \<le> r" "r \<le> of_int (hi * len)"
    by (auto simp: f64_within_def)
  have Lq: "(0 :: rat) < of_int len" using L by (simp only: of_int_0_less_iff)
  have "f64_within (of_int lo) (of_int hi) (f64_of_rat (r / of_int len))"
    using r Lq lo hi2 exact_bound_int [of lo] exact_bound_int [of hi]
    by (intro f64_within_round) (simp_all add: pos_le_divide_eq pos_divide_le_eq)
  then have "f64_within (of_int lo) (of_int hi) (f64_div v (f64_of_int len))"
    using Lq hi(2) L r(1) by (simp add: f64_of_int_exact len_def del: of_int_uint)
  then obtain n where "round_to_u64 (f64_div v (f64_of_int len)) = Some n" "lo \<le> uint n" "uint n \<le> hi"
    using round_to_u64_within lo hi2 by fastforce
  moreover have "uint (bk_len k) \<le> i64_max" using hi(2) by (simp add: i64_max_def)
  ultimately show ?thesis
    using pts v(1) i64 L by (simp add: gauge_collect_eq defs)
qed

section \<open>Counter buckets\<close>


lemma position_None: "position p xs = None \<longleftrightarrow> (\<forall>x \<in> set xs. \<not> p x)"
  by (induction xs) auto

lemma position_SomeD:
  "position p xs = Some i \<Longrightarrow> i < length xs \<and> p (xs ! i) \<and> (\<forall>x \<in> set (take i xs). \<not> p x)"
  by (induction xs arbitrary: i) (auto split: if_splits)

lemma rposition_None: "rposition p xs = None \<longleftrightarrow> (\<forall>x \<in> set xs. \<not> p x)"
  by (induction xs) (auto split: option.splits)

lemma rposition_SomeD:
  "rposition p xs = Some i \<Longrightarrow>
     i < length xs \<and> p (xs ! i) \<and> (\<forall>x \<in> set (drop (Suc i) xs). \<not> p x)"
proof (induction xs arbitrary: i)
  case (Cons x xs)
  then show ?case
    by (cases "rposition p xs") (auto simp: rposition_None split: if_splits)
qed simp

lemma non_decreasing_sorted: "non_decreasing ss \<longleftrightarrow> sorted (map rs_value ss)"
  by (induction ss rule: non_decreasing.induct) (auto intro: order_trans)

lemma time_sorted_nth_less:
  "time_sorted ss \<Longrightarrow> i < length ss \<Longrightarrow> j < length ss \<Longrightarrow> rs_ts (ss ! i) < rs_ts (ss ! j) \<longleftrightarrow> i < j"
proof -
  assume s: "time_sorted ss" "i < length ss" "j < length ss"
  have "rs_ts (ss ! a) < rs_ts (ss ! b)" if "a < b" "b < length ss" for a b
    using s(1) that sorted_wrt_nth_less [of "(<)" "map rs_ts ss" a b] by (simp add: time_sorted_def)
  with s show ?thesis by (metis less_asym less_irrefl linorder_neqE_nat)
qed

lemma counter_collect_Some:
  assumes "counter_collect k e = Some n"
  obtains len i j where "len = uint (bk_len k)" "0 < len"
    "rposition (\<lambda>s. e - len - len < rs_ts s \<and> rs_ts s \<le> e - len) (sb_samples (bk_buffer k)) = Some i"
    "position (\<lambda>s. e \<le> rs_ts s \<and> rs_ts s \<le> e + len) (sb_samples (bk_buffer k)) = Some j"
    "sorted (map rs_value (drop i (take (Suc j) (sb_samples (bk_buffer k)))))"
    "bucket_points (bk_buffer k) (e - len) e len \<noteq> None"
proof -
  have "bk_len k \<noteq> 0" using assms by (simp add: counter_collect_def split: if_splits)
  then have "uint (bk_len k) \<noteq> 0" by (simp add: uint_0_iff)
  then have "0 < uint (bk_len k)" using uint_ge_0 [of "bk_len k"] by linarith
  then show thesis
    using assms that [of "uint (bk_len k)"]
    by (auto simp: counter_collect_def Let_def non_decreasing_sorted
        split: if_splits option.splits list.splits)
qed

text \<open>
  A counter bucket with a reset is rejected: if the counter decreases between two samples that
  the bucket relies on (no sample at or before the bucket start lies after the first, none at or
  past the bucket end lies before the second), no rate is reported.
\<close>

theorem counter_reset_rejected:
  assumes inv: "sb_inv (bk_buffer k)"
    and x: "x \<in> set (sb_samples (bk_buffer k))" and y: "y \<in> set (sb_samples (bk_buffer k))"
    and reset: "rs_ts x < rs_ts y" "rs_value y < rs_value x"
    and first: "\<forall>z \<in> set (sb_samples (bk_buffer k)).
                  rs_ts x < rs_ts z \<longrightarrow> e - uint (bk_len k) < rs_ts z"
    and last: "\<forall>z \<in> set (sb_samples (bk_buffer k)). rs_ts z < rs_ts y \<longrightarrow> rs_ts z < e"
  shows "counter_collect k e = None"
proof (rule ccontr)
  assume "counter_collect k e \<noteq> None"
  then obtain n where "counter_collect k e = Some n" by auto
  then obtain len i j where len: "len = uint (bk_len k)"
    and i: "rposition (\<lambda>s. e - len - len < rs_ts s \<and> rs_ts s \<le> e - len) (sb_samples (bk_buffer k)) = Some i"
    and j: "position (\<lambda>s. e \<le> rs_ts s \<and> rs_ts s \<le> e + len) (sb_samples (bk_buffer k)) = Some j"
    and srt: "sorted (map rs_value (drop i (take (Suc j) (sb_samples (bk_buffer k)))))"
    by (rule counter_collect_Some)
  define ss where "ss = sb_samples (bk_buffer k)"
  note i' = rposition_SomeD [OF i, folded ss_def] and j' = position_SomeD [OF j, folded ss_def]
  have ts: "time_sorted ss" using inv by (simp add: sb_inv_def ss_def)
  from x y obtain a b where ab: "a < length ss" "ss ! a = x" "b < length ss" "ss ! b = y"
    by (auto simp: in_set_conv_nth ss_def)
  have "\<not> rs_ts x < rs_ts (ss ! i)"
    using first i' len by (auto simp: ss_def [symmetric])
  then have ia: "i \<le> a" using time_sorted_nth_less [OF ts ab(1), of i] i' ab(2) by auto
  have "\<not> rs_ts (ss ! j) < rs_ts y"
    using last j' by (auto simp: ss_def [symmetric])
  then have bj: "b \<le> j" using time_sorted_nth_less [OF ts _ ab(3), of j] j' ab(4) by auto
  have "a < b" using time_sorted_nth_less [OF ts ab(1,3)] reset(1) ab by simp
  with ia bj j' have "map rs_value (drop i (take (Suc j) ss)) ! (a - i)
      \<le> map rs_value (drop i (take (Suc j) ss)) ! (b - i)"
    using srt by (intro sorted_nth_mono) (simp_all add: ss_def [symmetric])
  then have "rs_value x \<le> rs_value y"
    using \<open>a < b\<close> ia bj j' ab by simp
  with reset(2) show False by simp
qed

lemma find_time_sorted:
  assumes "time_sorted ss" "s \<in> set ss"
  shows "find (\<lambda>x. rs_ts x = rs_ts s) ss = Some s"
  using assms by (induction ss) auto

text \<open>A sample on a bucket boundary is the one the index searches find.\<close>

lemma rposition_boundary:
  assumes ts: "time_sorted ss" and a: "a < length ss" "rs_ts (ss ! a) = t" and l: "l < t"
  shows "rposition (\<lambda>s. l < rs_ts s \<and> rs_ts s \<le> t) ss = Some a"
proof -
  have "rposition (\<lambda>s. l < rs_ts s \<and> rs_ts s \<le> t) ss \<noteq> None"
    unfolding rposition_None using a l nth_mem [OF a(1)] by fastforce
  then obtain i where i: "rposition (\<lambda>s. l < rs_ts s \<and> rs_ts s \<le> t) ss = Some i" by auto
  note i' = rposition_SomeD [OF i]
  have "\<not> a < i" using time_sorted_nth_less [OF ts a(1), of i] i' a(2) by auto
  moreover have "\<not> i < a"
  proof
    assume "i < a"
    then have "ss ! a = drop (Suc i) ss ! (a - Suc i)" "a - Suc i < length (drop (Suc i) ss)"
      using a(1) by simp_all
    then have "ss ! a \<in> set (drop (Suc i) ss)" by (metis nth_mem)
    then show False using i' a(2) l by auto
  qed
  ultimately show ?thesis using i by (metis linorder_neqE_nat)
qed

lemma position_boundary:
  assumes ts: "time_sorted ss" and b: "b < length ss" "rs_ts (ss ! b) = t" and u: "t < u"
  shows "position (\<lambda>s. t \<le> rs_ts s \<and> rs_ts s \<le> u) ss = Some b"
proof -
  have "position (\<lambda>s. t \<le> rs_ts s \<and> rs_ts s \<le> u) ss \<noteq> None"
    unfolding position_None using b u nth_mem [OF b(1)] by fastforce
  then obtain j where j: "position (\<lambda>s. t \<le> rs_ts s \<and> rs_ts s \<le> u) ss = Some j" by auto
  note j' = position_SomeD [OF j]
  have "\<not> j < b" using time_sorted_nth_less [OF ts _ b(1), of j] j' b(2) by auto
  moreover have "\<not> b < j"
  proof
    assume "b < j"
    then have "ss ! b \<in> set (take j ss)" using j' by (auto simp: in_set_conv_nth)
    then show False using j' b(2) u by auto
  qed
  ultimately show ?thesis using j by (metis linorder_neqE_nat)
qed

lemma segment_sorted:
  assumes ts: "time_sorted ss" and ab: "a < length ss" "b < length ss"
    and mono: "\<forall>x \<in> set ss. \<forall>y \<in> set ss.
      rs_ts (ss ! a) \<le> rs_ts x \<and> rs_ts x \<le> rs_ts y \<and> rs_ts y \<le> rs_ts (ss ! b)
        \<longrightarrow> rs_value x \<le> rs_value y"
  shows "sorted (map rs_value (drop a (take (Suc b) ss)))"
proof -
  let ?n = "min (length ss) (Suc b) - a"
  have in_range: "rs_ts (ss ! a) \<le> rs_ts (ss ! (a + m)) \<and> rs_ts (ss ! (a + m)) \<le> rs_ts (ss ! b)"
    if "m < ?n" for m
    using that ab time_sorted_nth_less [OF ts, of "a + m" a] time_sorted_nth_less [OF ts, of b "a + m"]
    by (auto simp: not_less [symmetric])
  have "rs_value (ss ! (a + p)) \<le> rs_value (ss ! (a + q))" if pq: "p \<le> q" "q < ?n" for p q
  proof -
    have "rs_ts (ss ! (a + p)) \<le> rs_ts (ss ! (a + q))"
      using pq time_sorted_nth_less [OF ts, of "a + q" "a + p"] by (auto simp: not_less [symmetric])
    then show ?thesis using mono in_range [of p] in_range [of q] pq by auto
  qed
  moreover have "drop a (take (Suc b) ss) ! m = ss ! (a + m)" if "m < ?n" for m
    using that by (subst nth_drop) auto
  ultimately show ?thesis by (simp add: sorted_iff_nth_mono)
qed

lemma bucket_points_at_boundaries:
  assumes ts: "time_sorted (sb_samples b)" and len: "0 < len"
    and i64: "in_i64 (e - 2 * len)" "in_i64 (e + len)"
    and s0: "s0 \<in> set (sb_samples b)" "rs_ts s0 = e - len"
    and s1: "s1 \<in> set (sb_samples b)" "rs_ts s1 = e"
  shows "bucket_points b (e - len) e len = Some ((e - len, f64_of_u64 (rs_value s0))
      # map (\<lambda>s. (rs_ts s, f64_of_u64 (rs_value s)))
          (filter (\<lambda>s. e - len < rs_ts s \<and> rs_ts s < e) (sb_samples b))
      @ [(e, f64_of_u64 (rs_value s1))])"
proof -
  have find: "find (\<lambda>x. rs_ts x = e - len) (sb_samples b) = Some s0"
    "find (\<lambda>x. rs_ts x = e) (sb_samples b) = Some s1"
    using find_time_sorted [OF ts, of s0] find_time_sorted [OF ts, of s1] s0 s1 by simp_all
  have "in_i64 (e - len - len)" using i64(1) by (simp add: algebra_simps)
  with find s1 len i64 show ?thesis
    by (auto simp: bucket_points_def interpolate_boundary_def checked_sub_def checked_add_def
        list_ex_iff intro!: bexI [of _ s1])
qed

lemma counter_rate_exact:
  assumes "0 \<le> x" "x \<le> y" "y < 2 ^ 53" "0 < len" "len < 2 ^ 53" "(y - x) * 1000000 < 2 ^ 53"
    and dvd: "len dvd (y - x) * 1000000"
  shows "round_to_u64 (f64_div (f64_mul (f64_mul (f64_sub (Fin (of_int y)) (Fin (of_int x)))
      (f64_of_int 1000)) (f64_of_int 1000)) (f64_of_int len))
    = Some (word_of_int ((y - x) * 1000000 div len))"
proof -
  define d where "d = y - x"
  have d: "0 \<le> d" "d * 1000000 < 2 ^ 53" using assms by (simp_all add: d_def)
  have m: "f64_sub (Fin (of_int y)) (Fin (of_int x)) = Fin (of_int d)"
    using assms f64_of_rat_int [of d] d by (simp add: f64_sub_def d_def)
  have k: "f64_mul (f64_mul (Fin (of_int d)) (f64_of_int 1000)) (f64_of_int 1000)
      = Fin (of_int (d * 1000000))"
    using d f64_of_rat_int [of "d * 1000"] f64_of_rat_int [of "d * 1000000"]
    by (simp add: f64_of_int_exact mult.commute)
  obtain q where q: "d * 1000000 = len * q" using dvd by (auto simp: d_def)
  have q0: "0 \<le> q"
  proof (rule ccontr)
    assume "\<not> 0 \<le> q"
    then have "len * q < 0" using assms(4) by (intro mult_pos_neg) auto
    with q d show False by simp
  qed
  have "1 * q \<le> len * q" using assms(4) q0 by (intro mult_right_mono) auto
  then have q53: "q < 2 ^ 53" using d q by simp
  have "f64_div (Fin (of_int (d * 1000000))) (f64_of_int len) = Fin (of_int q)"
    using assms(4,5) q0 q53 f64_of_rat_int [of q] by (simp add: f64_of_int_exact q)
  moreover obtain n where n: "round_to_u64 (Fin (of_int q)) = Some n" "uint n = q"
    using round_to_u64_within [of q q "Fin (of_int q)"] q0 q53 by (auto simp: f64_within_def)
  moreover have "n = word_of_int q" using n(2) by (metis word_of_int_uint)
  moreover have "q = d * 1000000 div len" using q assms(4) by simp
  ultimately show ?thesis by (simp only: m k d_def [symmetric])
qed

text \<open>
  A monotone counter with samples on both bucket boundaries is reported exactly: the difference
  of the boundary values in thousandths per second, with no rounding error.
\<close>

theorem counter_collect_exact:
  assumes inv: "sb_inv (bk_buffer k)" and len: "len = uint (bk_len k)" "0 < len" "len < 2 ^ 53"
    and i64: "in_i64 (e - 2 * len)" "in_i64 (e + len)"
    and s0: "s0 \<in> set (sb_samples (bk_buffer k))" "rs_ts s0 = e - len"
    and s1: "s1 \<in> set (sb_samples (bk_buffer k))" "rs_ts s1 = e"
    and mono: "\<forall>x \<in> set (sb_samples (bk_buffer k)). \<forall>y \<in> set (sb_samples (bk_buffer k)).
        e - len \<le> rs_ts x \<and> rs_ts x \<le> rs_ts y \<and> rs_ts y \<le> e \<longrightarrow> rs_value x \<le> rs_value y"
    and small: "uint (rs_value s1) < 2 ^ 53"
      "(uint (rs_value s1) - uint (rs_value s0)) * 1000000 < 2 ^ 53"
    and dvd: "len dvd (uint (rs_value s1) - uint (rs_value s0)) * 1000000"
  shows "counter_collect k e =
    Some (word_of_int ((uint (rs_value s1) - uint (rs_value s0)) * 1000000 div len))"
proof -
  define ss where "ss = sb_samples (bk_buffer k)"
  have ts: "time_sorted ss" using inv by (simp add: sb_inv_def ss_def)
  have le: "uint (rs_value s0) \<le> uint (rs_value s1)"
    using mono s0 s1 len(2) by (simp add: word_le_def [symmetric])
  have ex: "f64_of_u64 (rs_value s0) = Fin (of_int (uint (rs_value s0)))"
    "f64_of_u64 (rs_value s1) = Fin (of_int (uint (rs_value s1)))"
    using le small(1) by (simp_all only: f64_of_u64_exact le_less_trans [OF le small(1)])
  from s0(1) s1(1) obtain a b where ab: "a < length ss" "ss ! a = s0" "b < length ss" "ss ! b = s1"
    by (auto simp: in_set_conv_nth ss_def)
  have i: "rposition (\<lambda>s. e - len - len < rs_ts s \<and> rs_ts s \<le> e - len) ss = Some a"
    using ab s0(2) len(2) by (intro rposition_boundary [OF ts]) simp_all
  have j: "position (\<lambda>s. e \<le> rs_ts s \<and> rs_ts s \<le> e + len) ss = Some b"
    using ab s1(2) len(2) by (intro position_boundary [OF ts]) simp_all
  have nd: "non_decreasing (drop a (take (Suc b) ss))"
    unfolding non_decreasing_sorted
    using mono ab s0(2) s1(2) by (intro segment_sorted [OF ts]) (simp_all add: ss_def [symmetric])
  have "a < b" using time_sorted_nth_less [OF ts ab(1,3)] ab s0(2) s1(2) len(2) by auto
  moreover have "\<not> f64_lt (f64_of_u64 (rs_value s1)) (f64_of_u64 (rs_value s0))"
    unfolding ex using le by (simp add: not_less del: of_int_uint)
  moreover have "bk_len k \<noteq> 0" "sb_samples (bk_buffer k) \<noteq> []" "len \<le> i64_max"
    using len s0(1) by (auto simp: i64_max_def)
  moreover have "in_i64 (e - len)" "in_i64 (e - len - len)"
    using len(2) in_i64D [OF i64(1)] in_i64D [OF i64(2)] by auto
  moreover note bp = bucket_points_at_boundaries [OF ts [unfolded ss_def] len(2) i64 s0 s1]
  moreover have "round_to_u64 (f64_div (f64_mul (f64_mul (f64_sub (f64_of_u64 (rs_value s1))
      (f64_of_u64 (rs_value s0))) (f64_of_int 1000)) (f64_of_int 1000)) (f64_of_int len))
    = Some (word_of_int ((uint (rs_value s1) - uint (rs_value s0)) * 1000000 div len))"
    unfolding ex using le small dvd len by (intro counter_rate_exact) simp_all
  ultimately show ?thesis
    using i j nd i64 len(1)
    by (simp add: counter_collect_def Let_def ss_def [symmetric] sb_is_empty_def i64_of_u64_def
        checked_sub_def checked_add_def counter_rate_scale_def)
qed

section \<open>Peaks\<close>

lemma foldl_max: "foldl max (y :: 'a::linorder) ys = Max (insert y (set ys))"
proof (induction ys arbitrary: y)
  case (Cons a ys)
  have "Max (insert y (insert a (set ys))) = Max (insert (max y a) (set ys))"
    by (cases "ys = []") (simp_all add: max.assoc)
  with Cons show ?case by simp
qed simp

lemma list_max_Max: "list_max xs = (if xs = [] then None else Some (Max (set xs)))"
  by (cases xs) (simp_all add: list_max_def foldl_max)

lemma list_max_None [simp]: "list_max xs = None \<longleftrightarrow> xs = []"
  by (simp add: list_max_Max)

lemma list_max_Some: "list_max xs = Some m \<longleftrightarrow> m \<in> set xs \<and> (\<forall>x \<in> set xs. x \<le> m)"
  by (auto simp: list_max_Max Max_eq_iff)

text \<open>
  A peak bucket is empty exactly when its window holds no sample, and otherwise reports the
  largest sample of the window, one that was really taken.
\<close>

theorem max_collect_peak:
  assumes "uint (bk_len k) \<le> i64_max" "in_i64 (e - uint (bk_len k))"
  shows "(max_collect k e = None \<longleftrightarrow> sb_window (bk_buffer k) (e - uint (bk_len k)) e = {})
    \<and> (max_collect k e = Some m \<longleftrightarrow>
        (\<exists>x \<in> sb_window (bk_buffer k) (e - uint (bk_len k)) e. rs_value x = m)
        \<and> (\<forall>x \<in> sb_window (bk_buffer k) (e - uint (bk_len k)) e. rs_value x \<le> m))"
  using assms
  by (auto simp: max_collect_def max_in_def i64_of_u64_def checked_sub_def list_max_Some
      sb_window_def filter_empty_conv)

section \<open>The trait as an interface\<close>

definition bk_push_all :: "bucketizer \<Rightarrow> (timestamp_ms \<times> u64) list \<Rightarrow> bucketizer" where
  "bk_push_all k xs = foldl (\<lambda>k (ts, v). bk_push k ts v) k xs"

lemma bk_push_all_Nil [simp]: "bk_push_all k [] = k"
  by (simp add: bk_push_all_def)

lemma bk_push_all_Cons [simp]: "bk_push_all k ((ts, v) # xs) = bk_push_all (bk_push k ts v) xs"
  by (simp add: bk_push_all_def)

lemma bk_push_all_buffer [simp]:
  "bk_buffer (bk_push_all k xs) = sb_push_all (bk_buffer k) xs \<and> bk_len (bk_push_all k xs) = bk_len k"
proof (induction xs arbitrary: k)
  case (Cons x xs)
  then show ?case by (cases x) (simp add: bk_push_def)
qed simp

lemma bk_new_fields [simp]: "bk_buffer (bk_new c l) = sb_new c" "bk_len (bk_new c l) = l"
  by (simp_all add: bk_new_def)

text \<open>
  What the three implementations of the trait promise: a value needs a real sample in the bucket
  window, and nothing but the buffered samples and the bucket length is read.
\<close>

locale bucketizer_contract =
  fixes collect :: "bucketizer \<Rightarrow> timestamp_ms \<Rightarrow> u64 option"
  assumes real_sample:
    "collect k e = Some v \<Longrightarrow> sb_window (bk_buffer k) (e - uint (bk_len k)) e \<noteq> {}"
  and reads_samples:
    "sb_samples (bk_buffer k) = sb_samples (bk_buffer k') \<Longrightarrow> bk_len k = bk_len k'
       \<Longrightarrow> collect k e = collect k' e"
begin

lemma collect_stream:
  "collect (bk_push_all (bk_new capacity len) xs) e =
     collect \<lparr>bk_buffer = \<lparr>sb_capacity = capacity, sb_samples = keep_last capacity (accept None xs)\<rparr>,
       bk_len = len\<rparr> e"
  by (rule reads_samples) (simp_all add: sb_push_all_accept_new)

lemma collect_needs_sample:
  assumes "\<forall>(ts, v) \<in> set xs. \<not> (e - uint len < ts \<and> ts \<le> e)"
  shows "collect (bk_push_all (bk_new capacity len) xs) e = None"
proof (rule ccontr)
  assume "collect (bk_push_all (bk_new capacity len) xs) e \<noteq> None"
  then obtain v where "collect (bk_push_all (bk_new capacity len) xs) e = Some v" by auto
  from real_sample [OF this] obtain x where
    "x \<in> set (keep_last capacity (accept None xs))" "e - uint len < rs_ts x" "rs_ts x \<le> e"
    by (auto simp: sb_window_def sb_push_all_accept_new)
  moreover have "set (keep_last capacity (accept None xs)) \<subseteq> set (accept None xs)"
    by (simp add: keep_last_def set_drop_subset)
  ultimately show False using assms accept_from_stream [of x None xs] by fastforce
qed

end

lemma sb_window_nonempty:
  "\<exists>x \<in> set (sb_samples b). s < rs_ts x \<and> rs_ts x \<le> e \<Longrightarrow> sb_window b s e \<noteq> {}"
  by (auto simp: sb_window_def)

lemma bucket_points_window:
  "bucket_points b s e len = Some pts \<Longrightarrow> sb_window b s e \<noteq> {}"
  by (rule sb_window_nonempty) (auto elim: bucket_points_Some)

lemma bucket_points_reads:
  assumes "sb_samples b = sb_samples b'"
  shows "bucket_points b s e len = bucket_points b' s e len"
  unfolding bucket_points_def interpolate_boundary_def assms by (rule refl)

lemma gauge_collect_points:
  assumes "gauge_collect k e = Some v"
  shows "bucket_points (bk_buffer k) (e - uint (bk_len k)) e (uint (bk_len k)) \<noteq> None"
  using assms by (auto simp: gauge_collect_def split: if_splits option.splits)

interpretation gauge: bucketizer_contract gauge_collect
proof
  fix k k' :: bucketizer and e v
  show "sb_window (bk_buffer k) (e - uint (bk_len k)) e \<noteq> {}" if "gauge_collect k e = Some v"
    using gauge_collect_points [OF that] bucket_points_window by blast
  assume eq: "sb_samples (bk_buffer k) = sb_samples (bk_buffer k')" "bk_len k = bk_len k'"
  show "gauge_collect k e = gauge_collect k' e"
    unfolding gauge_collect_def sb_is_empty_def eq bucket_points_reads [OF eq(1)] by (rule refl)
qed

interpretation peak: bucketizer_contract max_collect
proof
  fix k k' :: bucketizer and e v
  show "sb_window (bk_buffer k) (e - uint (bk_len k)) e \<noteq> {}" if "max_collect k e = Some v"
    using that by (auto simp: max_collect_def max_in_def list_max_Some sb_window_def split: option.splits)
  assume eq: "sb_samples (bk_buffer k) = sb_samples (bk_buffer k')" "bk_len k = bk_len k'"
  show "max_collect k e = max_collect k' e"
    unfolding max_collect_def max_in_def eq by (rule refl)
qed

interpretation counter: bucketizer_contract counter_collect
proof
  fix k k' :: bucketizer and e v
  show "sb_window (bk_buffer k) (e - uint (bk_len k)) e \<noteq> {}" if "counter_collect k e = Some v"
    using that bucket_points_window by (elim counter_collect_Some) blast
  assume eq: "sb_samples (bk_buffer k) = sb_samples (bk_buffer k')" "bk_len k = bk_len k'"
  show "counter_collect k e = counter_collect k' e"
    unfolding counter_collect_def sb_is_empty_def eq bucket_points_reads [OF eq(1)] by (rule refl)
qed

text \<open>
  No bucketizer invents data: after any stream of pushes that has no sample inside the
  half-open bucket window, the gauge, the peak and the counter all report nothing for it.
\<close>

theorem empty_bucket_reports_nothing:
  assumes "\<forall>(ts, v) \<in> set xs. \<not> (e - uint len < ts \<and> ts \<le> e)"
  shows "gauge_collect (bk_push_all (bk_new capacity len) xs) e = None
    \<and> max_collect (bk_push_all (bk_new capacity len) xs) e = None
    \<and> counter_collect (bk_push_all (bk_new capacity len) xs) e = None"
  using gauge.collect_needs_sample [OF assms] peak.collect_needs_sample [OF assms]
    counter.collect_needs_sample [OF assms] by simp

section \<open>Witnesses\<close>

declare bk_push_all_Cons [simp del] sb_push_all_Cons [simp del]

theorem bucket_points_shape_witness:
  "map fst (the (bucket_points (sb_push_all (sb_new 8) [(0, 7), (4, 9), (10, 11)]) 0 10 10))
     = [0, 4, 10]"
proof -
  let ?b = "sb_push_all (sb_new 8) [(0, 7), (4, 9), (10, 11)]"
  have s: "bucket_points ?b 0 10 10 = Some [(0, Fin 7), (4, Fin 9), (10, Fin 11)]" by code_simp
  have "sb_inv ?b" by (simp add: sb_push_all_inv)
  from bucket_points_shape [OF this s] s show ?thesis by simp
qed

theorem gauge_collect_within_witness:
  "\<exists>n. gauge_collect (bk_push_all (bk_new 8 10000) [(0, 100), (4000, 150), (11000, 200)]) 10000 = Some n
     \<and> 100 \<le> uint n \<and> uint n \<le> 200"
proof (rule gauge_collect_within)
  let ?k = "bk_push_all (bk_new 8 10000) [(0, 100), (4000, 150), (11000, 200)]"
  have ss: "sb_samples (bk_buffer ?k) = [\<lparr>rs_ts = 0, rs_value = 100\<rparr>, \<lparr>rs_ts = 4000, rs_value = 150\<rparr>,
      \<lparr>rs_ts = 11000, rs_value = 200\<rparr>]" by code_simp
  show "sb_inv (bk_buffer ?k)" by (simp add: sb_push_all_inv)
  show "bucket_points (bk_buffer ?k) (10000 - uint (bk_len ?k)) 10000 (uint (bk_len ?k)) \<noteq> None"
    by code_simp
  show "100 \<le> uint (rs_value x) \<and> uint (rs_value x) \<le> 200"
    if "x \<in> sb_window (bk_buffer ?k) (10000 - 2 * uint (bk_len ?k)) (10000 + uint (bk_len ?k))" for x
    using that unfolding sb_window_def ss by auto
qed (simp_all add: in_i64I)

theorem counter_reset_rejected_witness:
  "counter_collect (bk_push_all (bk_new 8 10000) [(0, 100), (5000, 20), (10000, 30)]) 10000 = None"
proof -
  have ss: "sb_samples (sb_push_all (sb_new 8) [(0, 100), (5000, 20), (10000, 30)]) =
      [\<lparr>rs_ts = 0, rs_value = 100\<rparr>, \<lparr>rs_ts = 5000, rs_value = 20\<rparr>, \<lparr>rs_ts = 10000, rs_value = 30\<rparr>]"
    by code_simp
  show ?thesis
    by (rule counter_reset_rejected [of _ "\<lparr>rs_ts = 0, rs_value = 100\<rparr>" "\<lparr>rs_ts = 5000, rs_value = 20\<rparr>"])
      (simp_all add: ss sb_push_all_inv)
qed

theorem counter_collect_exact_witness:
  "counter_collect (bk_push_all (bk_new 8 10000) [(0, 5000), (5000, 6000), (10000, 25000)]) 10000
     = Some 2000000"
proof -
  let ?k = "bk_push_all (bk_new 8 10000) [(0, 5000), (5000, 6000), (10000, 25000)]"
  let ?s0 = "\<lparr>rs_ts = 0, rs_value = 5000\<rparr>" and ?s1 = "\<lparr>rs_ts = 10000, rs_value = 25000\<rparr>"
  have ss: "sb_samples (sb_push_all (sb_new 8) [(0, 5000), (5000, 6000), (10000, 25000)]) =
      [?s0, \<lparr>rs_ts = 5000, rs_value = 6000\<rparr>, ?s1]" by code_simp
  have "counter_collect ?k 10000 =
      Some (word_of_int ((uint (rs_value ?s1) - uint (rs_value ?s0)) * 1000000 div 10000))"
    by (rule counter_collect_exact [of _ 10000]) (simp_all add: ss sb_push_all_inv in_i64I)
  then show ?thesis by simp
qed

theorem max_collect_peak_witness:
  "max_collect (bk_push_all (bk_new 8 10000) [(0, 100), (5000, 20), (10000, 30)]) 10000 = Some 30"
proof -
  let ?k = "bk_push_all (bk_new 8 10000) [(0, 100), (5000, 20), (10000, 30)]"
  have ss: "sb_samples (sb_push_all (sb_new 8) [(0, 100), (5000, 20), (10000, 30)]) =
      [\<lparr>rs_ts = 0, rs_value = 100\<rparr>, \<lparr>rs_ts = 5000, rs_value = 20\<rparr>, \<lparr>rs_ts = 10000, rs_value = 30\<rparr>]"
    by code_simp
  have w: "sb_window (bk_buffer ?k) 0 10000 = {\<lparr>rs_ts = 5000, rs_value = 20\<rparr>, \<lparr>rs_ts = 10000, rs_value = 30\<rparr>}"
    by (auto simp: sb_window_def ss)
  show ?thesis using max_collect_peak [of ?k 10000 30] w by (simp add: i64_max_def in_i64I)
qed

theorem empty_bucket_reports_nothing_witness:
  "gauge_collect (bk_push_all (bk_new 8 10000) [(0, 1), (10001, 2)]) 10000 = None"
  using empty_bucket_reports_nothing [of "[(0, 1), (10001, 2)]" 10000 10000 8] by simp

end
