(* ===== verification/Downsampling.thy ===== *)
theory Downsampling
  imports Bucketizer
begin

text \<open>
  \<open>metrics/downsampling.rs\<close>: the end of the bucket that holds a timestamp, the running gauges of
  one coarse bucket with their gap tracker, the two single-pass loops that turn ordered 10s
  samples into coarse rows, and the per-bucket sum of several container series.

  The \<open>u128\<close> totals and the \<open>u64\<close> counts of the gauges are \<open>nat\<close>: fewer than \<open>2 ^ 64\<close> samples of
  less than \<open>2 ^ 64\<close> each cannot reach the bound of either type.
\<close>

section \<open>Bucket ends\<close>

text \<open>\<open>expect\<close> of the conversion cannot fail: callers pass the bucket length of a resolution.\<close>

definition bucket_end :: "i64 \<Rightarrow> u64 \<Rightarrow> i64" where
  "bucket_end ts b = i64_wrap (- (i64_wrap (- ts) div uint b) * uint b)"

definition add_optional :: "f64 option \<Rightarrow> f64 option \<Rightarrow> f64 option" where
  "add_optional acc v =
     (case v of None \<Rightarrow> acc
      | Some x \<Rightarrow> Some (f64_add (case acc of None \<Rightarrow> Fin 0 | Some t \<Rightarrow> t) x))"

section \<open>Gap tracker\<close>

record gap_tracker =
  gt_first_ts :: "i64 option"
  gt_last_ts :: "i64 option"
  gt_max_interior_gap :: i64

definition gap_default :: gap_tracker where
  "gap_default = \<lparr>gt_first_ts = None, gt_last_ts = None, gt_max_interior_gap = 0\<rparr>"

definition gap_observe :: "gap_tracker \<Rightarrow> i64 \<Rightarrow> gap_tracker" where
  "gap_observe g ts =
     \<lparr>gt_first_ts = (case gt_first_ts g of None \<Rightarrow> Some ts | Some f \<Rightarrow> Some f),
      gt_last_ts = Some ts,
      gt_max_interior_gap =
        (case gt_last_ts g of None \<Rightarrow> gt_max_interior_gap g
         | Some l \<Rightarrow> max (gt_max_interior_gap g) (i64_wrap (ts - l)))\<rparr>"

text \<open>The two \<open>expect\<close>s are reached only by a tracker that has observed a sample.\<close>

definition exceeds_max_gap :: "gap_tracker \<Rightarrow> i64 \<Rightarrow> u64 \<Rightarrow> u8 \<Rightarrow> bool" where
  "exceeds_max_gap g be b pct =
     (let start = i64_wrap (be - uint b);
          edge_start = i64_wrap (the (gt_first_ts g) - start);
          edge_end = i64_wrap (be - the (gt_last_ts g));
          observed_max = max (max (gt_max_interior_gap g) edge_start) edge_end;
          threshold = i64_wrap (uint (b * ucast pct div 100))
      in threshold < observed_max)"

section \<open>Optional gauges\<close>

record optional_gauge =
  og_count :: nat
  og_total :: nat

definition og_default :: optional_gauge where
  "og_default = \<lparr>og_count = 0, og_total = 0\<rparr>"

definition og_add :: "optional_gauge \<Rightarrow> u64 option \<Rightarrow> optional_gauge" where
  "og_add g v =
     (case v of None \<Rightarrow> g
      | Some x \<Rightarrow> \<lparr>og_count = og_count g + 1, og_total = og_total g + unat x\<rparr>)"

definition mean_rate :: "optional_gauge \<Rightarrow> u64 option" where
  "mean_rate g = (if 0 < og_count g then Some (of_nat (og_total g div og_count g)) else None)"

section \<open>Host gauges\<close>

record host_gauges =
  hg_count :: nat
  hg_gap :: gap_tracker
  hg_cpu_pct_mill :: nat
  hg_mem_used :: nat
  hg_storage_used :: nat
  hg_metrics_size :: nat
  hg_logs_size :: nat
  hg_net_rx_rate_mill :: optional_gauge
  hg_net_tx_rate_mill :: optional_gauge
  hg_disk_read_rate_mill :: optional_gauge
  hg_disk_write_rate_mill :: optional_gauge
  hg_log_pressure_pct_mill :: optional_gauge
  hg_app_rss_bytes :: optional_gauge

definition hg_default :: host_gauges where
  "hg_default =
     \<lparr>hg_count = 0, hg_gap = gap_default, hg_cpu_pct_mill = 0, hg_mem_used = 0,
      hg_storage_used = 0, hg_metrics_size = 0, hg_logs_size = 0,
      hg_net_rx_rate_mill = og_default, hg_net_tx_rate_mill = og_default,
      hg_disk_read_rate_mill = og_default, hg_disk_write_rate_mill = og_default,
      hg_log_pressure_pct_mill = og_default, hg_app_rss_bytes = og_default\<rparr>"

definition hg_add :: "host_gauges \<Rightarrow> host_sample \<Rightarrow> host_gauges" where
  "hg_add g s =
     \<lparr>hg_count = hg_count g + 1,
      hg_gap = gap_observe (hg_gap g) (hs_ts s),
      hg_cpu_pct_mill = hg_cpu_pct_mill g + unat (hs_cpu_pct_mill s),
      hg_mem_used = hg_mem_used g + unat (hs_mem_used s),
      hg_storage_used = hg_storage_used g + unat (hs_storage_used s),
      hg_metrics_size = hg_metrics_size g + unat (hs_metrics_size s),
      hg_logs_size = hg_logs_size g + unat (hs_logs_size s),
      hg_net_rx_rate_mill = og_add (hg_net_rx_rate_mill g) (hs_net_rx_rate_mill s),
      hg_net_tx_rate_mill = og_add (hg_net_tx_rate_mill g) (hs_net_tx_rate_mill s),
      hg_disk_read_rate_mill = og_add (hg_disk_read_rate_mill g) (hs_disk_read_rate_mill s),
      hg_disk_write_rate_mill = og_add (hg_disk_write_rate_mill g) (hs_disk_write_rate_mill s),
      hg_log_pressure_pct_mill =
        og_add (hg_log_pressure_pct_mill g) (hs_log_pressure_pct_mill s),
      hg_app_rss_bytes = og_add (hg_app_rss_bytes g) (hs_app_rss_bytes s)\<rparr>"

definition hg_finish :: "host_gauges \<Rightarrow> i64 \<Rightarrow> u64 \<Rightarrow> u8 \<Rightarrow> host_sample option" where
  "hg_finish g ts b pct =
     (if hg_count g = 0 \<or> exceeds_max_gap (hg_gap g) ts b pct then None
      else let n = hg_count g in
        Some \<lparr>hs_ts = ts,
              hs_cpu_pct_mill = of_nat (hg_cpu_pct_mill g div n),
              hs_mem_used = of_nat (hg_mem_used g div n),
              hs_storage_used = of_nat (hg_storage_used g div n),
              hs_metrics_size = of_nat (hg_metrics_size g div n),
              hs_logs_size = of_nat (hg_logs_size g div n),
              hs_net_rx_rate_mill = mean_rate (hg_net_rx_rate_mill g),
              hs_net_tx_rate_mill = mean_rate (hg_net_tx_rate_mill g),
              hs_disk_read_rate_mill = mean_rate (hg_disk_read_rate_mill g),
              hs_disk_write_rate_mill = mean_rate (hg_disk_write_rate_mill g),
              hs_log_pressure_pct_mill = mean_rate (hg_log_pressure_pct_mill g),
              hs_app_rss_bytes = mean_rate (hg_app_rss_bytes g)\<rparr>)"

definition option_list :: "'a option \<Rightarrow> 'a list" where
  "option_list x = (case x of None \<Rightarrow> [] | Some y \<Rightarrow> [y])"

text \<open>The loop of \<open>downsample_host\<close>, its result being what it pushes onto \<open>points\<close>.\<close>

fun host_loop :: "u64 \<Rightarrow> u8 \<Rightarrow> host_sample list \<Rightarrow> i64 \<Rightarrow> host_gauges \<Rightarrow> host_sample list" where
  "host_loop b pct [] cur g = option_list (hg_finish g cur b pct)"
| "host_loop b pct (s # ss) cur g =
     (if bucket_end (hs_ts s) b \<noteq> cur
      then option_list (hg_finish g cur b pct)
             @ host_loop b pct ss (bucket_end (hs_ts s) b) (hg_add hg_default s)
      else host_loop b pct ss cur (hg_add g s))"

definition downsample_host :: "host_sample list \<Rightarrow> metrics_resolution \<Rightarrow> u8 \<Rightarrow> host_sample list"
  where "downsample_host ss r pct = host_loop (bucket_ms r) pct ss i64_min hg_default"

section \<open>Container gauges\<close>

record container_gauges =
  cg_count :: nat
  cg_gap :: gap_tracker
  cg_cpu_pct_mill :: nat
  cg_mem_used :: nat
  cg_net_rx_rate_mill :: optional_gauge
  cg_net_tx_rate_mill :: optional_gauge
  cg_blk_read_rate_mill :: optional_gauge
  cg_blk_write_rate_mill :: optional_gauge
  cg_service :: service_id
  cg_cid :: container_id

definition cg_default :: container_gauges where
  "cg_default =
     \<lparr>cg_count = 0, cg_gap = gap_default, cg_cpu_pct_mill = 0, cg_mem_used = 0,
      cg_net_rx_rate_mill = og_default, cg_net_tx_rate_mill = og_default,
      cg_blk_read_rate_mill = og_default, cg_blk_write_rate_mill = og_default,
      cg_service = default_sid, cg_cid = default_cid\<rparr>"

definition cg_add :: "container_gauges \<Rightarrow> container_sample \<Rightarrow> container_gauges" where
  "cg_add g s =
     \<lparr>cg_count = cg_count g + 1,
      cg_gap = gap_observe (cg_gap g) (cs_ts s),
      cg_cpu_pct_mill = cg_cpu_pct_mill g + unat (cs_cpu_pct_mill s),
      cg_mem_used = cg_mem_used g + unat (cs_mem_used s),
      cg_net_rx_rate_mill = og_add (cg_net_rx_rate_mill g) (cs_net_rx_rate_mill s),
      cg_net_tx_rate_mill = og_add (cg_net_tx_rate_mill g) (cs_net_tx_rate_mill s),
      cg_blk_read_rate_mill = og_add (cg_blk_read_rate_mill g) (cs_blk_read_rate_mill s),
      cg_blk_write_rate_mill = og_add (cg_blk_write_rate_mill g) (cs_blk_write_rate_mill s),
      cg_service = (if cg_count g = 0 then cs_service s else cg_service g),
      cg_cid = (if cg_count g = 0 then cs_cid s else cg_cid g)\<rparr>"

definition cg_finish :: "container_gauges \<Rightarrow> i64 \<Rightarrow> u64 \<Rightarrow> u8 \<Rightarrow> container_sample option" where
  "cg_finish g ts b pct =
     (if cg_count g = 0 \<or> exceeds_max_gap (cg_gap g) ts b pct then None
      else let n = cg_count g in
        Some \<lparr>cs_ts = ts,
              cs_service = cg_service g,
              cs_cid = cg_cid g,
              cs_cpu_pct_mill = of_nat (cg_cpu_pct_mill g div n),
              cs_mem_used = of_nat (cg_mem_used g div n),
              cs_net_rx_rate_mill = mean_rate (cg_net_rx_rate_mill g),
              cs_net_tx_rate_mill = mean_rate (cg_net_tx_rate_mill g),
              cs_blk_read_rate_mill = mean_rate (cg_blk_read_rate_mill g),
              cs_blk_write_rate_mill = mean_rate (cg_blk_write_rate_mill g)\<rparr>)"

fun container_loop ::
    "u64 \<Rightarrow> u8 \<Rightarrow> container_sample list \<Rightarrow> i64 \<Rightarrow> container_gauges \<Rightarrow> container_sample list"
  where
  "container_loop b pct [] cur g = option_list (cg_finish g cur b pct)"
| "container_loop b pct (s # ss) cur g =
     (if bucket_end (cs_ts s) b \<noteq> cur
      then option_list (cg_finish g cur b pct)
             @ container_loop b pct ss (bucket_end (cs_ts s) b) (cg_add cg_default s)
      else container_loop b pct ss cur (cg_add g s))"

definition downsample_container ::
    "container_sample list \<Rightarrow> metrics_resolution \<Rightarrow> u8 \<Rightarrow> container_sample list" where
  "downsample_container ss r pct = container_loop (bucket_ms r) pct ss i64_min cg_default"

section \<open>Group sums\<close>

text \<open>The body of the inner loop, on the entry that \<open>or_insert\<close> gives.\<close>

definition add_point :: "container_point \<Rightarrow> group_point \<Rightarrow> group_point" where
  "add_point p t =
     t\<lparr>gp_cpu_pct := f64_add (gp_cpu_pct t) (cp_cpu_pct p),
       gp_mem_used := saturating_add (gp_mem_used t) (cp_mem_used p),
       gp_net_rx_rate := add_optional (gp_net_rx_rate t) (cp_net_rx_rate p),
       gp_net_tx_rate := add_optional (gp_net_tx_rate t) (cp_net_tx_rate p),
       gp_blk_read_rate := add_optional (gp_blk_read_rate t) (cp_blk_read_rate p),
       gp_blk_write_rate := add_optional (gp_blk_write_rate t) (cp_blk_write_rate p)\<rparr>"

definition sum_totals ::
    "container_point list list \<Rightarrow> (i64, group_point) hash_map \<Rightarrow> (i64, group_point) hash_map" where
  "sum_totals series totals =
     foldl (foldl (\<lambda>m p. hm_entry (cp_ts p) (default_group_point\<lparr>gp_ts := cp_ts p\<rparr>)
                          (add_point p) m)) totals series"

definition sum_by_bucket :: "container_point list list \<Rightarrow> group_point list" where
  "sum_by_bucket series = sort_key gp_ts (map snd (sum_totals series []))"

section \<open>Facts about bucket ends\<close>

text \<open>Timestamps a bucket end can be computed of without overflow.\<close>

definition ts_ok :: "i64 \<Rightarrow> bool" where
  "ts_ok ts \<longleftrightarrow> - (2 ^ 61) \<le> ts \<and> ts \<le> 2 ^ 61"

lemma bucket_ms_le: "uint (bucket_ms r) \<le> 3600000"
  by (cases r) simp_all

lemma ceil_mult:
  fixes b :: int
  assumes "0 < b"
  shows "- ((- ts) div b) * b - b < ts" "ts \<le> - ((- ts) div b) * b"
proof -
  have "- ts = (- ts) div b * b + (- ts) mod b" by simp
  moreover have "0 \<le> (- ts) mod b" "(- ts) mod b < b" using assms by simp_all
  ultimately show "- ((- ts) div b) * b - b < ts" "ts \<le> - ((- ts) div b) * b" by linarith+
qed

lemma bucket_end_ceil:
  assumes "ts_ok ts"
  shows "bucket_end ts (bucket_ms r) = - ((- ts) div uint (bucket_ms r)) * uint (bucket_ms r)"
proof -
  define b where "b = uint (bucket_ms r)"
  have b: "0 < b" "b \<le> 3600000" by (simp_all add: b_def bucket_ms_le)
  have "in_i64 (- ts)" using assms by (intro in_i64I) (simp_all add: ts_ok_def)
  moreover have "in_i64 (- ((- ts) div b) * b)"
    using ceil_mult [OF b(1), of ts] b assms
    by (intro in_i64I) (simp_all add: ts_ok_def)
  ultimately show ?thesis
    unfolding bucket_end_def b_def [symmetric] by (simp add: i64_wrap_id)
qed

lemma bucket_end_window:
  assumes "ts_ok ts"
  shows "bucket_end ts (bucket_ms r) - uint (bucket_ms r) < ts"
    "ts \<le> bucket_end ts (bucket_ms r)"
    "uint (bucket_ms r) dvd bucket_end ts (bucket_ms r)"
  unfolding bucket_end_ceil [OF assms]
  using ceil_mult [OF bucket_ms_pos, of ts r] by simp_all

lemma bucket_end_unique:
  assumes "ts_ok ts" "uint (bucket_ms r) dvd e" "e - uint (bucket_ms r) < ts" "ts \<le> e"
  shows "bucket_end ts (bucket_ms r) = e"
proof -
  define b where "b = uint (bucket_ms r)"
  define d where "d = bucket_end ts (bucket_ms r)"
  have b: "0 < b" by (simp add: b_def)
  note w = bucket_end_window [OF assms(1), of r, folded b_def d_def]
  from assms(2) w(3) obtain i j where ij: "e = b * i" "d = b * j"
    unfolding b_def [symmetric] by (auto elim!: dvdE)
  have "b * j < b * (i + 1)" "b * i < b * (j + 1)"
    using w assms(3,4) ij by (simp_all add: b_def [symmetric] ring_distribs)
  with b have "j < i + 1" "i < j + 1" by (simp_all only: mult_less_cancel_left_pos)
  then show ?thesis using ij by (simp add: d_def)
qed

lemma bucket_end_mono:
  assumes "ts_ok s" "ts_ok t" "s \<le> t"
  shows "bucket_end s (bucket_ms r) \<le> bucket_end t (bucket_ms r)"
  unfolding bucket_end_ceil [OF assms(1)] bucket_end_ceil [OF assms(2)]
  using assms(3) by (intro mult_right_mono) (simp_all add: zdiv_mono1)

text \<open>
  A timestamp belongs to exactly one bucket of a resolution: \<open>bucket_end\<close> is the only multiple
  of the bucket length that lies at or after it and less than one bucket length after it.
\<close>

theorem bucket_end_spec:
  assumes "ts_ok ts"
  shows "bucket_end ts (bucket_ms r) = e \<longleftrightarrow>
    uint (bucket_ms r) dvd e \<and> e - uint (bucket_ms r) < ts \<and> ts \<le> e"
  using bucket_end_window [OF assms, of r] bucket_end_unique [OF assms, of r e] by blast

theorem bucket_end_spec_witness:
  "bucket_end 60001 (bucket_ms OneMinute) = 120000 \<longleftrightarrow>
    uint (bucket_ms OneMinute) dvd 120000 \<and> 120000 - uint (bucket_ms OneMinute) < 60001
      \<and> (60001 :: int) \<le> 120000"
  by (rule bucket_end_spec) (simp add: ts_ok_def)

section \<open>The single-pass grouping, once for both loops\<close>

text \<open>
  What the two loops share: samples go to the gauges of the current bucket, a change of bucket
  finishes them. Over samples in time order this is the grouping by bucket: one call of \<open>finish\<close>
  for each distinct bucket, on exactly the samples of that bucket.
\<close>

definition grouped ::
    "('s \<Rightarrow> int) \<Rightarrow> ('s list \<Rightarrow> int \<Rightarrow> 's option) \<Rightarrow> 's list \<Rightarrow> 's list" where
  "grouped bkt mean ss =
     concat (map (\<lambda>e. option_list (mean (filter (\<lambda>s. bkt s = e) ss) e)) (remdups_adj (map bkt ss)))"

lemma remdups_adj_Cons_sorted:
  assumes "sorted xs" "\<forall>x\<in>set xs. (a :: int) \<le> x"
  shows "remdups_adj (a # xs) = a # remdups_adj (filter (\<lambda>x. x \<noteq> a) xs)"
  using assms
proof (induction xs)
  case (Cons x xs)
  show ?case
  proof (cases "x = a")
    case True
    with Cons show ?thesis by simp
  next
    case False
    with Cons.prems have "filter (\<lambda>y. y \<noteq> a) xs = xs"
      by (auto simp: filter_id_conv)
    with False show ?thesis by simp
  qed
qed simp

lemma strict_remdups_adj:
  fixes xs :: "'a::linorder list"
  shows "sorted xs \<Longrightarrow> sorted_wrt (<) (remdups_adj xs)"
  by (induction xs rule: remdups_adj.induct) auto

locale downsampler =
  fixes bkt :: "'s \<Rightarrow> int"
    and loop :: "'s list \<Rightarrow> int \<Rightarrow> 'g \<Rightarrow> 's list"
    and add :: "'g \<Rightarrow> 's \<Rightarrow> 'g"
    and start :: 'g
    and finish :: "'g \<Rightarrow> int \<Rightarrow> 's option"
  assumes loop_Nil: "loop [] cur g = option_list (finish g cur)"
    and loop_Cons: "loop (s # ss) cur g =
      (if bkt s \<noteq> cur then option_list (finish g cur) @ loop ss (bkt s) (add start s)
       else loop ss cur (add g s))"
    and finish_start: "finish start cur = None"
begin

abbreviation "group_of e ss \<equiv> foldl add start (filter (\<lambda>s. bkt s = e) ss)"

lemma filter_sorted_fresh:
  assumes "sorted (map bkt (s # ss))" "bkt s \<noteq> cur" "\<forall>x\<in>set (s # ss). cur \<le> bkt x"
  shows "filter (\<lambda>x. bkt x = cur) (s # ss) = []"
  using assms by (auto simp: filter_empty_conv)

lemma loop_sorted:
  assumes "sorted (map bkt ss)" "\<forall>s\<in>set ss. cur \<le> bkt s"
  shows "loop ss cur g =
    option_list (finish (foldl add g (filter (\<lambda>s. bkt s = cur) ss)) cur) @
    concat (map (\<lambda>e. option_list (finish (group_of e ss) e))
      (remdups_adj (filter (\<lambda>e. e \<noteq> cur) (map bkt ss))))"
  using assms
proof (induction ss arbitrary: cur g)
  case Nil
  then show ?case by (simp add: loop_Nil)
next
  case (Cons s ss)
  have srt: "sorted (map bkt ss)" "\<forall>x\<in>set ss. bkt s \<le> bkt x"
    using Cons.prems(1) by simp_all
  have later: "\<forall>e\<in>set (filter (\<lambda>e. e \<noteq> bkt s) (map bkt ss)). group_of e (s # ss) = group_of e ss"
    by auto
  have cong: "concat (map (\<lambda>e. option_list (finish (group_of e ss) e))
        (remdups_adj (filter (\<lambda>e. e \<noteq> bkt s) (map bkt ss)))) =
      concat (map (\<lambda>e. option_list (finish (group_of e (s # ss)) e))
        (remdups_adj (filter (\<lambda>e. e \<noteq> bkt s) (map bkt ss))))"
    using later by (intro arg_cong [where f = concat] map_cong refl) (simp add: remdups_adj_set)
  show ?case
  proof (cases "bkt s = cur")
    case True
    have "\<forall>x\<in>set ss. cur \<le> bkt x" using Cons.prems(2) by simp
    from Cons.IH [OF srt(1) this, of "add g s"] cong True
    show ?thesis by (simp add: loop_Cons)
  next
    case False
    have none: "filter (\<lambda>x. bkt x = cur) (s # ss) = []"
      using Cons.prems(1) False Cons.prems(2) by (rule filter_sorted_fresh)
    then have "filter (\<lambda>e. e \<noteq> cur) (map bkt (s # ss)) = map bkt (s # ss)"
      by (auto simp: filter_id_conv filter_empty_conv)
    moreover have "remdups_adj (map bkt (s # ss)) =
        bkt s # remdups_adj (filter (\<lambda>e. e \<noteq> bkt s) (map bkt ss))"
      using srt by (simp add: remdups_adj_Cons_sorted)
    ultimately show ?thesis
      using Cons.IH [OF srt, of "add start s"] cong False none by (simp add: loop_Cons)
  qed
qed

lemma loop_grouped:
  assumes "sorted (map bkt ss)" "\<forall>s\<in>set ss. cur < bkt s"
  shows "loop ss cur start = grouped bkt (\<lambda>ms e. finish (foldl add start ms) e) ss"
proof -
  have no: "filter (\<lambda>s. bkt s = cur) ss = []" "filter (\<lambda>e. e \<noteq> cur) (map bkt ss) = map bkt ss"
    using assms(2) by (auto simp: filter_empty_conv filter_id_conv)
  show ?thesis
    using loop_sorted [OF assms(1), of cur start] assms(2)
    by (simp add: no grouped_def finish_start option_list_def less_imp_le)
qed

end

interpretation host_pass: downsampler "\<lambda>s. bucket_end (hs_ts s) b" "host_loop b pct"
    hg_add hg_default "\<lambda>g ts. hg_finish g ts b pct" for b pct
  by unfold_locales (simp_all add: hg_finish_def hg_default_def)

interpretation container_pass: downsampler "\<lambda>s. bucket_end (cs_ts s) b" "container_loop b pct"
    cg_add cg_default "\<lambda>g ts. cg_finish g ts b pct" for b pct
  by unfold_locales (simp_all add: cg_finish_def cg_default_def)

section \<open>What one coarse row is\<close>

text \<open>The mean of a list of values, of the values present, and the silences of a bucket.\<close>

definition mean_of :: "u64 list \<Rightarrow> u64" where
  "mean_of xs = of_nat (sum_list (map unat xs) div length xs)"

definition mean_present :: "u64 option list \<Rightarrow> u64 option" where
  "mean_present vs =
     (case List.map_filter id vs of [] \<Rightarrow> None | x # xs \<Rightarrow> Some (mean_of (x # xs)))"

fun gaps :: "int list \<Rightarrow> int list" where
  "gaps (x # y # r) = (y - x) # gaps (y # r)"
| "gaps _ = []"

definition gap_limit :: "metrics_resolution \<Rightarrow> u8 \<Rightarrow> int" where
  "gap_limit r pct = uint (bucket_ms r) * uint pct div 100"

definition too_sparse :: "metrics_resolution \<Rightarrow> u8 \<Rightarrow> int \<Rightarrow> int list \<Rightarrow> bool" where
  "too_sparse r pct e ts \<longleftrightarrow>
     (\<exists>d\<in>set (gaps ((e - uint (bucket_ms r)) # ts @ [e])). gap_limit r pct < d)"

definition host_bucket :: "metrics_resolution \<Rightarrow> u8 \<Rightarrow> host_sample list \<Rightarrow> i64 \<Rightarrow> host_sample option" where
  "host_bucket r pct ms e =
     (if ms = [] \<or> too_sparse r pct e (map hs_ts ms) then None
      else Some
        \<lparr>hs_ts = e,
         hs_cpu_pct_mill = mean_of (map hs_cpu_pct_mill ms),
         hs_mem_used = mean_of (map hs_mem_used ms),
         hs_storage_used = mean_of (map hs_storage_used ms),
         hs_metrics_size = mean_of (map hs_metrics_size ms),
         hs_logs_size = mean_of (map hs_logs_size ms),
         hs_net_rx_rate_mill = mean_present (map hs_net_rx_rate_mill ms),
         hs_net_tx_rate_mill = mean_present (map hs_net_tx_rate_mill ms),
         hs_disk_read_rate_mill = mean_present (map hs_disk_read_rate_mill ms),
         hs_disk_write_rate_mill = mean_present (map hs_disk_write_rate_mill ms),
         hs_log_pressure_pct_mill = mean_present (map hs_log_pressure_pct_mill ms),
         hs_app_rss_bytes = mean_present (map hs_app_rss_bytes ms)\<rparr>)"

definition container_bucket ::
    "metrics_resolution \<Rightarrow> u8 \<Rightarrow> container_sample list \<Rightarrow> i64 \<Rightarrow> container_sample option" where
  "container_bucket r pct ms e =
     (if ms = [] \<or> too_sparse r pct e (map cs_ts ms) then None
      else Some
        \<lparr>cs_ts = e, cs_service = cs_service (hd ms), cs_cid = cs_cid (hd ms),
         cs_cpu_pct_mill = mean_of (map cs_cpu_pct_mill ms),
         cs_mem_used = mean_of (map cs_mem_used ms),
         cs_net_rx_rate_mill = mean_present (map cs_net_rx_rate_mill ms),
         cs_net_tx_rate_mill = mean_present (map cs_net_tx_rate_mill ms),
         cs_blk_read_rate_mill = mean_present (map cs_blk_read_rate_mill ms),
         cs_blk_write_rate_mill = mean_present (map cs_blk_write_rate_mill ms)\<rparr>)"

lemma og_fold:
  "og_count (foldl og_add g vs) = og_count g + length (List.map_filter id vs)"
  "og_total (foldl og_add g vs) = og_total g + sum_list (map unat (List.map_filter id vs))"
  by (induction vs arbitrary: g)
    (auto simp: og_add_def map_filter_simps split: option.splits)

lemma mean_rate_fold [simp]: "mean_rate (foldl og_add og_default vs) = mean_present vs"
  by (auto simp: mean_rate_def og_fold og_default_def mean_present_def mean_of_def
      split: list.splits)

lemma gap_fold:
  assumes "gt_last_ts g = Some l" "ts_ok l" "list_all ts_ok ts" "gt_first_ts g \<noteq> None"
  shows "gt_first_ts (foldl gap_observe g ts) = gt_first_ts g \<and>
    gt_last_ts (foldl gap_observe g ts) = Some (last (l # ts)) \<and>
    (t < gt_max_interior_gap (foldl gap_observe g ts) \<longleftrightarrow>
       t < gt_max_interior_gap g \<or> (\<exists>d\<in>set (gaps (l # ts)). t < d))"
  using assms
proof (induction ts arbitrary: g l)
  case (Cons x ts)
  let ?g = "gap_observe g x"
  have h: "gt_last_ts ?g = Some x" "gt_first_ts ?g = gt_first_ts g"
    using Cons.prems by (auto simp: gap_observe_def)
  have "in_i64 (x - l)"
    using Cons.prems by (intro in_i64I) (simp_all add: ts_ok_def)
  then have m: "gt_max_interior_gap ?g = max (gt_max_interior_gap g) (x - l)"
    using Cons.prems by (simp add: gap_observe_def i64_wrap_id)
  have pre: "gt_last_ts ?g = Some x" "ts_ok x" "list_all ts_ok ts" "gt_first_ts ?g \<noteq> None"
    using h Cons.prems by simp_all
  show ?case using Cons.IH [OF pre] h m by (auto simp: less_max_iff_disj)
qed simp_all

lemma gaps_append_last: "xs \<noteq> [] \<Longrightarrow> gaps (xs @ [e]) = gaps xs @ [e - last xs]"
  by (induction xs rule: gaps.induct) simp_all

lemma exceeds_max_gap_iff:
  assumes "ts \<noteq> []" "list_all ts_ok ts" "\<bar>e\<bar> \<le> 2 ^ 61 + 3600000"
  shows "exceeds_max_gap (foldl gap_observe gap_default ts) e (bucket_ms r) pct
    \<longleftrightarrow> too_sparse r pct e ts"
proof -
  obtain x xs where ts: "ts = x # xs" using assms(1) by (cases ts) auto
  define g0 where "g0 = gap_observe gap_default x"
  have x: "ts_ok x" "list_all ts_ok xs" using assms(2) ts by simp_all
  have g0: "gt_last_ts g0 = Some x" "gt_first_ts g0 = Some x" "gt_max_interior_gap g0 = 0"
    by (simp_all add: g0_def gap_observe_def gap_default_def)
  have f: "gt_first_ts (foldl gap_observe g0 xs) = Some x"
    "gt_last_ts (foldl gap_observe g0 xs) = Some (last (x # xs))"
    "t < gt_max_interior_gap (foldl gap_observe g0 xs) \<longleftrightarrow> t < 0 \<or> (\<exists>d\<in>set (gaps ts). t < d)" for t
    using gap_fold [OF g0(1) x, of t] g0 ts by auto
  have l: "ts_ok (last (x # xs))" using x by (auto simp: list_all_iff)
  have b: "0 < uint (bucket_ms r)" "uint (bucket_ms r) \<le> 3600000" by (simp_all add: bucket_ms_le)
  have p: "uint pct < 256" using uint_lt2p [of pct] by simp
  have prod: "uint (bucket_ms r) * uint pct \<le> 3600000 * 255"
    using b p by (intro mult_mono) simp_all
  have w: "uint (bucket_ms r * ucast pct) = uint (bucket_ms r) * uint pct"
    using prod p by (subst uint_mult_lem [THEN iffD1])
      (simp_all add: unsigned_ucast_eq take_bit_int_eq_self)
  have q: "0 \<le> uint (bucket_ms r) * uint pct div 100"
    "uint (bucket_ms r) * uint pct div 100 \<le> 9180000"
    using prod zdiv_mono1 [of "uint (bucket_ms r) * uint pct" "3600000 * 255" 100]
    by (simp_all add: pos_imp_zdiv_nonneg_iff)
  have lim: "i64_wrap (uint (bucket_ms r * ucast pct div 100)) = gap_limit r pct"
    "0 \<le> gap_limit r pct"
    using q by (simp_all add: uint_div_distrib w gap_limit_def i64_wrap_id in_i64I)
  define k where "k = last (x # xs)"
  have eb: "- 2305843009217293952 \<le> e" "e \<le> 2305843009217293952" using assms(3) by simp_all
  have xb: "- 2305843009213693952 \<le> x" "x \<le> 2305843009213693952"
    "- 2305843009213693952 \<le> k" "k \<le> 2305843009213693952"
    using x(1) l by (simp_all add: ts_ok_def k_def)
  have "in_i64 (e - uint (bucket_ms r))" by (rule in_i64I) (use eb b in linarith)+
  moreover have "in_i64 (x - (e - uint (bucket_ms r)))" by (rule in_i64I) (use eb b xb in linarith)+
  moreover have "in_i64 (e - last (x # xs))"
    unfolding k_def [symmetric] by (rule in_i64I) (use eb xb in linarith)+
  ultimately have s: "i64_wrap (e - uint (bucket_ms r)) = e - uint (bucket_ms r)"
    "i64_wrap (x - (e - uint (bucket_ms r))) = x - (e - uint (bucket_ms r))"
    "i64_wrap (e - last (x # xs)) = e - last (x # xs)"
    by (simp_all only: i64_wrap_id)
  have g: "gaps ((e - uint (bucket_ms r)) # ts @ [e]) =
      (x - (e - uint (bucket_ms r))) # gaps ts @ [e - last (x # xs)]"
    using gaps_append_last [of ts e] by (simp add: ts del: last.simps)
  have "exceeds_max_gap (foldl gap_observe gap_default ts) e (bucket_ms r) pct \<longleftrightarrow>
      gap_limit r pct < gt_max_interior_gap (foldl gap_observe g0 xs) \<or>
      gap_limit r pct < x - (e - uint (bucket_ms r)) \<or> gap_limit r pct < e - last (x # xs)"
    unfolding exceeds_max_gap_def Let_def lim ts foldl.simps g0_def [symmetric] f(1,2)
      option.sel s less_max_iff_disj by blast
  then show ?thesis
    unfolding too_sparse_def g using lim(2) by (auto simp: f(3) simp del: last.simps)
qed

lemma hg_fold:
  "hg_count (foldl hg_add g ms) = hg_count g + length ms"
  "hg_gap (foldl hg_add g ms) = foldl gap_observe (hg_gap g) (map hs_ts ms)"
  "hg_cpu_pct_mill (foldl hg_add g ms) =
     hg_cpu_pct_mill g + sum_list (map unat (map hs_cpu_pct_mill ms))"
  "hg_mem_used (foldl hg_add g ms) = hg_mem_used g + sum_list (map unat (map hs_mem_used ms))"
  "hg_storage_used (foldl hg_add g ms) =
     hg_storage_used g + sum_list (map unat (map hs_storage_used ms))"
  "hg_metrics_size (foldl hg_add g ms) =
     hg_metrics_size g + sum_list (map unat (map hs_metrics_size ms))"
  "hg_logs_size (foldl hg_add g ms) =
     hg_logs_size g + sum_list (map unat (map hs_logs_size ms))"
  "hg_net_rx_rate_mill (foldl hg_add g ms) =
     foldl og_add (hg_net_rx_rate_mill g) (map hs_net_rx_rate_mill ms)"
  "hg_net_tx_rate_mill (foldl hg_add g ms) =
     foldl og_add (hg_net_tx_rate_mill g) (map hs_net_tx_rate_mill ms)"
  "hg_disk_read_rate_mill (foldl hg_add g ms) =
     foldl og_add (hg_disk_read_rate_mill g) (map hs_disk_read_rate_mill ms)"
  "hg_disk_write_rate_mill (foldl hg_add g ms) =
     foldl og_add (hg_disk_write_rate_mill g) (map hs_disk_write_rate_mill ms)"
  "hg_log_pressure_pct_mill (foldl hg_add g ms) =
     foldl og_add (hg_log_pressure_pct_mill g) (map hs_log_pressure_pct_mill ms)"
  "hg_app_rss_bytes (foldl hg_add g ms) =
     foldl og_add (hg_app_rss_bytes g) (map hs_app_rss_bytes ms)"
  by (induction ms arbitrary: g) (simp_all add: hg_add_def)

lemma cg_fold:
  "cg_count (foldl cg_add g ms) = cg_count g + length ms"
  "cg_gap (foldl cg_add g ms) = foldl gap_observe (cg_gap g) (map cs_ts ms)"
  "cg_cpu_pct_mill (foldl cg_add g ms) =
     cg_cpu_pct_mill g + sum_list (map unat (map cs_cpu_pct_mill ms))"
  "cg_mem_used (foldl cg_add g ms) = cg_mem_used g + sum_list (map unat (map cs_mem_used ms))"
  "cg_net_rx_rate_mill (foldl cg_add g ms) =
     foldl og_add (cg_net_rx_rate_mill g) (map cs_net_rx_rate_mill ms)"
  "cg_net_tx_rate_mill (foldl cg_add g ms) =
     foldl og_add (cg_net_tx_rate_mill g) (map cs_net_tx_rate_mill ms)"
  "cg_blk_read_rate_mill (foldl cg_add g ms) =
     foldl og_add (cg_blk_read_rate_mill g) (map cs_blk_read_rate_mill ms)"
  "cg_blk_write_rate_mill (foldl cg_add g ms) =
     foldl og_add (cg_blk_write_rate_mill g) (map cs_blk_write_rate_mill ms)"
  "0 < cg_count g \<Longrightarrow> cg_service (foldl cg_add g ms) = cg_service g"
  "0 < cg_count g \<Longrightarrow> cg_cid (foldl cg_add g ms) = cg_cid g"
  by (induction ms arbitrary: g) (simp_all add: cg_add_def)

lemma cg_fold_first:
  assumes "ms \<noteq> []"
  shows "cg_service (foldl cg_add cg_default ms) = cs_service (hd ms)"
    "cg_cid (foldl cg_add cg_default ms) = cs_cid (hd ms)"
  using assms
  by (cases ms, simp, simp add: cg_fold(9,10) cg_add_def cg_default_def)+

lemma host_finish:
  assumes "list_all ts_ok (map hs_ts ms)" "\<bar>e\<bar> \<le> 2 ^ 61 + 3600000"
  shows "hg_finish (foldl hg_add hg_default ms) e (bucket_ms r) pct = host_bucket r pct ms e"
  using exceeds_max_gap_iff [of "map hs_ts ms" e r pct] assms
  by (cases "ms = []") (simp_all add: hg_finish_def host_bucket_def hg_fold hg_default_def mean_of_def Let_def)

lemma container_finish:
  assumes "list_all ts_ok (map cs_ts ms)" "\<bar>e\<bar> \<le> 2 ^ 61 + 3600000"
  shows "cg_finish (foldl cg_add cg_default ms) e (bucket_ms r) pct = container_bucket r pct ms e"
proof (cases "ms = []")
  case True
  then show ?thesis by (simp add: cg_finish_def container_bucket_def cg_default_def)
next
  case False
  then show ?thesis
    using exceeds_max_gap_iff [of "map cs_ts ms" e r pct] assms
    by (simp add: cg_finish_def container_bucket_def cg_fold_first cg_fold(1-8) mean_of_def Let_def)
      (simp add: cg_default_def)
qed

section \<open>Properties of the two passes\<close>

lemma bucket_end_range:
  assumes "ts_ok ts"
  shows "\<bar>bucket_end ts (bucket_ms r)\<bar> \<le> 2 ^ 61 + 3600000" "i64_min < bucket_end ts (bucket_ms r)"
proof -
  have "- (2 ^ 61) \<le> ts" "ts \<le> 2 ^ 61" using assms by (simp_all only: ts_ok_def)
  then have "- 2305843009213693952 \<le> ts" "ts \<le> 2305843009213693952" by simp_all
  with bucket_end_window(1,2) [OF assms, of r] bucket_ms_le [of r]
  show "\<bar>bucket_end ts (bucket_ms r)\<bar> \<le> 2 ^ 61 + 3600000" "i64_min < bucket_end ts (bucket_ms r)"
    by (simp_all add: i64_min_def abs_le_iff)
qed

lemma sorted_bucket_ends:
  assumes "sorted ts" "list_all ts_ok ts"
  shows "sorted (map (\<lambda>t. bucket_end t (bucket_ms r)) ts)"
  using assms by (induction ts) (auto simp: list_all_iff intro: bucket_end_mono)

lemma grouped_cong:
  assumes "\<And>e ms. e \<in> bkt ` set ss \<Longrightarrow> set ms \<subseteq> set ss \<Longrightarrow> mean ms e = mean' ms e"
  shows "grouped bkt mean ss = grouped bkt mean' ss"
  unfolding grouped_def
  by (intro arg_cong [where f = concat] map_cong refl arg_cong [where f = option_list] assms) auto

lemma host_grouped:
  assumes "sorted (map hs_ts ss)" "list_all ts_ok (map hs_ts ss)"
  shows "downsample_host ss r pct =
    grouped (\<lambda>s. bucket_end (hs_ts s) (bucket_ms r)) (host_bucket r pct) ss"
proof -
  let ?bkt = "\<lambda>s. bucket_end (hs_ts s) (bucket_ms r)"
  have "sorted (map ?bkt ss)"
    using sorted_bucket_ends [OF assms, of r] by (simp add: comp_def)
  moreover have "\<forall>s\<in>set ss. i64_min < ?bkt s"
    using assms(2) by (simp add: list_all_iff bucket_end_range)
  ultimately have "downsample_host ss r pct =
      grouped ?bkt (\<lambda>ms e. hg_finish (foldl hg_add hg_default ms) e (bucket_ms r) pct) ss"
    unfolding downsample_host_def by (rule host_pass.loop_grouped)
  also have "\<dots> = grouped ?bkt (host_bucket r pct) ss"
  proof (rule grouped_cong, rule host_finish)
    fix e ms
    assume "e \<in> ?bkt ` set ss" "set ms \<subseteq> set ss"
    then show "list_all ts_ok (map hs_ts ms)" "\<bar>e\<bar> \<le> 2 ^ 61 + 3600000"
      using assms(2) bucket_end_range(1) by (auto simp: list_all_iff)
  qed
  finally show ?thesis .
qed

lemma container_grouped:
  assumes "sorted (map cs_ts ss)" "list_all ts_ok (map cs_ts ss)"
  shows "downsample_container ss r pct =
    grouped (\<lambda>s. bucket_end (cs_ts s) (bucket_ms r)) (container_bucket r pct) ss"
proof -
  let ?bkt = "\<lambda>s. bucket_end (cs_ts s) (bucket_ms r)"
  have "sorted (map ?bkt ss)"
    using sorted_bucket_ends [OF assms, of r] by (simp add: comp_def)
  moreover have "\<forall>s\<in>set ss. i64_min < ?bkt s"
    using assms(2) by (simp add: list_all_iff bucket_end_range)
  ultimately have "downsample_container ss r pct =
      grouped ?bkt (\<lambda>ms e. cg_finish (foldl cg_add cg_default ms) e (bucket_ms r) pct) ss"
    unfolding downsample_container_def by (rule container_pass.loop_grouped)
  also have "\<dots> = grouped ?bkt (container_bucket r pct) ss"
  proof (rule grouped_cong, rule container_finish)
    fix e ms
    assume "e \<in> ?bkt ` set ss" "set ms \<subseteq> set ss"
    then show "list_all ts_ok (map cs_ts ms)" "\<bar>e\<bar> \<le> 2 ^ 61 + 3600000"
      using assms(2) bucket_end_range(1) by (auto simp: list_all_iff)
  qed
  finally show ?thesis .
qed

lemma grouped_sorted:
  assumes "sorted (map bkt ss)" "\<And>ms e s. mean ms e = Some s \<Longrightarrow> key s = e"
  shows "sorted_wrt (<) (map key (grouped bkt mean ss))"
    "set (map key (grouped bkt mean ss)) \<subseteq> bkt ` set ss"
proof -
  have "map key (concat (map (\<lambda>e. option_list (mean (f e) e)) es)) =
      filter (\<lambda>e. mean (f e) e \<noteq> None) es" for f es
    using assms(2) by (induction es) (auto simp: option_list_def split: option.splits)
  then have "map key (grouped bkt mean ss) =
      filter (\<lambda>e. mean (filter (\<lambda>s. bkt s = e) ss) e \<noteq> None) (remdups_adj (map bkt ss))"
    unfolding grouped_def .
  then show "sorted_wrt (<) (map key (grouped bkt mean ss))"
    "set (map key (grouped bkt mean ss)) \<subseteq> bkt ` set ss"
    using assms(1) by (auto intro: sorted_wrt_filter strict_remdups_adj)
qed

text \<open>Two concrete samples, for the witnesses.\<close>

definition host_sample_at :: "i64 \<Rightarrow> host_sample" where
  "host_sample_at ts =
     \<lparr>hs_ts = ts, hs_cpu_pct_mill = 1000, hs_mem_used = 5, hs_storage_used = 7, hs_metrics_size = 1,
      hs_logs_size = 1, hs_net_rx_rate_mill = None, hs_net_tx_rate_mill = Some 2,
      hs_disk_read_rate_mill = None, hs_disk_write_rate_mill = None,
      hs_log_pressure_pct_mill = None, hs_app_rss_bytes = Some 9\<rparr>"

definition container_sample_at :: "i64 \<Rightarrow> container_sample" where
  "container_sample_at ts =
     \<lparr>cs_ts = ts, cs_service = ServiceId 1, cs_cid = ContainerId 1 2 3 4 5 6,
      cs_cpu_pct_mill = 1000, cs_mem_used = 5, cs_net_rx_rate_mill = None,
      cs_net_tx_rate_mill = Some 2, cs_blk_read_rate_mill = None, cs_blk_write_rate_mill = None\<rparr>"

text \<open>
  C13. Downsampling host samples in time order is the grouping by bucket: one row for each bucket
  that holds a sample and has no silence above the configured share of its length, the row carrying
  the mean of each required value and the mean of the values present of each optional one.
\<close>

theorem downsample_host_refines:
  assumes "sorted (map hs_ts ss)" "list_all ts_ok (map hs_ts ss)"
  shows "downsample_host ss r pct =
    grouped (\<lambda>s. bucket_end (hs_ts s) (bucket_ms r)) (host_bucket r pct) ss"
  using assms by (rule host_grouped)

theorem downsample_host_refines_witness:
  "downsample_host [host_sample_at 10000, host_sample_at 20000] OneMinute 100 =
    grouped (\<lambda>s. bucket_end (hs_ts s) (bucket_ms OneMinute)) (host_bucket OneMinute 100)
      [host_sample_at 10000, host_sample_at 20000]"
  by (rule downsample_host_refines) (simp_all add: host_sample_at_def ts_ok_def)

lemma unat_u64_less: "unat (w :: u64) < 18446744073709551616"
  using unsigned_less [of w, where 'a = nat] by simp

lemma mean_of_bounds:
  assumes "xs \<noteq> []"
  shows "\<exists>x\<in>set xs. x \<le> mean_of xs" "\<exists>x\<in>set xs. mean_of xs \<le> x"
proof -
  define lo where "lo = Min (set xs)"
  define hi where "hi = Max (set xs)"
  have le: "\<forall>x\<in>set xs. lo \<le> x \<and> x \<le> hi" by (simp add: lo_def hi_def)
  then have "length ys * unat lo \<le> sum_list (map unat ys) \<and>
      sum_list (map unat ys) \<le> length ys * unat hi" if "set ys \<subseteq> set xs" for ys
    using that by (induction ys) (auto simp: word_le_nat_alt add_mono)
  from this [of xs] assms have "unat lo \<le> sum_list (map unat xs) div length xs"
    "sum_list (map unat xs) div length xs \<le> unat hi"
    using div_le_mono [of "length xs * unat lo" "sum_list (map unat xs)" "length xs"]
      div_le_mono [of "sum_list (map unat xs)" "length xs * unat hi" "length xs"]
    by simp_all
  moreover from this(2) have "unat (mean_of xs) = sum_list (map unat xs) div length xs"
    using unat_u64_less [of hi] by (simp add: mean_of_def unat_of_nat)
  ultimately have "lo \<le> mean_of xs" "mean_of xs \<le> hi" by (simp_all add: word_le_nat_alt)
  then show "\<exists>x\<in>set xs. x \<le> mean_of xs" "\<exists>x\<in>set xs. mean_of xs \<le> x"
    using Min_in [of "set xs"] Max_in [of "set xs"] assms unfolding lo_def hi_def by auto
qed

text \<open>
  Downsampling the samples of a container in time order is the same grouping, the row keeping
  the service and the id of the first sample of its bucket.
\<close>

theorem downsample_container_refines:
  assumes "sorted (map cs_ts ss)" "list_all ts_ok (map cs_ts ss)"
  shows "downsample_container ss r pct =
    grouped (\<lambda>s. bucket_end (cs_ts s) (bucket_ms r)) (container_bucket r pct) ss"
  using assms by (rule container_grouped)

theorem downsample_container_refines_witness:
  "downsample_container [container_sample_at 10000, container_sample_at 70000] OneMinute 100 =
    grouped (\<lambda>s. bucket_end (cs_ts s) (bucket_ms OneMinute)) (container_bucket OneMinute 100)
      [container_sample_at 10000, container_sample_at 70000]"
  by (rule downsample_container_refines) (simp_all add: container_sample_at_def ts_ok_def)

lemma grouped_row:
  assumes "row \<in> set (grouped bkt mean ss)"
  obtains e where "mean (filter (\<lambda>s. bkt s = e) ss) e = Some row"
  using assms by (auto simp: grouped_def option_list_def split: option.splits)

text \<open>
  The rows of a downsampled container come in strictly increasing time, each at the end of a
  bucket that holds a sample, and the memory and the processor share of a row lie between those of
  two samples of its own bucket.
\<close>

theorem downsample_container_rows:
  assumes "sorted (map cs_ts ss)" "list_all ts_ok (map cs_ts ss)"
  shows "sorted_wrt (<) (map cs_ts (downsample_container ss r pct)) \<and>
    (\<forall>row\<in>set (downsample_container ss r pct).
      let ms = filter (\<lambda>s. bucket_end (cs_ts s) (bucket_ms r) = cs_ts row) ss in
      (\<exists>s\<in>set ms. cs_mem_used s \<le> cs_mem_used row) \<and>
      (\<exists>s\<in>set ms. cs_mem_used row \<le> cs_mem_used s) \<and>
      (\<exists>s\<in>set ms. cs_cpu_pct_mill s \<le> cs_cpu_pct_mill row) \<and>
      (\<exists>s\<in>set ms. cs_cpu_pct_mill row \<le> cs_cpu_pct_mill s))"
proof -
  note eq = container_grouped [OF assms, of r pct]
  have ts: "cs_ts s = e" if "container_bucket r pct ms e = Some s" for ms e s
    using that by (auto simp: container_bucket_def split: if_splits)
  have srt: "sorted (map (\<lambda>s. bucket_end (cs_ts s) (bucket_ms r)) ss)"
    using sorted_bucket_ends [OF assms, of r] by (simp add: comp_def)
  show ?thesis
  proof (intro conjI ballI)
    show "sorted_wrt (<) (map cs_ts (downsample_container ss r pct))"
      unfolding eq using srt ts by (rule grouped_sorted(1))
  next
    fix row
    assume "row \<in> set (downsample_container ss r pct)"
    then obtain e where e: "container_bucket r pct
        (filter (\<lambda>s. bucket_end (cs_ts s) (bucket_ms r) = e) ss) e = Some row"
      unfolding eq by (rule grouped_row)
    define ms where "ms = filter (\<lambda>s. bucket_end (cs_ts s) (bucket_ms r) = e) ss"
    have "ms \<noteq> []" "cs_mem_used row = mean_of (map cs_mem_used ms)"
      "cs_cpu_pct_mill row = mean_of (map cs_cpu_pct_mill ms)"
      using e by (auto simp: container_bucket_def ms_def split: if_splits)
    with mean_of_bounds [of "map cs_mem_used ms"] mean_of_bounds [of "map cs_cpu_pct_mill ms"]
    show "let ms = filter (\<lambda>s. bucket_end (cs_ts s) (bucket_ms r) = cs_ts row) ss in
      (\<exists>s\<in>set ms. cs_mem_used s \<le> cs_mem_used row) \<and>
      (\<exists>s\<in>set ms. cs_mem_used row \<le> cs_mem_used s) \<and>
      (\<exists>s\<in>set ms. cs_cpu_pct_mill s \<le> cs_cpu_pct_mill row) \<and>
      (\<exists>s\<in>set ms. cs_cpu_pct_mill row \<le> cs_cpu_pct_mill s)"
      by (simp add: Let_def ms_def ts [OF e])
  qed
qed

theorem downsample_container_rows_witness:
  "sorted_wrt (<) (map cs_ts
    (downsample_container [container_sample_at 10000, container_sample_at 70000] OneMinute 100))"
  by (rule downsample_container_rows [THEN conjunct1]) (simp_all add: container_sample_at_def ts_ok_def)

section \<open>Sums over a group\<close>

definition point_total :: "i64 \<Rightarrow> container_point list \<Rightarrow> group_point" where
  "point_total ts ps = foldl (\<lambda>t p. add_point p t) (default_group_point\<lparr>gp_ts := ts\<rparr>) ps"

lemma foldl_concat: "foldl (foldl f) a xss = foldl f a (concat xss)"
  by (induction xss arbitrary: a) simp_all

lemma sum_totals_get:
  "hm_get (foldl (\<lambda>m p. hm_entry (cp_ts p) (default_group_point\<lparr>gp_ts := cp_ts p\<rparr>) (add_point p) m)
     m ps) ts =
   (if filter (\<lambda>p. cp_ts p = ts) ps = [] then hm_get m ts
    else Some (foldl (\<lambda>t p. add_point p t)
      (case hm_get m ts of None \<Rightarrow> default_group_point\<lparr>gp_ts := ts\<rparr> | Some t \<Rightarrow> t)
      (filter (\<lambda>p. cp_ts p = ts) ps)))"
proof (induction ps arbitrary: m)
  case (Cons p ps)
  show ?case by (auto simp: Cons.IH filter_empty_conv)
qed simp

lemma sum_totals_wf:
  "hm_wf m \<Longrightarrow> hm_wf (foldl (\<lambda>m p. hm_entry (cp_ts p) (default_group_point\<lparr>gp_ts := cp_ts p\<rparr>)
     (add_point p) m) m ps)"
  by (induction ps arbitrary: m) auto

lemma point_total_ts [simp]: "gp_ts (point_total ts ps) = ts"
proof -
  have "gp_ts (foldl (\<lambda>t p. add_point p t) t ps) = gp_ts t" for t
    by (induction ps arbitrary: t) (simp_all add: add_point_def)
  then show ?thesis by (simp add: point_total_def)
qed

lemma sum_totals_set:
  "set (sum_totals series []) =
    (\<lambda>ts. (ts, point_total ts (filter (\<lambda>p. cp_ts p = ts) (concat series)))) ` cp_ts ` set (concat series)"
proof -
  have wf: "hm_wf (sum_totals series [])"
    unfolding sum_totals_def foldl_concat by (rule sum_totals_wf) simp
  show ?thesis
  proof (rule set_eqI)
    fix kv :: "i64 \<times> group_point"
    obtain ts t where kv: "kv = (ts, t)" by (cases kv)
    have "kv \<in> set (sum_totals series []) \<longleftrightarrow> hm_get (sum_totals series []) ts = Some t"
      unfolding kv using wf by (rule hm_get_in_set)
    also have "\<dots> \<longleftrightarrow> filter (\<lambda>p. cp_ts p = ts) (concat series) \<noteq> [] \<and>
        t = point_total ts (filter (\<lambda>p. cp_ts p = ts) (concat series))"
      unfolding sum_totals_def foldl_concat sum_totals_get point_total_def by auto
    also have "filter (\<lambda>p. cp_ts p = ts) (concat series) \<noteq> [] \<longleftrightarrow> ts \<in> cp_ts ` set (concat series)"
      by (auto simp: filter_empty_conv)
    finally show "kv \<in> set (sum_totals series []) \<longleftrightarrow> kv \<in> (\<lambda>ts. (ts, point_total ts
        (filter (\<lambda>p. cp_ts p = ts) (concat series)))) ` cp_ts ` set (concat series)"
      unfolding kv by auto
  qed
qed

lemma sum_totals_keys: "hm_wf (sum_totals series [])" "map (\<lambda>x. gp_ts (snd x)) (sum_totals series []) =
    map fst (sum_totals series [])"
proof -
  show "hm_wf (sum_totals series [])"
    unfolding sum_totals_def foldl_concat by (rule sum_totals_wf) simp
  show "map (\<lambda>x. gp_ts (snd x)) (sum_totals series []) = map fst (sum_totals series [])"
    by (rule map_cong [OF refl]) (auto simp: sum_totals_set)
qed

text \<open>
  The sum of a group has one point for each bucket in which some member has one, in strictly
  increasing time whatever order the hash map iterates in, and each point adds up the members'
  points of that bucket in the order of the series.
\<close>

theorem sum_by_bucket_spec:
  "sorted_wrt (<) (map gp_ts (sum_by_bucket series)) \<and>
   set (sum_by_bucket series) =
     (\<lambda>ts. point_total ts (filter (\<lambda>p. cp_ts p = ts) (concat series))) ` cp_ts ` set (concat series)"
proof
  have "distinct (map gp_ts (map snd (sum_totals series [])))"
    unfolding map_map comp_def sum_totals_keys(2)
    using sum_totals_keys(1) [of series] by (simp only: hm_wf_def)
  then have "distinct (map gp_ts (sum_by_bucket series))"
    unfolding sum_by_bucket_def by (metis distinct_map distinct_sort set_sort)
  then show "sorted_wrt (<) (map gp_ts (sum_by_bucket series))"
    unfolding strict_sorted_iff by (simp add: sum_by_bucket_def)
  show "set (sum_by_bucket series) =
     (\<lambda>ts. point_total ts (filter (\<lambda>p. cp_ts p = ts) (concat series))) ` cp_ts ` set (concat series)"
    by (simp add: sum_by_bucket_def sum_totals_set image_image)
qed

lemma add_optional_None: "add_optional a v = None \<longleftrightarrow> a = None \<and> v = None"
  by (auto simp: add_optional_def split: option.splits)

lemma add_point_simps [simp]:
  "gp_mem_used (add_point p t) = saturating_add (gp_mem_used t) (cp_mem_used p)"
  "gp_net_rx_rate (add_point p t) = add_optional (gp_net_rx_rate t) (cp_net_rx_rate p)"
  "gp_cpu_pct (add_point p t) = f64_add (gp_cpu_pct t) (cp_cpu_pct p)"
  by (simp_all add: add_point_def)

lemma point_total_mem:
  "unat (gp_mem_used (foldl (\<lambda>t p. add_point p t) t ps)) =
     min (unat (gp_mem_used t) + sum_list (map (unat \<circ> cp_mem_used) ps)) (2 ^ 64 - 1)"
proof (induction ps arbitrary: t)
  case Nil
  show ?case using unat_u64_less [of "gp_mem_used t"] by simp
next
  case (Cons p ps)
  show ?case by (simp add: Cons.IH unat_saturating_add)
qed

lemma point_total_rate:
  "gp_net_rx_rate (foldl (\<lambda>t p. add_point p t) t ps) = None \<longleftrightarrow>
     gp_net_rx_rate t = None \<and> (\<forall>p\<in>set ps. cp_net_rx_rate p = None)"
  by (induction ps arbitrary: t) (auto simp: add_optional_None)

text \<open>
  In a group's point the memory is the sum of the members' memory capped at the largest 64-bit
  value, whatever the order, and a rate is unknown only when it is unknown for every member.
\<close>

theorem point_total_values:
  "unat (gp_mem_used (point_total ts ps)) =
     min (sum_list (map (unat \<circ> cp_mem_used) ps)) (2 ^ 64 - 1) \<and>
   (gp_net_rx_rate (point_total ts ps) = None \<longleftrightarrow> list_all (\<lambda>p. cp_net_rx_rate p = None) ps)"
  by (simp add: point_total_def point_total_mem point_total_rate default_group_point_def list_all_iff)

end
