(* ===== verification/Collector.thy ===== *)
theory Collector
  imports Downsampling
begin

text \<open>
  \<open>metrics/collector_host.rs\<close> and \<open>metrics/collector_containers.rs\<close>: the bucketizers of the host and
  of every container, and the two collector states that turn the stream of raw samples into one
  row for each closed 10s bucket. The loops that feed them from the sources and hand their rows to
  the store are in \<open>Collector_Loop\<close>.
\<close>

section \<open>Host\<close>

definition cpu_pct_mill :: "f64 \<Rightarrow> u64" where
  "cpu_pct_mill p =
     (if f64_is_finite p \<and> f64_lt (Fin 0) p
      then f64_to_u64 (f64_round (f64_mul p (f64_of_int 1000))) else 0)"

record host_bucketizer =
  hb_cpu_pct_mill :: bucketizer
  hb_mem_used :: bucketizer
  hb_storage_used :: bucketizer
  hb_metrics_size :: bucketizer
  hb_logs_size :: bucketizer
  hb_net_rx_rate_mill :: bucketizer
  hb_net_tx_rate_mill :: bucketizer
  hb_disk_read_rate_mill :: bucketizer
  hb_disk_write_rate_mill :: bucketizer
  hb_log_pressure_pct_mill :: bucketizer
  hb_app_rss_bytes :: bucketizer

definition hb_new :: "nat \<Rightarrow> host_bucketizer" where
  "hb_new collect_interval =
     (let len = bucket_ms TenSeconds; k = bk_new (buffer_capacity collect_interval len) len in
      \<lparr>hb_cpu_pct_mill = k, hb_mem_used = k, hb_storage_used = k, hb_metrics_size = k,
       hb_logs_size = k, hb_net_rx_rate_mill = k, hb_net_tx_rate_mill = k,
       hb_disk_read_rate_mill = k, hb_disk_write_rate_mill = k,
       hb_log_pressure_pct_mill = k, hb_app_rss_bytes = k\<rparr>)"

definition hb_push :: "host_bucketizer \<Rightarrow> host_raw_sample \<Rightarrow> host_bucketizer" where
  "hb_push b s =
     \<lparr>hb_cpu_pct_mill = bk_push (hb_cpu_pct_mill b) (hr_ts s) (cpu_pct_mill (hr_cpu_pct s)),
      hb_mem_used = bk_push (hb_mem_used b) (hr_ts s) (hr_mem_used s),
      hb_storage_used = bk_push (hb_storage_used b) (hr_ts s) (hr_storage_used s),
      hb_metrics_size = bk_push (hb_metrics_size b) (hr_ts s) (hr_metrics_size s),
      hb_logs_size = bk_push (hb_logs_size b) (hr_ts s) (hr_logs_size s),
      hb_net_rx_rate_mill = bk_push (hb_net_rx_rate_mill b) (hr_ts s) (hr_net_rx s),
      hb_net_tx_rate_mill = bk_push (hb_net_tx_rate_mill b) (hr_ts s) (hr_net_tx s),
      hb_disk_read_rate_mill = bk_push (hb_disk_read_rate_mill b) (hr_ts s) (hr_disk_read s),
      hb_disk_write_rate_mill = bk_push (hb_disk_write_rate_mill b) (hr_ts s) (hr_disk_write s),
      hb_log_pressure_pct_mill =
        bk_push (hb_log_pressure_pct_mill b) (hr_ts s) (hr_log_pressure_pct_mill s),
      hb_app_rss_bytes =
        (case hr_app_rss_bytes s of None \<Rightarrow> hb_app_rss_bytes b
         | Some rss \<Rightarrow> bk_push (hb_app_rss_bytes b) (hr_ts s) rss)\<rparr>"

definition hb_collect :: "host_bucketizer \<Rightarrow> timestamp_ms \<Rightarrow> host_sample option" where
  "hb_collect b e =
     (case gauge_collect (hb_cpu_pct_mill b) e of None \<Rightarrow> None
      | Some cpu \<Rightarrow> (case gauge_collect (hb_mem_used b) e of None \<Rightarrow> None
      | Some mem \<Rightarrow> (case gauge_collect (hb_storage_used b) e of None \<Rightarrow> None
      | Some storage \<Rightarrow> (case gauge_collect (hb_metrics_size b) e of None \<Rightarrow> None
      | Some metrics \<Rightarrow> (case gauge_collect (hb_logs_size b) e of None \<Rightarrow> None
      | Some logs \<Rightarrow>
          Some \<lparr>hs_ts = e, hs_cpu_pct_mill = cpu, hs_mem_used = mem, hs_storage_used = storage,
                hs_metrics_size = metrics, hs_logs_size = logs,
                hs_net_rx_rate_mill = counter_collect (hb_net_rx_rate_mill b) e,
                hs_net_tx_rate_mill = counter_collect (hb_net_tx_rate_mill b) e,
                hs_disk_read_rate_mill = counter_collect (hb_disk_read_rate_mill b) e,
                hs_disk_write_rate_mill = counter_collect (hb_disk_write_rate_mill b) e,
                hs_log_pressure_pct_mill = max_collect (hb_log_pressure_pct_mill b) e,
                hs_app_rss_bytes = max_collect (hb_app_rss_bytes b) e\<rparr>)))))"

record host_collector_state =
  hcs_bucketizer :: host_bucketizer
  hcs_last_raw_bucket_end :: "timestamp_ms option"

definition host_collector_new :: "nat \<Rightarrow> host_collector_state" where
  "host_collector_new collect_interval =
     \<lparr>hcs_bucketizer = hb_new collect_interval, hcs_last_raw_bucket_end = None\<rparr>"

text \<open>\<open>Option::filter\<close>.\<close>

definition option_filter :: "('a \<Rightarrow> bool) \<Rightarrow> 'a option \<Rightarrow> 'a option" where
  "option_filter p x = (case x of None \<Rightarrow> None | Some a \<Rightarrow> if p a then Some a else None)"

definition host_observe ::
    "host_collector_state \<Rightarrow> host_raw_sample \<Rightarrow> host_collector_state \<times> host_sample option" where
  "host_observe st s =
     (let current = bucket_end (hr_ts s) (bucket_ms TenSeconds);
          completed = option_filter (\<lambda>l. l < current) (hcs_last_raw_bucket_end st);
          b = hb_push (hcs_bucketizer st) s
      in (\<lparr>hcs_bucketizer = b, hcs_last_raw_bucket_end = Some current\<rparr>,
          Option.bind completed (hb_collect b)))"

section \<open>Containers\<close>

definition max_idle_flushes :: nat where
  "max_idle_flushes = 2"

record container_bucketizer =
  cb_cpu_usage_ns :: bucketizer
  cb_system_cpu_usage_ns :: bucketizer
  cb_last_cpu_count :: u32
  cb_mem_used :: bucketizer
  cb_net_rx_rate_mill :: bucketizer
  cb_net_tx_rate_mill :: bucketizer
  cb_blk_read_rate_mill :: bucketizer
  cb_blk_write_rate_mill :: bucketizer

definition cb_new :: "nat \<Rightarrow> container_bucketizer" where
  "cb_new collect_interval =
     (let len = bucket_ms TenSeconds; k = bk_new (buffer_capacity collect_interval len) len in
      \<lparr>cb_cpu_usage_ns = k, cb_system_cpu_usage_ns = k, cb_last_cpu_count = 1, cb_mem_used = k,
       cb_net_rx_rate_mill = k, cb_net_tx_rate_mill = k, cb_blk_read_rate_mill = k,
       cb_blk_write_rate_mill = k\<rparr>)"

definition cb_push :: "container_bucketizer \<Rightarrow> container_raw_sample \<Rightarrow> container_bucketizer" where
  "cb_push b s =
     \<lparr>cb_cpu_usage_ns = bk_push (cb_cpu_usage_ns b) (cr_ts s) (cr_cpu_usage_ns s),
      cb_system_cpu_usage_ns =
        bk_push (cb_system_cpu_usage_ns b) (cr_ts s) (cr_system_cpu_usage_ns s),
      cb_last_cpu_count = cr_cpu_count s,
      cb_mem_used = bk_push (cb_mem_used b) (cr_ts s) (cr_mem_used s),
      cb_net_rx_rate_mill = bk_push (cb_net_rx_rate_mill b) (cr_ts s) (cr_net_rx s),
      cb_net_tx_rate_mill = bk_push (cb_net_tx_rate_mill b) (cr_ts s) (cr_net_tx s),
      cb_blk_read_rate_mill = bk_push (cb_blk_read_rate_mill b) (cr_ts s) (cr_blk_read s),
      cb_blk_write_rate_mill = bk_push (cb_blk_write_rate_mill b) (cr_ts s) (cr_blk_write s)\<rparr>"

text \<open>The \<open>u128\<close> product stays below \<open>2 ^ 113\<close>; the quotient is converted with \<open>try_from\<close>.\<close>

definition cb_cpu_pct_mill :: "container_bucketizer \<Rightarrow> timestamp_ms \<Rightarrow> u64 option" where
  "cb_cpu_pct_mill b e =
     (case counter_collect (cb_cpu_usage_ns b) e of None \<Rightarrow> None
      | Some cpu_rate \<Rightarrow> (case counter_collect (cb_system_cpu_usage_ns b) e of None \<Rightarrow> None
        | Some system_rate \<Rightarrow>
            if system_rate = 0 then None
            else let q = unat cpu_rate * unat (cb_last_cpu_count b) * 100000 div unat system_rate in
              if q < 2 ^ 64 then Some (of_nat q) else None))"

definition cb_collect ::
    "container_bucketizer \<Rightarrow> timestamp_ms \<Rightarrow> service_id \<Rightarrow> container_id \<Rightarrow> container_sample option" where
  "cb_collect b e service cid =
     (case cb_cpu_pct_mill b e of None \<Rightarrow> None
      | Some cpu \<Rightarrow> (case gauge_collect (cb_mem_used b) e of None \<Rightarrow> None
      | Some mem \<Rightarrow>
          Some \<lparr>cs_ts = e, cs_service = service, cs_cid = cid, cs_cpu_pct_mill = cpu,
                cs_mem_used = mem,
                cs_net_rx_rate_mill = counter_collect (cb_net_rx_rate_mill b) e,
                cs_net_tx_rate_mill = counter_collect (cb_net_tx_rate_mill b) e,
                cs_blk_read_rate_mill = counter_collect (cb_blk_read_rate_mill b) e,
                cs_blk_write_rate_mill = counter_collect (cb_blk_write_rate_mill b) e\<rparr>))"

record container_entry =
  ce_service :: service_id
  ce_bucketizer :: container_bucketizer
  ce_idle_flushes :: nat

record container_collector_state =
  ccs_containers :: "(container_id, container_entry) hash_map"
  ccs_last_raw_bucket_end :: "timestamp_ms option"
  ccs_collect_interval :: nat

definition container_collector_new :: "nat \<Rightarrow> container_collector_state" where
  "container_collector_new collect_interval =
     \<lparr>ccs_containers = [], ccs_last_raw_bucket_end = None, ccs_collect_interval = collect_interval\<rparr>"

text \<open>
  \<open>flush\<close>: the \<open>retain\<close> over the map, in the order the map iterates, with the rows it pushes.
\<close>

fun flush_entries ::
    "timestamp_ms \<Rightarrow> (container_id, container_entry) hash_map
      \<Rightarrow> (container_id, container_entry) hash_map \<times> container_sample list" where
  "flush_entries e [] = ([], [])"
| "flush_entries e ((cid, en) # m) =
     (let (m', rows) = flush_entries e m in
      case cb_collect (ce_bucketizer en) e (ce_service en) cid of
        Some sample \<Rightarrow> ((cid, en\<lparr>ce_idle_flushes := 0\<rparr>) # m', sample # rows)
      | None \<Rightarrow>
          let idle = ce_idle_flushes en + 1 in
          (if idle < max_idle_flushes then (cid, en\<lparr>ce_idle_flushes := idle\<rparr>) # m' else m', rows))"

definition cc_flush ::
    "container_collector_state \<Rightarrow> timestamp_ms \<Rightarrow> container_collector_state \<times> container_sample list"
  where
  "cc_flush st e =
     (let (m, rows) = flush_entries e (ccs_containers st) in (st\<lparr>ccs_containers := m\<rparr>, rows))"

definition cc_push ::
    "nat \<Rightarrow> (container_id, container_entry) hash_map \<Rightarrow> container_raw_sample
      \<Rightarrow> (container_id, container_entry) hash_map" where
  "cc_push interval m s =
     hm_entry (cr_cid s)
       \<lparr>ce_service = cr_service s, ce_bucketizer = cb_new interval, ce_idle_flushes = 0\<rparr>
       (\<lambda>en. en\<lparr>ce_service := cr_service s, ce_bucketizer := cb_push (ce_bucketizer en) s\<rparr>) m"

definition cc_observe ::
    "container_collector_state \<Rightarrow> container_raw_sample list
      \<Rightarrow> container_collector_state \<times> container_sample list" where
  "cc_observe st batch =
     (case list_max (map cr_ts batch) of None \<Rightarrow> (st, [])
      | Some newest \<Rightarrow>
          let current = bucket_end newest (bucket_ms TenSeconds);
              completed = option_filter (\<lambda>l. l < current) (ccs_last_raw_bucket_end st);
              st1 = st\<lparr>ccs_containers := foldl (cc_push (ccs_collect_interval st)) (ccs_containers st) batch,
                       ccs_last_raw_bucket_end := Some current\<rparr>
          in (case completed of None \<Rightarrow> (st1, []) | Some e \<Rightarrow> cc_flush st1 e))"

section \<open>The host stream\<close>

fun host_observe_all ::
    "host_collector_state \<Rightarrow> host_raw_sample list \<Rightarrow> host_collector_state \<times> host_sample list" where
  "host_observe_all st [] = (st, [])"
| "host_observe_all st (s # ss) =
     (let (st1, row) = host_observe st s; (st2, rows) = host_observe_all st1 ss
      in (st2, option_list row @ rows))"

lemmas ten_second_mono = bucket_end_mono [where r = TenSeconds, simplified]

lemma hb_collect_ts: "hb_collect b e = Some row \<Longrightarrow> hs_ts row = e"
  by (auto simp: hb_collect_def split: option.splits)

lemma host_observe_last [simp]:
  "hcs_last_raw_bucket_end (fst (host_observe st s)) = Some (bucket_end (hr_ts s) (bucket_ms TenSeconds))"
  by (simp add: host_observe_def Let_def)

lemma host_observe_row:
  assumes "snd (host_observe st s) = Some row"
  shows "hcs_last_raw_bucket_end st = Some (hs_ts row)"
    "hs_ts row < bucket_end (hr_ts s) (bucket_ms TenSeconds)"
  using assms
  by (auto simp: host_observe_def Let_def option_filter_def bind_eq_Some_conv
      dest: hb_collect_ts split: option.splits if_splits)

lemma host_rows_from:
  assumes "sorted (map hr_ts ss)" "list_all ts_ok (map hr_ts ss)"
    "hcs_last_raw_bucket_end st = Some l"
    "\<forall>s\<in>set ss. l \<le> bucket_end (hr_ts s) (bucket_ms TenSeconds)"
  shows "sorted_wrt (<) (map hs_ts (snd (host_observe_all st ss))) \<and>
    (\<forall>row\<in>set (snd (host_observe_all st ss)). l \<le> hs_ts row \<and>
      (hs_ts row = l \<or> (\<exists>s\<in>set ss. hs_ts row = bucket_end (hr_ts s) (bucket_ms TenSeconds))))"
  using assms
proof (induction ss arbitrary: st l)
  case (Cons s ss)
  define st1 where "st1 = fst (host_observe st s)"
  define c where "c = bucket_end (hr_ts s) (bucket_ms TenSeconds)"
  have later: "\<forall>x\<in>set ss. c \<le> bucket_end (hr_ts x) (bucket_ms TenSeconds)"
    using Cons.prems(1,2) by (auto simp: c_def list_all_iff intro: ten_second_mono)
  have IH: "sorted_wrt (<) (map hs_ts (snd (host_observe_all st1 ss))) \<and>
    (\<forall>row\<in>set (snd (host_observe_all st1 ss)). c \<le> hs_ts row \<and>
      (hs_ts row = c \<or> (\<exists>s\<in>set ss. hs_ts row = bucket_end (hr_ts s) (bucket_ms TenSeconds))))"
    using Cons.prems(1,2) later by (intro Cons.IH) (simp_all add: st1_def c_def)
  have lc: "l \<le> c" using Cons.prems(4) by (simp add: c_def)
  have out: "snd (host_observe_all st (s # ss)) =
      option_list (snd (host_observe st s)) @ snd (host_observe_all st1 ss)"
    by (simp add: st1_def split: prod.splits)
  show ?case
  proof (cases "snd (host_observe st s)")
    case None
    then show ?thesis using IH lc unfolding out by (auto simp: option_list_def c_def)
  next
    case (Some row)
    from host_observe_row [OF Some] Cons.prems(3) have "hs_ts row = l" "l < c"
      by (simp_all add: c_def)
    then show ?thesis using IH lc unfolding out Some
      by (auto simp: option_list_def c_def)
  qed
qed simp

text \<open>
  Fed with raw samples in time order, the host collector writes at most one row for a bucket:
  its rows come in strictly increasing time and each one closes a bucket that a sample fell into.
\<close>

theorem host_rows_ordered:
  assumes "sorted (map hr_ts ss)" "list_all ts_ok (map hr_ts ss)"
  shows "sorted_wrt (<) (map hs_ts (snd (host_observe_all (host_collector_new interval) ss))) \<and>
    hs_ts ` set (snd (host_observe_all (host_collector_new interval) ss))
      \<subseteq> (\<lambda>s. bucket_end (hr_ts s) (bucket_ms TenSeconds)) ` set ss"
proof (cases ss)
  case (Cons s rest)
  define st1 where "st1 = fst (host_observe (host_collector_new interval) s)"
  define c where "c = bucket_end (hr_ts s) (bucket_ms TenSeconds)"
  have no: "snd (host_observe (host_collector_new interval) s) = None"
    by (simp add: host_observe_def host_collector_new_def option_filter_def Let_def)
  have out: "snd (host_observe_all (host_collector_new interval) ss) = snd (host_observe_all st1 rest)"
    using no by (simp add: Cons st1_def option_list_def case_prod_unfold Let_def)
  have "\<forall>x\<in>set rest. c \<le> bucket_end (hr_ts x) (bucket_ms TenSeconds)"
    using assms by (auto simp: Cons c_def list_all_iff intro: ten_second_mono)
  then have "sorted_wrt (<) (map hs_ts (snd (host_observe_all st1 rest))) \<and>
    (\<forall>row\<in>set (snd (host_observe_all st1 rest)). c \<le> hs_ts row \<and>
      (hs_ts row = c \<or> (\<exists>s\<in>set rest. hs_ts row = bucket_end (hr_ts s) (bucket_ms TenSeconds))))"
    using assms by (intro host_rows_from) (simp_all add: Cons st1_def c_def)
  then show ?thesis unfolding out by (auto simp: Cons c_def)
qed simp

definition host_raw_at :: "i64 \<Rightarrow> u64 \<Rightarrow> host_raw_sample" where
  "host_raw_at ts v =
     \<lparr>hr_ts = ts, hr_cpu_pct = Fin 50, hr_mem_used = v, hr_mem_total = 100, hr_storage_used = v,
      hr_storage_total = 100, hr_metrics_size = v, hr_logs_size = v, hr_net_rx = v, hr_net_tx = v,
      hr_disk_read = v, hr_disk_write = v, hr_log_pressure_pct_mill = v, hr_app_rss_bytes = None\<rparr>"

theorem host_rows_ordered_witness:
  "sorted_wrt (<) (map hs_ts (snd (host_observe_all (host_collector_new 5000)
     [host_raw_at 1000 1, host_raw_at 10000 2, host_raw_at 11000 3, host_raw_at 21000 4])))"
  by (rule host_rows_ordered [THEN conjunct1]) (simp_all add: host_raw_at_def ts_ok_def)

section \<open>Container flushes\<close>

lemma cb_collect_row: "cb_collect b e sv cid = Some row \<Longrightarrow>
    cs_ts row = e \<and> cs_service row = sv \<and> cs_cid row = cid"
  by (auto simp: cb_collect_def split: option.splits)

text \<open>What one entry becomes at a flush, and the row it yields.\<close>

definition flushed :: "timestamp_ms \<Rightarrow> container_id \<Rightarrow> container_entry \<Rightarrow> container_entry option" where
  "flushed e cid en =
     (if cb_collect (ce_bucketizer en) e (ce_service en) cid \<noteq> None
      then Some (en\<lparr>ce_idle_flushes := 0\<rparr>)
      else if ce_idle_flushes en + 1 < max_idle_flushes
      then Some (en\<lparr>ce_idle_flushes := ce_idle_flushes en + 1\<rparr>) else None)"

lemma flush_entries_Cons:
  "fst (flush_entries e ((k, en) # m)) =
     (case flushed e k en of None \<Rightarrow> fst (flush_entries e m)
      | Some en' \<Rightarrow> (k, en') # fst (flush_entries e m))"
  by (simp add: flushed_def case_prod_unfold Let_def split: option.splits)

lemma flush_entries_get:
  assumes "hm_wf m"
  shows "hm_get (fst (flush_entries e m)) cid = Option.bind (hm_get m cid) (flushed e cid)
    \<and> hm_wf (fst (flush_entries e m)) \<and> fst ` set (fst (flush_entries e m)) \<subseteq> fst ` set m"
  using assms
proof (induction m)
  case (Cons kv m)
  obtain k en where kv: "kv = (k, en)" by (cases kv)
  have wf: "hm_wf m" "k \<notin> fst ` set m" using Cons.prems by (auto simp: hm_wf_def kv)
  note IH = Cons.IH [OF wf(1)]
  have none: "hm_get m k = None" using wf(2) by (simp add: map_of_eq_None_iff)
  have fresh: "k \<notin> fst ` set (fst (flush_entries e m))" using IH wf(2) by blast
  show ?case
  proof (cases "flushed e k en")
    case None
    then show ?thesis using IH none unfolding kv flush_entries_Cons by auto
  next
    case (Some en')
    then show ?thesis using IH fresh unfolding kv flush_entries_Cons by (auto simp: hm_wf_def)
  qed
qed simp

lemma flush_entries_rows:
  "set (snd (flush_entries e m)) =
     {row. \<exists>cid en. (cid, en) \<in> set m \<and> cb_collect (ce_bucketizer en) e (ce_service en) cid = Some row}"
proof (induction m)
  case (Cons kv m)
  obtain k en where kv: "kv = (k, en)" by (cases kv)
  show ?case
    by (cases "cb_collect (ce_bucketizer en) e (ce_service en) k")
      (auto simp: kv Cons.IH case_prod_unfold Let_def)
qed simp

lemma flush_rows_distinct:
  assumes "hm_wf m"
  shows "distinct (map cs_cid (snd (flush_entries e m)))"
proof -
  have "map cs_cid (snd (flush_entries e m)) =
      filter (\<lambda>c. c \<in> cs_cid ` set (snd (flush_entries e m))) (map fst m)"
    using assms
  proof (induction m)
    case (Cons kv m)
    obtain k en where kv: "kv = (k, en)" by (cases kv)
    have wf: "hm_wf m" "k \<notin> fst ` set m" using Cons.prems by (auto simp: hm_wf_def kv)
    have sub: "cs_cid ` set (snd (flush_entries e m)) \<subseteq> fst ` set m"
      by (force simp: flush_entries_rows dest: cb_collect_row)
    then have k: "k \<notin> cs_cid ` set (snd (flush_entries e m))" using wf(2) by auto
    show ?case
    proof (cases "cb_collect (ce_bucketizer en) e (ce_service en) k")
      case None
      then show ?thesis using Cons.IH [OF wf(1)] k
        by (simp add: kv case_prod_unfold Let_def)
    next
      case (Some row)
      then have "cs_cid row = k" by (simp add: cb_collect_row)
      moreover have "filter (\<lambda>c. c = k \<or> c \<in> cs_cid ` set (snd (flush_entries e m))) (map fst m) =
          filter (\<lambda>c. c \<in> cs_cid ` set (snd (flush_entries e m))) (map fst m)"
        using wf(2) by (intro filter_cong) auto
      ultimately show ?thesis using Cons.IH [OF wf(1)] Some
        by (simp add: kv case_prod_unfold Let_def)
    qed
  qed simp
  then show ?thesis using assms by (metis distinct_filter hm_wf_def)
qed

definition entries_ok :: "(container_id, container_entry) hash_map \<Rightarrow> bool" where
  "entries_ok m \<longleftrightarrow> hm_wf m \<and> (\<forall>en \<in> snd ` set m. ce_idle_flushes en < max_idle_flushes)"

definition cc_inv :: "container_collector_state \<Rightarrow> bool" where
  "cc_inv st \<longleftrightarrow> entries_ok (ccs_containers st)"

lemma cc_inv_new [simp]: "cc_inv (container_collector_new interval)"
  by (simp add: cc_inv_def entries_ok_def container_collector_new_def)

definition pushed ::
    "container_collector_state \<Rightarrow> container_raw_sample list \<Rightarrow> (container_id, container_entry) hash_map"
  where "pushed st batch = foldl (cc_push (ccs_collect_interval st)) (ccs_containers st) batch"

lemma cc_push_ok:
  assumes "entries_ok m"
  shows "entries_ok (cc_push i m s)"
  using assms
  by (force simp: entries_ok_def cc_push_def hm_entry_def set_hm_insert max_idle_flushes_def
      hm_get_in_set [symmetric] split: option.splits)

lemma pushed_ok: "cc_inv st \<Longrightarrow> entries_ok (pushed st batch)"
  unfolding pushed_def cc_inv_def
  by (induction batch arbitrary: st rule: rev_induct) (simp_all add: cc_push_ok)

lemma flush_entries_ok:
  assumes "entries_ok m"
  shows "entries_ok (fst (flush_entries e m))"
proof -
  have wf: "hm_wf m" using assms by (simp add: entries_ok_def)
  have "ce_idle_flushes en < max_idle_flushes" if "(cid, en) \<in> set (fst (flush_entries e m))" for cid en
  proof -
    have "Option.bind (hm_get m cid) (flushed e cid) = Some en"
      using that flush_entries_get [OF wf, of e cid] by (simp add: hm_get_in_set)
    then show ?thesis
      by (auto simp: bind_eq_Some_conv flushed_def max_idle_flushes_def split: if_splits)
  qed
  then show ?thesis using flush_entries_get [OF wf, of e] by (auto simp: entries_ok_def)
qed

lemma cc_observe_cases:
  obtains (empty) "batch = []" "cc_observe st batch = (st, [])"
  | (stay) newest where "list_max (map cr_ts batch) = Some newest"
      "option_filter (\<lambda>l. l < bucket_end newest (bucket_ms TenSeconds)) (ccs_last_raw_bucket_end st) = None"
      "cc_observe st batch = (st\<lparr>ccs_containers := pushed st batch,
         ccs_last_raw_bucket_end := Some (bucket_end newest (bucket_ms TenSeconds))\<rparr>, [])"
  | (flush) newest e where "list_max (map cr_ts batch) = Some newest"
      "ccs_last_raw_bucket_end st = Some e" "e < bucket_end newest (bucket_ms TenSeconds)"
      "cc_observe st batch = (st\<lparr>ccs_containers := fst (flush_entries e (pushed st batch)),
         ccs_last_raw_bucket_end := Some (bucket_end newest (bucket_ms TenSeconds))\<rparr>,
         snd (flush_entries e (pushed st batch)))"
proof (cases "list_max (map cr_ts batch)")
  case None
  then have "batch = []" by (cases batch) (simp_all add: list_max_def)
  then show ?thesis using empty by (simp add: cc_observe_def list_max_def)
next
  case (Some newest)
  define c where "c = bucket_end newest (bucket_ms TenSeconds)"
  show ?thesis
  proof (cases "option_filter (\<lambda>l. l < c) (ccs_last_raw_bucket_end st)")
    case None
    then show ?thesis using Some stay
      by (simp add: cc_observe_def pushed_def Let_def c_def del: bucket_ms.simps)
  next
    case (Some e)
    then have "ccs_last_raw_bucket_end st = Some e" "e < c"
      by (auto simp: option_filter_def split: option.splits if_splits)
    then show ?thesis using Some \<open>list_max (map cr_ts batch) = Some newest\<close> flush
      by (simp add: cc_observe_def pushed_def Let_def c_def cc_flush_def case_prod_unfold
          del: bucket_ms.simps)
  qed
qed

lemma cc_observe_inv: "cc_inv st \<Longrightarrow> cc_inv (fst (cc_observe st batch))"
  by (cases rule: cc_observe_cases [of batch st]) (simp_all add: cc_inv_def pushed_ok flush_entries_ok)

text \<open>
  C15. Whatever batches arrive, the tracked containers stay a map with less than
  \<open>MAX_IDLE_FLUSHES\<close> idle flushes for each, and the rows of one flush carry one common timestamp,
  the end of the bucket before, and at most one row for a container.
\<close>

theorem cc_observe_invariant:
  assumes "cc_inv st" "cc_observe st batch = (st', rows)"
  shows "cc_inv st' \<and> distinct (map cs_cid rows) \<and>
    (\<forall>row\<in>set rows. ccs_last_raw_bucket_end st = Some (cs_ts row) \<and>
       ccs_last_raw_bucket_end st' \<noteq> None \<and> cs_ts row < the (ccs_last_raw_bucket_end st'))"
proof (cases rule: cc_observe_cases [of batch st])
  case (flush newest e)
  note ok = pushed_ok [OF assms(1), of batch]
  then have "hm_wf (pushed st batch)" by (simp add: entries_ok_def)
  then show ?thesis using flush assms(2) flush_entries_ok [OF ok, of e] flush_rows_distinct
    by (auto simp: cc_inv_def flush_entries_rows dest: cb_collect_row)
qed (use assms pushed_ok [OF assms(1), of batch] in \<open>auto simp: cc_inv_def\<close>)

text \<open>
  A flush keeps a container exactly when it produced a row or has not been silent for
  \<open>MAX_IDLE_FLUSHES\<close> flushes in a row, and its rows are those its containers' bucketizers yield:
  a container that vanished mid-bucket still gets the row of its last complete bucket.
\<close>

theorem cc_flush_tracks:
  assumes "cc_inv st" "cc_flush st e = (st', rows)"
  shows "(\<forall>cid. hm_get (ccs_containers st') cid =
       (case hm_get (ccs_containers st) cid of None \<Rightarrow> None
        | Some en \<Rightarrow>
          (if cb_collect (ce_bucketizer en) e (ce_service en) cid \<noteq> None
           then Some (en\<lparr>ce_idle_flushes := 0\<rparr>)
           else if ce_idle_flushes en + 1 < max_idle_flushes
           then Some (en\<lparr>ce_idle_flushes := ce_idle_flushes en + 1\<rparr>) else None))) \<and>
    set rows = {row. \<exists>cid en. hm_get (ccs_containers st) cid = Some en \<and>
       cb_collect (ce_bucketizer en) e (ce_service en) cid = Some row}"
proof -
  have wf: "hm_wf (ccs_containers st)" using assms(1) by (simp add: cc_inv_def entries_ok_def)
  have st': "ccs_containers st' = fst (flush_entries e (ccs_containers st))"
    "rows = snd (flush_entries e (ccs_containers st))"
    using assms(2) by (auto simp: cc_flush_def split: prod.splits)
  show ?thesis unfolding st'
    using flush_entries_get [OF wf, of e] wf
    by (auto simp: flush_entries_rows flushed_def hm_get_in_set split: option.splits)
qed

section \<open>Witnesses\<close>

definition container_raw_at :: "i64 \<Rightarrow> u64 \<Rightarrow> container_raw_sample" where
  "container_raw_at ts v =
     \<lparr>cr_ts = ts, cr_service = ServiceId 1, cr_cid = ContainerId 1 2 3 4 5 6, cr_cpu_usage_ns = v,
      cr_system_cpu_usage_ns = 2 * v, cr_cpu_count = 2, cr_mem_used = v, cr_net_rx = v,
      cr_net_tx = v, cr_blk_read = v, cr_blk_write = v\<rparr>"

text \<open>Three samples across two buckets: the state in which the first bucket is complete.\<close>

definition collector_example :: container_collector_state where
  "collector_example =
     fst (cc_observe (container_collector_new 5000) [container_raw_at 0 1000, container_raw_at 10000 90000])"

lemma collector_example_inv: "cc_inv collector_example"
  by (simp add: collector_example_def cc_observe_inv)

theorem cc_observe_invariant_witness:
  "cc_inv (fst (cc_observe collector_example [container_raw_at 20000 180000]))"
  using cc_observe_invariant [OF collector_example_inv surjective_pairing] by simp

text \<open>A container that has been silent for one flush and is silent again is dropped.\<close>

definition idle_example :: container_collector_state where
  "idle_example =
     \<lparr>ccs_containers = [(ContainerId 1 2 3 4 5 6,
        \<lparr>ce_service = ServiceId 1, ce_bucketizer = cb_new 5000, ce_idle_flushes = 1\<rparr>)],
      ccs_last_raw_bucket_end = Some 20000, ccs_collect_interval = 5000\<rparr>"

theorem cc_flush_tracks_witness:
  "hm_get (ccs_containers (fst (cc_flush idle_example 20000))) (ContainerId 1 2 3 4 5 6) = None"
proof -
  have "cc_inv idle_example"
    by (simp add: idle_example_def cc_inv_def entries_ok_def hm_wf_def max_idle_flushes_def)
  from cc_flush_tracks [OF this surjective_pairing, of 20000] show ?thesis
    by (auto simp: idle_example_def cb_collect_def cb_cpu_pct_mill_def cb_new_def counter_collect_def
        sb_is_empty_def sb_new_def max_idle_flushes_def Let_def)
qed

end
