(* ===== verification/Metrics_Schema.thy ===== *)
theory Metrics_Schema
  imports Collector
begin

text \<open>
  \<open>metrics/schema.rs\<close>: the rows of the metrics tables, their encoding and decoding, and the effect
  of each SQL statement on the tables of one resolution.

  A table is the list of its rows. A statement is atomic, so it either has its documented effect
  or fails and leaves the table as it was. Whether the database fails is not decided here: the
  state carries the list of the outcomes of the statements to come, \<open>Some msg\<close> for a failing one,
  and each executed statement takes the next outcome; an exhausted list means no more failures.
\<close>

section \<open>Results\<close>

fun and_then :: "'e + 'a \<Rightarrow> ('a \<Rightarrow> 'e + 'b) \<Rightarrow> 'e + 'b" where
  "and_then (Inl e) f = Inl e"
| "and_then (Inr x) f = f x"

text \<open>\<open>collect::<Result<Vec<_>, _>>()\<close>: the first error, or all the values.\<close>

fun collect_results :: "('e + 'a) list \<Rightarrow> 'e + 'a list" where
  "collect_results [] = Inr []"
| "collect_results (r # rs) = and_then r (\<lambda>x. and_then (collect_results rs) (\<lambda>xs. Inr (x # xs)))"

text \<open>\<open>Option<Result<_>>::transpose\<close>.\<close>

definition transpose_option :: "('e + 'a) option \<Rightarrow> 'e + 'a option" where
  "transpose_option v = (case v of None \<Rightarrow> Inr None | Some r \<Rightarrow> and_then r (\<lambda>x. Inr (Some x)))"

lemma and_then_Inr [simp]: "and_then r f = Inr y \<longleftrightarrow> (\<exists>x. r = Inr x \<and> f x = Inr y)"
  by (cases r) auto

lemma collect_results_Inr: "collect_results (map Inr xs) = Inr xs"
  by (induction xs) auto

lemma collect_results_map:
  assumes "\<forall>x\<in>set xs. f x = Inr (g x)"
  shows "collect_results (map f xs) = Inr (map g xs)"
  using assms by (induction xs) auto

section \<open>Integers in SQLite\<close>

definition sqlite_integer :: "u64 \<Rightarrow> string \<Rightarrow> int app_result" where
  "sqlite_integer v column =
     (case i64_of_u64 v of Some x \<Rightarrow> Inr x
      | None \<Rightarrow> Inl (Storage (column @ '' exceeds SQLite INTEGER range'')))"

definition unsigned_integer :: "int \<Rightarrow> string \<Rightarrow> u64 app_result" where
  "unsigned_integer v column =
     (case u64_of_i64 v of Some x \<Rightarrow> Inr x
      | None \<Rightarrow> Inl (Storage (column @ '' is negative'')))"

definition sqlite_rate :: "u64 option \<Rightarrow> string \<Rightarrow> int option app_result" where
  "sqlite_rate v column = transpose_option (map_option (\<lambda>x. sqlite_integer x column) v)"

definition unsigned_rate :: "int option \<Rightarrow> string \<Rightarrow> u64 option app_result" where
  "unsigned_rate v column = transpose_option (map_option (\<lambda>x. unsigned_integer x column) v)"

fun suffix_of :: "metrics_resolution \<Rightarrow> string" where
  "suffix_of TenSeconds = ''10s''"
| "suffix_of OneMinute = ''1m''"
| "suffix_of FiveMinutes = ''5m''"
| "suffix_of OneHour = ''1h''"

definition host_table :: "metrics_resolution \<Rightarrow> string" where
  "host_table r = ''host_metrics_'' @ suffix_of r"

definition container_table :: "metrics_resolution \<Rightarrow> string" where
  "container_table r = ''container_metrics_'' @ suffix_of r"

text \<open>\<open>INSERT OR REPLACE\<close> on the coarse tables, \<open>INSERT\<close> on the 10s tables.\<close>

fun insert_replaces :: "metrics_resolution \<Rightarrow> bool" where
  "insert_replaces TenSeconds = False"
| "insert_replaces _ = True"

section \<open>Rows\<close>

record host_row =
  hw_ts :: int
  hw_cpu_pct_mill :: int
  hw_mem_used :: int
  hw_storage_used :: int
  hw_metrics_size :: int
  hw_logs_size :: int
  hw_net_rx_rate_mill :: "int option"
  hw_net_tx_rate_mill :: "int option"
  hw_disk_read_rate_mill :: "int option"
  hw_disk_write_rate_mill :: "int option"
  hw_log_pressure_pct_mill :: "int option"
  hw_app_rss_bytes :: "int option"

text \<open>The checked conversions that \<open>insert_host\<close> makes before it binds its parameters.\<close>

definition host_row_of :: "host_sample \<Rightarrow> host_row app_result" where
  "host_row_of s =
     and_then (sqlite_integer (hs_cpu_pct_mill s) ''cpu_pct_mill'') (\<lambda>cpu.
     and_then (sqlite_integer (hs_mem_used s) ''mem_used'') (\<lambda>mem.
     and_then (sqlite_integer (hs_storage_used s) ''storage_used'') (\<lambda>storage.
     and_then (sqlite_integer (hs_metrics_size s) ''metrics_size'') (\<lambda>metrics.
     and_then (sqlite_integer (hs_logs_size s) ''logs_size'') (\<lambda>logs.
     and_then (sqlite_rate (hs_net_rx_rate_mill s) ''net_rx_rate_mill'') (\<lambda>rx.
     and_then (sqlite_rate (hs_net_tx_rate_mill s) ''net_tx_rate_mill'') (\<lambda>tx.
     and_then (sqlite_rate (hs_disk_read_rate_mill s) ''disk_read_rate_mill'') (\<lambda>rd.
     and_then (sqlite_rate (hs_disk_write_rate_mill s) ''disk_write_rate_mill'') (\<lambda>wr.
     and_then (sqlite_rate (hs_log_pressure_pct_mill s) ''log_pressure_pct_mill'') (\<lambda>lp.
     and_then (sqlite_rate (hs_app_rss_bytes s) ''app_rss_bytes'') (\<lambda>rss.
       Inr \<lparr>hw_ts = hs_ts s, hw_cpu_pct_mill = cpu, hw_mem_used = mem, hw_storage_used = storage,
            hw_metrics_size = metrics, hw_logs_size = logs, hw_net_rx_rate_mill = rx,
            hw_net_tx_rate_mill = tx, hw_disk_read_rate_mill = rd, hw_disk_write_rate_mill = wr,
            hw_log_pressure_pct_mill = lp, hw_app_rss_bytes = rss\<rparr>)))))))))))"

definition host_sample_from_row :: "host_row \<Rightarrow> host_sample app_result" where
  "host_sample_from_row w =
     and_then (unsigned_integer (hw_cpu_pct_mill w) ''cpu_pct_mill'') (\<lambda>cpu.
     and_then (unsigned_integer (hw_mem_used w) ''mem_used'') (\<lambda>mem.
     and_then (unsigned_integer (hw_storage_used w) ''storage_used'') (\<lambda>storage.
     and_then (unsigned_integer (hw_metrics_size w) ''metrics_size'') (\<lambda>metrics.
     and_then (unsigned_integer (hw_logs_size w) ''logs_size'') (\<lambda>logs.
     and_then (unsigned_rate (hw_net_rx_rate_mill w) ''net_rx_rate_mill'') (\<lambda>rx.
     and_then (unsigned_rate (hw_net_tx_rate_mill w) ''net_tx_rate_mill'') (\<lambda>tx.
     and_then (unsigned_rate (hw_disk_read_rate_mill w) ''disk_read_rate_mill'') (\<lambda>rd.
     and_then (unsigned_rate (hw_disk_write_rate_mill w) ''disk_write_rate_mill'') (\<lambda>wr.
     and_then (unsigned_rate (hw_log_pressure_pct_mill w) ''log_pressure_pct_mill'') (\<lambda>lp.
     and_then (unsigned_rate (hw_app_rss_bytes w) ''app_rss_bytes'') (\<lambda>rss.
       Inr \<lparr>hs_ts = hw_ts w, hs_cpu_pct_mill = cpu, hs_mem_used = mem, hs_storage_used = storage,
            hs_metrics_size = metrics, hs_logs_size = logs, hs_net_rx_rate_mill = rx,
            hs_net_tx_rate_mill = tx, hs_disk_read_rate_mill = rd, hs_disk_write_rate_mill = wr,
            hs_log_pressure_pct_mill = lp, hs_app_rss_bytes = rss\<rparr>)))))))))))"

record container_row =
  cw_ts :: int
  cw_cid :: "u8 list"
  cw_sid :: int
  cw_cpu_pct_mill :: int
  cw_mem_used :: int
  cw_net_rx_rate_mill :: "int option"
  cw_net_tx_rate_mill :: "int option"
  cw_blk_read_rate_mill :: "int option"
  cw_blk_write_rate_mill :: "int option"

text \<open>
  The validation pass of \<open>insert_containers\<close> with the values that the \<open>expect\<close>s of the second
  pass then bind.
\<close>

definition container_row_of :: "container_sample \<Rightarrow> container_row app_result" where
  "container_row_of s =
     and_then (sqlite_integer (cs_cpu_pct_mill s) ''cpu_pct_mill'') (\<lambda>cpu.
     and_then (sqlite_integer (cs_mem_used s) ''mem_used'') (\<lambda>mem.
     and_then (sqlite_rate (cs_net_rx_rate_mill s) ''net_rx_rate_mill'') (\<lambda>rx.
     and_then (sqlite_rate (cs_net_tx_rate_mill s) ''net_tx_rate_mill'') (\<lambda>tx.
     and_then (sqlite_rate (cs_blk_read_rate_mill s) ''blk_read_rate_mill'') (\<lambda>rd.
     and_then (sqlite_rate (cs_blk_write_rate_mill s) ''blk_write_rate_mill'') (\<lambda>wr.
       Inr \<lparr>cw_ts = cs_ts s, cw_cid = as_bytes (cs_cid s), cw_sid = uint (as_u32 (cs_service s)),
            cw_cpu_pct_mill = cpu, cw_mem_used = mem, cw_net_rx_rate_mill = rx,
            cw_net_tx_rate_mill = tx, cw_blk_read_rate_mill = rd, cw_blk_write_rate_mill = wr\<rparr>))))))"

definition container_sample_from_row :: "container_row \<Rightarrow> container_sample app_result" where
  "container_sample_from_row w =
     and_then (case from_bytes (cw_cid w) of Some c \<Rightarrow> Inr c
               | None \<Rightarrow> Inl (Storage ''stored cid is not 6 bytes'')) (\<lambda>cid.
     and_then (stored_service_id (cw_sid w)) (\<lambda>service.
     and_then (unsigned_integer (cw_cpu_pct_mill w) ''cpu_pct_mill'') (\<lambda>cpu.
     and_then (unsigned_integer (cw_mem_used w) ''mem_used'') (\<lambda>mem.
     and_then (unsigned_rate (cw_net_rx_rate_mill w) ''net_rx_rate_mill'') (\<lambda>rx.
     and_then (unsigned_rate (cw_net_tx_rate_mill w) ''net_tx_rate_mill'') (\<lambda>tx.
     and_then (unsigned_rate (cw_blk_read_rate_mill w) ''blk_read_rate_mill'') (\<lambda>rd.
     and_then (unsigned_rate (cw_blk_write_rate_mill w) ''blk_write_rate_mill'') (\<lambda>wr.
       Inr \<lparr>cs_ts = cw_ts w, cs_service = service, cs_cid = cid, cs_cpu_pct_mill = cpu,
            cs_mem_used = mem, cs_net_rx_rate_mill = rx, cs_net_tx_rate_mill = tx,
            cs_blk_read_rate_mill = rd, cs_blk_write_rate_mill = wr\<rparr>))))))))"

section \<open>Tables and statements\<close>

record metrics_db =
  db_host :: "metrics_resolution \<Rightarrow> host_row list"
  db_containers :: "metrics_resolution \<Rightarrow> container_row list"
  db_faults :: "string option list"

definition empty_db :: metrics_db where
  "empty_db = \<lparr>db_host = (\<lambda>_. []), db_containers = (\<lambda>_. []), db_faults = []\<rparr>"

text \<open>One statement takes the next outcome.\<close>

definition next_fault :: "metrics_db \<Rightarrow> string option \<times> metrics_db" where
  "next_fault db =
     (case db_faults db of [] \<Rightarrow> (None, db) | f # fs \<Rightarrow> (f, db\<lparr>db_faults := fs\<rparr>))"

text \<open>
  Insertion under a primary key. A clash aborts a plain insert and makes \<open>OR REPLACE\<close> delete the
  row in place; the text of the constraint error is the driver's.
\<close>

definition insert_row :: "bool \<Rightarrow> ('r \<Rightarrow> 'k) \<Rightarrow> 'r \<Rightarrow> 'r list \<Rightarrow> 'r list option" where
  "insert_row replaces key row t =
     (if key row \<in> key ` set t
      then if replaces then Some (filter (\<lambda>x. key x \<noteq> key row) t @ [row]) else None
      else Some (t @ [row]))"

fun insert_rows :: "bool \<Rightarrow> ('r \<Rightarrow> 'k) \<Rightarrow> 'r list \<Rightarrow> 'r list \<Rightarrow> 'r list option" where
  "insert_rows replaces key [] t = Some t"
| "insert_rows replaces key (r # rs) t =
     Option.bind (insert_row replaces key r t) (insert_rows replaces key rs)"

definition unique_violation :: app_error where
  "unique_violation = Storage ''UNIQUE constraint failed''"

definition schema_insert_host ::
    "metrics_db \<Rightarrow> metrics_resolution \<Rightarrow> host_sample \<Rightarrow> metrics_db \<times> unit app_result" where
  "schema_insert_host db r s =
     (case host_row_of s of Inl e \<Rightarrow> (db, Inl e)
      | Inr row \<Rightarrow>
          (case next_fault db of (Some m, db1) \<Rightarrow> (db1, Inl (Storage m))
           | (None, db1) \<Rightarrow>
               (case insert_row (insert_replaces r) hw_ts row (db_host db1 r) of
                  None \<Rightarrow> (db1, Inl unique_violation)
                | Some t \<Rightarrow> (db1\<lparr>db_host := (db_host db1)(r := t)\<rparr>, Inr ()))))"

definition insert_chunk_rows :: nat where
  "insert_chunk_rows = 3000"

function chunks :: "nat \<Rightarrow> 'a list \<Rightarrow> 'a list list" where
  "chunks n xs = (if xs = [] \<or> n = 0 then [] else take n xs # chunks n (drop n xs))"
  by pat_completeness auto
termination by (relation "measure (length \<circ> snd)") auto

declare chunks.simps [simp del]

text \<open>
  The transaction: \<open>begin\<close>, one statement for each chunk, \<open>commit\<close>, each of which can fail. The
  table the statements work on is the transaction's own; it replaces the stored one at the commit.
\<close>

definition container_key :: "container_row \<Rightarrow> int \<times> u8 list" where
  "container_key w = (cw_ts w, cw_cid w)"

fun insert_chunks ::
    "bool \<Rightarrow> container_row list list \<Rightarrow> metrics_db \<Rightarrow> container_row list
      \<Rightarrow> metrics_db \<times> container_row list app_result" where
  "insert_chunks replaces [] db t = (db, Inr t)"
| "insert_chunks replaces (c # cs) db t =
     (case next_fault db of (Some m, db1) \<Rightarrow> (db1, Inl (Storage m))
      | (None, db1) \<Rightarrow> (case insert_rows replaces container_key c t of
            None \<Rightarrow> (db1, Inl unique_violation)
          | Some t' \<Rightarrow> insert_chunks replaces cs db1 t'))"

definition schema_insert_containers ::
    "metrics_db \<Rightarrow> metrics_resolution \<Rightarrow> container_sample list \<Rightarrow> metrics_db \<times> unit app_result" where
  "schema_insert_containers db r samples =
     (if samples = [] then (db, Inr ())
      else case collect_results (map container_row_of samples) of Inl e \<Rightarrow> (db, Inl e)
      | Inr rows \<Rightarrow>
          (case next_fault db of (Some m, db1) \<Rightarrow> (db1, Inl (Storage m))
           | (None, db1) \<Rightarrow>
               (case insert_chunks (insert_replaces r) (chunks insert_chunk_rows rows) db1
                       (db_containers db1 r) of
                  (db2, Inl e) \<Rightarrow> (db2, Inl e)
                | (db2, Inr t) \<Rightarrow>
                    (case next_fault db2 of (Some m, db3) \<Rightarrow> (db3, Inl (Storage m))
                     | (None, db3) \<Rightarrow>
                         (db3\<lparr>db_containers := (db_containers db3)(r := t)\<rparr>, Inr ())))))"

definition in_range :: "time_range \<Rightarrow> int \<Rightarrow> bool" where
  "in_range rg ts \<longleftrightarrow> range_from rg \<le> ts \<and> ts \<le> range_to rg"

definition schema_select_host ::
    "metrics_db \<Rightarrow> metrics_resolution \<Rightarrow> time_range \<Rightarrow> metrics_db \<times> host_sample list app_result" where
  "schema_select_host db r rg =
     (case next_fault db of (Some m, db1) \<Rightarrow> (db1, Inl (Storage m))
      | (None, db1) \<Rightarrow>
          (db1, collect_results (map host_sample_from_row
            (sort_key hw_ts (filter (\<lambda>w. in_range rg (hw_ts w)) (db_host db1 r))))))"

text \<open>\<open>ORDER BY cid ASC, ts ASC\<close>, as a stable sort by time and then by id.\<close>

definition schema_select_containers ::
    "metrics_db \<Rightarrow> metrics_resolution \<Rightarrow> time_range \<Rightarrow> metrics_db \<times> container_sample list app_result"
  where
  "schema_select_containers db r rg =
     (case next_fault db of (Some m, db1) \<Rightarrow> (db1, Inl (Storage m))
      | (None, db1) \<Rightarrow>
          (db1, collect_results (map container_sample_from_row
            (sort_key cw_cid (sort_key cw_ts
              (filter (\<lambda>w. in_range rg (cw_ts w)) (db_containers db1 r)))))))"

definition select_host_max_ts ::
    "metrics_db \<Rightarrow> metrics_resolution \<Rightarrow> metrics_db \<times> int option app_result" where
  "select_host_max_ts db r =
     (case next_fault db of (Some m, db1) \<Rightarrow> (db1, Inl (Storage m))
      | (None, db1) \<Rightarrow> (db1, Inr (list_max (map hw_ts (db_host db1 r)))))"

definition select_containers_max_ts ::
    "metrics_db \<Rightarrow> metrics_resolution \<Rightarrow> metrics_db \<times> int option app_result" where
  "select_containers_max_ts db r =
     (case next_fault db of (Some m, db1) \<Rightarrow> (db1, Inl (Storage m))
      | (None, db1) \<Rightarrow> (db1, Inr (list_max (map cw_ts (db_containers db1 r)))))"

definition delete_host_before ::
    "metrics_db \<Rightarrow> metrics_resolution \<Rightarrow> int \<Rightarrow> metrics_db \<times> nat app_result" where
  "delete_host_before db r cutoff =
     (case next_fault db of (Some m, db1) \<Rightarrow> (db1, Inl (Storage m))
      | (None, db1) \<Rightarrow>
          (db1\<lparr>db_host := (db_host db1)(r := filter (\<lambda>w. \<not> hw_ts w < cutoff) (db_host db1 r))\<rparr>,
           Inr (length (filter (\<lambda>w. hw_ts w < cutoff) (db_host db1 r)))))"

definition delete_containers_before ::
    "metrics_db \<Rightarrow> metrics_resolution \<Rightarrow> int \<Rightarrow> metrics_db \<times> nat app_result" where
  "delete_containers_before db r cutoff =
     (case next_fault db of (Some m, db1) \<Rightarrow> (db1, Inl (Storage m))
      | (None, db1) \<Rightarrow>
          (db1\<lparr>db_containers :=
             (db_containers db1)(r := filter (\<lambda>w. \<not> cw_ts w < cutoff) (db_containers db1 r))\<rparr>,
           Inr (length (filter (\<lambda>w. cw_ts w < cutoff) (db_containers db1 r)))))"

section \<open>Encoding round trips\<close>

text \<open>The values that fit SQLite's signed integers.\<close>

definition fits :: "u64 \<Rightarrow> bool" where
  "fits v \<longleftrightarrow> uint v \<le> i64_max"

definition host_storable :: "host_sample \<Rightarrow> bool" where
  "host_storable s \<longleftrightarrow>
     list_all fits [hs_cpu_pct_mill s, hs_mem_used s, hs_storage_used s, hs_metrics_size s, hs_logs_size s]
     \<and> list_all (pred_option fits) [hs_net_rx_rate_mill s, hs_net_tx_rate_mill s,
         hs_disk_read_rate_mill s, hs_disk_write_rate_mill s, hs_log_pressure_pct_mill s, hs_app_rss_bytes s]"

definition container_storable :: "container_sample \<Rightarrow> bool" where
  "container_storable s \<longleftrightarrow>
     list_all fits [cs_cpu_pct_mill s, cs_mem_used s]
     \<and> list_all (pred_option fits) [cs_net_rx_rate_mill s, cs_net_tx_rate_mill s,
         cs_blk_read_rate_mill s, cs_blk_write_rate_mill s]"

lemma sqlite_integer_Inr [simp]: "sqlite_integer v c = Inr x \<longleftrightarrow> fits v \<and> x = uint v"
  by (auto simp: fits_def sqlite_integer_def i64_of_u64_def)

lemma sqlite_rate_Inr [simp]: "sqlite_rate v c = Inr x \<longleftrightarrow> pred_option fits v \<and> x = map_option uint v"
  by (cases v) (auto simp: sqlite_rate_def transpose_option_def)

lemma unsigned_integer_uint [simp]: "unsigned_integer (uint v) c = Inr v"
  by (simp add: unsigned_integer_def u64_of_i64_def)

lemma unsigned_rate_uint [simp]: "unsigned_rate (map_option uint v) c = Inr v"
  by (cases v) (simp_all add: unsigned_rate_def transpose_option_def del: of_int_uint)

definition host_row :: "host_sample \<Rightarrow> host_row" where
  "host_row s =
     \<lparr>hw_ts = hs_ts s, hw_cpu_pct_mill = uint (hs_cpu_pct_mill s), hw_mem_used = uint (hs_mem_used s),
      hw_storage_used = uint (hs_storage_used s), hw_metrics_size = uint (hs_metrics_size s),
      hw_logs_size = uint (hs_logs_size s),
      hw_net_rx_rate_mill = map_option uint (hs_net_rx_rate_mill s),
      hw_net_tx_rate_mill = map_option uint (hs_net_tx_rate_mill s),
      hw_disk_read_rate_mill = map_option uint (hs_disk_read_rate_mill s),
      hw_disk_write_rate_mill = map_option uint (hs_disk_write_rate_mill s),
      hw_log_pressure_pct_mill = map_option uint (hs_log_pressure_pct_mill s),
      hw_app_rss_bytes = map_option uint (hs_app_rss_bytes s)\<rparr>"

definition container_row :: "container_sample \<Rightarrow> container_row" where
  "container_row s =
     \<lparr>cw_ts = cs_ts s, cw_cid = as_bytes (cs_cid s), cw_sid = uint (as_u32 (cs_service s)),
      cw_cpu_pct_mill = uint (cs_cpu_pct_mill s), cw_mem_used = uint (cs_mem_used s),
      cw_net_rx_rate_mill = map_option uint (cs_net_rx_rate_mill s),
      cw_net_tx_rate_mill = map_option uint (cs_net_tx_rate_mill s),
      cw_blk_read_rate_mill = map_option uint (cs_blk_read_rate_mill s),
      cw_blk_write_rate_mill = map_option uint (cs_blk_write_rate_mill s)\<rparr>"

lemma host_row_of_Inr [simp]: "host_row_of s = Inr w \<longleftrightarrow> host_storable s \<and> w = host_row s"
  by (simp add: host_row_of_def host_storable_def host_row_def) blast

lemma container_row_of_Inr [simp]:
  "container_row_of s = Inr w \<longleftrightarrow> container_storable s \<and> w = container_row s"
  by (simp add: container_row_of_def container_storable_def container_row_def) blast

lemma host_row_keys [simp]: "hw_ts (host_row s) = hs_ts s"
  by (simp add: host_row_def)

lemma container_row_keys [simp]:
  "cw_ts (container_row s) = cs_ts s" "cw_cid (container_row s) = as_bytes (cs_cid s)"
  by (simp_all add: container_row_def)

lemma host_row_back [simp]: "host_sample_from_row (host_row s) = Inr s"
  by (simp add: host_row_def host_sample_from_row_def del: of_int_uint)

lemma container_row_back [simp]: "container_sample_from_row (container_row s) = Inr s"
  by (simp add: container_row_def container_sample_from_row_def stored_service_id_roundtrip
      del: of_int_uint)

lemma and_then_cong: "\<forall>w. r = Inr w \<longrightarrow> f w = g w \<Longrightarrow> and_then r f = and_then r g"
  by (cases r) simp_all

lemma isl_iff: "isl r \<longleftrightarrow> \<not> (\<exists>w. r = Inr w)"
  by (cases r) auto

text \<open>
  A sample that is stored is read back unchanged, and a sample is refused before anything is
  written exactly when one of its values does not fit a signed 64-bit integer.
\<close>

theorem sample_rows_roundtrip:
  "and_then (host_row_of h) host_sample_from_row = and_then (host_row_of h) (\<lambda>_. Inr h) \<and>
   and_then (container_row_of c) container_sample_from_row = and_then (container_row_of c) (\<lambda>_. Inr c) \<and>
   (isl (host_row_of h) \<longleftrightarrow> \<not> host_storable h) \<and>
   (isl (container_row_of c) \<longleftrightarrow> \<not> container_storable c)"
  by (simp add: isl_iff and_then_cong [where f = host_sample_from_row and g = "\<lambda>_. Inr h"]
      and_then_cong [where f = container_sample_from_row and g = "\<lambda>_. Inr c"])

section \<open>Tables\<close>

lemma next_fault_ok [simp]: "db_faults db = [] \<Longrightarrow> next_fault db = (None, db)"
  by (simp add: next_fault_def)

lemma next_fault_tables:
  "next_fault db = (f, db1) \<Longrightarrow> db_host db1 = db_host db \<and> db_containers db1 = db_containers db"
  by (auto simp: next_fault_def split: list.splits)

lemma concat_chunks: "0 < n \<Longrightarrow> concat (chunks n xs) = xs"
  by (induction n xs rule: chunks.induct) (subst chunks.simps, auto)

lemma insert_rows_append:
  "insert_rows rp key (xs @ ys) t = Option.bind (insert_rows rp key xs t) (insert_rows rp key ys)"
  by (induction xs arbitrary: t) (simp_all split: bind_split)

lemma insert_rows_concat:
  assumes "db_faults db = []"
  shows "insert_chunks rp cs db t = (db, case insert_rows rp container_key (concat cs) t of
     None \<Rightarrow> Inl unique_violation | Some t' \<Rightarrow> Inr t')"
  using assms
  by (induction cs arbitrary: t) (auto simp: insert_rows_append split: option.splits bind_splits)

lemma insert_row_keys:
  assumes "insert_row rp key r t = Some t'" "distinct (map key t)"
  shows "distinct (map key t')" "set t' = insert r {x \<in> set t. key x \<noteq> key r}"
proof -
  show "distinct (map key t')"
    using assms by (auto simp: insert_row_def distinct_map_filter split: if_splits)
  show "set t' = insert r {x \<in> set t. key x \<noteq> key r}"
  proof (cases "key r \<in> key ` set t")
    case True
    with assms(1) show ?thesis by (auto simp: insert_row_def split: if_splits)
  next
    case False
    then have "{x \<in> set t. key x \<noteq> key r} = set t" by (auto simp: image_iff)
    with False assms(1) show ?thesis by (auto simp: insert_row_def)
  qed
qed

lemma insert_rows_fresh:
  assumes "distinct (map key rs)" "key ` set rs \<inter> key ` set t = {}"
  shows "insert_rows rp key rs t = Some (t @ rs)"
  using assms by (induction rs arbitrary: t) (auto simp: insert_row_def)

end
