(* ===== verification/Log_Store.thy ===== *)
theory Log_Store
  imports Log_Helpers Metrics_Schema "HOL-Library.Product_Lexorder" "HOL-Library.Multiset"
begin

text \<open>
  \<^verbatim>\<open>src/logs/store.rs\<close>: one SQLite database for each service and ISO week. A database is the list of
  the rows of its table \<^verbatim>\<open>logs\<close>, a directory the list of its files in the order in which it is read.
  The outcomes of the file-system calls and statements to come are part of the state, one entry
  consumed by each. The key \<open>[]\<close> of the directories stands for the files of the log root itself,
  which no listing of the service directories visits and which is there once something was written
  to it. A function that can panic returns an option
  for its result. The calendar, base64, JSON and the full-text index are fields of \<open>log_env\<close>.
\<close>

section \<open>State\<close>

record log_env =
  en_date_of :: date_fn
  en_monday_of :: monday_fn
  en_b64_decode :: "string \<Rightarrow> string + string"
  en_from_json :: "string \<Rightarrow> string + log_cursor"
  en_to_json :: "log_cursor \<Rightarrow> string + string"
  en_b64_encode :: "string \<Rightarrow> string"
  en_fts_match :: "string \<Rightarrow> string \<Rightarrow> bool"

record log_row =
  lr_id :: int
  lr_ts_rel :: int
  lr_cid :: "u8 list"
  lr_stream :: int
  lr_level :: "int option"
  lr_line :: string

type_synonym week_files = "(string, log_row list) hash_map"
type_synonym db_path = "string \<times> string"

text \<open>A cached connection; \<open>po_open\<close> tells whether its \<open>OnceCell\<close> has been filled.\<close>

record cached_pool =
  po_open :: bool
  po_service :: string
  po_week :: string
  po_last_used :: nat

record log_store =
  ls_dirs :: "(string, week_files) hash_map"
  ls_pools :: "(db_path, cached_pool) hash_map"
  ls_locks :: "db_path list"
  ls_keep_alive :: nat
  ls_now :: nat
  ls_faults :: "string option list"

record stored_log =
  sl_ts :: i64
  sl_week :: string
  sl_id :: int
  sl_line :: log_line

datatype direction = Backward | Forward

definition week_ms :: int where "week_ms = 7 * 24 * 60 * 60 * 1000"
definition default_page_limit :: u32 where "default_page_limit = 100"
definition insert_log_chunk_rows :: nat where "insert_log_chunk_rows = 500"

definition log_store_new :: "nat \<Rightarrow> log_store" where
  "log_store_new keep_alive =
     \<lparr>ls_dirs = [], ls_pools = [], ls_locks = [], ls_keep_alive = keep_alive, ls_now = 0,
      ls_faults = []\<rparr>"

definition ls_next :: "log_store \<Rightarrow> string option \<times> log_store" where
  "ls_next st = (case ls_faults st of [] \<Rightarrow> (None, st) | f # fs \<Rightarrow> (f, st\<lparr>ls_faults := fs\<rparr>))"

definition files_of :: "log_store \<Rightarrow> string \<Rightarrow> week_files" where
  "files_of st dir = (case hm_get (ls_dirs st) dir of None \<Rightarrow> [] | Some fs \<Rightarrow> fs)"

definition week_rows :: "log_store \<Rightarrow> db_path \<Rightarrow> log_row list" where
  "week_rows st path =
     (case hm_get (files_of st (fst path)) (snd path) of None \<Rightarrow> [] | Some rows \<Rightarrow> rows)"

definition put_file :: "db_path \<Rightarrow> log_row list \<Rightarrow> log_store \<Rightarrow> log_store" where
  "put_file path rows st =
     st\<lparr>ls_dirs := hm_insert (fst path) (hm_insert (snd path) rows (files_of st (fst path))) (ls_dirs st)\<rparr>"

definition remove_file :: "db_path \<Rightarrow> log_store \<Rightarrow> log_store" where
  "remove_file path st =
     st\<lparr>ls_dirs := hm_insert (fst path) (hm_remove (snd path) (files_of st (fst path))) (ls_dirs st)\<rparr>"

section \<open>Connections\<close>

definition lock_path :: "db_path \<Rightarrow> log_store \<Rightarrow> log_store" where
  "lock_path path st = st\<lparr>ls_locks := List.insert path (ls_locks st)\<rparr>"

definition forget_path :: "db_path \<Rightarrow> log_store \<Rightarrow> log_store" where
  "forget_path path st = st\<lparr>ls_locks := removeAll path (ls_locks st)\<rparr>"

text \<open>\<^verbatim>\<open>open_database\<close>: opening creates a missing file, then the schema is migrated.\<close>

definition open_database :: "db_path \<Rightarrow> log_store \<Rightarrow> log_store \<times> unit app_result" where
  "open_database path st =
     (case ls_next st of (Some m, st1) \<Rightarrow> (st1, Inl (Storage m))
      | (None, st1) \<Rightarrow>
          let st2 = (if hm_get (files_of st1 (fst path)) (snd path) = None
                     then put_file path [] st1 else st1) in
          (case ls_next st2 of (Some m, st3) \<Rightarrow> (st3, Inl (Storage m))
           | (None, st3) \<Rightarrow> (st3, Inr ())))"

definition get_pool :: "db_path \<Rightarrow> string \<Rightarrow> string \<Rightarrow> log_store \<Rightarrow> log_store \<times> unit app_result" where
  "get_pool path service week st =
     (let entry = (case hm_get (ls_pools st) path of
            None \<Rightarrow> \<lparr>po_open = False, po_service = service, po_week = week, po_last_used = ls_now st\<rparr>
          | Some e \<Rightarrow> e);
          entry1 = entry\<lparr>po_last_used := ls_now st\<rparr>;
          st1 = st\<lparr>ls_pools := hm_insert path entry1 (ls_pools st)\<rparr> in
      if po_open entry1 then (st1, Inr ())
      else case open_database path st1 of
        (st2, Inl e) \<Rightarrow> (st2, Inl e)
      | (st2, Inr _) \<Rightarrow>
          (st2\<lparr>ls_pools := hm_insert path (entry1\<lparr>po_open := True\<rparr>) (ls_pools st2)\<rparr>, Inr ()))"

definition evict :: "db_path \<Rightarrow> log_store \<Rightarrow> log_store" where
  "evict path st = st\<lparr>ls_pools := hm_remove path (ls_pools st)\<rparr>"

definition sweep :: "log_store \<Rightarrow> log_store" where
  "sweep st = st\<lparr>ls_pools :=
     filter (\<lambda>(_, e). \<not> ls_keep_alive st \<le> ls_now st - po_last_used e) (ls_pools st)\<rparr>"

definition close_all :: "log_store \<Rightarrow> log_store" where
  "close_all st = st\<lparr>ls_pools := []\<rparr>"

section \<open>Retention and size\<close>

definition has_db_extension :: "string \<Rightarrow> bool" where
  "has_db_extension name = (suffix ''.db'' name \<and> name \<noteq> ''.db'')"

definition service_dirs :: "log_store \<Rightarrow> string list" where
  "service_dirs st = filter (\<lambda>d. d \<noteq> []) (map fst (ls_dirs st))"

text \<open>\<open>file_len\<close> is the length of a file as the file system reports it.\<close>

fun size_of_files :: "(db_path \<Rightarrow> u64) \<Rightarrow> db_path list \<Rightarrow> u64 \<Rightarrow> log_store \<Rightarrow> log_store \<times> u64 app_result" where
  "size_of_files file_len [] tot st = (st, Inr tot)"
| "size_of_files file_len (path # paths) tot st =
     (if \<not> has_db_extension (snd path) then size_of_files file_len paths tot st
      else case ls_next st of (Some m, st1) \<Rightarrow> (st1, Inl (Storage m))
      | (None, st1) \<Rightarrow> size_of_files file_len paths (tot + file_len path) st1)"

fun size_of_dirs :: "(db_path \<Rightarrow> u64) \<Rightarrow> string list \<Rightarrow> u64 \<Rightarrow> log_store \<Rightarrow> log_store \<times> u64 app_result" where
  "size_of_dirs file_len [] tot st = (st, Inr tot)"
| "size_of_dirs file_len (dir # dirs) tot st =
     (case ls_next st of (Some m, st1) \<Rightarrow> (st1, Inl (Storage m))
      | (None, st1) \<Rightarrow>
          (case size_of_files file_len (map (\<lambda>(name, _). (dir, name)) (files_of st1 dir)) tot st1 of
             (st2, Inl e) \<Rightarrow> (st2, Inl e)
           | (st2, Inr tot2) \<Rightarrow> size_of_dirs file_len dirs tot2 st2))"

definition database_size_bytes :: "(db_path \<Rightarrow> u64) \<Rightarrow> log_store \<Rightarrow> log_store \<times> u64 app_result" where
  "database_size_bytes file_len st =
     (case ls_next st of (Some m, st1) \<Rightarrow> (st1, Inl (Storage m))
      | (None, st1) \<Rightarrow> size_of_dirs file_len (service_dirs st1) 0 st1)"

definition expired_file :: "log_env \<Rightarrow> i64 \<Rightarrow> string \<Rightarrow> bool" where
  "expired_file env cutoff name =
     (has_db_extension name
      \<and> (case database_week_start_ms (en_monday_of env) name of None \<Rightarrow> False | Some start \<Rightarrow> start < cutoff))"

fun delete_files ::
  "log_env \<Rightarrow> i64 \<Rightarrow> string \<Rightarrow> string list \<Rightarrow> string list \<Rightarrow> log_store \<Rightarrow> log_store \<times> string list app_result"
where
  "delete_files env cutoff dir [] removed st = (st, Inr removed)"
| "delete_files env cutoff dir (name # names) removed st =
     (if \<not> expired_file env cutoff name then delete_files env cutoff dir names removed st
      else let path = (dir, name); st1 = evict path (lock_path path st) in
        case ls_next st1 of (Some m, st2) \<Rightarrow> (st2, Inl (Storage m))
        | (None, st2) \<Rightarrow>
            delete_files env cutoff dir names (removed @ [dir @ ''/'' @ name])
              (forget_path path (remove_file path st2)))"

fun delete_dirs ::
  "log_env \<Rightarrow> i64 \<Rightarrow> string list \<Rightarrow> string list \<Rightarrow> log_store \<Rightarrow> log_store \<times> string list app_result" where
  "delete_dirs env cutoff [] removed st = (st, Inr removed)"
| "delete_dirs env cutoff (dir # dirs) removed st =
     (case ls_next st of (Some m, st1) \<Rightarrow> (st1, Inl (Storage m))
      | (None, st1) \<Rightarrow>
          (case delete_files env cutoff dir (map fst (files_of st1 dir)) removed st1 of
             (st2, Inl e) \<Rightarrow> (st2, Inl e)
           | (st2, Inr removed2) \<Rightarrow> delete_dirs env cutoff dirs removed2 st2))"

definition logs_delete_before :: "log_env \<Rightarrow> i64 \<Rightarrow> log_store \<Rightarrow> log_store \<times> string list app_result" where
  "logs_delete_before env cutoff st =
     (case ls_next st of (Some m, st1) \<Rightarrow> (st1, Inl (Storage m))
      | (None, st1) \<Rightarrow>
          (case delete_dirs env cutoff (service_dirs st1) [] st1 of
             (st2, Inl e) \<Rightarrow> (st2, Inl e)
           | (st2, Inr removed) \<Rightarrow> (st2, Inr (sort removed))))"

section \<open>Appending\<close>

definition week_start_ms :: "log_env \<Rightarrow> string \<Rightarrow> i64 option" where
  "week_start_ms env week = database_week_start_ms (en_monday_of env) week"

definition group_by_week :: "log_env \<Rightarrow> log_line list \<Rightarrow> (string, log_line list) hash_map" where
  "group_by_week env lines =
     foldl (\<lambda>m line. case week_database_name (en_date_of env) (ll_ts line) of
          None \<Rightarrow> m | Some week \<Rightarrow> hm_entry week [] (\<lambda>ls. ls @ [line]) m) [] lines"

definition next_row_id :: "log_row list \<Rightarrow> int" where
  "next_row_id rows = fold max (map lr_id rows) 0 + 1"

definition row_of_line :: "i64 \<Rightarrow> log_line \<Rightarrow> int \<Rightarrow> log_row" where
  "row_of_line week_start line rid =
     \<lparr>lr_id = rid, lr_ts_rel = i64_wrap (ll_ts line - week_start), lr_cid = as_bytes (ll_cid line),
      lr_stream = stream_code (ll_stream line),
      lr_level = map_option level_code (detect_level (ll_line line)), lr_line = ll_line line\<rparr>"

fun insert_log_rows :: "i64 \<Rightarrow> log_line list \<Rightarrow> log_row list \<Rightarrow> log_row list" where
  "insert_log_rows week_start [] rows = rows"
| "insert_log_rows week_start (line # lines) rows =
     insert_log_rows week_start lines (rows @ [row_of_line week_start line (next_row_id rows)])"

fun insert_log_chunks ::
  "i64 \<Rightarrow> log_line list list \<Rightarrow> log_row list \<Rightarrow> log_store \<Rightarrow> log_store \<times> log_row list app_result" where
  "insert_log_chunks week_start [] rows st = (st, Inr rows)"
| "insert_log_chunks week_start (c # cs) rows st =
     (case ls_next st of (Some m, st1) \<Rightarrow> (st1, Inl (Storage m))
      | (None, st1) \<Rightarrow> insert_log_chunks week_start cs (insert_log_rows week_start c rows) st1)"

text \<open>One week: a transaction of its own, \<open>None\<close> for the panic of \<^verbatim>\<open>week_start_ms\<close>.\<close>

definition append_week ::
  "log_env \<Rightarrow> string \<Rightarrow> string \<Rightarrow> string \<Rightarrow> log_line list \<Rightarrow> log_store \<Rightarrow> log_store \<times> unit app_result option"
where
  "append_week env dir service week lines st =
     (case week_start_ms env week of None \<Rightarrow> (st, None)
      | Some week_start \<Rightarrow>
          (case get_pool (dir, week) service week (lock_path (dir, week) st) of
             (st1, Inl e) \<Rightarrow> (st1, Some (Inl e))
           | (st1, Inr _) \<Rightarrow>
               (case ls_next st1 of (Some m, st2) \<Rightarrow> (st2, Some (Inl (Storage m)))
                | (None, st2) \<Rightarrow>
                    (case insert_log_chunks week_start (chunks insert_log_chunk_rows lines)
                            (week_rows st2 (dir, week)) st2 of
                       (st3, Inl e) \<Rightarrow> (st3, Some (Inl e))
                     | (st3, Inr rows) \<Rightarrow>
                         (case ls_next st3 of (Some m, st4) \<Rightarrow> (st4, Some (Inl (Storage m)))
                          | (None, st4) \<Rightarrow> (put_file (dir, week) rows st4, Some (Inr ())))))))"

fun append_weeks ::
  "log_env \<Rightarrow> string \<Rightarrow> string \<Rightarrow> (string \<times> log_line list) list \<Rightarrow> log_store
     \<Rightarrow> log_store \<times> unit app_result option" where
  "append_weeks env dir service [] st = (st, Some (Inr ()))"
| "append_weeks env dir service ((week, lines) # weeks) st =
     (case append_week env dir service week lines st of
        (st1, Some (Inr _)) \<Rightarrow> append_weeks env dir service weeks st1
      | (st1, res) \<Rightarrow> (st1, res))"

text \<open>\<open>iter\<close> is the order in which the hash map of the weeks iterates.\<close>

definition logs_append ::
  "log_env \<Rightarrow> ((string \<times> log_line list) list \<Rightarrow> (string \<times> log_line list) list) \<Rightarrow> string
     \<Rightarrow> log_line list \<Rightarrow> log_store \<Rightarrow> log_store \<times> unit app_result option" where
  "logs_append env iter service lines st =
     (let by_week = group_by_week env lines; dir = safe_service_path service in
      if by_week = [] then (st, Some (Inr ()))
      else case ls_next st of (Some m, st1) \<Rightarrow> (st1, Some (Inl (Storage m)))
      | (None, st1) \<Rightarrow>
          append_weeks env dir service (iter by_week)
            (st1\<lparr>ls_dirs := hm_insert dir (files_of st1 dir) (ls_dirs st1)\<rparr>))"

section \<open>Querying\<close>

definition bad_cursor :: "string \<Rightarrow> app_error" where
  "bad_cursor e = BadRequest (''invalid log cursor: '' @ e)"

definition empty_page :: "string option \<Rightarrow> log_page" where
  "empty_page newer =
     \<lparr>pg_items = [], pg_older_cursor = None, pg_newer_cursor = newer, pg_has_older = False,
      pg_has_newer = False\<rparr>"

definition cursor_of :: "stored_log \<Rightarrow> log_cursor" where
  "cursor_of e = \<lparr>cu_ts = sl_ts e, cu_week = sl_week e, cu_id = sl_id e\<rparr>"

definition read_week_files ::
  "log_env \<Rightarrow> string \<Rightarrow> log_store \<Rightarrow> log_store \<times> (string \<times> i64) list option app_result" where
  "read_week_files env dir st =
     (if hm_get (ls_dirs st) dir = None then (st, Inr None)
      else case ls_next st of (Some m, st1) \<Rightarrow> (st1, Inl (Storage m))
      | (None, st1) \<Rightarrow>
          (st1, Inr (Some (sort_key snd (List.map_filter (\<lambda>name.
             map_option (\<lambda>start. (name, start)) (database_week_start_ms (en_monday_of env) name))
             (map fst (files_of st1 dir)))))))"

definition week_matches :: "log_filter \<Rightarrow> log_cursor option \<Rightarrow> direction \<Rightarrow> i64 \<Rightarrow> bool" where
  "week_matches f cursor dirn start =
     (let end_ms = i64_wrap (start + week_ms) in
      if (case lf_to f of None \<Rightarrow> False | Some to \<Rightarrow> to < start)
         \<or> (case lf_from f of None \<Rightarrow> False | Some from \<Rightarrow> end_ms \<le> from) then False
      else case cursor of
        None \<Rightarrow> True
      | Some c \<Rightarrow> (case dirn of Backward \<Rightarrow> start \<le> cu_ts c | Forward \<Rightarrow> cu_ts c < end_ms))"

definition ordered_candidates ::
  "(string \<times> i64) list \<Rightarrow> log_filter \<Rightarrow> log_cursor option \<Rightarrow> direction \<Rightarrow> string list" where
  "ordered_candidates weeks f cursor dirn =
     (let selected = map fst (filter (\<lambda>(_, start). week_matches f cursor dirn start) weeks) in
      case dirn of Backward \<Rightarrow> rev selected | Forward \<Rightarrow> selected)"

definition push_filters :: "log_filter \<Rightarrow> i64 \<Rightarrow> log_row \<Rightarrow> bool" where
  "push_filters f week_start row =
     ((case lf_from f of None \<Rightarrow> True | Some from \<Rightarrow> i64_wrap (from - week_start) \<le> lr_ts_rel row)
      \<and> (case lf_to f of None \<Rightarrow> True | Some to \<Rightarrow> lr_ts_rel row \<le> i64_wrap (to - week_start))
      \<and> (lf_levels f = [] \<or> lr_level row \<in> (Some \<circ> level_code) ` set (lf_levels f))
      \<and> (lf_streams f = [] \<or> lr_stream row \<in> stream_code ` set (lf_streams f)))"

text \<open>The cursor's condition on a row; \<open>None\<close> for the panic on a week name that does not parse.\<close>

definition push_cursor ::
  "log_env \<Rightarrow> log_cursor \<Rightarrow> i64 \<Rightarrow> direction \<Rightarrow> (log_row \<Rightarrow> bool) option" where
  "push_cursor env c week_start dirn =
     (let rel = i64_wrap (cu_ts c - week_start) in
      case week_start_ms env (cu_week c) of
        None \<Rightarrow> None
      | Some cursor_start \<Rightarrow>
          Some (if week_start \<noteq> cursor_start then
              (case dirn of Backward \<Rightarrow> (\<lambda>row. lr_ts_rel row \<le> rel)
               | Forward \<Rightarrow> (\<lambda>row. rel \<le> lr_ts_rel row))
            else
              (case dirn of
                 Backward \<Rightarrow> (\<lambda>row. lr_ts_rel row < rel \<or> lr_ts_rel row = rel \<and> lr_id row < cu_id c)
               | Forward \<Rightarrow> (\<lambda>row. rel < lr_ts_rel row \<or> lr_ts_rel row = rel \<and> cu_id c < lr_id row))))"

definition decode_row :: "string \<Rightarrow> string \<Rightarrow> i64 \<Rightarrow> log_row \<Rightarrow> stored_log option" where
  "decode_row service week week_start row =
     (case stream_from_code (lr_stream row) of None \<Rightarrow> None
      | Some stream \<Rightarrow>
          (case from_bytes (lr_cid row) of None \<Rightarrow> None
           | Some cid \<Rightarrow>
               let ts = i64_wrap (lr_ts_rel row + week_start) in
               Some \<lparr>sl_ts = ts, sl_week = week, sl_id = lr_id row,
                 sl_line = \<lparr>ll_ts = ts, ll_service = service, ll_cid = cid, ll_stream = stream,
                   ll_level = Option.bind (lr_level row) level_from_code, ll_line = lr_line row\<rparr>\<rparr>))"

definition row_order :: "log_row \<Rightarrow> int \<times> int" where
  "row_order row = (lr_ts_rel row, lr_id row)"

text \<open>The statement of one week: condition, order and limit.\<close>

definition select_rows ::
  "(log_row \<Rightarrow> bool) \<Rightarrow> direction \<Rightarrow> nat \<Rightarrow> log_row list \<Rightarrow> log_row list" where
  "select_rows P dirn n rows =
     (let sorted_rows = sort_key row_order (filter P rows) in
      take n (case dirn of Backward \<Rightarrow> rev sorted_rows | Forward \<Rightarrow> sorted_rows))"

definition row_condition ::
  "log_env \<Rightarrow> log_filter \<Rightarrow> string option \<Rightarrow> log_cursor option \<Rightarrow> i64 \<Rightarrow> direction
     \<Rightarrow> (log_row \<Rightarrow> bool) option" where
  "row_condition env f fts cursor week_start dirn =
     (let base = (\<lambda>row. (case fts of None \<Rightarrow> True | Some q \<Rightarrow> en_fts_match env q (lr_line row))
                    \<and> push_filters f week_start row) in
      case cursor of
        None \<Rightarrow> Some base
      | Some c \<Rightarrow>
          map_option (\<lambda>P row. base row \<and> P row) (push_cursor env c week_start dirn))"

fun scan_weeks ::
  "log_env \<Rightarrow> string \<Rightarrow> string \<Rightarrow> log_filter \<Rightarrow> string option \<Rightarrow> log_cursor option \<Rightarrow> direction \<Rightarrow> nat
     \<Rightarrow> string list \<Rightarrow> stored_log list \<Rightarrow> log_store \<Rightarrow> log_store \<times> stored_log list app_result option" where
  "scan_weeks env dir service f fts cursor dirn target [] page st = (st, Some (Inr page))"
| "scan_weeks env dir service f fts cursor dirn target (week # weeks) page st =
     (if target \<le> length page then (st, Some (Inr page))
      else case week_start_ms env week of None \<Rightarrow> (st, None)
      | Some week_start \<Rightarrow>
          (case get_pool (dir, week) service week (lock_path (dir, week) st) of
             (st1, Inl e) \<Rightarrow> (st1, Some (Inl e))
           | (st1, Inr _) \<Rightarrow>
               (case row_condition env f fts cursor week_start dirn of None \<Rightarrow> (st1, None)
                | Some P \<Rightarrow>
                    (case ls_next st1 of (Some m, st2) \<Rightarrow> (st2, Some (Inl (Storage m)))
                     | (None, st2) \<Rightarrow>
                         scan_weeks env dir service f fts cursor dirn target weeks
                           (page @ List.map_filter (decode_row service week week_start)
                              (select_rows P dirn (target - length page) (week_rows st2 (dir, week))))
                           st2))))"

definition transpose_cursor ::
  "log_env \<Rightarrow> string option \<Rightarrow> log_cursor option app_result" where
  "transpose_cursor env c =
     (case c of None \<Rightarrow> Inr None
      | Some s \<Rightarrow> (case decode_cursor (en_b64_decode env) (en_from_json env) s of
          Inl e \<Rightarrow> Inl (bad_cursor e) | Inr cur \<Rightarrow> Inr (Some cur)))"

definition ok_string :: "string + string \<Rightarrow> string option" where
  "ok_string r = (case r of Inl _ \<Rightarrow> None | Inr s \<Rightarrow> Some s)"

definition page_limit :: "log_filter \<Rightarrow> nat" where
  "page_limit f =
     max 1 (min 100 (unat (case lf_limit f of None \<Rightarrow> default_page_limit | Some n \<Rightarrow> n)))"

definition page_of ::
  "log_env \<Rightarrow> log_filter \<Rightarrow> direction \<Rightarrow> nat \<Rightarrow> stored_log list \<Rightarrow> log_page" where
  "page_of env f dirn limit scanned =
     (let has_beyond = limit < length scanned;
          page = (case dirn of Backward \<Rightarrow> rev (take limit scanned) | Forward \<Rightarrow> take limit scanned);
          encode = (\<lambda>e. ok_string (encode_cursor (en_to_json env) (en_b64_encode env) (cursor_of e))) in
      case page of
        [] \<Rightarrow> empty_page (lf_after f)
      | first # _ \<Rightarrow>
          \<lparr>pg_items = map sl_line page,
           pg_older_cursor = encode first,
           pg_newer_cursor = encode (last page),
           pg_has_older = (case dirn of Backward \<Rightarrow> has_beyond | Forward \<Rightarrow> lf_after f \<noteq> None),
           pg_has_newer = (case dirn of Backward \<Rightarrow> lf_before f \<noteq> None | Forward \<Rightarrow> has_beyond)\<rparr>)"

definition logs_query ::
  "log_env \<Rightarrow> string \<Rightarrow> log_filter \<Rightarrow> log_store \<Rightarrow> log_store \<times> log_page app_result option" where
  "logs_query env service f st =
     (case transpose_cursor env (lf_before f) of Inl e \<Rightarrow> (st, Some (Inl e))
      | Inr before \<Rightarrow>
     (case transpose_cursor env (lf_after f) of Inl e \<Rightarrow> (st, Some (Inl e))
      | Inr after \<Rightarrow>
          let dirn = (if after \<noteq> None then Forward else Backward);
              cursor = (if after \<noteq> None then after else before);
              dir = safe_service_path service in
          (case read_week_files env dir st of
             (st1, Inl e) \<Rightarrow> (st1, Some (Inl e))
           | (st1, Inr None) \<Rightarrow> (st1, Some (Inr (empty_page None)))
           | (st1, Inr (Some weeks)) \<Rightarrow>
               let fts = Option.bind (lf_query f) sanitize_fts_query;
                   limit = page_limit f in
               (case scan_weeks env dir service f fts cursor dirn (limit + 1)
                       (ordered_candidates weeks f cursor dirn) [] st1 of
                  (st2, None) \<Rightarrow> (st2, None)
                | (st2, Some (Inl e)) \<Rightarrow> (st2, Some (Inl e))
                | (st2, Some (Inr scanned)) \<Rightarrow>
                    (st2, Some (Inr (page_of env f dirn limit scanned)))))))"

section \<open>The contents of the store\<close>

text \<open>
  What the proofs need of the calendar, for the seconds from 1970 to 9999: weeks are numbered from 1
  to 53, the Monday of a date's week is a multiple of a week away from the first Monday of the epoch
  and at most six days before the date, and the dates of one week agree on its year and number.
\<close>

definition iso_calendar :: "log_env \<Rightarrow> bool" where
  "iso_calendar env \<longleftrightarrow> (\<forall>sec y m w. 0 \<le> sec \<longrightarrow> sec < 253402000000 \<longrightarrow>
     en_date_of env sec = Some (y, m, w) \<longrightarrow>
     \<bar>y\<bar> \<le> 9999 \<and> 1 \<le> w \<and> w \<le> 53 \<and>
     (\<exists>mon. en_monday_of env (iso_year y m w) w = Some mon \<and> mon \<le> sec \<and> sec < mon + 604800
        \<and> mon mod 604800 = 345600
        \<and> (\<forall>sec' y' m' w'. 0 \<le> sec' \<longrightarrow> mon \<le> sec' \<longrightarrow> sec' < mon + 604800 \<longrightarrow>
             en_date_of env sec' = Some (y', m', w') \<longrightarrow> w' = w \<and> iso_year y' m' w' = iso_year y m w)))"

definition dated :: "i64 \<Rightarrow> bool" where
  "dated ts \<longleftrightarrow> 0 \<le> ts \<and> ts < 253402000000000"

definition week_name :: "log_env \<Rightarrow> i64 \<Rightarrow> string option" where
  "week_name env ts = week_database_name (en_date_of env) ts"

definition wf_week :: "i64 \<Rightarrow> log_row list \<Rightarrow> bool" where
  "wf_week start rows \<longleftrightarrow> distinct (map lr_id rows) \<and>
     (\<forall>r \<in> set rows. 0 \<le> lr_ts_rel r \<and> lr_ts_rel r < week_ms \<and> length (lr_cid r) = 6
        \<and> stream_from_code (lr_stream r) \<noteq> None)"

definition files_wf :: "log_env \<Rightarrow> week_files \<Rightarrow> bool" where
  "files_wf env fs \<longleftrightarrow> hm_wf fs \<and>
     (\<forall>(week, rows) \<in> set fs. \<forall>start. week_start_ms env week = Some start \<longrightarrow>
        (\<exists>ts. dated ts \<and> week_name env ts = Some week) \<and> wf_week start rows)"

definition store_wf :: "log_env \<Rightarrow> log_store \<Rightarrow> bool" where
  "store_wf env st \<longleftrightarrow> (\<forall>dir. files_wf env (files_of st dir))"

definition week_entries :: "log_env \<Rightarrow> string \<Rightarrow> string \<times> log_row list \<Rightarrow> stored_log list" where
  "week_entries env service = (\<lambda>(week, rows).
     case week_start_ms env week of None \<Rightarrow> []
     | Some start \<Rightarrow> List.map_filter (decode_row service week start) rows)"

definition service_log :: "log_env \<Rightarrow> log_store \<Rightarrow> string \<Rightarrow> stored_log list" where
  "service_log env st service =
     concat (map (week_entries env service) (files_of st (safe_service_path service)))"

text \<open>A stored line carries the service it is read under and the level its text shows.\<close>

definition as_stored :: "string \<Rightarrow> log_line \<Rightarrow> log_line" where
  "as_stored service line = line\<lparr>ll_service := service, ll_level := detect_level (ll_line line)\<rparr>"

lemma week_name_start:
  assumes "iso_calendar env" "dated ts" "week_name env ts = Some week"
  shows "\<exists>start. week_start_ms env week = Some start \<and> start \<le> ts \<and> ts < start + week_ms
    \<and> start mod week_ms = 345600000
    \<and> (\<forall>ts'. dated ts' \<longrightarrow> start \<le> ts' \<longrightarrow> ts' < start + week_ms \<longrightarrow> week_name env ts' \<noteq> None \<longrightarrow>
          week_name env ts' = Some week)"
proof -
  obtain y m w where d: "en_date_of env (ts div 1000) = Some (y, m, w)"
    and week: "week = int_to_string (iso_year y m w) @ ''_w'' @ pad2 w @ ''.db''"
    using assms(3) by (auto simp: week_name_def week_database_name_def split: option.splits)
  have sec: "0 \<le> ts div 1000" "ts div 1000 < 253402000000" using assms(2) by (auto simp: dated_def)
  from assms(1) sec d obtain mon where y: "\<bar>y\<bar> \<le> 9999" "1 \<le> w" "w \<le> 53"
    and mon: "en_monday_of env (iso_year y m w) w = Some mon" "mon \<le> ts div 1000"
      "ts div 1000 < mon + 604800" "mon mod 604800 = 345600"
    and same: "\<And>sec' y' m' w'. 0 \<le> sec' \<Longrightarrow> mon \<le> sec' \<Longrightarrow> sec' < mon + 604800 \<Longrightarrow>
      en_date_of env sec' = Some (y', m', w') \<Longrightarrow> w' = w \<and> iso_year y' m' w' = iso_year y m w"
    unfolding iso_calendar_def by blast
  have start: "week_start_ms env week = Some (mon * 1000)"
    and le: "mon * 1000 \<le> ts" "ts < mon * 1000 + week_ms"
  proof -
    have "in_i64 (mon * 1000)" using mon(2,3) sec by (intro in_i64I) linarith+
    with week_start_of_name [where y = y and m = m and w = w and mon = mon] y mon(1)
    show "week_start_ms env week = Some (mon * 1000)" by (simp add: week_start_ms_def week)
    show "mon * 1000 \<le> ts" "ts < mon * 1000 + week_ms"
      using mon(2,3) by (auto simp: week_ms_def)
  qed
  obtain k where k: "mon = 604800 * k + 345600" using mon(4) by (metis mult_div_mod_eq)
  have md: "(mon * 1000) mod week_ms = 345600000" by (simp add: k week_ms_def ring_distribs)
  have other: "week_name env ts' = Some week"
    if "dated ts'" "mon * 1000 \<le> ts'" "ts' < mon * 1000 + week_ms" "week_name env ts' \<noteq> None" for ts'
  proof -
    from that(4) obtain y' m' w' where d': "en_date_of env (ts' div 1000) = Some (y', m', w')"
      by (auto simp: week_name_def week_database_name_def split: option.splits)
    have "0 \<le> ts' div 1000" "mon \<le> ts' div 1000" "ts' div 1000 < mon + 604800"
      using that(1-3) unfolding dated_def week_ms_def by linarith+
    from same [OF this d'] have "w' = w" "iso_year y' m' w = iso_year y m w" by auto
    with d' show ?thesis by (simp add: week_name_def week_database_name_def week)
  qed
  show ?thesis using start le md other by blast
qed

lemma weeks_disjoint:
  assumes "iso_calendar env" "dated t1" "week_name env t1 = Some w1" "week_start_ms env w1 = Some s1"
    and "dated t2" "week_name env t2 = Some w2" "week_start_ms env w2 = Some s2" "w1 \<noteq> w2"
  shows "s1 + week_ms \<le> s2 \<or> s2 + week_ms \<le> s1"
proof -
  from week_name_start [OF assms(1-3)] assms(4)
  have a: "s1 mod week_ms = 345600000"
    "\<And>ts'. dated ts' \<Longrightarrow> s1 \<le> ts' \<Longrightarrow> ts' < s1 + week_ms \<Longrightarrow> week_name env ts' \<noteq> None \<Longrightarrow>
       week_name env ts' = Some w1" by auto
  from week_name_start [OF assms(1,5,6)] assms(7)
  have b: "s2 mod week_ms = 345600000" "s2 \<le> t2" "t2 < s2 + week_ms" by auto
  have "s1 \<noteq> s2" using a(2) [of t2] b(2,3) assms(5,6,8) by auto
  obtain k where k: "s1 = s2 + week_ms * k"
    using a(1) b(1) by (metis add.commute diff_add_cancel dvdE mod_eq_dvd_iff)
  with \<open>s1 \<noteq> s2\<close> have "k \<le> - 1 \<or> 1 \<le> k" by (cases "k = 0") auto
  then show ?thesis using k by (auto simp: week_ms_def)
qed

lemma ls_next_ok [simp]: "ls_faults st = [] \<Longrightarrow> ls_next st = (None, st)"
  by (simp add: ls_next_def)

lemma ls_next_dirs: "ls_next st = (f, st1) \<Longrightarrow> ls_dirs st1 = ls_dirs st"
  by (auto simp: ls_next_def split: list.splits)

lemma files_of_cong: "ls_dirs st = ls_dirs st' \<Longrightarrow> files_of st = files_of st'"
  by (simp add: files_of_def fun_eq_iff)

lemma files_of_put [simp]:
  "files_of (put_file path rows st) =
     (files_of st)(fst path := hm_insert (snd path) rows (files_of st (fst path)))"
  by (auto simp: files_of_def put_file_def fun_eq_iff)

lemma files_of_remove [simp]:
  "files_of (remove_file path st) =
     (files_of st)(fst path := hm_remove (snd path) (files_of st (fst path)))"
  by (auto simp: files_of_def remove_file_def fun_eq_iff)

lemma lock_path_fields [simp]:
  "ls_dirs (lock_path p st) = ls_dirs st" "ls_faults (lock_path p st) = ls_faults st"
  "files_of (lock_path p st) = files_of st"
  by (simp_all add: lock_path_def files_of_def fun_eq_iff)

text \<open>Opening the connection of a file that is there, without I/O errors.\<close>

lemma get_pool_ok:
  assumes "ls_faults st = []" "hm_get (files_of st (fst path)) (snd path) \<noteq> None"
  shows "\<exists>st1. get_pool path service week st = (st1, Inr ()) \<and> ls_dirs st1 = ls_dirs st
    \<and> ls_faults st1 = []"
proof -
  have f: "files_of (st\<lparr>ls_pools := p\<rparr>) = files_of st" for p by (simp add: files_of_def fun_eq_iff)
  show ?thesis using assms
    by (auto simp: get_pool_def open_database_def Let_def f)
qed

section \<open>A query is a page of the sorted contents\<close>

definition entry_order :: "stored_log \<Rightarrow> int \<times> int" where
  "entry_order e = (sl_ts e, sl_id e)"

text \<open>
  The abstract condition on an entry: text, time, level, stream, and its place after the cursor
  (an entry of another week has only its time to compare).
\<close>

definition past_cursor :: "log_env \<Rightarrow> log_cursor \<Rightarrow> direction \<Rightarrow> stored_log \<Rightarrow> bool" where
  "past_cursor env c dirn e =
     (if week_start_ms env (cu_week c) = week_start_ms env (sl_week e)
      then (case dirn of Backward \<Rightarrow> entry_order e < (cu_ts c, cu_id c)
            | Forward \<Rightarrow> (cu_ts c, cu_id c) < entry_order e)
      else (case dirn of Backward \<Rightarrow> sl_ts e \<le> cu_ts c | Forward \<Rightarrow> cu_ts c \<le> sl_ts e))"

definition entry_matches ::
  "log_env \<Rightarrow> log_filter \<Rightarrow> string option \<Rightarrow> log_cursor option \<Rightarrow> direction \<Rightarrow> stored_log \<Rightarrow> bool" where
  "entry_matches env f fts cursor dirn e \<longleftrightarrow>
     (case fts of None \<Rightarrow> True | Some q \<Rightarrow> en_fts_match env q (ll_line (sl_line e))) \<and>
     (case lf_from f of None \<Rightarrow> True | Some from_ts \<Rightarrow> from_ts \<le> sl_ts e) \<and>
     (case lf_to f of None \<Rightarrow> True | Some to_ts \<Rightarrow> sl_ts e \<le> to_ts) \<and>
     (lf_levels f = [] \<or> ll_level (sl_line e) \<in> Some ` set (lf_levels f)) \<and>
     (lf_streams f = [] \<or> ll_stream (sl_line e) \<in> set (lf_streams f)) \<and>
     (case cursor of None \<Rightarrow> True | Some c \<Rightarrow> past_cursor env c dirn e)"

definition sorted_matches ::
  "log_env \<Rightarrow> log_filter \<Rightarrow> string option \<Rightarrow> log_cursor option \<Rightarrow> direction \<Rightarrow> stored_log list
     \<Rightarrow> stored_log list" where
  "sorted_matches env f fts cursor dirn es =
     sort_key entry_order (filter (entry_matches env f fts cursor dirn) es)"

text \<open>Time stamps for which no subtraction of a week start wraps.\<close>

definition calm :: "i64 \<Rightarrow> bool" where
  "calm ts \<longleftrightarrow> \<bar>ts\<bar> \<le> 2 ^ 62"

definition calm_filter :: "log_filter \<Rightarrow> log_cursor option \<Rightarrow> bool" where
  "calm_filter f cursor \<longleftrightarrow> (case lf_from f of None \<Rightarrow> True | Some t \<Rightarrow> calm t)
     \<and> (case lf_to f of None \<Rightarrow> True | Some t \<Rightarrow> calm t)
     \<and> (case cursor of None \<Rightarrow> True | Some c \<Rightarrow> calm (cu_ts c))"

definition week_start_ok :: "i64 \<Rightarrow> bool" where
  "week_start_ok s \<longleftrightarrow> - week_ms < s \<and> s < 253402000000000"

lemma calm_diff: "calm t \<Longrightarrow> week_start_ok s \<Longrightarrow> i64_wrap (t - s) = t - s"
  by (intro i64_wrap_id in_i64I) (auto simp: calm_def week_start_ok_def week_ms_def)

lemma level_from_code_iff: "level_from_code c = Some l \<longleftrightarrow> c = level_code l"
  by (cases l) (auto simp: level_from_code_def)

lemma stream_from_code_iff: "stream_from_code c = Some s \<longleftrightarrow> c = stream_code s"
  by (cases s) (auto simp: stream_from_code_def)

lemma decode_row_wf:
  assumes "wf_week start rows" "week_start_ok start" "row \<in> set rows"
  shows "\<exists>e. decode_row service week start row = Some e \<and> sl_ts e = lr_ts_rel row + start
    \<and> sl_id e = lr_id row \<and> sl_week e = week \<and> ll_line (sl_line e) = lr_line row
    \<and> ll_level (sl_line e) = Option.bind (lr_level row) level_from_code
    \<and> lr_stream row = stream_code (ll_stream (sl_line e))"
proof -
  have r: "0 \<le> lr_ts_rel row" "lr_ts_rel row < week_ms" "length (lr_cid row) = 6"
    "stream_from_code (lr_stream row) \<noteq> None" using assms(1,3) by (auto simp: wf_week_def)
  then obtain cid s where "from_bytes (lr_cid row) = Some cid" "stream_from_code (lr_stream row) = Some s"
    using from_bytes_None [of "lr_cid row"] by auto
  moreover have "i64_wrap (lr_ts_rel row + start) = lr_ts_rel row + start"
    using r assms(2) by (intro i64_wrap_id in_i64I) (auto simp: week_start_ok_def week_ms_def)
  ultimately show ?thesis by (simp add: decode_row_def Let_def) (simp add: stream_from_code_iff)
qed

lemma row_condition_matches:
  assumes "row_condition env f fts cursor start dirn = Some P"
    and "calm_filter f cursor" "week_start_ok start" "week_start_ms env week = Some start"
    and "sl_ts e = lr_ts_rel row + start" "sl_id e = lr_id row" "sl_week e = week"
      "ll_line (sl_line e) = lr_line row" "ll_level (sl_line e) = Option.bind (lr_level row) level_from_code"
      "lr_stream row = stream_code (ll_stream (sl_line e))"
  shows "P row = entry_matches env f fts cursor dirn e"
proof -
  have lev: "lr_level row \<in> (Some \<circ> level_code) ` set ls \<longleftrightarrow> ll_level (sl_line e) \<in> Some ` set ls" for ls
    using assms(9) by (cases "lr_level row") (auto simp: level_from_code_iff)
  have str: "lr_stream row \<in> stream_code ` set ss \<longleftrightarrow> ll_stream (sl_line e) \<in> set ss" for ss
  proof -
    have "s = t" if "stream_code s = stream_code t" for s t using that by (cases s; cases t) simp_all
    then show ?thesis using assms(10) by auto
  qed
  have from_to: "(case lf_from f of None \<Rightarrow> True | Some t \<Rightarrow> i64_wrap (t - start) \<le> lr_ts_rel row)
      = (case lf_from f of None \<Rightarrow> True | Some t \<Rightarrow> t \<le> sl_ts e)"
    "(case lf_to f of None \<Rightarrow> True | Some t \<Rightarrow> lr_ts_rel row \<le> i64_wrap (t - start))
      = (case lf_to f of None \<Rightarrow> True | Some t \<Rightarrow> sl_ts e \<le> t)"
    using assms(2,3,5) by (auto simp: calm_filter_def calm_diff split: option.splits)
  have base: "(case fts of None \<Rightarrow> True | Some q \<Rightarrow> en_fts_match env q (lr_line row)) \<and> push_filters f start row
      \<longleftrightarrow> entry_matches env f fts None dirn e"
    unfolding push_filters_def entry_matches_def from_to lev str assms(8) by simp
  show ?thesis
  proof (cases cursor)
    case None
    then show ?thesis using assms(1) base by (auto simp: row_condition_def Let_def)
  next
    case (Some c)
    then obtain Q where Q: "push_cursor env c start dirn = Some Q"
      and P: "P row = (entry_matches env f fts None dirn e \<and> Q row)"
      using assms(1) base by (auto simp: row_condition_def Let_def)
    have w: "i64_wrap (cu_ts c - start) = cu_ts c - start"
      using assms(2,3) by (intro calm_diff) (auto simp: Some calm_filter_def)
    have "Q row = past_cursor env c dirn e"
      using Q assms(4-7) w
      by (auto simp: push_cursor_def past_cursor_def entry_order_def Let_def less_prod_simp
          split: option.splits direction.splits if_splits)
    with P show ?thesis by (auto simp: entry_matches_def Some)
  qed
qed

lemma map_insort_key:
  assumes "\<And>y. y \<in> set (x # xs) \<Longrightarrow> k' (f x) \<le> k' (f y) \<longleftrightarrow> k x \<le> k y"
  shows "map f (insort_key k x xs) = insort_key k' (f x) (map f xs)"
  using assms by (induction xs) auto

lemma map_sort_key:
  assumes "\<And>x y. x \<in> set xs \<Longrightarrow> y \<in> set xs \<Longrightarrow> k' (f x) \<le> k' (f y) \<longleftrightarrow> k x \<le> k y"
  shows "map f (sort_key k xs) = sort_key k' (map f xs)"
  using assms
proof (induction xs)
  case (Cons x xs)
  have "map f (insort_key k x (sort_key k xs)) = insort_key k' (f x) (map f (sort_key k xs))"
    using Cons.prems by (intro map_insort_key) auto
  with Cons show ?case by simp
qed simp

lemma map_filter_total:
  "(\<And>x. x \<in> set xs \<Longrightarrow> g x \<noteq> None) \<Longrightarrow> List.map_filter g xs = map (the \<circ> g) xs"
proof (induction xs)
  case (Cons x xs)
  then obtain y where "g x = Some y" by fastforce
  with Cons show ?case by (simp add: List.map_filter_simps)
qed (simp add: List.map_filter_simps)

text \<open>The unlimited statement of one week, read back, is the sorted part of its entries.\<close>

lemma week_select:
  assumes "wf_week start rows" "week_start_ok start" "week_start_ms env week = Some start"
    and "row_condition env f fts cursor start dirn = Some P" "calm_filter f cursor"
  shows "List.map_filter (decode_row service week start) (select_rows P dirn n rows) =
    take n ((case dirn of Backward \<Rightarrow> rev | Forward \<Rightarrow> id)
      (sorted_matches env f fts cursor dirn (week_entries env service (week, rows))))"
proof -
  let ?d = "decode_row service week start"
  have tot: "?d r \<noteq> None" if "r \<in> set rows" for r
    using decode_row_wf [OF assms(1,2) that] by auto
  have P: "P r = entry_matches env f fts cursor dirn (the (?d r))" if "r \<in> set rows" for r
  proof -
    from decode_row_wf [OF assms(1,2) that, of service week] obtain e where
      e: "?d r = Some e" "sl_ts e = lr_ts_rel r + start" "sl_id e = lr_id r" "sl_week e = week"
        "ll_line (sl_line e) = lr_line r" "ll_level (sl_line e) = Option.bind (lr_level r) level_from_code"
        "lr_stream r = stream_code (ll_stream (sl_line e))" by blast
    from row_condition_matches [OF assms(4,5,2,3) e(2-7)] e(1) show ?thesis by simp
  qed
  have key: "entry_order (the (?d r)) = (lr_ts_rel r + start, lr_id r)" if "r \<in> set rows" for r
    using decode_row_wf [OF assms(1,2) that, of service week] by (auto simp: entry_order_def)
  have "map (the \<circ> ?d) (sort_key row_order (filter P rows))
      = sort_key entry_order (map (the \<circ> ?d) (filter P rows))"
    by (rule map_sort_key) (auto simp: key row_order_def)
  also have "map (the \<circ> ?d) (filter P rows)
      = filter (entry_matches env f fts cursor dirn) (map (the \<circ> ?d) rows)"
    using P by (induction rows) auto
  moreover have "week_entries env service (week, rows) = map (the \<circ> ?d) rows"
    unfolding week_entries_def using map_filter_total [of rows ?d] tot by (simp add: assms(3))
  ultimately have sorted: "map (the \<circ> ?d) (sort_key row_order (filter P rows))
      = sorted_matches env f fts cursor dirn (week_entries env service (week, rows))"
    by (simp only: sorted_matches_def)
  have sel: "set (select_rows P dirn n rows) \<subseteq> set rows"
    by (auto simp: select_rows_def Let_def dest!: in_set_takeD split: direction.splits)
  then have "List.map_filter ?d (select_rows P dirn n rows) = map (the \<circ> ?d) (select_rows P dirn n rows)"
    using tot by (intro map_filter_total) auto
  also have "\<dots> = take n ((case dirn of Backward \<Rightarrow> rev | Forward \<Rightarrow> id)
      (map (the \<circ> ?d) (sort_key row_order (filter P rows))))"
    by (simp add: select_rows_def Let_def take_map rev_map split: direction.split)
  finally show ?thesis by (simp only: sorted)
qed

lemma scan_weeks_ok:
  assumes "ls_faults st = []" "calm_filter f cursor"
    and "\<And>w. w \<in> set weeks \<Longrightarrow> hm_get (files_of st dir) w \<noteq> None \<and>
      (\<exists>start P. week_start_ms env w = Some start \<and> week_start_ok start
        \<and> wf_week start (week_rows st (dir, w)) \<and> row_condition env f fts cursor start dirn = Some P)"
  shows "\<exists>st'. scan_weeks env dir service f fts cursor dirn target weeks page st =
    (st', Some (Inr (if target \<le> length page then page else take target (page @ concat (map (\<lambda>w.
       (case dirn of Backward \<Rightarrow> rev | Forward \<Rightarrow> id)
         (sorted_matches env f fts cursor dirn (week_entries env service (w, week_rows st (dir, w))))) weeks)))))
    \<and> ls_dirs st' = ls_dirs st \<and> ls_faults st' = []"
  using assms
proof (induction weeks arbitrary: page st)
  case (Cons w weeks)
  let ?sel = "\<lambda>st w. (case dirn of Backward \<Rightarrow> rev | Forward \<Rightarrow> id)
    (sorted_matches env f fts cursor dirn (week_entries env service (w, week_rows st (dir, w))))"
  show ?case
  proof (cases "target \<le> length page")
    case False
    from Cons.prems(3) [of w] obtain start P where w: "hm_get (files_of st dir) w \<noteq> None"
      "week_start_ms env w = Some start" "week_start_ok start"
      "wf_week start (week_rows st (dir, w))" "row_condition env f fts cursor start dirn = Some P" by auto
    obtain st1 where st1: "get_pool (dir, w) service w (lock_path (dir, w) st) = (st1, Inr ())"
      "ls_dirs st1 = ls_dirs st" "ls_faults st1 = []"
      using get_pool_ok [of "lock_path (dir, w) st" "(dir, w)" service w] Cons.prems(1) w(1) by auto
    have files: "files_of st1 = files_of st" by (rule files_of_cong) (rule st1(2))
    then have rows: "week_rows st1 p = week_rows st p" for p by (simp add: week_rows_def)
    define page1 where "page1 = page @ take (target - length page) (?sel st w)"
    have step: "scan_weeks env dir service f fts cursor dirn target (w # weeks) page st =
        scan_weeks env dir service f fts cursor dirn target weeks page1 st1"
      using False w st1 week_select [OF w(4,3,2,5) Cons.prems(2)] rows
      by (simp add: page1_def)
    have pre: "hm_get (files_of st1 dir) v \<noteq> None \<and>
      (\<exists>start P. week_start_ms env v = Some start \<and> week_start_ok start
        \<and> wf_week start (week_rows st1 (dir, v)) \<and> row_condition env f fts cursor start dirn = Some P)"
      if "v \<in> set weeks" for v
      using Cons.prems(3) [of v] that by (simp add: files rows)
    from Cons.IH [OF st1(3) Cons.prems(2) pre, of page1] obtain st' where
      "scan_weeks env dir service f fts cursor dirn target weeks page1 st1 =
        (st', Some (Inr (if target \<le> length page1 then page1
           else take target (page1 @ concat (map (?sel st1) weeks)))))"
      "ls_dirs st' = ls_dirs st1" "ls_faults st' = []" by blast
    moreover have "(if target \<le> length page1 then page1
        else take target (page1 @ concat (map (?sel st1) weeks)))
      = take target (page @ concat (map (?sel st) (w # weeks)))"
      using False by (auto simp: page1_def rows)
    ultimately show ?thesis using False st1(2) by (simp only: step) simp
  qed (use Cons.prems(1) in simp)
qed simp

lemma files_wf_week:
  assumes "iso_calendar env" "files_wf env fs" "(w, rows) \<in> set fs" "week_start_ms env w = Some s"
  shows "wf_week s rows" "week_start_ok s" "\<exists>ts. dated ts \<and> week_name env ts = Some w"
proof -
  from assms(2-4) obtain ts where ts: "dated ts" "week_name env ts = Some w" and "wf_week s rows"
    unfolding files_wf_def by fastforce
  then show "wf_week s rows" "\<exists>ts. dated ts \<and> week_name env ts = Some w" by blast+
  from week_name_start [OF assms(1) ts] assms(4) ts(1) show "week_start_ok s"
    by (auto simp: week_start_ok_def dated_def week_ms_def)
qed

lemma week_entries_elem:
  assumes "wf_week s rows" "week_start_ok s" "week_start_ms env w = Some s"
    and "e \<in> set (week_entries env service (w, rows))"
  shows "s \<le> sl_ts e" "sl_ts e < s + week_ms" "sl_week e = w"
    "\<exists>r \<in> set rows. decode_row service w s r = Some e \<and> lr_id r = sl_id e"
proof -
  from assms(3,4) obtain r where r: "r \<in> set rows" "decode_row service w s r = Some e"
    by (auto simp: week_entries_def List.map_filter_def)
  from decode_row_wf [OF assms(1,2) r(1), of service w] r(2)
  have e: "sl_ts e = lr_ts_rel r + s" "sl_id e = lr_id r" "sl_week e = w" by auto
  moreover have "0 \<le> lr_ts_rel r" "lr_ts_rel r < week_ms" using assms(1) r(1) by (auto simp: wf_week_def)
  ultimately show "s \<le> sl_ts e" "sl_ts e < s + week_ms" "sl_week e = w" by auto
  show "\<exists>r \<in> set rows. decode_row service w s r = Some e \<and> lr_id r = sl_id e" using r e by auto
qed

lemma week_entries_start: "e \<in> set (week_entries env service (w, rows)) \<Longrightarrow> week_start_ms env w \<noteq> None"
  by (cases "week_start_ms env w") (simp_all add: week_entries_def)

lemma entries_keys_inj:
  assumes "iso_calendar env" "files_wf env fs"
  shows "inj_on entry_order (set (concat (map (week_entries env service) fs)))"
proof (rule inj_onI)
  fix e1 e2
  assume "e1 \<in> set (concat (map (week_entries env service) fs))"
    "e2 \<in> set (concat (map (week_entries env service) fs))" and key: "entry_order e1 = entry_order e2"
  then obtain w1 r1 w2 r2 where f: "(w1, r1) \<in> set fs" "e1 \<in> set (week_entries env service (w1, r1))"
    "(w2, r2) \<in> set fs" "e2 \<in> set (week_entries env service (w2, r2))" by auto
  have "week_start_ms env w1 \<noteq> None" "week_start_ms env w2 \<noteq> None"
    using f(2,4) by (auto dest: week_entries_start)
  then obtain s1 s2 where s: "week_start_ms env w1 = Some s1" "week_start_ms env w2 = Some s2" by blast
  note a = files_wf_week [OF assms f(1) s(1)] and b = files_wf_week [OF assms f(3) s(2)]
  note ea = week_entries_elem [OF a(1,2) s(1) f(2)] and eb = week_entries_elem [OF b(1,2) s(2) f(4)]
  from a(3) b(3) obtain t1 t2 where t: "dated t1" "week_name env t1 = Some w1" "dated t2"
    "week_name env t2 = Some w2" by blast
  have "w1 = w2"
    using weeks_disjoint [OF assms(1) t(1,2) s(1) t(3,4) s(2)] ea(1,2) eb(1,2) key
    by (fastforce simp: entry_order_def)
  moreover have "r1 = r2"
    using f(1,3) assms(2) \<open>w1 = w2\<close> by (auto simp: files_wf_def hm_wf_def dest: eq_key_imp_eq_value)
  ultimately have "s1 = s2" using s by simp
  from ea(4) eb(4) obtain x y where "x \<in> set r1" "decode_row service w1 s1 x = Some e1" "lr_id x = sl_id e1"
    "y \<in> set r1" "decode_row service w1 s1 y = Some e2" "lr_id y = sl_id e2"
    using \<open>w1 = w2\<close> \<open>r1 = r2\<close> \<open>s1 = s2\<close> by auto
  moreover from this have "lr_id x = lr_id y" using key by (simp add: entry_order_def)
  moreover have "inj_on lr_id (set r1)" using a(1) by (simp add: wf_week_def distinct_map)
  ultimately show "e1 = e2" by (metis inj_onD option.inject)
qed

text \<open>A week that is not a candidate holds no match.\<close>

lemma no_candidate_no_match:
  assumes "wf_week s rows" "week_start_ok s" "week_start_ms env w = Some s"
    and "\<not> week_matches f cursor dirn s" "e \<in> set (week_entries env service (w, rows))"
    and "case cursor of None \<Rightarrow> True | Some c \<Rightarrow> week_start_ms env (cu_week c) = Some s \<longrightarrow>
      s \<le> cu_ts c \<and> cu_ts c < s + week_ms"
  shows "\<not> entry_matches env f fts cursor dirn e"
proof
  assume m: "entry_matches env f fts cursor dirn e"
  note e = week_entries_elem [OF assms(1,2,3,5)]
  have wrap: "i64_wrap (s + week_ms) = s + week_ms"
    using assms(2) by (intro i64_wrap_id in_i64I) (auto simp: week_start_ok_def week_ms_def)
  have "week_matches f cursor dirn s"
  proof -
    have "\<not> (case lf_to f of None \<Rightarrow> False | Some t \<Rightarrow> t < s)"
      "\<not> (case lf_from f of None \<Rightarrow> False | Some t \<Rightarrow> s + week_ms \<le> t)"
      using m e(1,2) by (auto simp: entry_matches_def split: option.splits)
    moreover have "case cursor of None \<Rightarrow> True
      | Some c \<Rightarrow> (case dirn of Backward \<Rightarrow> s \<le> cu_ts c | Forward \<Rightarrow> cu_ts c < s + week_ms)"
      using m e(1-3) assms(3,6)
      by (auto simp: entry_matches_def past_cursor_def split: option.splits direction.splits if_splits)
    ultimately show ?thesis by (simp add: week_matches_def wrap Let_def)
  qed
  then show False using assms(4) by simp
qed

lemma sorted_concat_weeks:
  assumes "sorted_wrt (\<lambda>a b. start a + week_ms \<le> start b) ws"
    and "\<And>w e. w \<in> set ws \<Longrightarrow> e \<in> set (g w) \<Longrightarrow> start w \<le> sl_ts e \<and> sl_ts e < start w + week_ms"
    and "\<And>w. w \<in> set ws \<Longrightarrow> sorted (map entry_order (g w))"
  shows "sorted (map entry_order (concat (map g ws)))"
  using assms
proof (induction ws)
  case (Cons w ws)
  have "entry_order a \<le> entry_order b" if "a \<in> set (g w)" "v \<in> set ws" "b \<in> set (g v)" for a b v
  proof -
    have "sl_ts a < start w + week_ms" "start w + week_ms \<le> start v" "start v \<le> sl_ts b"
      using Cons.prems that by auto
    then show ?thesis by (simp add: entry_order_def)
  qed
  with Cons show ?case by (auto simp: sorted_append)
qed simp

lemma sum_filter_mset:
  "(\<And>n. n \<in># A \<Longrightarrow> \<not> K n \<Longrightarrow> h n = {#}) \<Longrightarrow>
     sum_mset (image_mset h (filter_mset K A)) = (sum_mset (image_mset h A) :: 'b multiset)"
  by (induction A) auto

lemma mset_concat_map: "mset (concat (map g xs)) = sum_mset (image_mset (mset \<circ> g) (mset xs))"
  by (induction xs) auto

definition cursor_ok :: "log_env \<Rightarrow> log_cursor option \<Rightarrow> bool" where
  "cursor_ok env cursor \<longleftrightarrow> (case cursor of None \<Rightarrow> True | Some c \<Rightarrow>
     (\<exists>s. week_start_ms env (cu_week c) = Some s \<and> s \<le> cu_ts c \<and> cu_ts c < s + week_ms))"

text \<open>The candidate weeks in order, read one after the other, give the sorted matches.\<close>

lemma candidates_sorted_matches:
  assumes "iso_calendar env" "files_wf env fs" "cursor_ok env cursor"
    and "weeks = sort_key snd (List.map_filter (\<lambda>name. map_option (\<lambda>start. (name, start))
      (week_start_ms env name)) (map fst fs))"
  shows "concat (map (\<lambda>w. sorted_matches env f fts cursor dirn (week_entries env service (w, the (hm_get fs w))))
      (map fst (filter (\<lambda>(_, start). week_matches f cursor dirn start) weeks)))
    = sorted_matches env f fts cursor dirn (concat (map (week_entries env service) fs))"
proof -
  define ents where "ents w = week_entries env service (w, the (hm_get fs w))" for w
  define sel where "sel w = sorted_matches env f fts cursor dirn (ents w)" for w
  define start where "start w = the (week_start_ms env w)" for w
  define keep where "keep w \<longleftrightarrow> week_start_ms env w \<noteq> None \<and> week_matches f cursor dirn (start w)" for w
  define cand where "cand = map fst (filter (\<lambda>(_, s). week_matches f cursor dirn s) weeks)"
  have wf: "hm_wf fs" using assms(2) by (simp add: files_wf_def)
  have dist: "distinct (map fst fs)" using wf by (simp add: hm_wf_def)
  have in_fs: "(w, the (hm_get fs w)) \<in> set fs" if "w \<in> fst ` set fs" for w
  proof -
    from that obtain v where v: "(w, v) \<in> set fs" by auto
    then have "hm_get fs w = Some v" using hm_get_in_set [OF wf] by simp
    with v show ?thesis by simp
  qed
  have "map (\<lambda>p. (fst p, the (hm_get fs (fst p)))) fs = fs"
  proof (rule map_idI)
    fix p assume "p \<in> set fs"
    then have "hm_get fs (fst p) = Some (snd p)" using hm_get_in_set [OF wf, of "fst p" "snd p"] by simp
    then show "(fst p, the (hm_get fs (fst p))) = p" by simp
  qed
  then have fs: "fs = map (\<lambda>w. (w, the (hm_get fs w))) (map fst fs)" by (simp add: comp_def)
  have week: "wf_week s (the (hm_get fs w))" "week_start_ok s" "\<exists>ts. dated ts \<and> week_name env ts = Some w"
    if "w \<in> fst ` set fs" "week_start_ms env w = Some s" for w s
    using files_wf_week [OF assms(1,2) in_fs [OF that(1)] that(2)] by auto
  have wks: "mset weeks = mset (map (\<lambda>w. (w, start w)) (filter (\<lambda>w. week_start_ms env w \<noteq> None) (map fst fs)))"
    unfolding assms(4) by (induction fs) (auto simp: List.map_filter_simps start_def)
  have "mset cand = image_mset fst (filter_mset (\<lambda>(_, s). week_matches f cursor dirn s) (mset weeks))"
    by (simp add: cand_def)
  also have "\<dots> = filter_mset keep (mset (map fst fs))"
    unfolding wks by (induction fs) (auto simp: keep_def)
  finally have cand: "mset cand = filter_mset keep (mset (map fst fs))" .
  then have perm: "mset cand = mset (filter keep (map fst fs))" by simp
  have cand_set: "set cand = {w \<in> fst ` set fs. keep w}" using mset_eq_setD [OF perm] by simp
  have cand_dist: "distinct cand"
    using mset_eq_imp_distinct_iff [OF perm] distinct_filter [OF dist, of keep] by blast
  have starts: "sorted (map start cand)"
  proof -
    have "snd p = start (fst p)" if "p \<in> set weeks" for p
      using that mset_eq_setD [OF wks] by auto
    then have "map start cand = map snd (filter (\<lambda>(_, s). week_matches f cursor dirn s) weeks)"
      by (simp add: cand_def)
    moreover have "sorted (map snd weeks)" by (simp add: assms(4))
    ultimately show ?thesis by (simp add: sorted_filter)
  qed
  have apart: "start a + week_ms \<le> start b \<or> start b + week_ms \<le> start a"
    if "a \<in> set cand" "b \<in> set cand" "a \<noteq> b" for a b
  proof -
    from that obtain sa sb where s: "week_start_ms env a = Some sa" "week_start_ms env b = Some sb"
      "a \<in> fst ` set fs" "b \<in> fst ` set fs" by (auto simp: cand_set keep_def)
    obtain ta where ta: "dated ta" "week_name env ta = Some a" using week(3) [OF s(3,1)] by blast
    obtain tb where tb: "dated tb" "week_name env tb = Some b" using week(3) [OF s(4,2)] by blast
    from weeks_disjoint [OF assms(1) ta s(1) tb s(2) that(3)] show ?thesis by (simp add: start_def s)
  qed
  have ordered: "sorted_wrt (\<lambda>a b. start a + week_ms \<le> start b) cand"
    using starts cand_dist apart
  proof (induction cand)
    case (Cons w ws)
    have "start w + week_ms \<le> start v" if "v \<in> set ws" for v
    proof -
      have "start w \<le> start v" "w \<noteq> v" using Cons.prems(1,2) that by auto
      with Cons.prems(3) [of w v] that show ?thesis by (auto simp: week_ms_def)
    qed
    with Cons show ?case by auto
  qed simp
  have sorted: "sorted (map entry_order (concat (map sel cand)))"
  proof (rule sorted_concat_weeks [OF ordered])
    fix w e assume "w \<in> set cand" "e \<in> set (sel w)"
    then have w: "w \<in> fst ` set fs" "week_start_ms env w = Some (start w)" and e: "e \<in> set (ents w)"
      by (auto simp: cand_set keep_def start_def sel_def sorted_matches_def)
    from week_entries_elem [OF week(1,2) [OF w] w(2) e [unfolded ents_def]]
    show "start w \<le> sl_ts e \<and> sl_ts e < start w + week_ms" by simp
  qed (simp add: sel_def sorted_matches_def)
  have none: "mset (sel w) = {#}" if "w \<in># mset (map fst fs)" "\<not> keep w" for w
  proof -
    have "\<not> entry_matches env f fts cursor dirn e" if e: "e \<in> set (ents w)" for e
    proof (cases "week_start_ms env w")
      case None
      then show ?thesis using e by (simp add: ents_def week_entries_def)
    next
      case (Some s)
      have w: "w \<in> fst ` set fs" using \<open>w \<in># mset (map fst fs)\<close> by simp
      have "\<not> week_matches f cursor dirn s" using \<open>\<not> keep w\<close> Some by (simp add: keep_def start_def)
      from no_candidate_no_match [OF week(1,2) [OF w Some] Some this e [unfolded ents_def]] assms(3)
      show ?thesis by (auto simp: cursor_ok_def split: option.splits)
    qed
    then show ?thesis by (simp add: sel_def sorted_matches_def filter_empty_conv)
  qed
  have parts: "mset (concat (map sel ws))
      = mset (filter (entry_matches env f fts cursor dirn) (concat (map ents ws)))" for ws
    by (induction ws) (simp_all add: sel_def sorted_matches_def)
  have "mset (concat (map sel cand)) = sum_mset (image_mset (mset \<circ> sel) (mset (map fst fs)))"
    unfolding mset_concat_map cand using none by (intro sum_filter_mset) simp
  also have "\<dots> = mset (filter (entry_matches env f fts cursor dirn) (concat (map ents (map fst fs))))"
    unfolding mset_concat_map [symmetric] by (rule parts)
  also have "map ents (map fst fs) = map (week_entries env service) fs"
    by (subst (2) fs) (simp add: ents_def)
  finally have m: "mset (concat (map sel cand)) = mset (filter (entry_matches env f fts cursor dirn)
      (concat (map (week_entries env service) fs)))" .
  have "inj_on entry_order (set (filter (entry_matches env f fts cursor dirn)
      (concat (map (week_entries env service) fs))))"
    by (rule inj_on_subset [OF entries_keys_inj [OF assms(1,2)]]) (simp only: set_filter, blast)
  from sort_key_inj_key_eq [OF m [symmetric] this sorted]
  have "sorted_matches env f fts cursor dirn (concat (map (week_entries env service) fs))
      = concat (map sel cand)" unfolding sorted_matches_def .
  then show ?thesis unfolding sel_def ents_def cand_def by simp
qed

text \<open>
  The cursor and the direction of a query, as its filter gives them.
\<close>

definition query_cursor ::
  "log_env \<Rightarrow> log_filter \<Rightarrow> (log_cursor option \<times> direction) option" where
  "query_cursor env f =
     (case (transpose_cursor env (lf_before f), transpose_cursor env (lf_after f)) of
        (Inr before, Inr None) \<Rightarrow> Some (before, Backward)
      | (Inr _, Inr (Some c)) \<Rightarrow> Some (Some c, Forward)
      | _ \<Rightarrow> None)"

lemma logs_query_scan:
  assumes "query_cursor env f = Some (cursor, dirn)" "hm_get (ls_dirs st) (safe_service_path service) \<noteq> None"
    and "ls_faults st = []"
    and "scan_weeks env (safe_service_path service) service f (Option.bind (lf_query f) sanitize_fts_query)
      cursor dirn (page_limit f + 1)
      (ordered_candidates (sort_key snd (List.map_filter (\<lambda>name. map_option (\<lambda>start. (name, start))
        (week_start_ms env name)) (map fst (files_of st (safe_service_path service))))) f cursor dirn) [] st
      = (st', Some (Inr scanned))"
  shows "logs_query env service f st = (st', Some (Inr (page_of env f dirn (page_limit f) scanned)))"
  using assms
  by (auto simp: logs_query_def query_cursor_def read_week_files_def week_start_ms_def Let_def
      split: sum.splits option.splits)

text \<open>The state after a query has the same contents: only connections may have been opened.\<close>

lemma logs_query_result:
  assumes "iso_calendar env" "store_wf env st" "ls_faults st = []"
    and "hm_get (ls_dirs st) (safe_service_path service) \<noteq> None"
    and "query_cursor env f = Some (cursor, dirn)" "cursor_ok env cursor" "calm_filter f cursor"
  defines "matches \<equiv> sorted_matches env f (Option.bind (lf_query f) sanitize_fts_query) cursor dirn
    (service_log env st service)"
  shows "\<exists>st'. logs_query env service f st = (st', Some (Inr (page_of env f dirn (page_limit f)
      (take (page_limit f + 1) ((case dirn of Backward \<Rightarrow> rev | Forward \<Rightarrow> id) matches)))))
    \<and> ls_dirs st' = ls_dirs st \<and> ls_faults st' = []"
proof -
  let ?fs = "files_of st (safe_service_path service)"
  let ?fts = "Option.bind (lf_query f) sanitize_fts_query"
  define weeks where "weeks = sort_key snd (List.map_filter (\<lambda>name. map_option (\<lambda>start. (name, start))
    (week_start_ms env name)) (map fst ?fs))"
  define cand where "cand = map fst (filter (\<lambda>(_, start). week_matches f cursor dirn start) weeks)"
  define ord where "ord = (case dirn of Backward \<Rightarrow> rev | Forward \<Rightarrow> (id :: stored_log list \<Rightarrow> stored_log list))"
  define sel where "sel w = sorted_matches env f ?fts cursor dirn
    (week_entries env service (w, week_rows st (safe_service_path service, w)))" for w
  have wf: "files_wf env ?fs" using assms(2) by (simp add: store_wf_def)
  have cand_in: "w \<in> fst ` set ?fs" "week_start_ms env w \<noteq> None" if "w \<in> set cand" for w
    using that by (force simp: cand_def weeks_def List.map_filter_def)+
  have rows: "week_rows st (safe_service_path service, w) = the (hm_get ?fs w)" if "w \<in> fst ` set ?fs" for w
    using that by (auto simp: week_rows_def map_of_eq_None_iff split: option.splits)
  have all: "concat (map sel cand) = matches"
  proof -
    have eq: "map sel cand = map (\<lambda>w. sorted_matches env f ?fts cursor dirn
        (week_entries env service (w, the (hm_get ?fs w)))) cand"
      using cand_in(1) rows by (auto simp: sel_def)
    from candidates_sorted_matches [OF assms(1) wf assms(6) weeks_def, of f ?fts dirn service]
    show ?thesis unfolding eq cand_def [symmetric] matches_def service_log_def .
  qed
  have pre: "hm_get ?fs w \<noteq> None \<and> (\<exists>start P. week_start_ms env w = Some start \<and> week_start_ok start
      \<and> wf_week start (week_rows st (safe_service_path service, w))
      \<and> row_condition env f ?fts cursor start dirn = Some P)"
    if "w \<in> set (ordered_candidates weeks f cursor dirn)" for w
  proof -
    have w: "w \<in> set cand"
      using that by (auto simp: ordered_candidates_def cand_def Let_def split: direction.splits)
    from cand_in [OF w] obtain rws s where f: "(w, rws) \<in> set ?fs" "week_start_ms env w = Some s" by auto
    have "hm_get ?fs w = Some rws" using hm_get_in_set [of ?fs w rws] wf f(1) by (simp add: files_wf_def)
    moreover have "\<exists>P. row_condition env f ?fts cursor s dirn = Some P"
      using assms(6) by (auto simp: row_condition_def push_cursor_def cursor_ok_def Let_def split: option.splits)
    ultimately show ?thesis
      using files_wf_week [OF assms(1) wf f] f(2) by (auto simp: week_rows_def)
  qed
  have oc: "ordered_candidates weeks f cursor dirn = (case dirn of Backward \<Rightarrow> rev cand | Forward \<Rightarrow> cand)"
    by (cases dirn) (simp_all add: ordered_candidates_def cand_def Let_def)
  have "concat (map (rev \<circ> sel) (rev cand)) = rev matches"
    unfolding all [symmetric] rev_concat rev_map by (simp add: rev_map)
  then have "concat (map (ord \<circ> sel) (ordered_candidates weeks f cursor dirn)) = ord matches"
    using all unfolding oc ord_def by (cases dirn) simp_all
  with scan_weeks_ok [where fts = ?fts and service = service and target = "page_limit f + 1"
      and page = "[]" and weeks = "ordered_candidates weeks f cursor dirn", OF assms(3,7) pre]
  obtain st' where scan: "scan_weeks env (safe_service_path service) service f ?fts cursor dirn (page_limit f + 1)
      (ordered_candidates weeks f cursor dirn) [] st = (st', Some (Inr (take (page_limit f + 1) (ord matches))))"
    and same: "ls_dirs st' = ls_dirs st" "ls_faults st' = []"
    unfolding ord_def sel_def comp_def by auto
  from logs_query_scan [OF assms(5,4,3) scan [unfolded weeks_def]] same show ?thesis
    unfolding ord_def by blast
qed

text \<open>
  C8. A query is a page of the sorted contents of the service. Without an I/O error, and for a
  cursor that names a week and a time in it, the page of a backward query holds the newest entries
  that match the filter and lie before the cursor, the page of a forward query the oldest ones after
  it, both in time order and at most the limit; and it reports more entries in the direction of the
  scan exactly when there are some.
\<close>

theorem logs_query_is_page:
  assumes "iso_calendar env" "store_wf env st" "ls_faults st = []"
    and "hm_get (ls_dirs st) (safe_service_path service) \<noteq> None"
    and "query_cursor env f = Some (cursor, dirn)" "cursor_ok env cursor" "calm_filter f cursor"
  defines "matches \<equiv> sorted_matches env f (Option.bind (lf_query f) sanitize_fts_query) cursor dirn
    (service_log env st service)"
  shows "\<exists>st' page. logs_query env service f st = (st', Some (Inr page))
    \<and> pg_items page = map sl_line (case dirn of Forward \<Rightarrow> take (page_limit f) matches
        | Backward \<Rightarrow> drop (length matches - page_limit f) matches)
    \<and> (matches \<noteq> [] \<longrightarrow>
        (case dirn of Forward \<Rightarrow> pg_has_newer page | Backward \<Rightarrow> pg_has_older page)
          = (page_limit f < length matches))"
proof -
  obtain st' where q: "logs_query env service f st = (st', Some (Inr (page_of env f dirn (page_limit f)
      (take (page_limit f + 1) ((case dirn of Backward \<Rightarrow> rev | Forward \<Rightarrow> id) matches)))))"
    using logs_query_result [OF assms(1-7)] unfolding matches_def by blast
  have "length matches \<le> length matches - page_limit f \<Longrightarrow> matches = []"
    by (cases "length matches") (auto simp: page_limit_def)
  moreover have "1 \<le> page_limit f" by (simp add: page_limit_def)
  ultimately show ?thesis
    unfolding q
    by (cases dirn; cases "matches = []")
      (auto simp: page_of_def empty_page_def Let_def rev_take split: list.splits)
qed

end
