(* ===== verification/Log_Store_Laws.thy ===== *)
theory Log_Store_Laws
  imports Log_Store
begin

text \<open>
  What the log store promises: appending adds exactly the lines, a retention pass removes exactly
  the expired weeks, and the interface \<open>log_sink\<close> that the buffer builds on, interpreted on the
  store.
\<close>

section \<open>A small store\<close>

text \<open>A calendar of one week and a store with two lines of it.\<close>

definition week_one_env :: log_env where
  "week_one_env =
     \<lparr>en_date_of = (\<lambda>sec. if 0 \<le> sec \<and> sec < 345600 then Some (1970, 1, 1) else None),
      en_monday_of = (\<lambda>y w. if y = 1970 \<and> w = 1 then Some (- 259200) else None),
      en_b64_decode = Inr, en_from_json = (\<lambda>_. Inl ''bad''), en_to_json = (\<lambda>_. Inl ''unused''),
      en_b64_encode = id, en_fts_match = (\<lambda>_ _. True)\<rparr>"

definition example_row :: "int \<Rightarrow> int \<Rightarrow> log_row" where
  "example_row rid rel = \<lparr>lr_id = rid, lr_ts_rel = rel, lr_cid = [1, 2, 3, 4, 5, 6], lr_stream = 0,
     lr_level = None, lr_line = ''hello''\<rparr>"

definition week_one_store :: log_store where
  "week_one_store = (log_store_new 300)\<lparr>ls_dirs :=
     [(''web'', [(''1970_w01.db'', [example_row 1 259200000, example_row 2 259205000])])]\<rparr>"

definition all_logs :: log_filter where
  "all_logs = \<lparr>lf_from = Some 0, lf_to = None, lf_query = None, lf_levels = [], lf_streams = [],
     lf_limit = Some 1, lf_before = None, lf_after = None\<rparr>"

lemma week_one_calendar: "iso_calendar week_one_env"
  by (auto simp: iso_calendar_def week_one_env_def iso_year_def)

lemma week_one_name: "week_name week_one_env 0 = Some ''1970_w01.db''"
  by (simp add: week_name_def week_database_name_def week_one_env_def iso_year_def pad2_def
      int_to_string_def nat_to_string.simps char_of_def bit_0)

lemma week_one_start: "week_start_ms week_one_env ''1970_w01.db'' = Some (- 259200000)"
proof -
  have "dated 0" by (simp add: dated_def)
  from week_name_start [OF week_one_calendar this week_one_name] obtain s where
    s: "week_start_ms week_one_env ''1970_w01.db'' = Some s" "s \<le> 0" "0 < s + week_ms"
      "s mod week_ms = 345600000" by blast
  then obtain k where k: "s = 604800000 * k + 345600000"
    using mult_div_mod_eq [of week_ms s] that [of "s div week_ms"] by (simp add: week_ms_def)
  with s(2,3) have "- 2 < k" "k < 0" by (simp_all add: week_ms_def)
  with k have "s = - 259200000" by simp
  with s(1) show ?thesis by simp
qed

lemma week_one_wf: "store_wf week_one_env week_one_store"
proof -
  have "dated 0" by (simp add: dated_def)
  moreover have "wf_week (- 259200000) [example_row 1 259200000, example_row 2 259205000]"
    by (simp add: wf_week_def example_row_def week_ms_def stream_from_code_def)
  ultimately show ?thesis
    using week_one_name week_one_start
    by (auto simp: store_wf_def files_wf_def files_of_def week_one_store_def hm_wf_def)
qed

theorem logs_query_is_page_witness:
  "\<exists>st' page. logs_query week_one_env ''web'' all_logs week_one_store = (st', Some (Inr page))
    \<and> pg_items page = map sl_line (case Backward of
        Forward \<Rightarrow> take (page_limit all_logs) (sorted_matches week_one_env all_logs
          (Option.bind (lf_query all_logs) sanitize_fts_query) None Backward (service_log week_one_env week_one_store ''web''))
      | Backward \<Rightarrow> drop (length (sorted_matches week_one_env all_logs
          (Option.bind (lf_query all_logs) sanitize_fts_query) None Backward (service_log week_one_env week_one_store ''web''))
          - page_limit all_logs) (sorted_matches week_one_env all_logs
          (Option.bind (lf_query all_logs) sanitize_fts_query) None Backward (service_log week_one_env week_one_store ''web'')))"
proof -
  have "safe_service_path ''web'' = ''web''"
    by (simp add: safe_service_path_def path_parts_def)
  then have "hm_get (ls_dirs week_one_store) (safe_service_path ''web'') \<noteq> None"
    by (simp add: week_one_store_def)
  moreover have "ls_faults week_one_store = []" by (simp add: week_one_store_def log_store_new_def)
  moreover have "query_cursor week_one_env all_logs = Some (None, Backward)"
    by (simp add: query_cursor_def transpose_cursor_def all_logs_def)
  moreover have "cursor_ok week_one_env None" "calm_filter all_logs None"
    by (simp_all add: cursor_ok_def calm_filter_def all_logs_def calm_def)
  ultimately show ?thesis
    using logs_query_is_page [OF week_one_calendar week_one_wf, of "''web''" all_logs None Backward]
    by blast
qed

section \<open>Appending adds the lines\<close>

text \<open>What a service can read back, as a multiset of lines.\<close>

definition log_content :: "log_env \<Rightarrow> log_store \<Rightarrow> string \<Rightarrow> log_line multiset" where
  "log_content env st service = mset (map sl_line (service_log env st service))"

lemma log_content_cong: "files_of st' = files_of st \<Longrightarrow> log_content env st' = log_content env st"
  by (simp add: log_content_def service_log_def fun_eq_iff)

lemma store_wf_cong: "files_of st' = files_of st \<Longrightarrow> store_wf env st' = store_wf env st"
  by (simp add: store_wf_def)

lemma concat_hm_insert:
  "mset (concat (map g (hm_insert k v m))) + (case hm_get m k of None \<Rightarrow> {#} | Some old \<Rightarrow> mset (g (k, old)))
     = mset (concat (map g m)) + mset (g (k, v))"
  by (induction m) (auto simp: hm_insert_def split: option.splits)

lemma map_filter_append: "List.map_filter g (xs @ ys) = List.map_filter g xs @ List.map_filter g ys"
  by (simp add: List.map_filter_def)

lemma week_entries_append:
  "week_entries env service (w, xs @ ys) = week_entries env service (w, xs) @ week_entries env service (w, ys)"
  by (simp add: week_entries_def map_filter_append split: option.split)

lemma week_entries_Nil: "week_entries env service (w, []) = []"
  by (simp add: week_entries_def List.map_filter_simps split: option.split)

text \<open>Rewriting a week with more rows.\<close>

lemma log_content_put:
  "log_content env (put_file (dir, w) (week_rows st (dir, w) @ new) st) service =
     log_content env st service
       + (if safe_service_path service = dir then mset (map sl_line (week_entries env service (w, new))) else {#})"
proof (cases "safe_service_path service = dir")
  case True
  let ?fs = "files_of st dir" and ?rows = "week_rows st (dir, w)"
  have "mset (concat (map (week_entries env service) (hm_insert w (?rows @ new) ?fs)))
      = mset (concat (map (week_entries env service) ?fs)) + mset (week_entries env service (w, new))"
    using concat_hm_insert [of "week_entries env service" w "?rows @ new" ?fs]
    by (auto simp: week_rows_def week_entries_append week_entries_Nil split: option.splits)
  then have "image_mset sl_line (mset (concat (map (week_entries env service) (hm_insert w (?rows @ new) ?fs))))
      = image_mset sl_line (mset (concat (map (week_entries env service) ?fs)) + mset (week_entries env service (w, new)))"
    by simp
  then show ?thesis by (simp add: log_content_def service_log_def True)
qed (simp add: log_content_def service_log_def)

lemma store_wf_put:
  assumes "store_wf env st" "\<And>s. week_start_ms env w = Some s \<Longrightarrow>
    (\<exists>ts. dated ts \<and> week_name env ts = Some w) \<and> wf_week s rows"
  shows "store_wf env (put_file (dir, w) rows st)"
proof -
  have "files_wf env (hm_insert w rows (files_of st dir))"
  proof -
    have fs: "files_wf env (files_of st dir)" using assms(1) by (simp add: store_wf_def)
    then have wf: "hm_wf (files_of st dir)" by (simp add: files_wf_def)
    show ?thesis
      unfolding files_wf_def set_hm_insert [OF wf]
      using fs assms(2) wf by (auto simp: files_wf_def)
  qed
  then show ?thesis using assms(1) by (simp add: store_wf_def)
qed

lemma next_row_id_fresh: "r \<in> set rows \<Longrightarrow> lr_id r < next_row_id rows"
proof -
  assume "r \<in> set rows"
  then have "lr_id r \<le> fold max (map lr_id rows) 0"
    by (metis List.finite_set Max_ge Max.set_eq_fold image_eqI insertCI list.set(2) list.set_map)
  then show ?thesis by (simp add: next_row_id_def)
qed

lemma decode_row_of_line:
  assumes "dated (ll_ts line)"
  shows "decode_row service w s (row_of_line s line rid)
    = Some \<lparr>sl_ts = ll_ts line, sl_week = w, sl_id = rid, sl_line = as_stored service line\<rparr>"
proof -
  have "in_i64 (ll_ts line)" using assms by (auto simp: dated_def)
  then have "i64_wrap (i64_wrap (ll_ts line - s) + s) = ll_ts line"
    by (simp add: i64_wrap_def in_i64_def i64_min_def i64_max_def mod_simps algebra_simps)
  moreover have "Option.bind (map_option level_code l) level_from_code = l" for l
    by (cases l) (simp_all add: level_code_roundtrip)
  ultimately show ?thesis
    by (simp add: decode_row_def row_of_line_def stream_code_roundtrip as_stored_def Let_def)
qed

lemma insert_log_rows_ok:
  assumes "wf_week s rows" "\<forall>line \<in> set lines. dated (ll_ts line) \<and> s \<le> ll_ts line \<and> ll_ts line < s + week_ms"
    and "week_start_ms env w = Some s"
  shows "\<exists>new. insert_log_rows s lines rows = rows @ new \<and> wf_week s (rows @ new)
    \<and> map sl_line (week_entries env service (w, new)) = map (as_stored service) lines"
  using assms(1,2)
proof (induction lines arbitrary: rows)
  case Nil
  then show ?case by (intro exI [of _ "[]"]) (simp add: week_entries_Nil)
next
  case (Cons line lines)
  let ?row = "row_of_line s line (next_row_id rows)"
  have line: "dated (ll_ts line)" "s \<le> ll_ts line" "ll_ts line < s + week_ms" using Cons.prems(2) by auto
  then have "in_i64 (ll_ts line - s)" by (auto simp: dated_def week_ms_def)
  then have "wf_week s (rows @ [?row])"
    using Cons.prems(1) line next_row_id_fresh [of _ rows]
    by (fastforce simp: wf_week_def row_of_line_def i64_wrap_id stream_code_roundtrip)
  from Cons.IH [OF this] Cons.prems(2) obtain new where
    new: "insert_log_rows s lines (rows @ [?row]) = (rows @ [?row]) @ new" "wf_week s ((rows @ [?row]) @ new)"
      "map sl_line (week_entries env service (w, new)) = map (as_stored service) lines" by auto
  have "map sl_line (week_entries env service (w, [?row] @ new)) = map (as_stored service) (line # lines)"
    unfolding week_entries_append using new(3) decode_row_of_line [OF line(1), of service w s "next_row_id rows"]
    by (simp add: week_entries_def assms(3) List.map_filter_simps)
  with new(1,2) show ?case by (intro exI [of _ "?row # new"]) simp
qed

lemma ls_next_files: "ls_next st = (f, st1) \<Longrightarrow> files_of st1 = files_of st"
  by (rule files_of_cong) (rule ls_next_dirs)

lemma get_pool_files:
  assumes "get_pool (dir, w) service w st = (st1, r)"
  shows "files_of st1 = files_of st \<or>
    (hm_get (files_of st dir) w = None \<and> files_of st1 = files_of (put_file (dir, w) [] st))"
proof -
  have pools: "files_of (s\<lparr>ls_pools := p\<rparr>) = files_of s" for s p by (simp add: files_of_def fun_eq_iff)
  have opened: "files_of s1 = files_of s \<or>
      (hm_get (files_of s dir) w = None \<and> files_of s1 = files_of (put_file (dir, w) [] s))"
    if "open_database (dir, w) s = (s1, r')" for s s1 r'
    using that
    by (auto simp: open_database_def Let_def dest!: ls_next_files split: prod.splits option.splits if_splits)
  show ?thesis
    using assms
    by (auto simp: get_pool_def Let_def pools dest!: opened split: if_splits prod.splits sum.splits option.splits)
qed

lemma week_rows_cong: "files_of st1 = files_of st \<Longrightarrow> week_rows st1 p = week_rows st p"
  by (simp add: week_rows_def)

text \<open>Opening a week changes neither its rows nor what a service reads.\<close>

lemma get_pool_content:
  assumes "get_pool (dir, w) service w st = (st1, r)" "store_wf env st" "dated ts" "week_name env ts = Some w"
  shows "week_rows st1 (dir, w) = week_rows st (dir, w)" "log_content env st1 = log_content env st"
    "store_wf env st1"
proof -
  from get_pool_files [OF assms(1)] have
    "week_rows st1 (dir, w) = week_rows st (dir, w) \<and> log_content env st1 = log_content env st \<and> store_wf env st1"
  proof
    assume f: "files_of st1 = files_of st"
    show ?thesis using assms(2) log_content_cong [OF f] store_wf_cong [OF f] week_rows_cong [OF f] by simp
  next
    assume f: "hm_get (files_of st dir) w = None \<and> files_of st1 = files_of (put_file (dir, w) [] st)"
    let ?p = "put_file (dir, w) [] st"
    have none: "week_rows st (dir, w) = []" using f by (simp add: week_rows_def)
    have "log_content env ?p s = log_content env st s" for s
      using log_content_put [of env dir w st "[]" s] by (simp add: none week_entries_Nil)
    then have "log_content env ?p = log_content env st" by (rule ext)
    moreover have "store_wf env ?p"
      using assms(2-4) by (intro store_wf_put) (auto simp: wf_week_def)
    moreover have "week_rows ?p (dir, w) = []" by (simp add: week_rows_def)
    moreover have "files_of st1 = files_of ?p" using f by blast
    ultimately show ?thesis
      unfolding none using log_content_cong [of st1 ?p] store_wf_cong [of st1 ?p] week_rows_cong [of st1 ?p]
      by metis
  qed
  then show "week_rows st1 (dir, w) = week_rows st (dir, w)" "log_content env st1 = log_content env st"
    "store_wf env st1" by simp_all
qed

lemma insert_log_rows_append:
  "insert_log_rows s (xs @ ys) rows = insert_log_rows s ys (insert_log_rows s xs rows)"
  by (induction xs arbitrary: rows) simp_all

lemma insert_log_chunks_files:
  "insert_log_chunks s cs rows st = (st1, r) \<Longrightarrow>
     files_of st1 = files_of st \<and> (\<forall>rows'. r = Inr rows' \<longrightarrow> rows' = insert_log_rows s (concat cs) rows)"
  by (induction cs arbitrary: rows st)
    (auto simp: insert_log_rows_append dest!: ls_next_files split: prod.splits option.splits)

text \<open>The lines of one week and what appending them leaves, whatever fails on the way.\<close>

definition week_lines :: "log_env \<Rightarrow> string \<times> log_line list \<Rightarrow> bool" where
  "week_lines env = (\<lambda>(w, lines). lines \<noteq> [] \<and>
     (\<forall>line \<in> set lines. dated (ll_ts line) \<and> week_name env (ll_ts line) = Some w))"

definition appended ::
  "log_env \<Rightarrow> string \<Rightarrow> log_line list \<Rightarrow> log_store \<Rightarrow> log_store \<times> unit app_result option \<Rightarrow> bool" where
  "appended env service lines st = (\<lambda>(st', res). store_wf env st' \<and> res \<noteq> None \<and>
     (\<forall>s. log_content env st s \<subseteq># log_content env st' s) \<and>
     (res = Some (Inr ()) \<longrightarrow> log_content env st' service =
        log_content env st service + mset (map (as_stored service) lines)))"

lemma append_week_ok:
  assumes "iso_calendar env" "store_wf env st" "week_lines env (w, lines)"
  shows "appended env service lines st (append_week env (safe_service_path service) service w lines st)"
proof -
  let ?dir = "safe_service_path service"
  obtain ts where ts: "dated ts" "week_name env ts = Some w"
    using assms(3) by (cases lines) (auto simp: week_lines_def)
  obtain s where s: "week_start_ms env w = Some s" using week_name_start [OF assms(1) ts] by blast
  have lines: "\<forall>line \<in> set lines. dated (ll_ts line) \<and> s \<le> ll_ts line \<and> ll_ts line < s + week_ms"
    using assms(3) week_name_start [OF assms(1)] s by (fastforce simp: week_lines_def)
  obtain st1 r1 where p: "get_pool (?dir, w) service w (lock_path (?dir, w) st) = (st1, r1)" by fastforce
  have wf0: "store_wf env (lock_path (?dir, w) st)" using assms(2) by (simp add: store_wf_def)
  have c0: "log_content env (lock_path (?dir, w) st) = log_content env st" by (rule log_content_cong) simp
  note open_week = get_pool_content [OF p wf0 ts]
  have failed: "appended env service lines st (st', Some (Inl e))" if "files_of st' = files_of st1" for st' e
    using open_week(2,3) log_content_cong [OF that] store_wf_cong [OF that] c0 by (simp add: appended_def)
  obtain f1 st2 where n1: "ls_next st1 = (f1, st2)" by fastforce
  obtain st3 r2 where ins: "insert_log_chunks s (chunks insert_log_chunk_rows lines) (week_rows st2 (?dir, w)) st2
      = (st3, r2)" by fastforce
  obtain f2 st4 where n2: "ls_next st3 = (f2, st4)" by fastforce
  have f2: "files_of st2 = files_of st1" using ls_next_files [OF n1] .
  have f3: "files_of st3 = files_of st1" using insert_log_chunks_files [OF ins] f2 by simp
  have f4: "files_of st4 = files_of st1" using ls_next_files [OF n2] f3 by simp
  have finished: "appended env service lines st (put_file (?dir, w) rows st4, Some (Inr ()))" if "r2 = Inr rows" for rows
  proof -
    have old: "wf_week s (week_rows st1 (?dir, w))"
    proof (cases "hm_get (files_of st1 ?dir) w")
      case None
      then show ?thesis by (simp add: week_rows_def wf_week_def)
    next
      case (Some rs)
      have "files_wf env (files_of st1 ?dir)" using open_week(3) by (simp add: store_wf_def)
      moreover from this have "(w, rs) \<in> set (files_of st1 ?dir)" using Some by (auto dest: map_of_SomeD)
      ultimately have "wf_week s rs" using s by (auto simp: files_wf_def)
      with Some show ?thesis by (simp add: week_rows_def)
    qed
    have "rows = insert_log_rows s lines (week_rows st1 (?dir, w))"
      using insert_log_chunks_files [OF ins] that
      by (simp add: concat_chunks insert_log_chunk_rows_def week_rows_cong [OF f2])
    with insert_log_rows_ok [OF old lines s, of service] obtain new where
      new: "rows = week_rows st4 (?dir, w) @ new" "wf_week s rows"
        "map sl_line (week_entries env service (w, new)) = map (as_stored service) lines"
      by (auto simp: week_rows_cong [OF f4])
    have "store_wf env (put_file (?dir, w) rows st4)"
      using open_week(3) store_wf_cong [OF f4] ts s new(2) by (intro store_wf_put) auto
    moreover have "log_content env (put_file (?dir, w) rows st4) svc = log_content env st svc
        + (if safe_service_path svc = ?dir then mset (map sl_line (week_entries env svc (w, new))) else {#})" for svc
      unfolding new(1) log_content_put using open_week(2) log_content_cong [OF f4] c0 by simp
    ultimately show ?thesis using new(3) by (auto simp: appended_def)
  qed
  show ?thesis
    using failed f2 f3 f4 finished
    by (simp add: append_week_def s p n1 ins n2 split: sum.split option.split)
qed

lemma append_weeks_ok:
  assumes "iso_calendar env" "store_wf env st" "\<forall>p \<in> set weeks. week_lines env p"
  shows "appended env service (concat (map snd weeks)) st
    (append_weeks env (safe_service_path service) service weeks st)"
  using assms(2,3)
proof (induction weeks arbitrary: st)
  case Nil
  then show ?case by (simp add: appended_def)
next
  case (Cons p weeks)
  obtain w lines where p: "p = (w, lines)" by fastforce
  obtain st1 res where a: "append_week env (safe_service_path service) service w lines st = (st1, res)" by fastforce
  have first: "appended env service lines st (st1, res)"
    using append_week_ok [OF assms(1) Cons.prems(1), of w lines service] Cons.prems(2) a by (simp add: p)
  show ?case
  proof (cases "res = Some (Inr ())")
    case True
    from first have "store_wf env st1" by (simp add: appended_def)
    from Cons.IH [OF this] Cons.prems(2) have
      rest: "appended env service (concat (map snd weeks)) st1
        (append_weeks env (safe_service_path service) service weeks st1)" by simp
    show ?thesis
      using first rest True
      by (auto simp: appended_def p a ac_simps intro: subset_mset.order_trans)
  next
    case False
    then obtain e where "res = Some (Inl e)" using first by (cases res) (auto simp: appended_def elim: sumE)
    with first show ?thesis by (simp add: appended_def p a)
  qed
qed

lemma group_by_week_ok:
  assumes "\<forall>line \<in> set lines. dated (ll_ts line)"
  shows "hm_wf (group_by_week env lines) \<and> (\<forall>p \<in> set (group_by_week env lines). week_lines env p)
    \<and> mset (concat (map snd (group_by_week env lines)))
        = mset (filter (\<lambda>l. week_name env (ll_ts l) \<noteq> None) lines)"
  using assms
proof (induction lines rule: rev_induct)
  case Nil
  then show ?case by (simp add: group_by_week_def)
next
  case (snoc line lines)
  define m where "m = group_by_week env lines"
  have IH: "hm_wf m" "\<forall>p \<in> set m. week_lines env p"
    "mset (concat (map snd m)) = mset (filter (\<lambda>l. week_name env (ll_ts l) \<noteq> None) lines)"
    using snoc by (simp_all add: m_def)
  show ?case
  proof (cases "week_name env (ll_ts line)")
    case None
    then have "group_by_week env (lines @ [line]) = m"
      by (simp add: group_by_week_def m_def week_name_def)
    with IH None show ?thesis by simp
  next
    case (Some w)
    define old where "old = (case hm_get m w of None \<Rightarrow> [] | Some ls \<Rightarrow> ls)"
    have g: "group_by_week env (lines @ [line]) = hm_insert w (old @ [line]) m"
      using Some by (simp add: group_by_week_def m_def week_name_def hm_entry_def old_def)
    have "\<forall>l \<in> set old. dated (ll_ts l) \<and> week_name env (ll_ts l) = Some w"
    proof (cases "hm_get m w")
      case (Some ls)
      then have "week_lines env (w, ls)" using IH(2) by (auto dest: map_of_SomeD)
      then show ?thesis by (simp add: old_def Some week_lines_def)
    qed (simp add: old_def)
    then have "week_lines env (w, old @ [line])"
      using snoc.prems Some by (auto simp: week_lines_def)
    moreover have "mset (concat (map snd (hm_insert w (old @ [line]) m)))
        = mset (concat (map snd m)) + {#line#}"
      using concat_hm_insert [of snd w "old @ [line]" m]
      by (auto simp: old_def split: option.splits)
    ultimately show ?thesis using IH Some unfolding g by (simp add: set_hm_insert)
  qed
qed

text \<open>The law of an append, in full.\<close>

lemma logs_append_law:
  assumes "iso_calendar env" "store_wf env st" "\<forall>xs. mset (iter xs) = mset xs"
    and "\<forall>line \<in> set lines. dated (ll_ts line)"
  shows "appended env service (filter (\<lambda>l. week_name env (ll_ts l) \<noteq> None) lines) st
    (logs_append env iter service lines st)"
proof -
  define weeks where "weeks = group_by_week env lines"
  note g = group_by_week_ok [OF assms(4), of env, folded weeks_def]
  obtain f st1 where n: "ls_next st = (f, st1)" by fastforce
  show ?thesis
  proof (cases "weeks = []")
    case True
    then show ?thesis using g assms(2) by (simp add: logs_append_def weeks_def [symmetric] appended_def)
  next
    case False
    let ?dir = "safe_service_path service"
    let ?st2 = "st1\<lparr>ls_dirs := hm_insert ?dir (files_of st1 ?dir) (ls_dirs st1)\<rparr>"
    have f1: "files_of st1 = files_of st" by (rule ls_next_files) (rule n)
    have f2: "files_of ?st2 = files_of st" using f1 by (simp add: files_of_def fun_eq_iff)
    have perm: "mset (iter weeks) = mset weeks" using assms(3) by blast
    have wf2: "store_wf env ?st2" using assms(2) store_wf_cong [OF f2] by simp
    have proper: "\<forall>p \<in> set (iter weeks). week_lines env p" using g mset_eq_setD [OF perm] by simp
    have all: "mset (concat (map snd (iter weeks))) = mset (filter (\<lambda>l. week_name env (ll_ts l) \<noteq> None) lines)"
      using g perm by (metis mset_concat_map)
    note a = append_weeks_ok [OF assms(1) wf2 proper, of service]
    have "image_mset (as_stored service) (mset (concat (map snd (iter weeks))))
        = image_mset (as_stored service) (mset (filter (\<lambda>l. week_name env (ll_ts l) \<noteq> None) lines))"
      by (simp only: all)
    then show ?thesis
      using a False assms(2) store_wf_cong [OF f1] log_content_cong [OF f1] log_content_cong [OF f2] n
      by (auto simp: logs_append_def weeks_def [symmetric] appended_def Let_def split: option.split)
  qed
qed

text \<open>Without an I/O error an append succeeds.\<close>

lemma get_pool_succeeds:
  "ls_faults st = [] \<Longrightarrow> \<exists>st1. get_pool p service week st = (st1, Inr ()) \<and> ls_faults st1 = []"
  by (simp add: get_pool_def open_database_def Let_def ls_next_def put_file_def)

lemma insert_log_chunks_succeeds:
  "ls_faults st = [] \<Longrightarrow> insert_log_chunks s cs rows st = (st, Inr (insert_log_rows s (concat cs) rows))"
  by (induction cs arbitrary: rows) (simp_all add: insert_log_rows_append)

lemma append_weeks_succeeds:
  assumes "ls_faults st = []" "\<forall>(w, _) \<in> set weeks. week_start_ms env w \<noteq> None"
  shows "\<exists>st'. append_weeks env dir service weeks st = (st', Some (Inr ()))"
  using assms
proof (induction weeks arbitrary: st)
  case (Cons p weeks)
  obtain w lines where p: "p = (w, lines)" by fastforce
  obtain s where s: "week_start_ms env w = Some s" using Cons.prems(2) p by auto
  obtain st1 where st1: "get_pool (dir, w) service w (lock_path (dir, w) st) = (st1, Inr ())" "ls_faults st1 = []"
    using get_pool_succeeds [of "lock_path (dir, w) st" "(dir, w)" service w] Cons.prems(1) by auto
  have "ls_faults (put_file q rows st1) = []" for q rows using st1(2) by (simp add: put_file_def)
  then show ?case
    using Cons.IH Cons.prems(2) st1 by (simp add: p append_week_def s insert_log_chunks_succeeds)
qed simp

lemma logs_append_succeeds:
  assumes "iso_calendar env" "\<forall>xs. mset (iter xs) = mset xs" "\<forall>line \<in> set lines. dated (ll_ts line)"
    and "ls_faults st = []"
  shows "\<exists>st'. logs_append env iter service lines st = (st', Some (Inr ()))"
proof -
  have "week_start_ms env w \<noteq> None" if "(w, ls) \<in> set (iter (group_by_week env lines))" for w ls
  proof -
    have "(w, ls) \<in> set (group_by_week env lines)" using that assms(2) by (metis mset_eq_setD)
    then have "week_lines env (w, ls)" using group_by_week_ok [OF assms(3)] by blast
    then obtain ts where "dated ts" "week_name env ts = Some w" by (cases ls) (auto simp: week_lines_def)
    from week_name_start [OF assms(1) this] show ?thesis by auto
  qed
  then have ok: "\<forall>(w, _) \<in> set (iter (group_by_week env lines)). week_start_ms env w \<noteq> None" by auto
  have "ls_faults (st\<lparr>ls_dirs := d\<rparr>) = []" for d using assms(4) by simp
  from append_weeks_succeeds [OF this ok] assms(4) show ?thesis by (simp add: logs_append_def Let_def)
qed

text \<open>
  C9. Appending is all or nothing for what a service reads: an append that reports success adds
  exactly its lines, each with the level its text shows, and one that fails at any statement loses
  nothing that was stored; a line comes back under its own time stamp, container, stream and text.
  Without an I/O error the append succeeds.
\<close>

theorem logs_append_stores:
  assumes "iso_calendar env" "store_wf env st" "\<forall>xs. mset (iter xs) = mset xs"
    and "\<forall>line \<in> set lines. dated (ll_ts line)"
    and "logs_append env iter service lines st = (st', res)"
  shows "store_wf env st' \<and> res \<noteq> None \<and> (\<forall>s. log_content env st s \<subseteq># log_content env st' s) \<and>
    (res = Some (Inr ()) \<longrightarrow> log_content env st' service = log_content env st service
       + mset (map (as_stored service) (filter (\<lambda>l. week_name env (ll_ts l) \<noteq> None) lines))) \<and>
    (ls_faults st = [] \<longrightarrow> res = Some (Inr ()))"
  using logs_append_law [OF assms(1-4), of service] logs_append_succeeds [OF assms(1,3,4), of st service]
    assms(5) by (auto simp: appended_def)

definition hello_line :: "i64 \<Rightarrow> log_line" where
  "hello_line ts = \<lparr>ll_ts = ts, ll_service = ''web'', ll_cid = ContainerId 1 2 3 4 5 6, ll_stream = Stdout,
     ll_level = None, ll_line = ''hello''\<rparr>"

theorem logs_append_stores_witness:
  "let r = logs_append week_one_env id ''web'' [hello_line 7000] week_one_store in
    store_wf week_one_env (fst r) \<and> snd r \<noteq> None \<and>
    (\<forall>s. log_content week_one_env week_one_store s \<subseteq># log_content week_one_env (fst r) s) \<and>
    log_content week_one_env (fst r) ''web'' = log_content week_one_env week_one_store ''web''
       + mset (map (as_stored ''web'') (filter (\<lambda>l. week_name week_one_env (ll_ts l) \<noteq> None) [hello_line 7000]))"
proof -
  obtain st' res where r: "logs_append week_one_env id ''web'' [hello_line 7000] week_one_store = (st', res)"
    by fastforce
  have "\<forall>line \<in> set [hello_line 7000]. dated (ll_ts line)" by (simp add: hello_line_def dated_def)
  moreover have "ls_faults week_one_store = []" by (simp add: week_one_store_def log_store_new_def)
  ultimately show ?thesis
    using logs_append_stores [OF week_one_calendar week_one_wf _ _ r] by (simp add: r Let_def)
qed

section \<open>The interface of the store\<close>

text \<open>
  What a client relies on: an append that succeeds adds the lines that can be stored, one that
  fails takes nothing away.
\<close>

locale log_sink =
  fixes append_lines :: "string \<Rightarrow> log_line list \<Rightarrow> 'ls \<Rightarrow> 'ls \<times> unit app_result option"
    and ok :: "'ls \<Rightarrow> bool"
    and content :: "'ls \<Rightarrow> string \<Rightarrow> log_line multiset"
    and storable :: "log_line \<Rightarrow> bool"
    and canon :: "string \<Rightarrow> log_line \<Rightarrow> log_line"
  assumes append_law: "ok st \<Longrightarrow> \<forall>l \<in> set lines. dated (ll_ts l) \<Longrightarrow>
      append_lines service lines st = (st', res) \<Longrightarrow>
      ok st' \<and> res \<noteq> None \<and> (\<forall>s. content st s \<subseteq># content st' s) \<and>
      (res = Some (Inr ()) \<longrightarrow>
        content st' service = content st service + image_mset (canon service) (mset (filter storable lines)))"

interpretation sqlite_logs: log_sink "logs_append env iter"
  "\<lambda>st. iso_calendar env \<and> (\<forall>xs. mset (iter xs) = mset xs) \<and> store_wf env st"
  "log_content env" "\<lambda>l. week_name env (ll_ts l) \<noteq> None" as_stored for env iter
proof
  fix st lines service st' res
  assume "iso_calendar env \<and> (\<forall>xs. mset (iter xs) = mset xs) \<and> store_wf env st"
    "\<forall>l \<in> set lines. dated (ll_ts l)" "logs_append env iter service lines st = (st', res)"
  then show "(iso_calendar env \<and> (\<forall>xs. mset (iter xs) = mset xs) \<and> store_wf env st') \<and> res \<noteq> None
    \<and> (\<forall>s. log_content env st s \<subseteq># log_content env st' s) \<and>
    (res = Some (Inr ()) \<longrightarrow> log_content env st' service = log_content env st service
      + image_mset (as_stored service) (mset (filter (\<lambda>l. week_name env (ll_ts l) \<noteq> None) lines)))"
    using logs_append_law [of env st iter lines service] by (simp add: appended_def)
qed

section \<open>Retention\<close>

lemma delete_files_ok:
  assumes "delete_files env cutoff dir names removed st = (st', Inr removed')" "distinct names"
  shows "files_of st' = (files_of st)(dir := filter (\<lambda>(w, _). w \<notin> set names \<or> \<not> expired_file env cutoff w) (files_of st dir))
    \<and> removed' = removed @ map (\<lambda>w. dir @ ''/'' @ w) (filter (expired_file env cutoff) names)"
  using assms
proof (induction names arbitrary: removed st)
  case Nil
  then show ?case by (simp add: filter_True fun_upd_idem)
next
  case (Cons name names)
  show ?case
  proof (cases "expired_file env cutoff name")
    case False
    have "filter (\<lambda>(w, _). w \<notin> set (name # names) \<or> \<not> expired_file env cutoff w) (files_of st dir)
        = filter (\<lambda>(w, _). w \<notin> set names \<or> \<not> expired_file env cutoff w) (files_of st dir)"
      using False by (intro filter_cong) auto
    with Cons False show ?thesis by simp
  next
    case True
    let ?st1 = "evict (dir, name) (lock_path (dir, name) st)"
    obtain st2 where n: "ls_next ?st1 = (None, st2)"
      and r: "delete_files env cutoff dir names (removed @ [dir @ ''/'' @ name])
        (forget_path (dir, name) (remove_file (dir, name) st2)) = (st', Inr removed')"
      using Cons.prems(1) True by (auto simp: Let_def split: prod.splits option.splits)
    have f2: "files_of st2 = files_of st"
      using ls_next_files [OF n] by (simp add: evict_def files_of_def fun_eq_iff)
    have f3: "files_of (forget_path (dir, name) (remove_file (dir, name) st2))
        = (files_of st)(dir := hm_remove name (files_of st dir))"
    proof -
      have "files_of (forget_path p s) = files_of s" for p s
        by (simp add: forget_path_def files_of_def fun_eq_iff)
      then show ?thesis by (simp add: f2)
    qed
    have "filter P (hm_remove name fs) = filter (\<lambda>p. P p \<and> fst p \<noteq> name) fs" for P and fs :: week_files
      unfolding hm_remove_def AList.delete_eq filter_filter by (intro filter_cong) auto
    moreover have "filter (\<lambda>p. (case p of (w, _) \<Rightarrow> w \<notin> set names \<or> \<not> expired_file env cutoff w) \<and> fst p \<noteq> name) (files_of st dir)
        = filter (\<lambda>(w, _). w \<notin> set (name # names) \<or> \<not> expired_file env cutoff w) (files_of st dir)"
      using True Cons.prems(2) by (intro filter_cong) auto
    ultimately show ?thesis using Cons.IH [OF r] Cons.prems(2) True
      by (simp add: f3) (auto simp: fun_eq_iff)
  qed
qed

lemma delete_dirs_ok:
  assumes "delete_dirs env cutoff dirs removed st = (st', Inr removed')" "distinct dirs"
    and "\<forall>dir. hm_wf (files_of st dir)"
  shows "files_of st' = (\<lambda>dir. if dir \<in> set dirs
      then filter (\<lambda>(w, _). \<not> expired_file env cutoff w) (files_of st dir) else files_of st dir)
    \<and> removed' = removed @ concat (map (\<lambda>dir. map (\<lambda>w. dir @ ''/'' @ w)
        (filter (expired_file env cutoff) (map fst (files_of st dir)))) dirs)"
  using assms
proof (induction dirs arbitrary: removed st)
  case (Cons dir dirs)
  obtain st1 st2 removed2 where n: "ls_next st = (None, st1)"
    and d: "delete_files env cutoff dir (map fst (files_of st1 dir)) removed st1 = (st2, Inr removed2)"
    and r: "delete_dirs env cutoff dirs removed2 st2 = (st', Inr removed')"
    using Cons.prems(1) by (auto split: prod.splits option.splits sum.splits)
  have f1: "files_of st1 = files_of st" by (rule ls_next_files) (rule n)
  have "distinct (map fst (files_of st1 dir))" using Cons.prems(3) by (simp add: f1 hm_wf_def)
  note df = delete_files_ok [OF d this]
  have "filter (\<lambda>(w, _). w \<notin> set (map fst (files_of st1 dir)) \<or> \<not> expired_file env cutoff w) (files_of st1 dir)
      = filter (\<lambda>(w, _). \<not> expired_file env cutoff w) (files_of st dir)"
    unfolding f1 by (intro filter_cong) force+
  then have f2: "files_of st2 = (files_of st)(dir := filter (\<lambda>(w, _). \<not> expired_file env cutoff w) (files_of st dir))"
    using df f1 by simp
  have wf2: "\<forall>d. hm_wf (files_of st2 d)" using Cons.prems(3) by (simp add: f2)
  have other: "files_of st2 d = files_of st d" if "d \<in> set dirs" for d
    using that Cons.prems(2) by (auto simp: f2)
  have names: "map (\<lambda>d. map (\<lambda>w. d @ ''/'' @ w) (filter (expired_file env cutoff) (map fst (files_of st2 d)))) dirs
      = map (\<lambda>d. map (\<lambda>w. d @ ''/'' @ w) (filter (expired_file env cutoff) (map fst (files_of st d)))) dirs"
    using other by (intro map_cong) simp_all
  have "removed' = removed2 @ concat (map (\<lambda>d. map (\<lambda>w. d @ ''/'' @ w)
        (filter (expired_file env cutoff) (map fst (files_of st d)))) dirs)"
    using Cons.IH [OF r _ wf2] Cons.prems(2) unfolding names by simp
  moreover have "removed2 = removed @ map (\<lambda>w. dir @ ''/'' @ w)
        (filter (expired_file env cutoff) (map fst (files_of st dir)))"
    using df unfolding f1 by blast
  moreover have "files_of st' = (\<lambda>d. if d \<in> set (dir # dirs)
      then filter (\<lambda>(w, _). \<not> expired_file env cutoff w) (files_of st d) else files_of st d)"
    using Cons.IH [OF r _ wf2] Cons.prems(2) by (auto simp: f2 fun_eq_iff)
  ultimately show ?case by simp
qed simp

lemma expired_iff:
  "week_start_ms env w = Some s \<Longrightarrow> expired_file env cutoff w \<longleftrightarrow> s < cutoff"
  by (auto simp: expired_file_def has_db_extension_def week_start_ms_def database_week_start_ms_def
      strip_suffix_def split_once_def split: if_splits option.splits)

text \<open>
  A retention pass that succeeds removes from every service exactly the weeks that start before
  the cutoff, lists their files in order, and leaves the rest of the store as it was.
\<close>

theorem logs_delete_before_exact:
  assumes "logs_delete_before env cutoff st = (st', Inr removed)" "store_wf env st" "hm_wf (ls_dirs st)"
    and "safe_service_path service \<noteq> []"
  shows "service_log env st' service =
      filter (\<lambda>e. cutoff \<le> the (week_start_ms env (sl_week e))) (service_log env st service) \<and>
    sorted removed \<and>
    set removed = {dir @ ''/'' @ w | dir w. dir \<noteq> [] \<and> w \<in> fst ` set (files_of st dir) \<and> expired_file env cutoff w}"
proof -
  let ?dir = "safe_service_path service"
  obtain st1 removed1 where n: "ls_next st = (None, st1)"
    and d: "delete_dirs env cutoff (service_dirs st1) [] st1 = (st', Inr removed1)" "removed = sort removed1"
    using assms(1) by (auto simp: logs_delete_before_def split: prod.splits option.splits sum.splits)
  have dirs: "ls_dirs st1 = ls_dirs st" by (rule ls_next_dirs) (rule n)
  then have f1: "files_of st1 = files_of st" by (rule files_of_cong)
  have "distinct (service_dirs st1)" using assms(3) by (simp add: service_dirs_def dirs hm_wf_def)
  moreover have "\<forall>dir. hm_wf (files_of st1 dir)" using assms(2) by (simp add: f1 store_wf_def files_wf_def)
  ultimately have ok: "files_of st' = (\<lambda>dir. if dir \<in> set (service_dirs st1)
      then filter (\<lambda>(w, _). \<not> expired_file env cutoff w) (files_of st dir) else files_of st dir)"
    "removed1 = concat (map (\<lambda>dir. map (\<lambda>w. dir @ ''/'' @ w)
        (filter (expired_file env cutoff) (map fst (files_of st dir)))) (service_dirs st1))"
    using delete_dirs_ok [OF d(1)] unfolding f1 by simp_all
  have known: "dir \<in> set (service_dirs st1) \<or> files_of st dir = []" if "dir \<noteq> []" for dir
  proof (cases "hm_get (ls_dirs st) dir")
    case (Some fs)
    then have "dir \<in> fst ` set (ls_dirs st)" by (force dest: map_of_SomeD)
    with that show ?thesis by (simp add: service_dirs_def dirs)
  qed (simp add: files_of_def)
  have "files_of st' ?dir = filter (\<lambda>(w, _). \<not> expired_file env cutoff w) (files_of st ?dir)"
    using ok(1) known [OF assms(4)] by auto
  then have "service_log env st' service =
      concat (map (week_entries env service) (filter (\<lambda>(w, _). \<not> expired_file env cutoff w) (files_of st ?dir)))"
    by (simp add: service_log_def)
  also have "\<dots> = filter (\<lambda>e. cutoff \<le> the (week_start_ms env (sl_week e))) (service_log env st service)"
  proof -
    have week: "sl_week e = w" if "e \<in> set (week_entries env service (w, rows))" for e w rows
      using that by (auto simp: week_entries_def decode_row_def List.map_filter_def Let_def
          split: option.splits)
    have "filter (\<lambda>e. cutoff \<le> the (week_start_ms env (sl_week e))) (week_entries env service p)
        = (if expired_file env cutoff (fst p) then [] else week_entries env service p)" for p
    proof (cases "week_start_ms env (fst p)")
      case None
      then show ?thesis by (cases p) (simp add: week_entries_def)
    next
      case (Some s)
      have "week_start_ms env (sl_week e) = Some s" if "e \<in> set (week_entries env service p)" for e
        using week [of e "fst p" "snd p"] that Some by simp
      then show ?thesis
        using expired_iff [OF Some, of cutoff] by (auto simp: filter_empty_conv filter_id_conv)
    qed
    then have "concat (map (week_entries env service) (filter (\<lambda>(w, _). \<not> expired_file env cutoff w) fs))
        = filter (\<lambda>e. cutoff \<le> the (week_start_ms env (sl_week e))) (concat (map (week_entries env service) fs))"
      for fs by (induction fs) auto
    then show ?thesis by (simp add: service_log_def)
  qed
  finally have "service_log env st' service =
      filter (\<lambda>e. cutoff \<le> the (week_start_ms env (sl_week e))) (service_log env st service)" .
  moreover have "set removed = {dir @ ''/'' @ w | dir w. dir \<noteq> [] \<and> w \<in> fst ` set (files_of st dir) \<and> expired_file env cutoff w}"
  proof -
    have "(dir \<in> set (service_dirs st1) \<and> w \<in> fst ` set (files_of st dir))
        = (dir \<noteq> [] \<and> w \<in> fst ` set (files_of st dir))" for dir w
      using known [of dir] by (auto simp: service_dirs_def)
    then show ?thesis unfolding d(2) ok(2) by auto (metis (no_types, lifting) fst_conv image_eqI)+
  qed
  ultimately show ?thesis using d(2) by simp
qed

text \<open>The pass over a store with an expired week and a younger one, and its witness.\<close>

theorem logs_delete_before_exact_witness:
  "let r = logs_delete_before week_one_env 0 week_one_store in
    service_log week_one_env (fst r) ''web'' =
      filter (\<lambda>e. 0 \<le> the (week_start_ms week_one_env (sl_week e))) (service_log week_one_env week_one_store ''web'') \<and>
    (\<exists>removed. snd r = Inr removed \<and> ''web/1970_w01.db'' \<in> set removed)"
proof -
  have path: "safe_service_path ''web'' = ''web''"
    by (simp add: safe_service_path_def path_parts_def)
  have expired: "expired_file week_one_env 0 ''1970_w01.db''"
    using expired_iff [OF week_one_start, of 0] by simp
  obtain st' removed where r: "logs_delete_before week_one_env 0 week_one_store = (st', Inr removed)"
    using expired by (simp add: logs_delete_before_def week_one_store_def log_store_new_def service_dirs_def
        files_of_def lock_path_def evict_def Let_def ls_next_def)
  have "hm_wf (ls_dirs week_one_store)" by (simp add: week_one_store_def hm_wf_def)
  note gone = logs_delete_before_exact [OF r week_one_wf this, of "''web''"]
  have "''1970_w01.db'' \<in> fst ` set (files_of week_one_store ''web'')"
    by (simp add: week_one_store_def files_of_def)
  with expired have "''web'' @ ''/'' @ ''1970_w01.db'' \<in> {dir @ ''/'' @ w | dir w. dir \<noteq> []
      \<and> w \<in> fst ` set (files_of week_one_store dir) \<and> expired_file week_one_env 0 w}" by blast
  moreover have "set removed = {dir @ ''/'' @ w | dir w. dir \<noteq> []
      \<and> w \<in> fst ` set (files_of week_one_store dir) \<and> expired_file week_one_env 0 w}"
    using gone path by simp
  ultimately have "''web'' @ ''/'' @ ''1970_w01.db'' \<in> set removed" by (simp only:)
  then show ?thesis using gone path by (simp add: r)
qed

section \<open>A failure between two weeks\<close>

text \<open>
  The weeks of one append are separate transactions. When a later one fails the caller is told that
  the append failed, while the lines of the earlier week are stored: a retry of the whole append
  stores them a second time.
\<close>

lemma partial_append:
  assumes "iso_calendar env" "store_wf env st" "week_lines env (w1, l1)" "week_lines env (w2, l2)"
    and "append_week env (safe_service_path service) service w1 l1 st = (st1, Some (Inr ()))"
    and "append_week env (safe_service_path service) service w2 l2 st1 = (st2, Some (Inl e))"
  shows "append_weeks env (safe_service_path service) service [(w1, l1), (w2, l2)] st = (st2, Some (Inl e))"
    "log_content env st service + mset (map (as_stored service) l1) \<subseteq># log_content env st2 service"
proof -
  have one: "appended env service l1 st (st1, Some (Inr ()))"
    using append_week_ok [OF assms(1-3), of service] assms(5) by simp
  then have "store_wf env st1" by (simp add: appended_def)
  then have "appended env service l2 st1 (st2, Some (Inl e))"
    using append_week_ok [OF assms(1) _ assms(4), of st1 service] assms(6) by simp
  then have "log_content env st1 service \<subseteq># log_content env st2 service" by (simp add: appended_def)
  then show "log_content env st service + mset (map (as_stored service) l1) \<subseteq># log_content env st2 service"
    using one by (simp add: appended_def)
qed (simp add: assms(5,6))

section \<open>A cursor of no week\<close>

text \<open>
  A cursor comes from the client. When its week does not parse, the first candidate week that is
  read makes the query panic, where other malformed cursors are answered with an error.
\<close>

lemma cursor_week_panics:
  assumes "ls_faults st = []" "hm_get (files_of st dir) w \<noteq> None" "week_start_ms env w = Some start"
    and "week_start_ms env (cu_week c) = None" "0 < target"
  shows "snd (scan_weeks env dir service f fts (Some c) dirn target (w # ws) [] st) = None"
proof -
  obtain st1 where "get_pool (dir, w) service w (lock_path (dir, w) st) = (st1, Inr ())"
    using get_pool_ok [of "lock_path (dir, w) st" "(dir, w)" service w] assms(1,2) by auto
  with assms(3-5) show ?thesis by (simp add: row_condition_def push_cursor_def Let_def)
qed

end
