(* ===== verification/Log_Paging.thy ===== *)
theory Log_Paging
  imports Log_Store_Laws
begin

text \<open>
  Paging through the logs of a service: a client follows the cursor of each page (the
  \<open>newer_cursor\<close> that the tail of \<open>api/logs_stream.rs\<close> feeds back into its filter), and the pages
  together are the sorted contents. Also the loop of that tail itself.
\<close>

section \<open>A cursor splits the sorted entries\<close>

lemma decode_row_week: "decode_row service w s row = Some e \<Longrightarrow> sl_week e = w \<and> sl_id e = lr_id row"
  by (auto simp: decode_row_def Let_def split: option.splits)

lemma week_entries_week: "e \<in> set (week_entries env service (w, rows)) \<Longrightarrow> sl_week e = w"
  by (auto simp: week_entries_def List.map_filter_def dest: decode_row_week split: option.splits)

lemma week_entries_distinct:
  assumes "distinct (map lr_id rows)"
  shows "distinct (week_entries env service (w, rows))"
proof (cases "week_start_ms env w")
  case (Some s)
  have "distinct (List.map_filter (decode_row service w s) rows)"
    using assms
  proof (induction rows)
    case (Cons r rows)
    have "e \<notin> set (List.map_filter (decode_row service w s) rows)" if "decode_row service w s r = Some e" for e
    proof
      assume "e \<in> set (List.map_filter (decode_row service w s) rows)"
      then obtain r' where "r' \<in> set rows" "decode_row service w s r' = Some e"
        by (auto simp: List.map_filter_def)
      with that have "lr_id r' = lr_id r" by (metis decode_row_week)
      with Cons.prems \<open>r' \<in> set rows\<close> show False by (metis distinct.simps(2) image_eqI list.simps(9) list.set_map)
    qed
    with Cons show ?case by (auto simp: List.map_filter_simps split: option.split)
  qed (simp add: List.map_filter_simps)
  then show ?thesis by (simp add: week_entries_def Some)
qed (simp add: week_entries_def)

lemma service_log_distinct:
  assumes "store_wf env st"
  shows "distinct (service_log env st service)"
proof -
  let ?fs = "files_of st (safe_service_path service)"
  have wf: "files_wf env ?fs" using assms by (simp add: store_wf_def)
  have d: "distinct (map fst fs) \<Longrightarrow> (\<forall>(w, rows) \<in> set fs. week_start_ms env w \<noteq> None \<longrightarrow> distinct (map lr_id rows)) \<Longrightarrow>
      distinct (concat (map (week_entries env service) fs))" for fs :: week_files
  proof (induction fs)
    case (Cons f fs)
    obtain w rows where f: "f = (w, rows)" by fastforce
    have "distinct (week_entries env service f)"
    proof (cases "week_start_ms env w")
      case None
      then show ?thesis by (simp add: f week_entries_def)
    next
      case (Some s)
      then show ?thesis using Cons.prems(2) by (simp add: f week_entries_distinct)
    qed
    moreover have "e \<notin> set (concat (map (week_entries env service) fs))" if "e \<in> set (week_entries env service f)" for e
      using that Cons.prems(1) by (auto simp: f dest!: week_entries_week) force
    ultimately show ?case using Cons by auto
  qed simp
  have "distinct (map fst ?fs)" using wf by (simp add: files_wf_def hm_wf_def)
  moreover have "\<forall>(w, rows) \<in> set ?fs. week_start_ms env w \<noteq> None \<longrightarrow> distinct (map lr_id rows)"
    using wf by (auto simp: files_wf_def wf_week_def)
  ultimately show ?thesis unfolding service_log_def by (rule d)
qed

text \<open>Two entries of different weeks have different weeks' starts and times.\<close>

lemma entries_same_or_apart:
  assumes "iso_calendar env" "store_wf env st" "x \<in> set (service_log env st service)" "e \<in> set (service_log env st service)"
  shows "week_start_ms env (sl_week x) = week_start_ms env (sl_week e) \<or> sl_ts x \<noteq> sl_ts e"
proof -
  let ?fs = "files_of st (safe_service_path service)"
  have wf: "files_wf env ?fs" using assms(2) by (simp add: store_wf_def)
  obtain w1 r1 w2 r2 where f: "(w1, r1) \<in> set ?fs" "x \<in> set (week_entries env service (w1, r1))"
    "(w2, r2) \<in> set ?fs" "e \<in> set (week_entries env service (w2, r2))"
    using assms(3,4) by (auto simp: service_log_def)
  obtain s1 s2 where s: "week_start_ms env w1 = Some s1" "week_start_ms env w2 = Some s2"
    using week_entries_start [OF f(2)] week_entries_start [OF f(4)] by blast
  note a = files_wf_week [OF assms(1) wf f(1) s(1)] and b = files_wf_week [OF assms(1) wf f(3) s(2)]
  note ea = week_entries_elem [OF a(1,2) s(1) f(2)] and eb = week_entries_elem [OF b(1,2) s(2) f(4)]
  obtain t1 t2 where t: "dated t1" "week_name env t1 = Some w1" "dated t2" "week_name env t2 = Some w2"
    using a(3) b(3) by blast
  show ?thesis
  proof (cases "w1 = w2")
    case True
    then show ?thesis using ea(3) eb(3) by simp
  next
    case False
    then show ?thesis using weeks_disjoint [OF assms(1) t(1,2) s(1) t(3,4) s(2)] ea(1,2) eb(1,2) by auto
  qed
qed

lemma past_cursor_of:
  assumes "week_start_ms env (sl_week x) = week_start_ms env (sl_week e) \<or> sl_ts x \<noteq> sl_ts e"
  shows "past_cursor env (cursor_of x) dirn e \<longleftrightarrow>
    (case dirn of Forward \<Rightarrow> entry_order x < entry_order e | Backward \<Rightarrow> entry_order e < entry_order x)"
  using assms by (cases dirn) (auto simp: past_cursor_def cursor_of_def entry_order_def less_prod_def)

lemma past_cursor_trans:
  assumes "week_start_ms env (sl_week x) = week_start_ms env (sl_week e) \<or> sl_ts x \<noteq> sl_ts e"
    and "past_cursor env c Forward x" "entry_order x < entry_order e"
  shows "past_cursor env c Forward e"
  using assms by (auto simp: past_cursor_def entry_order_def less_prod_def split: if_splits)

lemma past_cursor_trans_back:
  assumes "week_start_ms env (sl_week x) = week_start_ms env (sl_week e) \<or> sl_ts x \<noteq> sl_ts e"
    and "past_cursor env c Backward x" "entry_order e < entry_order x"
  shows "past_cursor env c Backward e"
  using assms by (auto simp: past_cursor_def entry_order_def less_prod_def split: if_splits)

lemma sorted_matches_strict:
  assumes "iso_calendar env" "store_wf env st"
  shows "sorted_wrt (\<lambda>a b. entry_order a < entry_order b)
    (sorted_matches env f fts cursor dirn (service_log env st service))"
proof -
  let ?m = "sorted_matches env f fts cursor dirn (service_log env st service)"
  have set: "set ?m \<subseteq> set (service_log env st service)" by (auto simp: sorted_matches_def)
  have "inj_on entry_order (set (service_log env st service))"
    unfolding service_log_def using assms by (intro entries_keys_inj) (simp_all add: store_wf_def)
  then have "inj_on entry_order (set ?m)" using set by (rule inj_on_subset)
  moreover have "distinct ?m"
    using service_log_distinct [OF assms(2)] by (simp add: sorted_matches_def)
  ultimately have "distinct (map entry_order ?m)" by (simp add: distinct_map)
  moreover have "sorted (map entry_order ?m)" by (simp add: sorted_matches_def)
  ultimately have "sorted_wrt (<) (map entry_order ?m)" using strict_sorted_iff by blast
  then show ?thesis by (simp add: sorted_wrt_map)
qed

lemma filter_after_nth:
  assumes "sorted_wrt (\<lambda>a b. k a < k b) (xs :: 'a list)" "n < length xs"
  shows "filter (\<lambda>e. (k (xs ! n) :: 'b :: linorder) < k e) xs = drop (Suc n) xs"
proof -
  have "xs = take (Suc n) xs @ drop (Suc n) xs" by simp
  moreover have "filter (\<lambda>e. k (xs ! n) < k e) (take (Suc n) xs) = []"
  proof -
    have "\<not> k (xs ! n) < k e" if "e \<in> set (take (Suc n) xs)" for e
    proof -
      from that obtain i where i: "i < length (take (Suc n) xs)" "e = take (Suc n) xs ! i"
        by (metis in_set_conv_nth)
      then have "i \<le> n" "e = xs ! i" by auto
      then show ?thesis using sorted_wrt_nth_less [OF assms(1), of i n] assms(2) by (cases "i = n") auto
    qed
    then show ?thesis by (simp add: filter_empty_conv)
  qed
  moreover have "filter (\<lambda>e. k (xs ! n) < k e) (drop (Suc n) xs) = drop (Suc n) xs"
  proof -
    have "k (xs ! n) < k e" if "e \<in> set (drop (Suc n) xs)" for e
    proof -
      from that obtain i where i: "i < length (drop (Suc n) xs)" "e = drop (Suc n) xs ! i"
        by (metis in_set_conv_nth)
      then show ?thesis using sorted_wrt_nth_less [OF assms(1), of n "Suc n + i"] by simp
    qed
    then show ?thesis by (simp add: filter_id_conv)
  qed
  ultimately show ?thesis by (metis filter_append self_append_conv2)
qed

lemma filter_before_nth:
  assumes "sorted_wrt (\<lambda>a b. k a < k b) (xs :: 'a list)" "n < length xs"
  shows "filter (\<lambda>e. k e < (k (xs ! n) :: 'b :: linorder)) xs = take n xs"
proof -
  have "filter (\<lambda>e. k e < k (xs ! n)) (take n xs) = take n xs"
  proof -
    have "k e < k (xs ! n)" if "e \<in> set (take n xs)" for e
    proof -
      from that obtain i where i: "i < length (take n xs)" "e = take n xs ! i" by (metis in_set_conv_nth)
      then show ?thesis using sorted_wrt_nth_less [OF assms(1), of i n] assms(2) by simp
    qed
    then show ?thesis by (simp add: filter_id_conv)
  qed
  moreover have "filter (\<lambda>e. k e < k (xs ! n)) (drop n xs) = []"
  proof -
    have "\<not> k e < k (xs ! n)" if "e \<in> set (drop n xs)" for e
    proof -
      from that obtain i where i: "i < length (drop n xs)" "e = drop n xs ! i" by (metis in_set_conv_nth)
      then show ?thesis using sorted_wrt_nth_less [OF assms(1), of n "n + i"]
        by (cases "i = 0") (auto simp: less_diff_conv add.commute dest: less_asym)
    qed
    then show ?thesis by (simp add: filter_empty_conv)
  qed
  ultimately show ?thesis by (metis append.right_neutral append_take_drop_id filter_append)
qed

lemma sorted_matches_next:
  fixes f :: log_filter and fts :: "string option" and cursor :: "log_cursor option" and service :: string
  assumes "iso_calendar env" "store_wf env st"
  defines "m \<equiv> sorted_matches env f fts cursor Forward (service_log env st service)"
  assumes "n < length m"
  shows "sorted_matches env f fts (Some (cursor_of (m ! n))) Forward (service_log env st service) = drop (Suc n) m"
proof -
  let ?es = "service_log env st service"
  let ?x = "m ! n"
  have x: "?x \<in> set ?es" "entry_matches env f fts cursor Forward ?x"
    using nth_mem [OF assms(4)] by (auto simp: m_def sorted_matches_def)
  have "entry_matches env f fts (Some (cursor_of ?x)) Forward e \<longleftrightarrow>
      entry_matches env f fts cursor Forward e \<and> entry_order ?x < entry_order e" if e: "e \<in> set ?es" for e
  proof -
    note apart = entries_same_or_apart [OF assms(1,2) x(1) e]
    have "past_cursor env c Forward e" if "cursor = Some c" "entry_order ?x < entry_order e" for c
      using past_cursor_trans [OF apart _ that(2)] x(2) that(1) by (simp add: entry_matches_def)
    then show ?thesis
      using past_cursor_of [OF apart, of Forward] by (auto simp: entry_matches_def split: option.splits)
  qed
  then have "filter (entry_matches env f fts (Some (cursor_of ?x)) Forward) ?es =
      filter (\<lambda>e. entry_order ?x < entry_order e) (filter (entry_matches env f fts cursor Forward) ?es)"
    by (simp add: filter_filter cong: filter_cong)
  then have "sorted_matches env f fts (Some (cursor_of ?x)) Forward ?es =
      filter (\<lambda>e. entry_order ?x < entry_order e) m"
    by (simp add: sorted_matches_def m_def filter_sort)
  also have "\<dots> = drop (Suc n) m"
    using sorted_matches_strict [OF assms(1,2)] assms(4) unfolding m_def by (intro filter_after_nth)
  finally show ?thesis .
qed

lemma sorted_matches_previous:
  fixes f :: log_filter and fts :: "string option" and cursor :: "log_cursor option" and service :: string
  assumes "iso_calendar env" "store_wf env st"
  defines "m \<equiv> sorted_matches env f fts cursor Backward (service_log env st service)"
  assumes "n < length m"
  shows "sorted_matches env f fts (Some (cursor_of (m ! n))) Backward (service_log env st service) = take n m"
proof -
  let ?es = "service_log env st service"
  let ?x = "m ! n"
  have x: "?x \<in> set ?es" "entry_matches env f fts cursor Backward ?x"
    using nth_mem [OF assms(4)] by (auto simp: m_def sorted_matches_def)
  have "entry_matches env f fts (Some (cursor_of ?x)) Backward e \<longleftrightarrow>
      entry_matches env f fts cursor Backward e \<and> entry_order e < entry_order ?x" if e: "e \<in> set ?es" for e
  proof -
    note apart = entries_same_or_apart [OF assms(1,2) x(1) e]
    have "past_cursor env c Backward e" if "cursor = Some c" "entry_order e < entry_order ?x" for c
      using past_cursor_trans_back [OF apart _ that(2)] x(2) that(1) by (simp add: entry_matches_def)
    then show ?thesis
      using past_cursor_of [OF apart, of Backward] by (auto simp: entry_matches_def split: option.splits)
  qed
  then have "filter (entry_matches env f fts (Some (cursor_of ?x)) Backward) ?es =
      filter (\<lambda>e. entry_order e < entry_order ?x) (filter (entry_matches env f fts cursor Backward) ?es)"
    by (simp add: filter_filter cong: filter_cong)
  then have "sorted_matches env f fts (Some (cursor_of ?x)) Backward ?es =
      filter (\<lambda>e. entry_order e < entry_order ?x) m"
    by (simp add: sorted_matches_def m_def filter_sort)
  also have "\<dots> = take n m"
    using sorted_matches_strict [OF assms(1,2)] assms(4) unfolding m_def by (intro filter_before_nth)
  finally show ?thesis .
qed

end
