(* ===== verification/BTree_Map.thy ===== *)
theory BTree_Map
  imports Prelude "HOL-Library.List_Lexorder" "HOL-Library.Char_ord"
begin

text \<open>
  \<open>BTreeMap\<close> of Rust's standard library, as the association list in the order of its keys: insertion,
  collection from a sequence of pairs and the entry interface, with the laws of a map. Unlike a hash
  map, whose order is not specified, two such maps with the same entries are equal.
\<close>

type_synonym ('k, 'v) btree_map = "('k \<times> 'v) list"

fun bt_insert :: "'k::linorder \<Rightarrow> 'v \<Rightarrow> ('k, 'v) btree_map \<Rightarrow> ('k, 'v) btree_map" where
  "bt_insert k v [] = [(k, v)]"
| "bt_insert k v ((k1, v1) # m) =
     (if k < k1 then (k, v) # (k1, v1) # m
      else if k = k1 then (k, v) # m
      else (k1, v1) # bt_insert k v m)"

definition bt_collect :: "('k::linorder \<times> 'v) list \<Rightarrow> ('k, 'v) btree_map" where
  "bt_collect kvs = fold (\<lambda>(k, v). bt_insert k v) kvs []"

text \<open>\<open>entry(k).or_insert(d)\<close> followed by a change of the entry.\<close>

definition bt_entry :: "'k::linorder \<Rightarrow> 'v \<Rightarrow> ('v \<Rightarrow> 'v) \<Rightarrow> ('k, 'v) btree_map \<Rightarrow> ('k, 'v) btree_map" where
  "bt_entry k d f m = bt_insert k (f (case map_of m k of None \<Rightarrow> d | Some v \<Rightarrow> v)) m"

definition bt_wf :: "('k::linorder, 'v) btree_map \<Rightarrow> bool" where
  "bt_wf m = sorted_wrt (<) (map fst m)"

lemma bt_wf_Nil [simp]: "bt_wf []"
  by (simp add: bt_wf_def)

lemma bt_wf_Cons: "bt_wf ((k, v) # m) \<longleftrightarrow> (\<forall>k' \<in> fst ` set m. k < k') \<and> bt_wf m"
  by (auto simp: bt_wf_def)

lemma bt_wf_hm_wf: "bt_wf m \<Longrightarrow> hm_wf m"
  by (simp add: bt_wf_def hm_wf_def strict_sorted_iff)

lemma bt_get_below: "bt_wf ((k1, v1) # m) \<Longrightarrow> k < k1 \<Longrightarrow> map_of m k = None"
  by (force simp: bt_wf_Cons map_of_eq_None_iff)

lemma bt_get_insert: "bt_wf m \<Longrightarrow> map_of (bt_insert k v m) = (map_of m)(k \<mapsto> v)"
  by (induction k v m rule: bt_insert.induct) (auto simp: bt_wf_Cons fun_eq_iff)

lemma keys_bt_insert: "fst ` set (bt_insert k v m) = insert k (fst ` set m)"
  by (induction k v m rule: bt_insert.induct) auto

lemma bt_wf_insert [simp, intro]: "bt_wf m \<Longrightarrow> bt_wf (bt_insert k v m)"
  by (induction k v m rule: bt_insert.induct) (auto simp: bt_wf_Cons keys_bt_insert)

lemma bt_wf_entry [simp, intro]: "bt_wf m \<Longrightarrow> bt_wf (bt_entry k d f m)"
  by (simp add: bt_entry_def)

lemma bt_get_entry:
  "bt_wf m \<Longrightarrow> map_of (bt_entry k d f m) = (map_of m)(k \<mapsto> f (case map_of m k of None \<Rightarrow> d | Some v \<Rightarrow> v))"
  by (simp add: bt_entry_def bt_get_insert)

lemma bt_fold:
  "bt_wf m \<Longrightarrow> bt_wf (fold (\<lambda>(k, v). bt_insert k v) kvs m) \<and>
     map_of (fold (\<lambda>(k, v). bt_insert k v) kvs m) = map_of m ++ map_of (rev kvs)"
  by (induction kvs arbitrary: m) (auto simp: bt_get_insert map_add_def fun_eq_iff split: option.splits)

lemma bt_wf_collect [simp]: "bt_wf (bt_collect kvs)"
  by (simp add: bt_collect_def bt_fold)

lemma bt_get_collect: "map_of (bt_collect kvs) = map_of (rev kvs)"
  by (simp add: bt_collect_def bt_fold)

lemma bt_get_collect_distinct: "distinct (map fst kvs) \<Longrightarrow> map_of (bt_collect kvs) = map_of kvs"
  using hm_get_collect_distinct [of kvs] by (simp add: bt_get_collect)

lemma bt_wf_filter [simp, intro]: "bt_wf m \<Longrightarrow> bt_wf (filter P m)"
  by (induction m) (auto simp: bt_wf_Cons)

text \<open>The entries determine the map.\<close>

lemma bt_wf_eqI:
  assumes "bt_wf m" "bt_wf m'" "map_of m = map_of m'"
  shows "m = m'"
  using assms
proof (induction m arbitrary: m')
  case Nil
  then show ?case by (metis map_of_eq_empty_iff map_of.simps(1))
next
  case (Cons kv m)
  obtain k v where kv: "kv = (k, v)" by fastforce
  obtain k1 v1 m1 where m': "m' = (k1, v1) # m1"
    using fun_cong [OF Cons.prems(3), of k] by (cases m') (auto simp: kv)
  have "k = k1"
  proof (rule antisym; rule ccontr)
    assume "\<not> k \<le> k1"
    then have "map_of ((k, v) # m) k1 = None"
      using bt_get_below [of k v m k1] Cons.prems(1) by (simp add: kv)
    then show False using fun_cong [OF Cons.prems(3), of k1] by (simp add: m' kv)
  next
    assume "\<not> k1 \<le> k"
    then have "map_of m' k = None"
      using bt_get_below [of k1 v1 m1 k] Cons.prems(2) by (simp add: m')
    then show False using fun_cong [OF Cons.prems(3), of k] by (simp add: kv)
  qed
  moreover from this have "v = v1" using fun_cong [OF Cons.prems(3), of k] by (simp add: kv m')
  moreover have "m = m1"
  proof (rule Cons.IH)
    have "map_of m k = None" "map_of m1 k = None"
      using Cons.prems(1,2) \<open>k = k1\<close> by (force simp: kv m' bt_wf_Cons map_of_eq_None_iff)+
    then show "map_of m = map_of m1"
      using fun_cong [OF Cons.prems(3)] \<open>k = k1\<close>
      by (intro ext) (metis kv m' map_of_Cons_code(2))
  qed (use Cons.prems in \<open>auto simp: kv m' bt_wf_Cons\<close>)
  ultimately show ?case by (simp add: kv m')
qed

end
