(* ===== verification/Docker_Map.thy ===== *)
theory Docker_Map
  imports Log_Helpers Metrics_Schema "HOL-Library.Product_Lexorder" "HOL-Library.Multiset"
begin

text \<open>
  \<open>docker/mapping.rs\<close> and \<open>docker/raw.rs\<close>: from Docker's answers to the types of the program. The
  client library is a parameter: the records below hold the fields of its answers that the program
  reads, and the outcome of each request is an argument. Decoding bytes and splitting lines are
  modelled from Rust's standard library.
\<close>

section \<open>Bytes to text\<close>

text \<open>
  The length of the sequence at the start of a text and whether it is a character; of a sequence that
  is not, the longest part that could start one. Bytes past the end count as 0.
\<close>

definition byte_at :: "string \<Rightarrow> nat \<Rightarrow> nat" where
  "byte_at s i = (if i < length s then byte_of (s ! i) else 0)"

definition is_cont :: "nat \<Rightarrow> bool" where
  "is_cont b \<longleftrightarrow> 128 \<le> b \<and> b \<le> 191"

definition utf8_seq :: "nat \<Rightarrow> string \<Rightarrow> nat \<times> bool" where
  "utf8_seq b cs =
     (if b < 128 then (1, True)
      else if 194 \<le> b \<and> b \<le> 223 then (if is_cont (byte_at cs 0) then (2, True) else (1, False))
      else if 224 \<le> b \<and> b \<le> 239 then
        (if \<not> (is_cont (byte_at cs 0) \<and> (b = 224 \<longrightarrow> 160 \<le> byte_at cs 0) \<and> (b = 237 \<longrightarrow> byte_at cs 0 \<le> 159))
         then (1, False)
         else if \<not> is_cont (byte_at cs 1) then (2, False) else (3, True))
      else if 240 \<le> b \<and> b \<le> 244 then
        (if \<not> (is_cont (byte_at cs 0) \<and> (b = 240 \<longrightarrow> 144 \<le> byte_at cs 0) \<and> (b = 244 \<longrightarrow> byte_at cs 0 \<le> 143))
         then (1, False)
         else if \<not> is_cont (byte_at cs 1) then (2, False)
         else if \<not> is_cont (byte_at cs 2) then (3, False) else (4, True))
      else (1, False))"

definition replacement_char :: string where
  "replacement_char = [CHR 0xEF, CHR 0xBF, CHR 0xBD]"

text \<open>\<open>String::from_utf8_lossy\<close>.\<close>

fun from_utf8_lossy :: "string \<Rightarrow> string" where
  "from_utf8_lossy [] = []"
| "from_utf8_lossy (c # cs) =
     (let (n, ok) = utf8_seq (byte_of c) cs in
      (if ok then c # take (n - 1) cs else replacement_char) @ from_utf8_lossy (drop (n - 1) cs))"

text \<open>\<open>str::lines\<close>: a line ends at a line feed, with a carriage return before it.\<close>

definition strip_cr :: "string \<Rightarrow> string" where
  "strip_cr s = (if s \<noteq> [] \<and> last s = CHR 0x0D then butlast s else s)"

definition str_lines :: "string \<Rightarrow> string list" where
  "str_lines s =
     (let ps = split_at (\<lambda>c. c = CHR 0x0A) s in
      map strip_cr (butlast ps) @ (if last ps = [] then [] else [last ps]))"

section \<open>Docker's answers\<close>

datatype docker_state =
  CREATED | RESTARTING | RUNNING | REMOVING | PAUSED | EXITED | DEAD | STOPPING | EMPTY

text \<open>The type of a port is given by the debug name of its variant.\<close>

record docker_port =
  dp_ip :: "string option"
  dp_private_port :: nat
  dp_public_port :: "nat option"
  dp_typ :: "string option"

record docker_summary =
  ds_id :: "string option"
  ds_names :: "string list option"
  ds_labels :: "(string, string) hash_map option"
  ds_image :: "string option"
  ds_image_id :: "string option"
  ds_ports :: "docker_port list option"
  ds_state :: "docker_state option"

record docker_cpu_usage =
  du_total_usage :: "u64 option"
  du_percpu_usage :: "u64 list option"

record docker_cpu_stats =
  du_cpu_usage :: "docker_cpu_usage option"
  du_system_cpu_usage :: "u64 option"
  du_online_cpus :: "u32 option"

record docker_network =
  du_rx_bytes :: "u64 option"
  du_tx_bytes :: "u64 option"

record docker_blkio =
  du_op :: "string option"
  du_value :: "u64 option"

record docker_memory =
  du_usage :: "u64 option"
  du_mem_stats :: "(string, u64) hash_map option"

record docker_stats =
  du_id :: "string option"
  du_cpu_stats :: "docker_cpu_stats option"
  du_networks :: "(string, docker_network) hash_map option"
  du_blkio_stats :: "docker_blkio list option option"
  du_memory_stats :: "docker_memory option"

section \<open>Container summaries (mapping.rs)\<close>

definition unwrap_or :: "'a \<Rightarrow> 'a option \<Rightarrow> 'a" where
  "unwrap_or d x = (case x of None \<Rightarrow> d | Some v \<Rightarrow> v)"

definition trim_start_slash :: "string \<Rightarrow> string" where
  "trim_start_slash s = dropWhile (\<lambda>c. c = CHR ''/'') s"

definition get_container_name :: "docker_summary \<Rightarrow> string" where
  "get_container_name r =
     (case unwrap_or [] (ds_names r) of [] \<Rightarrow> ''unknown'' | raw # _ \<Rightarrow> trim_start_slash raw)"

text \<open>The label, trimmed, when it is there and not blank.\<close>

definition label_value :: "(string, string) hash_map \<Rightarrow> string \<Rightarrow> string option" where
  "label_value labels key =
     map_option str_trim (option_filter (\<lambda>v. str_trim v \<noteq> []) (hm_get labels key))"

definition get_container_service :: "docker_summary \<Rightarrow> string" where
  "get_container_service r =
     (let labels = unwrap_or [] (ds_labels r); name = get_container_name r in
      case label_value labels ''vpsiner.service'' of
        Some v \<Rightarrow> v
      | None \<Rightarrow>
          (case (label_value labels ''com.docker.compose.project'',
                 label_value labels ''com.docker.compose.service'') of
             (Some project, Some service) \<Rightarrow> project @ ''-'' @ service
           | _ \<Rightarrow> trim_start_slash name))"

definition get_container_labels :: "docker_summary \<Rightarrow> string list" where
  "get_container_labels r =
     sort (map (\<lambda>(key, v). key @ ''='' @ v) (unwrap_or [] (ds_labels r)))"

fun map_state :: "docker_state \<Rightarrow> container_state" where
  "map_state CREATED = Created"
| "map_state RESTARTING = Restarting"
| "map_state RUNNING = Running"
| "map_state REMOVING = Removing"
| "map_state PAUSED = Paused"
| "map_state EXITED = Exited"
| "map_state DEAD = Dead"
| "map_state STOPPING = Stopping"
| "map_state EMPTY = Empty"

definition get_container_state :: "docker_summary \<Rightarrow> container_state option" where
  "get_container_state r = map_option map_state (ds_state r)"

definition port_entry :: "docker_port \<Rightarrow> nat \<times> nat \<times> string" where
  "port_entry p =
     (let sort_port = unwrap_or (dp_private_port p) (dp_public_port p);
          protocol = (case dp_typ p of None \<Rightarrow> ''tcp'' | Some t \<Rightarrow> to_ascii_lowercase t);
          inner = nat_to_string (dp_private_port p) @ '' / '' @ protocol;
          display = (case (dp_ip p, dp_public_port p) of
              (Some ip, Some public) \<Rightarrow> ip @ '':'' @ nat_to_string public @ ''->'' @ inner
            | (None, Some public) \<Rightarrow> nat_to_string public @ ''->'' @ inner
            | _ \<Rightarrow> inner)
      in (sort_port, dp_private_port p, display))"

definition get_container_ports :: "docker_summary \<Rightarrow> string list" where
  "get_container_ports r =
     map (\<lambda>(_, _, display). display) (sort (map port_entry (unwrap_or [] (ds_ports r))))"

definition cid_or_zero :: "string \<Rightarrow> container_id" where
  "cid_or_zero full_id = unwrap_or default_cid (parse_cid full_id)"

definition map_container_summary :: "docker_summary \<Rightarrow> container_summary" where
  "map_container_summary r =
     (let full_id = unwrap_or [] (ds_id r) in
      \<lparr>ct_id = cid_or_zero full_id, ct_full_id = full_id, ct_name = get_container_name r,
       ct_service = get_container_service r, ct_image = unwrap_or [] (ds_image r),
       ct_image_sha = unwrap_or [] (ds_image_id r), ct_ports = get_container_ports r,
       ct_labels = get_container_labels r, ct_state = get_container_state r, ct_started_at = None\<rparr>)"

section \<open>Statistics (mapping.rs)\<close>

definition network_totals :: "docker_network list \<Rightarrow> u64 \<times> u64" where
  "network_totals ns = foldl (\<lambda>(rx, tx) n. (saturating_add rx (unwrap_or 0 (du_rx_bytes n)),
     saturating_add tx (unwrap_or 0 (du_tx_bytes n)))) (0, 0) ns"

definition blkio_totals :: "docker_blkio list \<Rightarrow> u64 \<times> u64" where
  "blkio_totals es = foldl (\<lambda>(r, w) e.
     let op = map_option to_ascii_lowercase (du_op e) in
     if op = Some ''read'' then (saturating_add r (unwrap_or 0 (du_value e)), w)
     else if op = Some ''write'' then (r, saturating_add w (unwrap_or 0 (du_value e)))
     else (r, w)) (0, 0) es"

definition mem_cache :: "docker_memory \<Rightarrow> u64" where
  "mem_cache m = unwrap_or 0 (Option.bind (du_mem_stats m) (\<lambda>stats.
     case hm_get stats ''inactive_file'' of
       Some v \<Rightarrow> Some v | None \<Rightarrow> hm_get stats ''total_inactive_file''))"

definition cpu_count :: "docker_cpu_stats option \<Rightarrow> u32" where
  "cpu_count cpu = unwrap_or 1 (Option.bind cpu (\<lambda>c.
     case du_online_cpus c of
       Some n \<Rightarrow> Some n
     | None \<Rightarrow> Option.bind (du_cpu_usage c)
         (\<lambda>u. map_option (\<lambda>cpus. of_nat (length cpus)) (du_percpu_usage u))))"

text \<open>\<open>now_ms\<close> is the clock, \<open>None\<close> when it is before the epoch.\<close>

definition map_container_stats :: "i64 option \<Rightarrow> docker_stats \<Rightarrow> string \<Rightarrow> container_stats" where
  "map_container_stats now_ms r fallback_id =
     (let cpu = du_cpu_stats r;
          (net_rx, net_tx) = network_totals (map snd (unwrap_or [] (du_networks r)));
          (blk_read, blk_write) = blkio_totals (unwrap_or [] (Option.bind (du_blkio_stats r) id));
          usage = unwrap_or 0 (Option.bind (du_memory_stats r) du_usage);
          cache = (case du_memory_stats r of None \<Rightarrow> 0 | Some m \<Rightarrow> mem_cache m)
      in \<lparr>st_ts = unwrap_or 0 now_ms, st_cid = cid_or_zero (unwrap_or fallback_id (du_id r)),
          st_cpu_usage_ns = unwrap_or 0 (Option.bind cpu
            (\<lambda>c. Option.bind (du_cpu_usage c) du_total_usage)),
          st_system_cpu_usage_ns = unwrap_or 0 (Option.bind cpu du_system_cpu_usage),
          st_cpu_count = cpu_count cpu, st_mem_used = saturating_sub usage cache,
          st_net_rx = net_rx, st_net_tx = net_tx, st_blk_read = blk_read, st_blk_write = blk_write\<rparr>)"

section \<open>Log output (mapping.rs)\<close>

text \<open>\<open>None\<close> is the panic of \<open>strip_ansi_escape_codes\<close>; \<open>nanos_of\<close> reads an RFC 3339 time.\<close>

definition map_log_line ::
    "(string \<Rightarrow> int option) \<Rightarrow> container_id \<Rightarrow> string \<Rightarrow> log_stream \<Rightarrow> string \<Rightarrow> log_line option" where
  "map_log_line nanos_of cid service stream line =
     (let (ts, raw_line) = parse_docker_timestamp nanos_of line in
      map_option (\<lambda>text. \<lparr>ll_ts = ts, ll_service = service, ll_cid = cid, ll_stream = stream,
          ll_level = detect_level text, ll_line = text\<rparr>) (strip_ansi_escape_codes raw_line))"

definition map_log_output ::
    "(string \<Rightarrow> int option) \<Rightarrow> container_id \<Rightarrow> string \<Rightarrow> string \<Rightarrow> log_stream \<Rightarrow> log_line list option"
  where
  "map_log_output nanos_of cid service message stream =
     those (map (map_log_line nanos_of cid service stream) (str_lines (from_utf8_lossy message)))"

section \<open>Requests (raw.rs)\<close>

text \<open>A failed request, with the status and the message of the server when it answered.\<close>

record docker_error =
  de_text :: string
  de_response :: "(nat \<times> string) option"

text \<open>The outcome of a request: the text of a timeout, an error, or the answer.\<close>

type_synonym 'a docker_call = "string + (docker_error + 'a)"

definition docker_answer :: "'a docker_call \<Rightarrow> 'a app_result" where
  "docker_answer c =
     (case c of Inl elapsed \<Rightarrow> Inl (Docker elapsed)
      | Inr (Inl e) \<Rightarrow> Inl (Docker (de_text e))
      | Inr (Inr a) \<Rightarrow> Inr a)"

record observed_container =
  oc_id :: container_id
  oc_full_id :: string
  oc_name :: string
  oc_service :: string

definition observed_log_id :: "observed_container \<Rightarrow> string" where
  "observed_log_id c = to_hex (oc_id c) @ ''@'' @ oc_service c"

definition observed_of :: "docker_summary \<Rightarrow> observed_container" where
  "observed_of r =
     (let full_id = unwrap_or [] (ds_id r) in
      \<lparr>oc_id = cid_or_zero full_id, oc_full_id = full_id, oc_name = get_container_name r,
       oc_service = get_container_service r\<rparr>)"

definition list_running_containers ::
    "docker_summary list docker_call \<Rightarrow> observed_container list app_result" where
  "list_running_containers listed = and_then (docker_answer listed) (\<lambda>cs. Inr (map observed_of cs))"

text \<open>The \<open>state.started_at\<close> of an inspection, read as a time.\<close>

definition inspect_started_at ::
    "(string \<Rightarrow> int option) \<Rightarrow> string option option docker_call \<Rightarrow> timestamp_ms option" where
  "inspect_started_at nanos_of inspected =
     (case inspected of Inr (Inr (Some (Some v))) \<Rightarrow>
        map_option (\<lambda>nanos. i64_wrap (nanos div 1000000)) (nanos_of v)
      | _ \<Rightarrow> None)"

text \<open>The results of concurrent requests in the order in which they complete.\<close>

definition completed :: "nat list \<Rightarrow> 'a list \<Rightarrow> 'a list" where
  "completed order xs = map (\<lambda>i. xs ! i) order"

definition list_all_containers_details ::
    "(string \<Rightarrow> int option) \<Rightarrow> docker_summary list docker_call \<Rightarrow> (string \<Rightarrow> string option option docker_call)
      \<Rightarrow> nat list \<Rightarrow> container_summary list app_result" where
  "list_all_containers_details nanos_of listed inspect order =
     and_then (docker_answer listed) (\<lambda>cs.
       Inr (completed order (map (\<lambda>c.
         let summary = map_container_summary c in
         summary\<lparr>ct_started_at := (if ct_state summary = Some Running
            then inspect_started_at nanos_of (inspect (ct_full_id summary)) else None)\<rparr>) cs)))"

definition ping :: "unit docker_call \<Rightarrow> unit app_result" where
  "ping c = docker_answer c"

text \<open>The probe starts a container that does not exist: any answer but 404 is a refusal.\<close>

definition supports_write_operations :: "unit docker_call \<Rightarrow> bool app_result" where
  "supports_write_operations c =
     (case c of Inl elapsed \<Rightarrow> Inl (Docker elapsed)
      | Inr (Inr _) \<Rightarrow> Inr True
      | Inr (Inl e) \<Rightarrow>
          (case de_response e of None \<Rightarrow> Inl (Docker (de_text e))
           | Some (status, _) \<Rightarrow> Inr (status = 404)))"

definition sample_container_stats ::
    "i64 option \<Rightarrow> string \<Rightarrow> docker_stats option docker_call \<Rightarrow> container_stats app_result" where
  "sample_container_stats now_ms full_id c =
     (case docker_answer c of Inl e \<Rightarrow> Inl e
      | Inr None \<Rightarrow> Inl (Docker ''container stats stream ended without a sample'')
      | Inr (Some r) \<Rightarrow> Inr (map_container_stats now_ms r full_id))"


section \<open>Decoding\<close>

lemma utf8_seq_stop:
  assumes "byte_of c < 128"
  shows "utf8_seq b (xs @ c # ys) = utf8_seq b xs"
proof -
  have c: "\<not> is_cont (byte_of c)" "\<not> is_cont 0" using assms by (simp_all add: is_cont_def)
  consider "xs = []" | x where "xs = [x]" | x y where "xs = [x, y]" | x y z zs where "xs = x # y # z # zs"
    by (metis neq_Nil_conv)
  then show ?thesis
    by cases (simp_all add: utf8_seq_def byte_at_def c)
qed

lemma utf8_seq_length: "fst (utf8_seq b xs) - 1 \<le> length xs"
proof -
  have c: "\<not> is_cont 0" by (simp add: is_cont_def)
  consider "xs = []" | x where "xs = [x]" | x y where "xs = [x, y]" | x y z zs where "xs = x # y # z # zs"
    by (metis neq_Nil_conv)
  then show ?thesis
    by cases (simp_all add: utf8_seq_def byte_at_def c)
qed

lemma from_utf8_lossy_ascii:
  assumes "byte_of c < 128"
  shows "from_utf8_lossy (xs @ c # ys) = from_utf8_lossy xs @ c # from_utf8_lossy ys"
proof (induction xs rule: from_utf8_lossy.induct)
  case 1
  show ?case using assms by (simp add: utf8_seq_def)
next
  case (2 x xs)
  obtain n ok where n: "utf8_seq (byte_of x) xs = (n, ok)" by fastforce
  have len: "n - 1 \<le> length xs" using utf8_seq_length [of "byte_of x" xs] by (simp add: n)
  have "from_utf8_lossy (drop (n - 1) xs @ c # ys) = from_utf8_lossy (drop (n - 1) xs) @ c # from_utf8_lossy ys"
    using "2.IH" [OF n [symmetric]] by simp
  then show ?case using len by (simp add: utf8_seq_stop [OF assms] n)
qed

lemma from_utf8_lossy_hd: "from_utf8_lossy s = s \<Longrightarrow> s = [] \<or> \<not> utf8_cont (hd s)"
proof (cases s)
  case (Cons c cs)
  assume eq: "from_utf8_lossy s = s"
  have "False" if "utf8_cont c"
  proof -
    have "utf8_seq (byte_of c) cs = (1, False)" using that by (simp add: utf8_seq_def utf8_cont_def)
    then have "from_utf8_lossy s = replacement_char @ from_utf8_lossy cs" by (simp add: Cons)
    then have "c = CHR 0xEF" using eq by (simp add: Cons replacement_char_def)
    with that show False by (simp add: utf8_cont_def byte_of_def)
  qed
  then show ?thesis by (auto simp: Cons)
qed simp

abbreviation (input) NL :: char where "NL \<equiv> CHR 0x0A"

lemma split_at_line: "NL \<notin> set w \<Longrightarrow> split_at (\<lambda>c. c = NL) (w @ NL # s) = w # split_at (\<lambda>c. c = NL) s"
  by (induction w) auto

lemma str_lines_line: "NL \<notin> set w \<Longrightarrow> str_lines (w @ NL # s) = strip_cr w # str_lines s"
  by (simp add: str_lines_def split_at_line Let_def)

lemma str_lines_Nil [simp]: "str_lines [] = []"
  by (simp add: str_lines_def)

lemma those_map_Some: "(\<And>x. x \<in> set xs \<Longrightarrow> f x = Some (g x)) \<Longrightarrow> those (map f xs) = Some (map g xs)"
  by (induction xs) auto

text \<open>One line of Docker's output with time stamps.\<close>

definition docker_frame :: "string \<times> string \<Rightarrow> string" where
  "docker_frame = (\<lambda>(stamp, body). stamp @ CHR '' '' # body @ [NL])"

definition frame_ok :: "(string \<Rightarrow> int option) \<Rightarrow> string \<times> string \<Rightarrow> bool" where
  "frame_ok nanos_of = (\<lambda>(stamp, body).
     from_utf8_lossy stamp = stamp \<and> CHR '' '' \<notin> set stamp \<and> NL \<notin> set stamp \<and> nanos_of stamp \<noteq> None
     \<and> from_utf8_lossy body = body \<and> NL \<notin> set body \<and> (body = [] \<or> last body \<noteq> CHR 0x0D)
     \<and> strip_ansi_escape_codes body \<noteq> None)"

definition frame_line ::
    "(string \<Rightarrow> int option) \<Rightarrow> container_id \<Rightarrow> string \<Rightarrow> log_stream \<Rightarrow> string \<times> string \<Rightarrow> log_line" where
  "frame_line nanos_of cid service stream = (\<lambda>(stamp, body).
     let line = the (strip_ansi_escape_codes body) in
     \<lparr>ll_ts = i64_wrap (the (nanos_of stamp) div 1000000), ll_service = service, ll_cid = cid,
      ll_stream = stream, ll_level = detect_level line, ll_line = line\<rparr>)"

lemma frames_decode:
  "list_all (frame_ok nanos_of) fs \<Longrightarrow> from_utf8_lossy (concat (map docker_frame fs)) = concat (map docker_frame fs)"
proof (induction fs)
  case (Cons f fs)
  obtain stamp body where f: "f = (stamp, body)" by fastforce
  have "byte_of (CHR '' '') < 128" "byte_of NL < 128" by (simp_all add: byte_of_def)
  note ascii = this [THEN from_utf8_lossy_ascii]
  have "from_utf8_lossy (stamp @ CHR '' '' # body @ NL # concat (map docker_frame fs)) =
      stamp @ CHR '' '' # body @ NL # concat (map docker_frame fs)"
    using Cons by (simp add: f frame_ok_def ascii)
  then show ?case by (simp add: f docker_frame_def)
qed simp

lemma frames_lines:
  "list_all (frame_ok nanos_of) fs \<Longrightarrow>
    str_lines (concat (map docker_frame fs)) = map (\<lambda>(stamp, body). stamp @ CHR '' '' # body) fs"
proof (induction fs)
  case (Cons f fs)
  obtain stamp body where f: "f = (stamp, body)" by fastforce
  have "strip_cr (stamp @ CHR '' '' # body) = stamp @ CHR '' '' # body"
    using Cons.prems by (auto simp: f frame_ok_def strip_cr_def)
  then show ?case
    using Cons str_lines_line [of "stamp @ CHR '' '' # body" "concat (map docker_frame fs)"]
    by (simp add: f frame_ok_def docker_frame_def)
qed simp

text \<open>
  C28. Docker's output is read back exactly: from any number of complete lines with a time stamp each,
  the result is one log line per line, in order, with the time in milliseconds, the text without its
  escape codes and the level detected in it.
\<close>

theorem log_output_roundtrip:
  assumes "list_all (frame_ok nanos_of) frames"
  shows "map_log_output nanos_of cid service (concat (map docker_frame frames)) stream =
    Some (map (frame_line nanos_of cid service stream) frames)"
proof -
  have one: "map_log_line nanos_of cid service stream (stamp @ CHR '' '' # body) =
      Some (frame_line nanos_of cid service stream (stamp, body))" if "frame_ok nanos_of (stamp, body)" for stamp body
  proof -
    have "split_once '' '' (stamp @ CHR '' '' # body) = Some (stamp, body)"
      using that split_once_first [of "'' ''" stamp body] by (simp add: frame_ok_def)
    then show ?thesis
      using that by (auto simp: frame_ok_def map_log_line_def parse_docker_timestamp_def frame_line_def Let_def)
  qed
  have "those (map (map_log_line nanos_of cid service stream) (map (\<lambda>(stamp, body). stamp @ CHR '' '' # body) frames))
      = Some (map (frame_line nanos_of cid service stream) frames)"
    using assms one by (auto simp: map_map list_all_iff intro!: those_map_Some)
  then show ?thesis by (simp add: map_log_output_def frames_decode [OF assms] frames_lines [OF assms])
qed

theorem log_output_roundtrip_witness:
  "map_log_output (\<lambda>s. if s = ''T1'' then Some 1500000 else None) default_cid ''web''
      (docker_frame (''T1'', ''ready'')) Stdout =
    Some [\<lparr>ll_ts = 1, ll_service = ''web'', ll_cid = default_cid, ll_stream = Stdout,
       ll_level = detect_level ''ready'', ll_line = ''ready''\<rparr>]"
proof -
  let ?n = "\<lambda>s. if s = ''T1'' then Some (1500000 :: int) else None"
  have ascii: "from_utf8_lossy s = s" if "list_all (\<lambda>c. byte_of c < 128) s" for s
    using that by (induction s) (simp_all add: utf8_seq_def)
  have s: "strip_ansi_escape_codes ''ready'' = Some ''ready''"
    by (rule strip_ansi_plain) (simp_all add: utf8_cont_def byte_of_def)
  have "list_all (frame_ok ?n) [(''T1'', ''ready'')]"
    using s by (simp add: frame_ok_def ascii byte_of_def del: from_utf8_lossy.simps strip_ansi_escape_codes.simps)
  from log_output_roundtrip [OF this, of default_cid "''web''" Stdout] s show ?thesis
    by (simp add: frame_line_def i64_wrap_def Let_def)
qed

section \<open>Answers in any order\<close>

lemma network_totals_fold:
  "foldl (\<lambda>(rx, tx) n. (saturating_add rx (f n), saturating_add tx (g n))) (a, b) ns =
    (foldl (\<lambda>x n. saturating_add x (f n)) a ns, foldl (\<lambda>x n. saturating_add x (g n)) b ns)"
  by (induction ns arbitrary: a b) simp_all

lemma saturating_fold:
  "unat (foldl (\<lambda>x n. saturating_add x (f n)) a ns) = min (unat a + sum_list (map (\<lambda>n. unat (f n)) ns)) (2 ^ 64 - 1)"
proof (induction ns arbitrary: a)
  case Nil
  show ?case using unsigned_less [of a, where ?'a = nat] by simp
next
  case (Cons n ns)
  then show ?case by (simp add: unat_saturating_add min_def)
qed

definition blk_count :: "string \<Rightarrow> docker_blkio \<Rightarrow> u64" where
  "blk_count op e = (if map_option to_ascii_lowercase (du_op e) = Some op then unwrap_or 0 (du_value e) else 0)"

lemma blkio_totals_eq:
  "blkio_totals es = (foldl (\<lambda>x e. saturating_add x (blk_count ''read'' e)) 0 es,
     foldl (\<lambda>x e. saturating_add x (blk_count ''write'' e)) 0 es)"
proof -
  have z: "saturating_add a 0 = a" for a
    using unsigned_less [of a, where ?'a = nat] by (simp add: saturating_add_def)
  have step: "(let op = map_option to_ascii_lowercase (du_op e) in
     if op = Some ''read'' then (saturating_add r (unwrap_or 0 (du_value e)), w)
     else if op = Some ''write'' then (r, saturating_add w (unwrap_or 0 (du_value e)))
     else (r, w)) = (saturating_add r (blk_count ''read'' e), saturating_add w (blk_count ''write'' e))" for r w e
    by (cases "map_option to_ascii_lowercase (du_op e) = Some ''read''")
      (auto simp: blk_count_def z Let_def)
  show ?thesis unfolding blkio_totals_def step by (rule network_totals_fold)
qed

text \<open>
  The totals of the statistics do not depend on the order of the networks or of the block
  devices: each is the sum of its counters, held at the greatest 64-bit value.
\<close>

theorem stats_totals_saturate:
  "let s = map_container_stats now r fallback;
       nets = map snd (unwrap_or [] (du_networks r));
       devs = unwrap_or [] (Option.bind (du_blkio_stats r) id) in
    unat (st_net_rx s) = min (\<Sum>n\<leftarrow>nets. unat (unwrap_or 0 (du_rx_bytes n))) (2 ^ 64 - 1) \<and>
    unat (st_net_tx s) = min (\<Sum>n\<leftarrow>nets. unat (unwrap_or 0 (du_tx_bytes n))) (2 ^ 64 - 1) \<and>
    unat (st_blk_read s) = min (\<Sum>e\<leftarrow>devs. unat (blk_count ''read'' e)) (2 ^ 64 - 1) \<and>
    unat (st_blk_write s) = min (\<Sum>e\<leftarrow>devs. unat (blk_count ''write'' e)) (2 ^ 64 - 1)"
  by (simp add: map_container_stats_def Let_def network_totals_def network_totals_fold blkio_totals_eq
      saturating_fold)


lemma sort_map_mset: "mset xs = mset ys \<Longrightarrow> sort (map f xs) = sort (map f ys)"
  by (rule properties_for_sort) simp_all

text \<open>
  The summary of a container does not depend on the order in which Docker lists its ports or in
  which a hash map yields its labels: two such answers give equal summaries, and no change is seen.
\<close>

theorem summary_order_free:
  assumes "mset ports = mset ports'" "mset labels = mset labels'" "hm_wf labels"
  shows "map_container_summary (r\<lparr>ds_ports := Some ports, ds_labels := Some labels\<rparr>) =
    map_container_summary (r\<lparr>ds_ports := Some ports', ds_labels := Some labels'\<rparr>)"
proof -
  let ?a = "r\<lparr>ds_ports := Some ports, ds_labels := Some labels\<rparr>"
  let ?b = "r\<lparr>ds_ports := Some ports', ds_labels := Some labels'\<rparr>"
  have wf': "hm_wf labels'"
    using assms(2,3) by (metis hm_wf_def mset_eq_imp_distinct_iff mset_map)
  have get: "hm_get labels k = hm_get labels' k" for k
    using assms(2,3) wf' map_of_inject_set [of labels labels'] mset_eq_setD [OF assms(2)]
    by (simp add: hm_wf_def)
  have lv: "label_value labels = label_value labels'"
    by (simp add: label_value_def get fun_eq_iff)
  have "get_container_labels ?a = get_container_labels ?b"
    by (simp add: get_container_labels_def unwrap_or_def sort_map_mset [OF assms(2)])
  moreover have "get_container_ports ?a = get_container_ports ?b"
    by (simp add: get_container_ports_def unwrap_or_def sort_map_mset [OF assms(1)])
  moreover have "get_container_service ?a = get_container_service ?b"
    by (simp add: get_container_service_def unwrap_or_def get_container_name_def Let_def) (unfold lv, rule refl)
  moreover have "get_container_name ?a = get_container_name ?b" "get_container_state ?a = get_container_state ?b"
    by (simp_all add: get_container_name_def get_container_state_def)
  ultimately show ?thesis by (simp add: map_container_summary_def Let_def)
qed

definition example_summary :: docker_summary where
  "example_summary = \<lparr>ds_id = Some ''aabbccddeeff0011'', ds_names = Some [''/shop-web-1''], ds_labels = None,
     ds_image = None, ds_image_id = None, ds_ports = None, ds_state = Some RUNNING\<rparr>"

theorem summary_order_free_witness:
  "map_container_summary (example_summary\<lparr>ds_ports := Some [], ds_labels := Some [(''a'', ''1''), (''b'', ''2'')]\<rparr>) =
   map_container_summary (example_summary\<lparr>ds_ports := Some [], ds_labels := Some [(''b'', ''2''), (''a'', ''1'')]\<rparr>)"
  by (rule summary_order_free) (simp_all add: hm_wf_def add_mset_commute)

end
