(* ===== verification/Container_Registry.thy ===== *)
theory Container_Registry
  imports Docker_Map
begin

text \<open>
  \<open>docker/container_registry.rs\<close>: the list of all containers for display, the map of running
  containers that are observed, the queue of observe events and the two coalescing update requests.
  A request channel holds at most one request; \<open>None\<close> means that its worker is gone. The answers of
  Docker are arguments, an atomic step of a worker is a function.
\<close>

datatype observe_action = StartObserving | StopObserving

record observe_event =
  ev_action :: observe_action
  ev_container :: observed_container

record container_registry =
  cy_connected :: bool
  cy_info :: "container_summary list"
  cy_info_poisoned :: bool
  cy_observed :: "(string, observed_container) hash_map"
  cy_observed_poisoned :: bool
  cy_events :: "observe_event list"
  cy_events_capacity :: nat
  cy_events_closed :: bool
  cy_events_taken :: bool
  cy_observed_request :: "bool option"
  cy_info_request :: "bool option"
  cy_revision :: u64

definition container_registry_new :: "nat \<Rightarrow> bool \<Rightarrow> container_registry" where
  "container_registry_new capacity up =
     \<lparr>cy_connected = up, cy_info = [], cy_info_poisoned = False, cy_observed = [],
      cy_observed_poisoned = False, cy_events = [], cy_events_capacity = capacity,
      cy_events_closed = False, cy_events_taken = False, cy_observed_request = Some False,
      cy_info_request = Some False, cy_revision = 0\<rparr>"

section \<open>Reading\<close>

definition containers_info :: "container_registry \<Rightarrow> container_summary list app_result" where
  "containers_info st =
     (if cy_info_poisoned st then Inl (Docker ''failed to acquire containers read lock'')
      else Inr (cy_info st))"

definition container_info :: "container_registry \<Rightarrow> container_id \<Rightarrow> container_summary option app_result" where
  "container_info st cid = and_then (containers_info st) (\<lambda>cs. Inr (find (\<lambda>c. ct_id c = cid) cs))"

definition observed_containers :: "container_registry \<Rightarrow> observed_container list app_result" where
  "observed_containers st =
     (if cy_observed_poisoned st then Inl (Docker ''failed to acquire observed_containers read lock'')
      else Inr (map snd (cy_observed st)))"

definition take_observe_events_stream :: "container_registry \<Rightarrow> container_registry \<times> unit app_result" where
  "take_observe_events_stream st =
     (if cy_events_taken st then (st, Inl (Docker ''observing receiver already taken''))
      else (st\<lparr>cy_events_taken := True\<rparr>, Inr ()))"

section \<open>Requests\<close>

text \<open>\<open>try_send\<close> on a channel of one slot: a full channel already has the request.\<close>

definition try_request :: "string \<Rightarrow> bool option \<Rightarrow> bool option \<times> unit app_result" where
  "try_request what slot =
     (case slot of None \<Rightarrow> (None, Inl (Docker (''failed to schedule '' @ what @ '' update: channel closed'')))
      | Some _ \<Rightarrow> (Some True, Inr ()))"

definition request_observed_update :: "container_registry \<Rightarrow> container_registry \<times> unit app_result" where
  "request_observed_update st =
     (let (slot, r) = try_request ''observed containers'' (cy_observed_request st) in
      (st\<lparr>cy_observed_request := slot\<rparr>, r))"

definition request_containers_info_update :: "container_registry \<Rightarrow> container_registry \<times> unit app_result" where
  "request_containers_info_update st =
     (let (slot, r) = try_request ''containers info'' (cy_info_request st) in
      (st\<lparr>cy_info_request := slot\<rparr>, r))"

section \<open>Updates\<close>

text \<open>A full or closed event channel drops the event with a warning.\<close>

definition send_event :: "observe_event \<Rightarrow> container_registry \<Rightarrow> container_registry" where
  "send_event e st =
     (if cy_events_closed st \<or> cy_events_capacity st \<le> length (cy_events st) then st
      else st\<lparr>cy_events := cy_events st @ [e]\<rparr>)"

definition update_observed_containers_now ::
    "docker_summary list docker_call \<Rightarrow> container_registry \<Rightarrow> container_registry \<times> unit app_result" where
  "update_observed_containers_now listed st =
     (if \<not> cy_connected st then (st, Inr ())
      else case list_running_containers listed of Inl e \<Rightarrow> (st, Inl e)
      | Inr cs \<Rightarrow>
          if cy_observed_poisoned st
          then (st, Inl (Docker ''observed_containers lock poisoned: poisoned lock: another task failed inside''))
          else
            let running = hm_collect (map (\<lambda>c. (oc_full_id c, c)) cs);
                stopped = filter (\<lambda>(k, _). \<not> hm_contains running k) (cy_observed st);
                kept = filter (\<lambda>(k, _). hm_contains running k) (cy_observed st);
                started = filter (\<lambda>(k, _). \<not> hm_contains kept k) running;
                st1 = st\<lparr>cy_observed := fold (\<lambda>(k, c). hm_insert k c) started kept\<rparr>;
                st2 = fold (\<lambda>(_, c). send_event \<lparr>ev_action = StartObserving, ev_container = c\<rparr>) started st1;
                st3 = fold (\<lambda>(_, c). send_event \<lparr>ev_action = StopObserving, ev_container = c\<rparr>) stopped st2
            in request_containers_info_update st3)"

definition update_containers_info_now ::
    "(string \<Rightarrow> int option) \<Rightarrow> docker_summary list docker_call \<Rightarrow> (string \<Rightarrow> string option option docker_call)
      \<Rightarrow> nat list \<Rightarrow> container_registry \<Rightarrow> container_registry \<times> unit app_result" where
  "update_containers_info_now nanos_of listed inspect order st =
     (if \<not> cy_connected st then (st, Inr ())
      else case list_all_containers_details nanos_of listed inspect order of Inl e \<Rightarrow> (st, Inl e)
      | Inr cs \<Rightarrow>
          if cy_info_poisoned st
          then (st, Inl (Docker ''container_info registry lock poisoned: poisoned lock: another task failed inside''))
          else (st\<lparr>cy_info := cs, cy_revision := cy_revision st + 1\<rparr>, Inr ()))"

section \<open>Workers\<close>

text \<open>The periodic refresh of the list.\<close>

definition containers_info_tick :: "container_registry \<Rightarrow> container_registry" where
  "containers_info_tick st = fst (request_containers_info_update st)"

text \<open>
  An update worker receives a request, sleeps for the debounce time, drains what arrived meanwhile,
  and then runs the update. A request that arrives during the update stays in the channel.
\<close>

datatype worker_phase = Waiting | Debouncing | Updating

definition worker_recv :: "bool \<Rightarrow> worker_phase \<Rightarrow> (bool \<times> worker_phase) option" where
  "worker_recv slot phase = (if phase = Waiting \<and> slot then Some (False, Debouncing) else None)"

definition worker_drain :: "bool \<Rightarrow> worker_phase \<Rightarrow> (bool \<times> worker_phase) option" where
  "worker_drain slot phase = (if phase = Debouncing then Some (False, Updating) else None)"

definition worker_done :: "bool \<Rightarrow> worker_phase \<Rightarrow> (bool \<times> worker_phase) option" where
  "worker_done slot phase = (if phase = Updating then Some (slot, Waiting) else None)"

text \<open>One round of the worker for observed containers on the registry, whatever the update returns.\<close>

definition observed_worker_round ::
    "docker_summary list docker_call \<Rightarrow> container_registry \<Rightarrow> container_registry" where
  "observed_worker_round listed st =
     (if cy_observed_request st = Some True
      then fst (update_observed_containers_now listed (st\<lparr>cy_observed_request := Some False\<rparr>)) else st)"

definition info_worker_round ::
    "(string \<Rightarrow> int option) \<Rightarrow> docker_summary list docker_call \<Rightarrow> (string \<Rightarrow> string option option docker_call)
      \<Rightarrow> nat list \<Rightarrow> container_registry \<Rightarrow> container_registry" where
  "info_worker_round nanos_of listed inspect order st =
     (if cy_info_request st = Some True
      then fst (update_containers_info_now nanos_of listed inspect order (st\<lparr>cy_info_request := Some False\<rparr>))
      else st)"

text \<open>
  What wakes the observer: the interval, an event of Docker, an error of its stream, or its end. A
  cycle ends with an error on the last two and is started again.
\<close>

datatype observer_wake = Tick | DockerEvent | StreamError string | StreamEnded

fun observer_loop :: "observer_wake list \<Rightarrow> container_registry \<Rightarrow> container_registry \<times> unit app_result" where
  "observer_loop [] st = (st, Inr ())"
| "observer_loop (Tick # ws) st = observer_loop ws (fst (request_observed_update st))"
| "observer_loop (DockerEvent # ws) st = observer_loop ws (fst (request_observed_update st))"
| "observer_loop (StreamError e # ws) st =
     (st, Inl (Docker (''docker container events stream error: '' @ e)))"
| "observer_loop (StreamEnded # ws) st = (st, Inl (Docker ''docker container events stream ended''))"

definition run_containers_observer_cycle ::
    "observer_wake list \<Rightarrow> container_registry \<Rightarrow> container_registry \<times> unit app_result" where
  "run_containers_observer_cycle ws st =
     (if \<not> cy_connected st then (st, Inr ())
      else case request_observed_update st of
        (st1, Inl e) \<Rightarrow> (st1, Inl e)
      | (st1, Inr _) \<Rightarrow> observer_loop ws st1)"

section \<open>The observed map\<close>

declare hm_contains_iff [simp del]

lemma hm_contains_get: "hm_contains m k \<longleftrightarrow> hm_get m k \<noteq> None"
  by (simp add: hm_contains_def)

lemma send_event_fields [simp]:
  "cy_observed (send_event e st) = cy_observed st" "cy_connected (send_event e st) = cy_connected st"
  "cy_events_capacity (send_event e st) = cy_events_capacity st"
  "cy_events_closed (send_event e st) = cy_events_closed st"
  "cy_info (send_event e st) = cy_info st" "cy_info_request (send_event e st) = cy_info_request st"
  by (simp_all add: send_event_def)

lemma send_events_fields [simp]:
  "cy_observed (fold (\<lambda>(k, c). send_event (f c)) cs st) = cy_observed st"
  "cy_connected (fold (\<lambda>(k, c). send_event (f c)) cs st) = cy_connected st"
  "cy_events_capacity (fold (\<lambda>(k, c). send_event (f c)) cs st) = cy_events_capacity st"
  "cy_events_closed (fold (\<lambda>(k, c). send_event (f c)) cs st) = cy_events_closed st"
  "cy_info (fold (\<lambda>(k, c). send_event (f c)) cs st) = cy_info st"
  "cy_info_request (fold (\<lambda>(k, c). send_event (f c)) cs st) = cy_info_request st"
  by (induction cs arbitrary: st) auto

lemma send_events_room:
  "\<not> cy_events_closed st \<Longrightarrow> length (cy_events st) + length cs \<le> cy_events_capacity st \<Longrightarrow>
    cy_events (fold (\<lambda>(k, c). send_event (f c)) cs st) = cy_events st @ map (\<lambda>(k, c). f c) cs"
  by (induction cs arbitrary: st) (auto simp: send_event_def)

text \<open>What a consumer of the events holds after them.\<close>

definition apply_event :: "observe_event \<Rightarrow> (string \<rightharpoonup> observed_container) \<Rightarrow> (string \<rightharpoonup> observed_container)" where
  "apply_event e m = (case ev_action e of
     StartObserving \<Rightarrow> m(oc_full_id (ev_container e) \<mapsto> ev_container e)
   | StopObserving \<Rightarrow> m(oc_full_id (ev_container e) := None))"

definition observed_inv :: "container_registry \<Rightarrow> bool" where
  "observed_inv st \<longleftrightarrow> hm_wf (cy_observed st) \<and> (\<forall>(k, c) \<in> set (cy_observed st). oc_full_id c = k)"

text \<open>The parts of an update that reaches its end.\<close>

definition running_map :: "observed_container list \<Rightarrow> (string, observed_container) hash_map" where
  "running_map cs = hm_collect (map (\<lambda>c. (oc_full_id c, c)) cs)"

lemma running_map_key: "hm_get (running_map cs) k = Some c \<Longrightarrow> oc_full_id c = k \<and> c \<in> set cs"
  by (auto simp: running_map_def dest!: map_of_SomeD)

definition stopped_of :: "observed_container list \<Rightarrow> container_registry \<Rightarrow> (string, observed_container) hash_map" where
  "stopped_of cs st = filter (\<lambda>(k, _). \<not> hm_contains (running_map cs) k) (cy_observed st)"

definition kept_of :: "observed_container list \<Rightarrow> container_registry \<Rightarrow> (string, observed_container) hash_map" where
  "kept_of cs st = filter (\<lambda>(k, _). hm_contains (running_map cs) k) (cy_observed st)"

definition started_of :: "observed_container list \<Rightarrow> container_registry \<Rightarrow> (string, observed_container) hash_map" where
  "started_of cs st = filter (\<lambda>(k, _). \<not> hm_contains (kept_of cs st) k) (running_map cs)"

definition observed_of_update :: "observed_container list \<Rightarrow> container_registry \<Rightarrow> (string, observed_container) hash_map" where
  "observed_of_update cs st = fold (\<lambda>(k, c). hm_insert k c) (started_of cs st) (kept_of cs st)"

lemma update_observed_parts:
  assumes "update_observed_containers_now listed st = (st', Inr ())" "cy_connected st"
    and "list_running_containers listed = Inr cs"
  shows "cy_observed st' = observed_of_update cs st"
    "cy_events st' = cy_events
       (fold (\<lambda>(_, c). send_event \<lparr>ev_action = StopObserving, ev_container = c\<rparr>) (stopped_of cs st)
       (fold (\<lambda>(_, c). send_event \<lparr>ev_action = StartObserving, ev_container = c\<rparr>) (started_of cs st)
         (st\<lparr>cy_observed := observed_of_update cs st\<rparr>)))"
proof -
  have np: "\<not> cy_observed_poisoned st"
    using assms by (auto simp: update_observed_containers_now_def)
  have r: "request_containers_info_update
       (fold (\<lambda>(_, c). send_event \<lparr>ev_action = StopObserving, ev_container = c\<rparr>) (stopped_of cs st)
       (fold (\<lambda>(_, c). send_event \<lparr>ev_action = StartObserving, ev_container = c\<rparr>) (started_of cs st)
         (st\<lparr>cy_observed := observed_of_update cs st\<rparr>))) = (st', Inr ())"
    using assms np
    by (simp add: update_observed_containers_now_def Let_def running_map_def stopped_of_def kept_of_def
        started_of_def observed_of_update_def)
  show "cy_observed st' = observed_of_update cs st"
    "cy_events st' = cy_events
       (fold (\<lambda>(_, c). send_event \<lparr>ev_action = StopObserving, ev_container = c\<rparr>) (stopped_of cs st)
       (fold (\<lambda>(_, c). send_event \<lparr>ev_action = StartObserving, ev_container = c\<rparr>) (started_of cs st)
         (st\<lparr>cy_observed := observed_of_update cs st\<rparr>)))"
    using r by (auto simp: request_containers_info_update_def split: prod.splits)
qed

lemma kept_get:
  assumes "hm_wf (cy_observed st)"
  shows "hm_wf (kept_of cs st)" "hm_get (kept_of cs st) k = (case hm_get (cy_observed st) k of None \<Rightarrow> None
      | Some v \<Rightarrow> if hm_get (running_map cs) k \<noteq> None then Some v else None)"
  using hm_get_filter [OF assms] assms
  by (simp_all add: kept_of_def hm_contains_get split: option.split)

lemma running_wf: "hm_wf (running_map cs)"
  by (simp add: running_map_def)

lemma started_get:
  "hm_wf (started_of cs st)" "hm_get (started_of cs st) k = (case hm_get (running_map cs) k of None \<Rightarrow> None
      | Some v \<Rightarrow> if hm_get (kept_of cs st) k = None then Some v else None)"
  using hm_get_filter [OF running_wf] running_wf
  by (simp_all add: started_of_def hm_contains_get split: option.split)

lemma map_of_rev_wf: "hm_wf m \<Longrightarrow> map_of (rev m) = hm_get m"
  using hm_get_collect_distinct [of m] by (simp add: hm_wf_def)

lemma updated_observed_get:
  assumes "hm_wf (cy_observed st)"
  shows "hm_wf (observed_of_update cs st)"
    "hm_get (observed_of_update cs st) k =
    (case hm_get (running_map cs) k of None \<Rightarrow> None
     | Some c \<Rightarrow> Some (case hm_get (cy_observed st) k of None \<Rightarrow> c | Some old \<Rightarrow> old))"
proof -
  show "hm_wf (observed_of_update cs st)"
    unfolding observed_of_update_def by (rule hm_wf_fold) (rule kept_get(1) [OF assms])
  show "hm_get (observed_of_update cs st) k =
    (case hm_get (running_map cs) k of None \<Rightarrow> None
     | Some c \<Rightarrow> Some (case hm_get (cy_observed st) k of None \<Rightarrow> c | Some old \<Rightarrow> old))"
    by (auto simp: observed_of_update_def hm_get_fold map_of_rev_wf started_get kept_get(2) [OF assms]
        map_add_def split: option.splits)
qed

lemma running_map_domain: "hm_get (running_map cs) k \<noteq> None \<longleftrightarrow> k \<in> oc_full_id ` set cs"
  by (auto simp: running_map_def map_of_eq_None_iff image_iff)

lemma hm_keys: "k \<in> fst ` set m \<longleftrightarrow> hm_get m k \<noteq> None"
  by (simp add: map_of_eq_None_iff)

text \<open>
  After a successful update the observed map holds exactly the running containers, each as it was
  when its observation began.
\<close>

theorem update_observes_running:
  assumes "update_observed_containers_now listed st = (st', Inr ())" "cy_connected st"
    and "list_running_containers listed = Inr cs" "observed_inv st"
  shows "observed_inv st' \<and>
    hm_get (cy_observed st') k = (case hm_get (running_map cs) k of None \<Rightarrow> None
      | Some c \<Rightarrow> Some (case hm_get (cy_observed st) k of None \<Rightarrow> c | Some old \<Rightarrow> old)) \<and>
    fst ` set (cy_observed st') = oc_full_id ` set cs"
proof -
  have wf: "hm_wf (cy_observed st)" using assms(4) by (simp add: observed_inv_def)
  note obs = update_observed_parts(1) [OF assms(1-3)]
  note get = updated_observed_get(2) [OF wf, of cs, folded obs]
  have wf': "hm_wf (cy_observed st')" unfolding obs by (rule updated_observed_get(1) [OF wf])
  have old: "oc_full_id c = k" if "hm_get (cy_observed st) k = Some c" for k c
    using that assms(4) hm_get_in_set [OF wf, of k c] by (auto simp: observed_inv_def)
  have "oc_full_id c = k" if "(k, c) \<in> set (cy_observed st')" for k c
    using that get [of k] old [of k] running_map_key [of cs k]
    by (auto simp: hm_get_in_set [OF wf'] split: option.splits)
  then have "observed_inv st'" using wf' by (auto simp: observed_inv_def)
  moreover have "k \<in> fst ` set (cy_observed st') \<longleftrightarrow> k \<in> oc_full_id ` set cs" for k
    unfolding hm_keys running_map_domain [symmetric] using get [of k] by (auto split: option.splits)
  ultimately show ?thesis using get by blast
qed

lemma apply_starts:
  "fold (\<lambda>(_, c). apply_event \<lparr>ev_action = StartObserving, ev_container = c\<rparr>) cs m =
    m ++ map_of (rev (map (\<lambda>(_, c). (oc_full_id c, c)) cs))"
  by (induction cs arbitrary: m) (auto simp: apply_event_def map_add_def fun_eq_iff split: option.splits)

lemma apply_stops:
  "fold (\<lambda>(_, c). apply_event \<lparr>ev_action = StopObserving, ev_container = c\<rparr>) cs m =
    (\<lambda>k. if k \<in> oc_full_id ` snd ` set cs then None else m k)"
  by (induction cs arbitrary: m) (auto simp: apply_event_def fun_eq_iff)

text \<open>
  C25. The event stream is a faithful log: when the channel has room, a consumer that holds the
  observed map and applies the events of an update holds the new observed map.
\<close>

theorem events_replay_update:
  assumes "update_observed_containers_now listed st = (st', Inr ())" "cy_connected st"
    and "list_running_containers listed = Inr cs" "observed_inv st" "\<not> cy_events_closed st"
    and "length (cy_events st) + length (cy_observed st) + length cs \<le> cy_events_capacity st"
  shows "\<exists>es. cy_events st' = cy_events st @ es \<and>
    fold apply_event es (hm_get (cy_observed st)) = hm_get (cy_observed st')"
proof -
  let ?es = "map (\<lambda>(_, c). \<lparr>ev_action = StartObserving, ev_container = c\<rparr>) (started_of cs st)
    @ map (\<lambda>(_, c). \<lparr>ev_action = StopObserving, ev_container = c\<rparr>) (stopped_of cs st)"
  have wf: "hm_wf (cy_observed st)" using assms(4) by (simp add: observed_inv_def)
  have len: "length (stopped_of cs st) \<le> length (cy_observed st)" "length (started_of cs st) \<le> length cs"
  proof -
    show "length (stopped_of cs st) \<le> length (cy_observed st)" by (simp add: stopped_of_def)
    have "length (running_map cs) = card (set (map fst (running_map cs)))"
      using distinct_card running_wf [of cs] by (metis hm_wf_def length_map)
    also have "set (map fst (running_map cs)) = oc_full_id ` set cs"
      using hm_keys [of _ "running_map cs"] running_map_domain [of cs] by auto
    also have "card \<dots> \<le> length cs" by (metis card_image_le card_length finite_set le_trans)
    finally show "length (started_of cs st) \<le> length cs"
      using length_filter_le order_trans unfolding started_of_def by blast
  qed
  have es: "cy_events st' = cy_events st @ ?es"
    unfolding update_observed_parts(2) [OF assms(1-3)] using assms(5,6) len by (simp add: send_events_room)
  have sk: "oc_full_id c = k" if "(k, c) \<in> set (started_of cs st)" for k c
    using that running_map_key [of cs k c] by (auto simp: started_of_def hm_get_in_set [OF running_wf])
  have start_map: "map (\<lambda>(_, c). (oc_full_id c, c)) (started_of cs st) = started_of cs st"
    using sk by (intro map_idI) auto
  have stop_keys: "oc_full_id ` snd ` set (stopped_of cs st) = fst ` set (stopped_of cs st)"
    using assms(4) by (force simp: stopped_of_def observed_inv_def image_iff)
  have stop: "k \<in> fst ` set (stopped_of cs st) \<longleftrightarrow> hm_get (cy_observed st) k \<noteq> None \<and> hm_get (running_map cs) k = None" for k
    unfolding hm_keys stopped_of_def using hm_get_filter [OF wf, of "\<lambda>(k, _). \<not> hm_contains (running_map cs) k" k]
    by (auto simp: hm_contains_get split: option.splits)
  have "fold apply_event ?es (hm_get (cy_observed st)) =
      (\<lambda>k. if k \<in> fst ` set (stopped_of cs st) then None
           else (hm_get (cy_observed st) ++ map_of (rev (started_of cs st))) k)"
    using apply_starts [of "started_of cs st"] apply_stops [of "stopped_of cs st"]
    by (simp add: fold_map comp_def case_prod_unfold start_map [unfolded case_prod_unfold] stop_keys)
  also have "\<dots> = hm_get (cy_observed st')"
    unfolding update_observed_parts(1) [OF assms(1-3)]
    by (rule ext) (auto simp: stop map_of_rev_wf started_get kept_get(2) [OF wf] updated_observed_get(2) [OF wf]
        map_add_def split: option.splits)
  finally show ?thesis using es by blast
qed


definition one_running :: "docker_summary list docker_call" where
  "one_running = Inr (Inr [example_summary])"

lemma one_running_listed: "list_running_containers one_running = Inr [observed_of example_summary]"
  by (simp add: one_running_def list_running_containers_def docker_answer_def)

lemma first_update: "\<exists>st'. update_observed_containers_now one_running (container_registry_new 8 True) = (st', Inr ())"
proof -
  have r: "cy_info_request st = Some False \<Longrightarrow> \<exists>st'. request_containers_info_update st = (st', Inr ())" for st
    by (simp add: request_containers_info_update_def try_request_def)
  show ?thesis
    by (simp add: update_observed_containers_now_def container_registry_new_def one_running_listed Let_def)
      (rule r, simp)
qed

lemma first_inv: "observed_inv (container_registry_new 8 True)"
  by (simp add: observed_inv_def container_registry_new_def)

theorem update_observes_running_witness:
  "\<exists>st'. update_observed_containers_now one_running (container_registry_new 8 True) = (st', Inr ()) \<and>
    hm_get (cy_observed st') ''aabbccddeeff0011'' = Some (observed_of example_summary)"
proof -
  obtain st' where u: "update_observed_containers_now one_running (container_registry_new 8 True) = (st', Inr ())"
    using first_update by blast
  have c: "cy_connected (container_registry_new 8 True)" by (simp add: container_registry_new_def)
  have k: "oc_full_id (observed_of example_summary) = ''aabbccddeeff0011''"
    by (simp add: observed_of_def example_summary_def unwrap_or_def Let_def)
  show ?thesis
    using update_observes_running [OF u c one_running_listed first_inv, of "''aabbccddeeff0011''"] u
    by (simp add: running_map_def k container_registry_new_def)
qed

theorem events_replay_update_witness:
  "\<exists>st' es. update_observed_containers_now one_running (container_registry_new 8 True) = (st', Inr ()) \<and>
    cy_events st' = es \<and> fold apply_event es Map.empty = hm_get (cy_observed st')"
proof -
  obtain st' where u: "update_observed_containers_now one_running (container_registry_new 8 True) = (st', Inr ())"
    using first_update by blast
  let ?st = "container_registry_new 8 True"
  have c: "cy_connected ?st" "\<not> cy_events_closed ?st"
    "length (cy_events ?st) + length (cy_observed ?st) + length [observed_of example_summary] \<le> cy_events_capacity ?st"
    by (simp_all add: container_registry_new_def)
  show ?thesis
    using events_replay_update [OF u c(1) one_running_listed first_inv c(2,3)] u
    by (auto simp: container_registry_new_def)
qed

section \<open>No request is lost\<close>

text \<open>
  The states of a worker and its channel, with the mark of a request that was accepted after the last
  listing began.
\<close>

inductive worker_reach :: "bool \<Rightarrow> worker_phase \<Rightarrow> bool \<Rightarrow> bool" where
  worker_start: "worker_reach False Waiting False"
| worker_requested: "worker_reach slot phase dirty \<Longrightarrow> fst (try_request what (Some slot)) = Some slot'
    \<Longrightarrow> worker_reach slot' phase True"
| worker_received: "worker_reach slot phase dirty \<Longrightarrow> worker_recv slot phase = Some (slot', phase')
    \<Longrightarrow> worker_reach slot' phase' dirty"
| worker_drained: "worker_reach slot phase dirty \<Longrightarrow> worker_drain slot phase = Some (slot', phase')
    \<Longrightarrow> worker_reach slot' phase' False"
| worker_finished: "worker_reach slot phase dirty \<Longrightarrow> worker_done slot phase = Some (slot', phase')
    \<Longrightarrow> worker_reach slot' phase' dirty"

lemma worker_pending: "worker_reach slot phase dirty \<Longrightarrow> dirty \<Longrightarrow> slot \<or> phase = Debouncing"
  by (induction rule: worker_reach.induct)
    (auto simp: try_request_def worker_recv_def worker_drain_def worker_done_def split: if_splits)

text \<open>The step that the worker takes by itself.\<close>

definition worker_step :: "bool \<times> worker_phase \<Rightarrow> bool \<times> worker_phase" where
  "worker_step = (\<lambda>(slot, phase). case worker_done slot phase of Some w \<Rightarrow> w
     | None \<Rightarrow> (case worker_drain slot phase of Some w \<Rightarrow> w
       | None \<Rightarrow> (case worker_recv slot phase of Some w \<Rightarrow> w | None \<Rightarrow> (slot, phase))))"

text \<open>
  C26. Coalescing loses no request: from every reachable state in which a request came after the last
  listing began, the worker begins another listing within three steps.
\<close>

theorem request_reaches_update:
  assumes "worker_reach slot phase True"
  shows "\<exists>n. 0 < n \<and> n \<le> 3 \<and> (worker_step ^^ n) (slot, phase) = (False, Updating)"
proof -
  have 1: "worker_step (slot, Debouncing) = (False, Updating)" for slot
    by (simp add: worker_step_def worker_done_def worker_drain_def)
  have 2: "worker_step (True, Waiting) = (False, Debouncing)"
    by (simp add: worker_step_def worker_done_def worker_drain_def worker_recv_def)
  have 3: "worker_step (slot, Updating) = (slot, Waiting)" for slot
    by (simp add: worker_step_def worker_done_def)
  from worker_pending [OF assms] consider "phase = Debouncing" | "slot" "phase = Waiting" | "slot" "phase = Updating"
    by (cases phase) auto
  then show ?thesis
  proof cases
    case 1
    then show ?thesis using \<open>\<And>slot. worker_step (slot, Debouncing) = (False, Updating)\<close>
      by (intro exI [of _ 1]) simp
  next
    case 2
    then show ?thesis using 1 \<open>worker_step (True, Waiting) = (False, Debouncing)\<close>
      by (intro exI [of _ 2]) (simp add: numeral_2_eq_2)
  next
    case 3
    then show ?thesis using 1 2 \<open>\<And>slot. worker_step (slot, Updating) = (slot, Waiting)\<close>
      by (intro exI [of _ 3]) (simp add: numeral_3_eq_3)
  qed
qed

theorem request_reaches_update_witness:
  "worker_reach True Updating True \<and>
    (\<exists>n. 0 < n \<and> n \<le> 3 \<and> (worker_step ^^ n) (True, Updating) = (False, Updating))"
proof -
  have "worker_reach True Waiting True"
    by (rule worker_requested [OF worker_start]) (simp add: try_request_def)
  then have "worker_reach False Debouncing True"
    by (rule worker_received) (simp add: worker_recv_def)
  then have "worker_reach False Updating False"
    by (rule worker_drained) (simp add: worker_drain_def)
  then have "worker_reach True Updating True"
    by (rule worker_requested) (simp add: try_request_def)
  then show ?thesis using request_reaches_update by blast
qed

end
