(* ===== verification/Metadata.thy ===== *)
theory Metadata
  imports Metrics_Schema
begin

text \<open>
  \<open>metadata/mod.rs\<close>: the dictionary of service names and the log checkpoints of \<open>metadata.db\<close>. As
  in \<open>Metrics_Schema\<close> a table is the list of its rows, a statement is atomic, and the outcomes of the
  statements to come are part of the state. SQLite's AUTOINCREMENT promises an id larger than every
  id the table ever had and may skip some: the state also lists the gaps to come.
\<close>

record log_checkpoint =
  lc_ts :: i64
  lc_line_hash :: u64

record log_checkpoint_entry =
  le_sid :: service_id
  le_cid :: container_id
  le_checkpoint :: log_checkpoint

record service_row =
  sr_sid :: int
  sr_name :: string
  sr_last_seen_ms :: i64

record checkpoint_row =
  kr_sid :: int
  kr_cid :: "u8 list"
  kr_ts :: i64
  kr_line_hash :: int

record metadata_db =
  md_services :: "service_row list"
  md_checkpoints :: "checkpoint_row list"
  md_sequence :: nat
  md_gaps :: "nat list"
  md_faults :: "string option list"

definition empty_metadata :: metadata_db where
  "empty_metadata =
     \<lparr>md_services = [], md_checkpoints = [], md_sequence = 0, md_gaps = [], md_faults = []\<rparr>"

definition md_next :: "metadata_db \<Rightarrow> string option \<times> metadata_db" where
  "md_next db = (case md_faults db of [] \<Rightarrow> (None, db) | f # fs \<Rightarrow> (f, db\<lparr>md_faults := fs\<rparr>))"

definition sid_int :: "service_id \<Rightarrow> int" where
  "sid_int sid = uint (as_u32 sid)"

definition encode_hash :: "u64 \<Rightarrow> int" where
  "encode_hash v = sint v"

definition decode_hash :: "int \<Rightarrow> u64" where
  "decode_hash v = word_of_int v"

text \<open>\<open>INSERT ... ON CONFLICT(name) DO UPDATE ... RETURNING sid\<close>.\<close>

definition resolve_service :: "metadata_db \<Rightarrow> string \<Rightarrow> i64 \<Rightarrow> metadata_db \<times> service_id app_result" where
  "resolve_service db name now =
     (case md_next db of (Some m, db1) \<Rightarrow> (db1, Inl (Storage m))
      | (None, db1) \<Rightarrow>
          (case find (\<lambda>r. sr_name r = name) (md_services db1) of
             Some row \<Rightarrow>
               (db1\<lparr>md_services := map (\<lambda>r. if sr_name r = name
                    then r\<lparr>sr_last_seen_ms := max (sr_last_seen_ms r) now\<rparr> else r) (md_services db1)\<rparr>,
                stored_service_id (sr_sid row))
           | None \<Rightarrow>
               let sid = md_sequence db1 + 1 + (case md_gaps db1 of [] \<Rightarrow> 0 | g # _ \<Rightarrow> g) in
               (db1\<lparr>md_services := md_services db1 @
                      [\<lparr>sr_sid = int sid, sr_name = name, sr_last_seen_ms = now\<rparr>],
                    md_sequence := sid, md_gaps := tl (md_gaps db1)\<rparr>,
                stored_service_id (int sid))))"

definition list_services :: "metadata_db \<Rightarrow> metadata_db \<times> (service_id \<times> string) list app_result" where
  "list_services db =
     (case md_next db of (Some m, db1) \<Rightarrow> (db1, Inl (Storage m))
      | (None, db1) \<Rightarrow> (db1, collect_results (map (\<lambda>r.
          and_then (stored_service_id (sr_sid r)) (\<lambda>sid. Inr (sid, sr_name r))) (md_services db1))))"

definition touch_service :: "metadata_db \<Rightarrow> service_id \<Rightarrow> i64 \<Rightarrow> metadata_db \<times> unit app_result" where
  "touch_service db sid now =
     (case md_next db of (Some m, db1) \<Rightarrow> (db1, Inl (Storage m))
      | (None, db1) \<Rightarrow>
          (db1\<lparr>md_services := map (\<lambda>r. if sr_sid r = sid_int sid \<and> sr_last_seen_ms r < now
                then r\<lparr>sr_last_seen_ms := now\<rparr> else r) (md_services db1)\<rparr>, Inr ()))"

definition delete_services_before ::
    "metadata_db \<Rightarrow> i64 \<Rightarrow> metadata_db \<times> service_id list app_result" where
  "delete_services_before db cutoff =
     (case md_next db of (Some m, db1) \<Rightarrow> (db1, Inl (Storage m))
      | (None, db1) \<Rightarrow>
          (db1\<lparr>md_services := filter (\<lambda>r. \<not> sr_last_seen_ms r < cutoff) (md_services db1)\<rparr>,
           collect_results (map (\<lambda>r. stored_service_id (sr_sid r))
             (filter (\<lambda>r. sr_last_seen_ms r < cutoff) (md_services db1)))))"

definition checkpoint_key :: "checkpoint_row \<Rightarrow> int \<times> u8 list" where
  "checkpoint_key r = (kr_sid r, kr_cid r)"

definition advance_log_checkpoint ::
    "metadata_db \<Rightarrow> service_id \<Rightarrow> container_id \<Rightarrow> log_checkpoint \<Rightarrow> metadata_db \<times> unit app_result" where
  "advance_log_checkpoint db sid cid cp =
     (case md_next db of (Some m, db1) \<Rightarrow> (db1, Inl (Storage m))
      | (None, db1) \<Rightarrow>
          let row = \<lparr>kr_sid = sid_int sid, kr_cid = as_bytes cid, kr_ts = lc_ts cp,
                     kr_line_hash = encode_hash (lc_line_hash cp)\<rparr> in
          (db1\<lparr>md_checkpoints :=
             (if checkpoint_key row \<in> checkpoint_key ` set (md_checkpoints db1)
              then map (\<lambda>r. if checkpoint_key r = checkpoint_key row \<and> kr_ts r \<le> kr_ts row
                     then r\<lparr>kr_ts := kr_ts row, kr_line_hash := kr_line_hash row\<rparr> else r)
                   (md_checkpoints db1)
              else md_checkpoints db1 @ [row])\<rparr>, Inr ()))"

definition row_checkpoint :: "checkpoint_row \<Rightarrow> log_checkpoint" where
  "row_checkpoint r = \<lparr>lc_ts = kr_ts r, lc_line_hash = decode_hash (kr_line_hash r)\<rparr>"

definition load_log_checkpoint ::
    "metadata_db \<Rightarrow> service_id \<Rightarrow> container_id \<Rightarrow> metadata_db \<times> log_checkpoint option app_result" where
  "load_log_checkpoint db sid cid =
     (case md_next db of (Some m, db1) \<Rightarrow> (db1, Inl (Storage m))
      | (None, db1) \<Rightarrow> (db1, Inr (map_option row_checkpoint
          (find (\<lambda>r. checkpoint_key r = (sid_int sid, as_bytes cid)) (md_checkpoints db1)))))"

text \<open>\<open>SELECT sid, MAX(ts) ... GROUP BY sid\<close>; the ordered map is the list in the order of its keys.\<close>

definition list_service_log_watermarks ::
    "metadata_db \<Rightarrow> metadata_db \<times> (service_id \<times> i64) list app_result" where
  "list_service_log_watermarks db =
     (case md_next db of (Some m, db1) \<Rightarrow> (db1, Inl (Storage m))
      | (None, db1) \<Rightarrow>
          (let rows = md_checkpoints db1 in
           (db1, collect_results (map (\<lambda>sid.
              and_then (stored_service_id sid) (\<lambda>s.
                Inr (s, the (list_max (map kr_ts (filter (\<lambda>r. kr_sid r = sid) rows))))))
              (sort (remdups (map kr_sid rows)))))))"

text \<open>Rows that do not convert are skipped.\<close>

definition list_log_checkpoints ::
    "metadata_db \<Rightarrow> metadata_db \<times> log_checkpoint_entry list app_result" where
  "list_log_checkpoints db =
     (case md_next db of (Some m, db1) \<Rightarrow> (db1, Inl (Storage m))
      | (None, db1) \<Rightarrow> (db1, Inr (List.map_filter (\<lambda>r.
          (case from_bytes (kr_cid r) of None \<Rightarrow> None
           | Some cid \<Rightarrow> (case stored_service_id (kr_sid r) of Inl _ \<Rightarrow> None
             | Inr sid \<Rightarrow> Some \<lparr>le_sid = sid, le_cid = cid, le_checkpoint = row_checkpoint r\<rparr>)))
          (md_checkpoints db1))))"

definition delete_checkpoints_before :: "metadata_db \<Rightarrow> i64 \<Rightarrow> metadata_db \<times> nat app_result" where
  "delete_checkpoints_before db cutoff =
     (case md_next db of (Some m, db1) \<Rightarrow> (db1, Inl (Storage m))
      | (None, db1) \<Rightarrow>
          (db1\<lparr>md_checkpoints := filter (\<lambda>r. \<not> kr_ts r < cutoff) (md_checkpoints db1)\<rparr>,
           Inr (length (filter (\<lambda>r. kr_ts r < cutoff) (md_checkpoints db1)))))"

section \<open>Facts\<close>

lemma hash_roundtrip [simp]: "decode_hash (encode_hash v) = v"
  by (simp add: decode_hash_def encode_hash_def)

lemma md_next_tables:
  "md_next db = (f, db1) \<Longrightarrow> md_services db1 = md_services db \<and> md_checkpoints db1 = md_checkpoints db \<and>
     md_sequence db1 = md_sequence db"
  by (auto simp: md_next_def split: list.splits)

lemma stored_sid_int [simp]: "stored_service_id (sid_int sid) = Inr sid"
  by (simp add: sid_int_def stored_service_id_roundtrip)

lemma stored_sid_Inr: "stored_service_id v = Inr sid \<longleftrightarrow> v = sid_int sid"
proof
  assume "stored_service_id v = Inr sid"
  then have "0 \<le> v" "v < 2 ^ 32" "sid = ServiceId (word_of_int v)"
    by (auto simp: stored_service_id_def split: if_splits)
  then show "v = sid_int sid" by (simp add: sid_int_def unsigned_of_int take_bit_int_eq_self del: of_int_uint)
qed simp

lemma sid_int_inj [simp]: "sid_int a = sid_int b \<longleftrightarrow> a = b"
  using stored_sid_int [of a] stored_sid_int [of b] by (metis sum.inject(2))

section \<open>Checkpoints only move forward\<close>

definition checkpoint_of :: "metadata_db \<Rightarrow> service_id \<Rightarrow> container_id \<Rightarrow> log_checkpoint option" where
  "checkpoint_of db sid cid = map_option row_checkpoint
     (find (\<lambda>r. checkpoint_key r = (sid_int sid, as_bytes cid)) (md_checkpoints db))"

lemma find_map_update:
  assumes "\<And>r. P (f r) = P r"
  shows "find P (map f rs) = map_option f (find P rs)"
  using assms by (induction rs) auto

lemma find_None_key: "key \<notin> checkpoint_key ` set rs \<longleftrightarrow> find (\<lambda>r. checkpoint_key r = key) rs = None"
  by (auto simp: find_None_iff)

lemma checkpoint_of_advance:
  assumes "advance_log_checkpoint db sid cid cp = (db', Inr ())"
  shows "checkpoint_of db' s c =
    (if s = sid \<and> c = cid
     then (case checkpoint_of db sid cid of None \<Rightarrow> Some cp
           | Some old \<Rightarrow> Some (if lc_ts old \<le> lc_ts cp then cp else old))
     else checkpoint_of db s c)"
proof -
  define key where "key = (sid_int sid, as_bytes cid)"
  define row where "row = \<lparr>kr_sid = sid_int sid, kr_cid = as_bytes cid, kr_ts = lc_ts cp,
      kr_line_hash = encode_hash (lc_line_hash cp)\<rparr>"
  define upd where "upd = (\<lambda>r. if checkpoint_key r = checkpoint_key row \<and> kr_ts r \<le> kr_ts row
      then r\<lparr>kr_ts := kr_ts row, kr_line_hash := kr_line_hash row\<rparr> else r)"
  have row: "checkpoint_key row = key" "row_checkpoint row = cp" "kr_ts row = lc_ts cp"
    by (simp_all add: row_def key_def checkpoint_key_def row_checkpoint_def)
  have upd: "checkpoint_key (upd r) = checkpoint_key r"
    "row_checkpoint (upd r) = (if checkpoint_key r = key \<and> kr_ts r \<le> lc_ts cp then cp else row_checkpoint r)"
    "lc_ts (row_checkpoint r) = kr_ts r" for r
    by (auto simp: upd_def row(1) row(3)) (auto simp: checkpoint_key_def row_checkpoint_def row_def)
  have rows: "md_checkpoints db' = (if key \<in> checkpoint_key ` set (md_checkpoints db)
      then map upd (md_checkpoints db) else md_checkpoints db @ [row])"
    using assms row(1)
    by (auto simp: advance_log_checkpoint_def row_def [symmetric] upd_def Let_def
        dest!: md_next_tables split: prod.splits option.splits)
  have other: "(sid_int s, as_bytes c) = key \<longleftrightarrow> s = sid \<and> c = cid"
    by (auto simp: key_def as_bytes_inj)
  show ?thesis
  proof (cases "key \<in> checkpoint_key ` set (md_checkpoints db)")
    case True
    then obtain r where r: "find (\<lambda>r. checkpoint_key r = key) (md_checkpoints db) = Some r"
      using find_None_key [of key] by auto
    then have k: "checkpoint_key r = key" by (auto simp: find_Some_iff)
    have "checkpoint_of db' s c = map_option (row_checkpoint \<circ> upd)
        (find (\<lambda>r. checkpoint_key r = (sid_int s, as_bytes c)) (md_checkpoints db))"
      using True by (simp add: checkpoint_of_def rows find_map_update upd(1) option.map_comp)
    show ?thesis
    proof (cases "(sid_int s, as_bytes c) = key")
      case same: True
      then show ?thesis
        using \<open>checkpoint_of db' s c = _\<close> r k other upd(2,3) by (simp add: checkpoint_of_def key_def [symmetric])
    next
      case diff: False
      have "row_checkpoint (upd q) = row_checkpoint q"
        if "find (\<lambda>r. checkpoint_key r = (sid_int s, as_bytes c)) (md_checkpoints db) = Some q" for q
      proof -
        have "checkpoint_key q \<noteq> key" using that diff by (auto simp: find_Some_iff)
        then show ?thesis by (simp add: upd(2))
      qed
      then show ?thesis
        using \<open>checkpoint_of db' s c = _\<close> diff other
        by (cases "find (\<lambda>r. checkpoint_key r = (sid_int s, as_bytes c)) (md_checkpoints db)")
          (auto simp: checkpoint_of_def)
    qed
  next
    case False
    then have n: "find (\<lambda>r. checkpoint_key r = key) (md_checkpoints db) = None"
      using find_None_key by blast
    have "find P (xs @ [row]) = (case find P xs of None \<Rightarrow> if P row then Some row else None | Some r \<Rightarrow> Some r)"
      for P xs by (induction xs) auto
    then show ?thesis
      using n other row
      by (auto simp: checkpoint_of_def rows False key_def [symmetric] split: option.splits)
  qed
qed

text \<open>
  C17. A log checkpoint never goes back and never affects another container: after a successful
  advance the container's checkpoint is the new one, hash included, unless the stored one is newer.
\<close>

theorem checkpoint_moves_forward:
  assumes "advance_log_checkpoint db sid cid cp = (db', Inr ())"
    "load_log_checkpoint db' s c = (db'', Inr loaded)"
  shows "loaded =
    (if s = sid \<and> c = cid
     then (case checkpoint_of db sid cid of None \<Rightarrow> Some cp
           | Some old \<Rightarrow> Some (if lc_ts old \<le> lc_ts cp then cp else old))
     else checkpoint_of db s c)"
proof -
  have "loaded = checkpoint_of db' s c"
    using assms(2) by (auto simp: load_log_checkpoint_def checkpoint_of_def dest!: md_next_tables
        split: prod.splits option.splits)
  then show ?thesis using checkpoint_of_advance [OF assms(1)] by simp
qed

theorem checkpoint_moves_forward_witness:
  "\<exists>db. advance_log_checkpoint empty_metadata (ServiceId 3) (ContainerId 1 2 3 4 5 6)
      \<lparr>lc_ts = 70, lc_line_hash = - 1\<rparr> = (db, Inr ()) \<and>
    snd (load_log_checkpoint db (ServiceId 3) (ContainerId 1 2 3 4 5 6))
      = Inr (Some \<lparr>lc_ts = 70, lc_line_hash = - 1\<rparr>)"
proof -
  obtain db where a: "advance_log_checkpoint empty_metadata (ServiceId 3) (ContainerId 1 2 3 4 5 6)
      \<lparr>lc_ts = 70, lc_line_hash = - 1\<rparr> = (db, Inr ())" and f: "md_faults db = []"
    by (simp add: advance_log_checkpoint_def empty_metadata_def md_next_def)
  obtain db2 loaded where l: "load_log_checkpoint db (ServiceId 3) (ContainerId 1 2 3 4 5 6) = (db2, Inr loaded)"
    using f by (simp add: load_log_checkpoint_def md_next_def)
  from checkpoint_moves_forward [OF a l] show ?thesis
    using a l by (auto simp: checkpoint_of_def empty_metadata_def)
qed

end
