(* ===== verification/Service_Registry.thy ===== *)
theory Service_Registry
  imports Metadata
begin

text \<open>
  \<open>metadata/service_registry.rs\<close>: the in-memory cache over the dictionary of service names. The
  registry talks to its store through a trait object, so its operations take the store's operations
  as an argument, and what it relies on is the locale \<open>service_store\<close>, interpreted on the SQLite
  store of \<open>Metadata\<close>. The reclamation lock makes a resolution and a reclamation atomic; the
  unlocked first look of \<open>id_of\<close> is a resolution that ends at once.
\<close>

definition touch_interval_ms :: int where
  "touch_interval_ms = 60 * 60 * 1000"

definition max_watermark_lag_ms :: int where
  "max_watermark_lag_ms = touch_interval_ms"

record 'db store_ops =
  so_resolve :: "'db \<Rightarrow> string \<Rightarrow> i64 \<Rightarrow> 'db \<times> service_id app_result"
  so_list :: "'db \<Rightarrow> 'db \<times> (service_id \<times> string) list app_result"
  so_touch :: "'db \<Rightarrow> service_id \<Rightarrow> i64 \<Rightarrow> 'db \<times> unit app_result"
  so_delete :: "'db \<Rightarrow> i64 \<Rightarrow> 'db \<times> service_id list app_result"

record service_registry =
  rg_by_name :: "(string, service_id) hash_map"
  rg_by_id :: "(service_id, string) hash_map"
  rg_touched_ms :: "(service_id, i64) hash_map"

definition registry_empty :: service_registry where
  "registry_empty = \<lparr>rg_by_name = [], rg_by_id = [], rg_touched_ms = []\<rparr>"

definition registry_load :: "'db store_ops \<Rightarrow> 'db \<Rightarrow> 'db \<times> service_registry app_result" where
  "registry_load ops db =
     (case so_list ops db of (db1, Inl e) \<Rightarrow> (db1, Inl e)
      | (db1, Inr services) \<Rightarrow>
          (db1, Inr (foldl (\<lambda>rg (sid, name).
             rg\<lparr>rg_by_name := hm_insert name sid (rg_by_name rg),
                rg_by_id := hm_insert sid name (rg_by_id rg)\<rparr>) registry_empty services)))"

definition cached_id :: "service_registry \<Rightarrow> string \<Rightarrow> service_id option" where
  "cached_id rg name = hm_get (rg_by_name rg) name"

definition fresh_cached_id :: "service_registry \<Rightarrow> string \<Rightarrow> i64 \<Rightarrow> service_id option" where
  "fresh_cached_id rg name now =
     (case hm_get (rg_by_name rg) name of None \<Rightarrow> None
      | Some sid \<Rightarrow> (case hm_get (rg_touched_ms rg) sid of None \<Rightarrow> None
        | Some last_ts \<Rightarrow> if i64_wrap (now - last_ts) < touch_interval_ms then Some sid else None))"

definition registry_touch ::
    "'db store_ops \<Rightarrow> service_registry \<times> 'db \<Rightarrow> service_id \<Rightarrow> i64
      \<Rightarrow> (service_registry \<times> 'db) \<times> unit app_result" where
  "registry_touch ops st sid now =
     (let (rg, db) = st in
      if (case hm_get (rg_touched_ms rg) sid of None \<Rightarrow> False
          | Some last_ts \<Rightarrow> i64_wrap (now - last_ts) < touch_interval_ms)
      then ((rg, db), Inr ())
      else let rg1 = rg\<lparr>rg_touched_ms := hm_insert sid now (rg_touched_ms rg)\<rparr>;
               (db1, res) = so_touch ops db sid now
           in ((rg1, db1), res))"

definition id_of ::
    "'db store_ops \<Rightarrow> service_registry \<times> 'db \<Rightarrow> string \<Rightarrow> i64
      \<Rightarrow> (service_registry \<times> 'db) \<times> service_id app_result" where
  "id_of ops st name now =
     (let (rg, db) = st in
      case fresh_cached_id rg name now of Some sid \<Rightarrow> (st, Inr sid)
      | None \<Rightarrow> (case cached_id rg name of
          Some sid \<Rightarrow>
            (case registry_touch ops st sid now of
               (st1, Inl e) \<Rightarrow> (st1, Inl e) | (st1, Inr _) \<Rightarrow> (st1, Inr sid))
        | None \<Rightarrow>
            (case so_resolve ops db name now of
               (db1, Inl e) \<Rightarrow> ((rg, db1), Inl e)
             | (db1, Inr sid) \<Rightarrow>
                 ((rg\<lparr>rg_by_name := hm_insert name sid (rg_by_name rg),
                      rg_by_id := hm_insert sid name (rg_by_id rg),
                      rg_touched_ms := hm_insert sid now (rg_touched_ms rg)\<rparr>, db1), Inr sid))))"

definition registry_name :: "service_registry \<Rightarrow> service_id \<Rightarrow> string option" where
  "registry_name rg sid = hm_get (rg_by_id rg) sid"

definition forget_one :: "service_registry \<Rightarrow> service_id \<Rightarrow> service_registry" where
  "forget_one rg sid =
     (let rg1 = (case hm_get (rg_by_id rg) sid of None \<Rightarrow> rg
                 | Some name \<Rightarrow> rg\<lparr>rg_by_id := hm_remove sid (rg_by_id rg),
                                   rg_by_name := hm_remove name (rg_by_name rg)\<rparr>)
      in rg1\<lparr>rg_touched_ms := hm_remove sid (rg_touched_ms rg1)\<rparr>)"

definition forget :: "service_registry \<Rightarrow> service_id list \<Rightarrow> service_registry" where
  "forget rg sids = foldl forget_one rg sids"

definition reclaim_before ::
    "'db store_ops \<Rightarrow> service_registry \<times> 'db \<Rightarrow> i64
      \<Rightarrow> (service_registry \<times> 'db) \<times> service_id list app_result" where
  "reclaim_before ops st cutoff =
     (let (rg, db) = st in
      case so_delete ops db cutoff of
        (db1, Inl e) \<Rightarrow> ((rg, db1), Inl e)
      | (db1, Inr sids) \<Rightarrow> ((forget rg sids, db1), Inr sids))"

section \<open>The life of a registry\<close>

text \<open>
  The states that a registry and its store go through, over any number of restarts, with every pair
  of a name and an id that a resolution ever returned.
\<close>

inductive registry_reach ::
    "'db store_ops \<Rightarrow> 'db \<Rightarrow> service_registry \<times> 'db \<Rightarrow> (string \<times> service_id) set \<Rightarrow> bool"
  for ops db0 where
  registry_start: "registry_reach ops db0 (registry_empty, db0) {}"
| registry_restart: "registry_reach ops db0 (rg, db) H \<Longrightarrow> registry_load ops db = (db', Inr rg')
    \<Longrightarrow> registry_reach ops db0 (rg', db') H"
| registry_failed_restart: "registry_reach ops db0 (rg, db) H \<Longrightarrow> registry_load ops db = (db', Inl e)
    \<Longrightarrow> registry_reach ops db0 (registry_empty, db') H"
| registry_resolved: "registry_reach ops db0 st H \<Longrightarrow> id_of ops st name now = (st', Inr sid)
    \<Longrightarrow> registry_reach ops db0 st' (insert (name, sid) H)"
| registry_failed: "registry_reach ops db0 st H \<Longrightarrow> id_of ops st name now = (st', Inl e)
    \<Longrightarrow> registry_reach ops db0 st' H"
| registry_reclaimed: "registry_reach ops db0 st H \<Longrightarrow> reclaim_before ops st cutoff = (st', res)
    \<Longrightarrow> registry_reach ops db0 st' H"

text \<open>What the registry relies on: names and ids of the dictionary, and the ids never used.\<close>

locale service_store =
  fixes ops :: "'db store_ops"
    and ok :: "'db \<Rightarrow> bool"
    and view :: "'db \<Rightarrow> string \<Rightarrow> service_id option"
    and unused :: "'db \<Rightarrow> service_id set"
  assumes view_inj: "ok db \<Longrightarrow> view db n = Some s \<Longrightarrow> view db m = Some s \<Longrightarrow> n = m"
    and view_used: "ok db \<Longrightarrow> view db n = Some s \<Longrightarrow> s \<notin> unused db"
    and resolve_law: "ok db \<Longrightarrow> so_resolve ops db n now = (db', res) \<Longrightarrow>
      ok db' \<and> unused db' \<subseteq> unused db \<and> (\<forall>m. m \<noteq> n \<longrightarrow> view db' m = view db m) \<and>
      (\<forall>s. view db' n = Some s \<longrightarrow> view db n = Some s \<or> s \<in> unused db) \<and>
      (\<forall>s. res = Inr s \<longrightarrow> view db' n = Some s)"
    and touch_law: "ok db \<Longrightarrow> so_touch ops db s now = (db', res2) \<Longrightarrow>
      ok db' \<and> unused db' = unused db \<and> view db' = view db"
    and delete_law: "ok db \<Longrightarrow> so_delete ops db cutoff = (db', res3) \<Longrightarrow>
      ok db' \<and> unused db' = unused db \<and> (\<forall>n s. view db' n = Some s \<longrightarrow> view db n = Some s)"
    and list_law: "ok db \<Longrightarrow> so_list ops db = (db', res4) \<Longrightarrow>
      ok db' \<and> unused db' = unused db \<and> view db' = view db \<and>
      (\<forall>xs. res4 = Inr xs \<longrightarrow> (\<forall>(s, n)\<in>set xs. view db n = Some s))"
begin

text \<open>\<open>I\<close> holds every pair that the dictionary ever had.\<close>

definition issued_inv :: "service_registry \<Rightarrow> 'db \<Rightarrow> (string \<times> service_id) set \<Rightarrow> bool" where
  "issued_inv rg db I \<longleftrightarrow>
     ok db \<and> (\<forall>n s. view db n = Some s \<longrightarrow> (n, s) \<in> I) \<and>
     (\<forall>n s. hm_get (rg_by_name rg) n = Some s \<longrightarrow> (n, s) \<in> I \<and> hm_get (rg_by_id rg) s = Some n) \<and>
     (\<forall>n s. hm_get (rg_by_id rg) s = Some n \<longrightarrow> (n, s) \<in> I) \<and>
     (\<forall>n m s. (n, s) \<in> I \<longrightarrow> (m, s) \<in> I \<longrightarrow> n = m) \<and>
     (\<forall>n s. (n, s) \<in> I \<longrightarrow> s \<notin> unused db)"

lemma issued_invD:
  assumes "issued_inv rg db I"
  shows "ok db" "view db n = Some s \<Longrightarrow> (n, s) \<in> I"
    "hm_get (rg_by_name rg) n = Some s \<Longrightarrow> (n, s) \<in> I"
    "hm_get (rg_by_name rg) n = Some s \<Longrightarrow> hm_get (rg_by_id rg) s = Some n"
    "hm_get (rg_by_id rg) s = Some n \<Longrightarrow> (n, s) \<in> I"
    "(n, s) \<in> I \<Longrightarrow> (m, s) \<in> I \<Longrightarrow> n = m" "(n, s) \<in> I \<Longrightarrow> s \<notin> unused db"
  using assms unfolding issued_inv_def by blast+

lemma empty_inv:
  assumes "issued_inv rg db I"
  shows "issued_inv registry_empty db I"
  using assms by (simp add: issued_inv_def registry_empty_def)

lemma add_pair_inv:
  assumes "issued_inv rg db I" "(n, s) \<in> I"
  shows "issued_inv (rg\<lparr>rg_by_name := hm_insert n s (rg_by_name rg),
    rg_by_id := hm_insert s n (rg_by_id rg), rg_touched_ms := t\<rparr>) db I"
  using assms issued_invD(6) [OF assms(1)] unfolding issued_inv_def
  by (auto split: if_splits)

lemma load_inv:
  assumes "issued_inv rg db I" "registry_load ops db = (db', res)"
  shows "issued_inv registry_empty db' I" "res = Inr rg' \<Longrightarrow> issued_inv rg' db' I"
proof -
  obtain lres where l: "so_list ops db = (db', lres)"
    using assms(2) by (cases "so_list ops db") (auto simp: registry_load_def split: sum.splits)
  note law = list_law [OF issued_invD(1) [OF assms(1)] l]
  show e: "issued_inv registry_empty db' I"
    using empty_inv [OF assms(1)] law by (simp add: issued_inv_def)
  assume res: "res = Inr rg'"
  then obtain xs where xs: "lres = Inr xs"
    and rg': "rg' = foldl (\<lambda>rg (sid, name). rg\<lparr>rg_by_name := hm_insert name sid (rg_by_name rg),
       rg_by_id := hm_insert sid name (rg_by_id rg)\<rparr>) registry_empty xs"
    using assms(2) l by (auto simp: registry_load_def split: sum.splits)
  have "\<forall>(s, n)\<in>set xs. (n, s) \<in> I" using law xs issued_invD(2) [OF assms(1)] by fastforce
  then show "issued_inv rg' db' I"
    using e unfolding rg'
  proof (induction xs rule: rev_induct)
    case (snoc x xs)
    obtain s n where x: "x = (s, n)" by (cases x)
    from add_pair_inv [OF snoc.IH, of n s "rg_touched_ms (foldl (\<lambda>rg (sid, name).
        rg\<lparr>rg_by_name := hm_insert name sid (rg_by_name rg), rg_by_id := hm_insert sid name (rg_by_id rg)\<rparr>)
        registry_empty xs)"] snoc.prems x
    show ?case by simp
  qed simp
qed

lemma forget_one_inv:
  assumes "issued_inv rg db I"
  shows "issued_inv (forget_one rg sid) db I"
proof (cases "hm_get (rg_by_id rg) sid")
  case None
  then show ?thesis using assms by (simp add: forget_one_def issued_inv_def Let_def)
next
  case (Some name)
  then show ?thesis using assms issued_invD(4) [OF assms]
    by (auto simp: forget_one_def issued_inv_def Let_def split: if_splits)
qed

lemma forget_inv: "issued_inv rg db I \<Longrightarrow> issued_inv (forget rg sids) db I"
  unfolding forget_def by (induction sids rule: rev_induct) (simp_all add: forget_one_inv)

lemma reclaim_inv:
  assumes "issued_inv rg db I" "reclaim_before ops (rg, db) cutoff = ((rg', db'), res)"
  shows "issued_inv rg' db' I"
proof -
  obtain dres where d: "so_delete ops db cutoff = (db', dres)"
    using assms(2) by (cases "so_delete ops db cutoff") (auto simp: reclaim_before_def split: sum.splits)
  note law = delete_law [OF issued_invD(1) [OF assms(1)] d]
  then have "issued_inv rg db' I" using assms(1) by (auto simp: issued_inv_def)
  then show ?thesis using assms(2) d forget_inv by (auto simp: reclaim_before_def split: sum.splits)
qed

lemma touched_inv: "issued_inv (rg\<lparr>rg_touched_ms := t\<rparr>) db I \<longleftrightarrow> issued_inv rg db I"
  by (simp add: issued_inv_def)

lemma id_of_inv:
  assumes "issued_inv rg db I" "id_of ops (rg, db) name now = ((rg', db'), res)"
  shows "\<exists>I'. I \<subseteq> I' \<and> issued_inv rg' db' I' \<and>
    (\<forall>sid. res = Inr sid \<longrightarrow> (name, sid) \<in> I' \<and> registry_name rg' sid = Some name)"
proof (cases "fresh_cached_id rg name now")
  case (Some sid)
  then have "hm_get (rg_by_name rg) name = Some sid"
    by (auto simp: fresh_cached_id_def split: option.splits if_splits)
  with Some assms show ?thesis
    using issued_invD(3,4) [OF assms(1)] by (auto simp: id_of_def registry_name_def)
next
  case fresh: None
  show ?thesis
  proof (cases "cached_id rg name")
    case (Some sid)
    then have c: "hm_get (rg_by_name rg) name = Some sid" by (simp add: cached_id_def)
    have "issued_inv rg' db' I \<and> rg_by_id rg' = rg_by_id rg \<and> (\<forall>s. res = Inr s \<longrightarrow> s = sid)"
    proof (cases "rg' = rg \<and> db' = db")
      case True
      then show ?thesis using assms fresh Some
        by (auto simp: id_of_def split: prod.splits sum.splits)
    next
      case False
      then obtain r2 where t: "so_touch ops db sid now = (db', r2)"
        and rg': "rg' = rg\<lparr>rg_touched_ms := hm_insert sid now (rg_touched_ms rg)\<rparr>"
        and s: "\<forall>s. res = Inr s \<longrightarrow> s = sid"
        using assms(2) fresh Some
        by (auto simp: id_of_def registry_touch_def Let_def split: prod.splits sum.splits if_splits)
      from touch_law [OF issued_invD(1) [OF assms(1)] t] assms(1) rg' s
      show ?thesis by (simp add: touched_inv) (simp add: issued_inv_def)
    qed
    then show ?thesis using issued_invD(3,4) [OF assms(1) c] by (auto simp: registry_name_def)
  next
    case None
    obtain rres where r: "so_resolve ops db name now = (db', rres)"
      using assms(2) fresh None by (cases "so_resolve ops db name now") (auto simp: id_of_def split: sum.splits)
    note law = resolve_law [OF issued_invD(1) [OF assms(1)] r]
    define I' where "I' = I \<union> {(name, s) | s. view db' name = Some s}"
    have new: "s \<in> unused db \<or> (name, s) \<in> I" if "view db' name = Some s" for s
      using that law issued_invD(2) [OF assms(1)] by blast
    have func: "n = m" if "(n, s) \<in> I'" "(m, s) \<in> I'" for n m s
      using that new issued_invD(6,7) [OF assms(1)] by (auto simp: I'_def)
    have unu: "s \<notin> unused db'" if "(n, s) \<in> I'" for n s
      using that law view_used issued_invD(7) [OF assms(1)] by (auto simp: I'_def)
    have vw: "(n, s) \<in> I'" if "view db' n = Some s" for n s
      using that law issued_invD(2) [OF assms(1)] by (cases "n = name") (auto simp: I'_def)
    have I: "I \<subseteq> I'" by (simp add: I'_def)
    have inv: "issued_inv rg db' I'"
      unfolding issued_inv_def
    proof (intro conjI allI impI)
      show "ok db'" using law by blast
    next
      fix n s assume "hm_get (rg_by_name rg) n = Some s"
      then show "(n, s) \<in> I'" "hm_get (rg_by_id rg) s = Some n"
        using issued_invD(3,4) [OF assms(1)] I by auto
    next
      fix n s assume "hm_get (rg_by_id rg) s = Some n"
      then show "(n, s) \<in> I'" using issued_invD(5) [OF assms(1)] I by auto
    qed (fact vw func unu)+
    show ?thesis
    proof (cases rres)
      case (Inl e)
      then show ?thesis using assms(2) fresh None r inv by (auto simp: id_of_def I'_def)
    next
      case (Inr sid)
      then have "(name, sid) \<in> I'" using law by (simp add: I'_def)
      note pair = add_pair_inv [OF inv this]
      from Inr \<open>(name, sid) \<in> I'\<close> show ?thesis using assms(2) fresh None r pair
        by (intro exI [of _ I']) (auto simp: id_of_def I'_def registry_name_def)
    qed
  qed
qed

lemma reach_issued:
  assumes "registry_reach ops db0 st H" "ok db0"
  shows "\<exists>I. H \<subseteq> I \<and> issued_inv (fst st) (snd st) I"
  using assms
proof (induction rule: registry_reach.induct)
  case registry_start
  then show ?case
    using view_inj view_used
    by (intro exI [of _ "{(n, s). view db0 n = Some s}"]) (auto simp: issued_inv_def registry_empty_def)
next
  case (registry_restart rg db H db' rg')
  then obtain I where I: "H \<subseteq> I" "issued_inv rg db I" by auto
  from load_inv(2) [OF I(2) registry_restart.hyps(2) refl] I(1) show ?case by auto
next
  case (registry_failed_restart rg db H db' e)
  then obtain I where I: "H \<subseteq> I" "issued_inv rg db I" by auto
  from load_inv(1) [OF I(2) registry_failed_restart.hyps(2)] I(1) show ?case by auto
next
  case (registry_resolved st H name now st' sid)
  then obtain I where I: "H \<subseteq> I" "issued_inv (fst st) (snd st) I" by blast
  from id_of_inv [OF I(2), of name now "fst st'" "snd st'" "Inr sid"] registry_resolved.hyps(2)
  obtain I' where "I \<subseteq> I'" "issued_inv (fst st') (snd st') I'" "(name, sid) \<in> I'" by auto
  then show ?case using I(1) by (intro exI [of _ I']) auto
next
  case (registry_failed st H name now st' e)
  then obtain I where I: "H \<subseteq> I" "issued_inv (fst st) (snd st) I" by blast
  from id_of_inv [OF I(2), of name now "fst st'" "snd st'" "Inl e"] registry_failed.hyps(2)
  show ?case using I(1) by auto
next
  case (registry_reclaimed st H cutoff st' res)
  then obtain I where I: "H \<subseteq> I" "issued_inv (fst st) (snd st) I" by blast
  from reclaim_inv [OF I(2), of cutoff "fst st'" "snd st'" res] registry_reclaimed.hyps(2)
  show ?case using I(1) by auto
qed

lemma ids_stable:
  assumes "registry_reach ops db0 st H" "ok db0" "(n, s) \<in> H" "(m, s) \<in> H"
  shows "n = m"
  using reach_issued [OF assms(1,2)] assms(3,4) issued_invD(6) by blast

lemma resolved_name:
  assumes "registry_reach ops db0 st H" "ok db0" "id_of ops st n now = (st', Inr s)"
  shows "registry_name (fst st') s = Some n"
proof -
  obtain I where "issued_inv (fst st) (snd st) I" using reach_issued [OF assms(1,2)] by blast
  from id_of_inv [OF this, of n now "fst st'" "snd st'" "Inr s"] assms(3) show ?thesis by auto
qed

end

section \<open>The SQLite store keeps the laws\<close>

definition sqlite_ops :: "metadata_db store_ops" where
  "sqlite_ops =
     \<lparr>so_resolve = resolve_service, so_list = list_services, so_touch = touch_service,
      so_delete = delete_services_before\<rparr>"

definition dictionary :: "metadata_db \<Rightarrow> string \<Rightarrow> service_id option" where
  "dictionary db name =
     (case find (\<lambda>r. sr_name r = name) (md_services db) of None \<Rightarrow> None
      | Some row \<Rightarrow> (case stored_service_id (sr_sid row) of Inl _ \<Rightarrow> None | Inr sid \<Rightarrow> Some sid))"

definition services_ok :: "metadata_db \<Rightarrow> bool" where
  "services_ok db \<longleftrightarrow> distinct (map sr_name (md_services db)) \<and> distinct (map sr_sid (md_services db)) \<and>
     (\<forall>r\<in>set (md_services db). sr_sid r \<le> int (md_sequence db))"

definition unused_ids :: "metadata_db \<Rightarrow> service_id set" where
  "unused_ids db = {s. int (md_sequence db) < sid_int s}"

lemma dictionary_iff:
  assumes "services_ok db"
  shows "dictionary db n = Some s \<longleftrightarrow> (\<exists>r\<in>set (md_services db). sr_name r = n \<and> sr_sid r = sid_int s)"
proof -
  have d: "distinct (map sr_name (md_services db))" using assms by (simp add: services_ok_def)
  have f: "find (\<lambda>r. sr_name r = n) rs = Some r \<longleftrightarrow> r \<in> set rs \<and> sr_name r = n"
    if "distinct (map sr_name rs)" for rs r
    using that by (induction rs) auto
  show ?thesis
    unfolding dictionary_def by (auto simp: f [OF d] stored_sid_Inr split: option.splits sum.splits)
      (metis f [OF d] stored_sid_Inr stored_sid_int sum.simps option.distinct(1) option.inject)+
qed

definition pairs :: "metadata_db \<Rightarrow> (string \<times> int) list" where
  "pairs db = map (\<lambda>r. (sr_name r, sr_sid r)) (md_services db)"

lemma services_same:
  assumes "pairs db' = pairs db" "md_sequence db' = md_sequence db"
  shows "services_ok db' = services_ok db" "dictionary db' = dictionary db" "unused_ids db' = unused_ids db"
proof -
  have names: "map sr_name (md_services d) = map fst (pairs d)" "map sr_sid (md_services d) = map snd (pairs d)"
    for d by (simp_all add: pairs_def comp_def)
  have "services_ok d \<longleftrightarrow> distinct (map fst (pairs d)) \<and> distinct (map snd (pairs d)) \<and>
      (\<forall>x\<in>set (pairs d). snd x \<le> int (md_sequence d))" for d
    unfolding services_ok_def names by (simp add: pairs_def)
  then show "services_ok db' = services_ok db" using assms by simp
  have "find (\<lambda>r. sr_name r = n) rs = None \<and> map_of (map (\<lambda>r. (sr_name r, sr_sid r)) rs) n = None \<or>
      (\<exists>r. find (\<lambda>r. sr_name r = n) rs = Some r \<and> map_of (map (\<lambda>r. (sr_name r, sr_sid r)) rs) n = Some (sr_sid r))"
    for n rs by (induction rs) auto
  note look = this
  have "dictionary d n = (case map_of (pairs d) n of None \<Rightarrow> None
      | Some v \<Rightarrow> (case stored_service_id v of Inl _ \<Rightarrow> None | Inr sid \<Rightarrow> Some sid))" for d n
    using look [of n "md_services d"] by (auto simp: dictionary_def pairs_def)
  then show "dictionary db' = dictionary db" using assms by (simp add: fun_eq_iff)
  show "unused_ids db' = unused_ids db" using assms by (simp add: unused_ids_def)
qed

lemma dictionary_unused: "services_ok db \<Longrightarrow> dictionary db n = Some s \<Longrightarrow> s \<notin> unused_ids db"
  by (force simp: dictionary_iff services_ok_def unused_ids_def)

lemma resolve_service_laws:
  assumes "services_ok db" "resolve_service db n now = (db', res)"
  shows "services_ok db' \<and> unused_ids db' \<subseteq> unused_ids db \<and> (\<forall>m. m \<noteq> n \<longrightarrow> dictionary db' m = dictionary db m) \<and>
    (\<forall>s. dictionary db' n = Some s \<longrightarrow> dictionary db n = Some s \<or> s \<in> unused_ids db) \<and>
    (\<forall>s. res = Inr s \<longrightarrow> dictionary db' n = Some s)"
proof -
  obtain f db1 where nx: "md_next db = (f, db1)" by (cases "md_next db")
  note t = md_next_tables [OF nx]
  have same1: "services_ok db1" "dictionary db1 = dictionary db" "unused_ids db1 = unused_ids db"
    using services_same [of db1 db] t assms(1) by (simp_all add: pairs_def)
  show ?thesis
  proof (cases f)
    case (Some m)
    then show ?thesis using assms(2) nx same1 by (auto simp: resolve_service_def)
  next
    case None
    show ?thesis
    proof (cases "find (\<lambda>r. sr_name r = n) (md_services db1)")
      case (Some row)
      then have db': "db' = db1\<lparr>md_services := map (\<lambda>r. if sr_name r = n
            then r\<lparr>sr_last_seen_ms := max (sr_last_seen_ms r) now\<rparr> else r) (md_services db1)\<rparr>"
        and res: "res = stored_service_id (sr_sid row)"
        using assms(2) nx None by (simp_all add: resolve_service_def)
      have "pairs db' = pairs db1" "md_sequence db' = md_sequence db1" by (auto simp: db' pairs_def)
      note s = services_same [OF this]
      have "\<forall>sid. res = Inr sid \<longrightarrow> dictionary db1 n = Some sid"
        using Some by (simp add: dictionary_def res)
      then show ?thesis using s same1 by auto
    next
      case none: None
      define sid where "sid = md_sequence db1 + 1 + (case md_gaps db1 of [] \<Rightarrow> 0 | g # _ \<Rightarrow> g)"
      have db': "db' = db1\<lparr>md_services := md_services db1 @ [\<lparr>sr_sid = int sid, sr_name = n, sr_last_seen_ms = now\<rparr>],
          md_sequence := sid, md_gaps := tl (md_gaps db1)\<rparr>" and res: "res = stored_service_id (int sid)"
        using assms(2) nx None none by (simp_all add: resolve_service_def sid_def Let_def)
      have new: "\<forall>r\<in>set (md_services db1). sr_name r \<noteq> n" using none by (auto simp: find_None_iff)
      have lt: "md_sequence db1 < sid" by (simp add: sid_def)
      have le: "\<forall>r\<in>set (md_services db1). sr_sid r < int sid"
        using same1(1) lt unfolding services_ok_def by fastforce
      have ok': "services_ok db'"
        using same1(1) new le by (force simp: services_ok_def db')
      have d: "dictionary db' m = Some s \<longleftrightarrow> dictionary db1 m = Some s \<or> m = n \<and> int sid = sid_int s" for m s
        unfolding dictionary_iff [OF ok'] dictionary_iff [OF same1(1)] using new by (auto simp: db')
      have other: "dictionary db' m = dictionary db1 m" if "m \<noteq> n" for m
      proof (cases "dictionary db1 m")
        case None
        then show ?thesis using d [of m] that by (cases "dictionary db' m") auto
      qed (use d [of m] in simp)
      have u: "unused_ids db' \<subseteq> unused_ids db" using lt t same1(3) by (auto simp: unused_ids_def db')
      have "s \<in> unused_ids db" if "int sid = sid_int s" for s
        using that lt t by (auto simp: unused_ids_def)
      then show ?thesis
        using ok' u other d same1(2) by (auto simp: res stored_sid_Inr)
    qed
  qed
qed

lemma touch_service_laws:
  assumes "services_ok db" "touch_service db sid now = (db', res)"
  shows "services_ok db' \<and> unused_ids db' = unused_ids db \<and> dictionary db' = dictionary db"
proof -
  have "pairs db' = pairs db" "md_sequence db' = md_sequence db"
    using assms(2) by (auto simp: touch_service_def pairs_def dest!: md_next_tables split: prod.splits option.splits)
  from services_same [OF this] assms(1) show ?thesis by simp
qed

lemma delete_services_laws:
  assumes "services_ok db" "delete_services_before db cutoff = (db', res)"
  shows "services_ok db' \<and> unused_ids db' = unused_ids db \<and>
    (\<forall>n s. dictionary db' n = Some s \<longrightarrow> dictionary db n = Some s)"
proof -
  have sub: "\<exists>P. md_services db' = filter P (md_services db)" "md_sequence db' = md_sequence db"
  proof -
    show "\<exists>P. md_services db' = filter P (md_services db)"
    proof (cases "isl res \<and> md_services db' = md_services db")
      case True
      then show ?thesis by (intro exI [of _ "\<lambda>_. True"]) simp
    next
      case False
      then show ?thesis using assms(2)
        by (auto simp: delete_services_before_def dest!: md_next_tables split: prod.splits option.splits)
    qed
    show "md_sequence db' = md_sequence db"
      using assms(2) by (auto simp: delete_services_before_def dest!: md_next_tables split: prod.splits option.splits)
  qed
  then have ok': "services_ok db'"
    using assms(1) by (auto simp: services_ok_def distinct_map_filter)
  then show ?thesis
    using sub assms(1) by (auto simp: dictionary_iff [OF ok'] dictionary_iff [OF assms(1)] unused_ids_def)
qed

lemma collect_results_Inr_set:
  "collect_results rs = Inr xs \<Longrightarrow> x \<in> set xs \<Longrightarrow> Inr x \<in> set rs"
  by (induction rs arbitrary: xs) auto

lemma list_services_laws:
  assumes "services_ok db" "list_services db = (db', res)"
  shows "services_ok db' \<and> unused_ids db' = unused_ids db \<and> dictionary db' = dictionary db \<and>
    (\<forall>xs. res = Inr xs \<longrightarrow> (\<forall>(s, n)\<in>set xs. dictionary db n = Some s))"
proof -
  have t: "md_services db' = md_services db" "md_sequence db' = md_sequence db"
    using assms(2) by (auto simp: list_services_def dest!: md_next_tables split: prod.splits option.splits)
  have "dictionary db n = Some s" if "res = Inr xs" "(s, n) \<in> set xs" for xs s n
  proof -
    have "collect_results (map (\<lambda>r. and_then (stored_service_id (sr_sid r)) (\<lambda>sid. Inr (sid, sr_name r)))
        (md_services db)) = Inr xs"
      using assms(2) that(1) by (auto simp: list_services_def dest!: md_next_tables
          split: prod.splits option.splits)
    from collect_results_Inr_set [OF this that(2)]
    have "Inr (s, n) \<in> (\<lambda>r. and_then (stored_service_id (sr_sid r)) (\<lambda>sid. Inr (sid, sr_name r)))
        ` set (md_services db)" by simp
    then show ?thesis
      unfolding dictionary_iff [OF assms(1)]
    proof (rule imageE)
      fix r assume "Inr (s, n) = and_then (stored_service_id (sr_sid r)) (\<lambda>sid. Inr (sid, sr_name r))"
        and "r \<in> set (md_services db)"
      then show "\<exists>r\<in>set (md_services db). sr_name r = n \<and> sr_sid r = sid_int s"
        by (cases "stored_service_id (sr_sid r)") (auto simp: stored_sid_Inr)
    qed
  qed
  then show ?thesis using services_same [of db' db] t assms(1) by (auto simp: pairs_def)
qed

interpretation sqlite: service_store sqlite_ops services_ok dictionary unused_ids
proof
  fix db db' :: metadata_db and n m s now cutoff and res :: "service_id app_result"
    and res2 :: "unit app_result" and res3 :: "service_id list app_result"
    and res4 :: "(service_id \<times> string) list app_result"
  assume ok: "services_ok db"
  show "n = m" if "dictionary db n = Some s" "dictionary db m = Some s"
  proof -
    from that obtain r q where "r \<in> set (md_services db)" "q \<in> set (md_services db)"
      "sr_sid r = sr_sid q" "sr_name r = n" "sr_name q = m"
      unfolding dictionary_iff [OF ok] by auto
    then show ?thesis using ok by (auto simp: services_ok_def distinct_map inj_on_def)
  qed
  show "dictionary db n = Some s \<Longrightarrow> s \<notin> unused_ids db" by (rule dictionary_unused [OF ok])
  show "so_resolve sqlite_ops db n now = (db', res) \<Longrightarrow> services_ok db' \<and> unused_ids db' \<subseteq> unused_ids db \<and>
      (\<forall>m. m \<noteq> n \<longrightarrow> dictionary db' m = dictionary db m) \<and>
      (\<forall>s. dictionary db' n = Some s \<longrightarrow> dictionary db n = Some s \<or> s \<in> unused_ids db) \<and>
      (\<forall>s. res = Inr s \<longrightarrow> dictionary db' n = Some s)"
    by (rule resolve_service_laws [OF ok]) (simp add: sqlite_ops_def)
  show "so_touch sqlite_ops db s now = (db', res2) \<Longrightarrow>
      services_ok db' \<and> unused_ids db' = unused_ids db \<and> dictionary db' = dictionary db"
    by (rule touch_service_laws [OF ok]) (simp add: sqlite_ops_def)
  show "so_delete sqlite_ops db cutoff = (db', res3) \<Longrightarrow> services_ok db' \<and> unused_ids db' = unused_ids db \<and>
      (\<forall>n s. dictionary db' n = Some s \<longrightarrow> dictionary db n = Some s)"
    by (rule delete_services_laws [OF ok]) (simp add: sqlite_ops_def)
  show "so_list sqlite_ops db = (db', res4) \<Longrightarrow> services_ok db' \<and> unused_ids db' = unused_ids db \<and>
      dictionary db' = dictionary db \<and> (\<forall>xs. res4 = Inr xs \<longrightarrow> (\<forall>(s, n)\<in>set xs. dictionary db n = Some s))"
    by (rule list_services_laws [OF ok]) (simp add: sqlite_ops_def)
qed

section \<open>Properties\<close>

text \<open>
  C2. A service id names one service for ever: over any run of resolutions, reclamations and
  restarts, with the database failing at any point, two resolutions that returned the same id were
  for the same name, even when the service had been reclaimed in between, and the name that a
  resolution has just interned is the one its id is shown under.
\<close>

theorem service_ids_are_stable:
  assumes "registry_reach sqlite_ops db0 st H" "services_ok db0"
  shows "(\<forall>n m s. (n, s) \<in> H \<longrightarrow> (m, s) \<in> H \<longrightarrow> n = m) \<and>
    (\<forall>n now st' s. id_of sqlite_ops st n now = (st', Inr s) \<longrightarrow> registry_name (fst st') s = Some n)"
  using sqlite.ids_stable [OF assms] sqlite.resolved_name [OF assms] by blast

theorem service_ids_are_stable_witness:
  "registry_name (fst (fst (id_of sqlite_ops (registry_empty, empty_metadata) ''web'' 7))) (ServiceId 1) = Some ''web''"
proof -
  have ok: "services_ok empty_metadata" by (simp add: services_ok_def empty_metadata_def)
  have "snd (id_of sqlite_ops (registry_empty, empty_metadata) ''web'' 7) = Inr (ServiceId 1)"
    by (simp add: id_of_def fresh_cached_id_def cached_id_def registry_empty_def sqlite_ops_def
        resolve_service_def empty_metadata_def md_next_def stored_service_id_def)
  then have "id_of sqlite_ops (registry_empty, empty_metadata) ''web'' 7 =
      (fst (id_of sqlite_ops (registry_empty, empty_metadata) ''web'' 7), Inr (ServiceId 1))"
    by (simp add: prod_eq_iff)
  with service_ids_are_stable [OF registry_start ok] show ?thesis by blast
qed

text \<open>The state after resolving \<open>web\<close> at 0 on a database whose second statement will fail.\<close>

definition flaky_start :: "service_registry \<times> metadata_db" where
  "flaky_start =
     fst (id_of sqlite_ops (registry_empty, empty_metadata\<lparr>md_faults := [None, Some ''database is locked'']\<rparr>) ''web'' 0)"

text \<open>
  The bound that retention relies on can be exceeded. A refresh of the last-seen time is marked
  as done before the database is asked; when the database then fails, the next resolutions are
  answered from the cache for another hour. Here \<open>web\<close> is resolved successfully at 7199999 ms while
  its stored last-seen time is still 0, nearly twice the documented
  \<open>MAX_WATERMARK_LAG_MS\<close>, and a reclamation with a cutoff that respects the bound deletes it.
\<close>

theorem failed_touch_exceeds_lag:
  "let failed = id_of sqlite_ops flaky_start ''web'' 3600000;
       used = id_of sqlite_ops (fst failed) ''web'' 7199999;
       reclaimed = reclaim_before sqlite_ops (fst used) (7199999 - max_watermark_lag_ms) in
     isl (snd failed) \<and> snd used = Inr (ServiceId 1) \<and>
     map sr_last_seen_ms (md_services (snd (fst used))) = [0] \<and>
     7199999 - 0 > max_watermark_lag_ms \<and>
     snd reclaimed = Inr [ServiceId 1]"
  by (simp add: flaky_start_def id_of_def fresh_cached_id_def cached_id_def registry_empty_def sqlite_ops_def
      resolve_service_def empty_metadata_def md_next_def stored_service_id_def registry_touch_def
      touch_interval_ms_def max_watermark_lag_ms_def i64_wrap_def touch_service_def Let_def
      reclaim_before_def delete_services_before_def)

end
