(* ===== verification/Log_Buffer.thy ===== *)
theory Log_Buffer
  imports Log_Store_Laws Service_Registry
begin

text \<open>
  \<^verbatim>\<open>src/logs/buffer.rs\<close> and \<^verbatim>\<open>src/logs/flush_watcher.rs\<close>: the lines of each service wait in memory, pass
  a check against replays, and are flushed to the log store and the metadata store. A worker is what
  its channel holds and whether it sleeps. A flush has two steps, since other tasks run while the
  store is awaited: \<open>flush_take\<close> under the lock, \<open>flush_land\<close> when the append has returned. The log
  store is a trait object, here the append function; the content hash is an argument.
\<close>

section \<open>Flush notifications\<close>

record flush_watcher =
  fl_services :: "(string, u64) hash_map"
  fl_any :: u64

definition flush_watcher_new :: flush_watcher where
  "flush_watcher_new = \<lparr>fl_services = [], fl_any = 0\<rparr>"

text \<open>A subscription is the revision it has seen; it has changed when the current one differs.\<close>

definition flush_subscribe :: "string \<Rightarrow> flush_watcher \<Rightarrow> flush_watcher \<times> u64" where
  "flush_subscribe service w =
     (let w1 = w\<lparr>fl_services := hm_entry service 0 id (fl_services w)\<rparr> in
      (w1, the (hm_get (fl_services w1) service)))"

definition flush_subscribe_any :: "flush_watcher \<Rightarrow> u64" where
  "flush_subscribe_any w = fl_any w"

definition flush_notify :: "string \<Rightarrow> flush_watcher \<Rightarrow> flush_watcher" where
  "flush_notify service w =
     \<lparr>fl_services = hm_entry service 0 (\<lambda>revision. revision + 1) (fl_services w), fl_any = fl_any w + 1\<rparr>"

section \<open>State\<close>

type_synonym line_checkpoint = "container_id \<times> i64 \<times> u64"

record buffer_state =
  bs_lines :: "log_line list"
  bs_checkpoints :: "(container_id, i64 \<times> u64) hash_map"

text \<open>\<open>fw_pending\<close>: the channel of capacity one holds a request; \<open>fw_sleeping\<close>: one is debounced.\<close>

record flush_worker =
  fw_pending :: bool
  fw_sleeping :: bool

record service_handle =
  sh_state :: buffer_state
  sh_worker :: "flush_worker option"

record 'ls log_buffer =
  lb_services :: "(string, service_handle) hash_map"
  lb_logs :: 'ls
  lb_meta :: "service_registry \<times> metadata_db"
  lb_watcher :: flush_watcher
  lb_max_lines :: nat

type_synonym 'ls append_fn = "string \<Rightarrow> log_line list \<Rightarrow> 'ls \<Rightarrow> 'ls \<times> unit app_result option"
type_synonym line_hash = "log_stream \<Rightarrow> string \<Rightarrow> u64"

definition hash_line :: "line_hash \<Rightarrow> log_line \<Rightarrow> u64" where
  "hash_line h line = h (ll_stream line) (ll_line line)"

definition empty_state :: buffer_state where
  "empty_state = \<lparr>bs_lines = [], bs_checkpoints = []\<rparr>"

definition seed_checkpoints ::
  "service_registry \<Rightarrow> log_checkpoint_entry list \<Rightarrow> (string, buffer_state) hash_map" where
  "seed_checkpoints rg entries = foldl (\<lambda>m en.
     case registry_name rg (le_sid en) of None \<Rightarrow> m
     | Some service \<Rightarrow> hm_entry service empty_state (\<lambda>s. s\<lparr>bs_checkpoints :=
         hm_insert (le_cid en) (lc_ts (le_checkpoint en), lc_line_hash (le_checkpoint en)) (bs_checkpoints s)\<rparr>) m)
     [] entries"

definition seed_service :: "string \<Rightarrow> buffer_state \<Rightarrow> 'ls log_buffer \<Rightarrow> 'ls log_buffer" where
  "seed_service service s b =
     b\<lparr>lb_services := hm_insert service \<lparr>sh_state = s, sh_worker = None\<rparr> (lb_services b)\<rparr>"

definition log_buffer_new ::
  "'ls \<Rightarrow> service_registry \<times> metadata_db \<Rightarrow> flush_watcher \<Rightarrow> nat
     \<Rightarrow> metadata_db \<times> 'ls log_buffer app_result" where
  "log_buffer_new logs meta watcher max_lines =
     (case list_log_checkpoints (snd meta) of (db, Inl e) \<Rightarrow> (db, Inl e)
      | (db, Inr entries) \<Rightarrow>
          (db, Inr (foldl (\<lambda>b (service, s). seed_service service s b)
             \<lparr>lb_services = [], lb_logs = logs, lb_meta = (fst meta, db), lb_watcher = watcher,
              lb_max_lines = max_lines\<rparr>
             (seed_checkpoints (fst meta) entries))))"

text \<open>\<^verbatim>\<open>service_state\<close>: the handle of a service, made when missing.\<close>

definition handle_of :: "'ls log_buffer \<Rightarrow> string \<Rightarrow> service_handle" where
  "handle_of b service =
     (case hm_get (lb_services b) service of
        None \<Rightarrow> \<lparr>sh_state = empty_state, sh_worker = None\<rparr> | Some h \<Rightarrow> h)"

definition put_handle :: "string \<Rightarrow> service_handle \<Rightarrow> 'ls log_buffer \<Rightarrow> 'ls log_buffer" where
  "put_handle service h b = b\<lparr>lb_services := hm_insert service h (lb_services b)\<rparr>"

definition update_state ::
  "string \<Rightarrow> (buffer_state \<Rightarrow> buffer_state) \<Rightarrow> 'ls log_buffer \<Rightarrow> 'ls log_buffer" where
  "update_state service f b =
     put_handle service ((handle_of b service)\<lparr>sh_state := f (sh_state (handle_of b service))\<rparr>) b"

section \<open>Scheduling\<close>

definition schedule_flush :: "string \<Rightarrow> 'ls log_buffer \<Rightarrow> 'ls log_buffer" where
  "schedule_flush service b =
     (let h = handle_of b service;
          worker = (case sh_worker h of None \<Rightarrow> \<lparr>fw_pending = False, fw_sleeping = False\<rparr> | Some w \<Rightarrow> w) in
      put_handle service (h\<lparr>sh_worker := Some (worker\<lparr>fw_pending := True\<rparr>)\<rparr>) b)"

definition request_service_flush :: "string \<Rightarrow> 'ls log_buffer \<Rightarrow> 'ls log_buffer" where
  "request_service_flush service b =
     (case hm_get (lb_services b) service of None \<Rightarrow> b
      | Some h \<Rightarrow> (case sh_worker h of None \<Rightarrow> b
          | Some w \<Rightarrow> put_handle service (h\<lparr>sh_worker := Some (w\<lparr>fw_pending := True\<rparr>)\<rparr>) b))"

section \<open>Flushing\<close>

definition flush_take :: "buffer_state \<Rightarrow> (log_line list \<times> line_checkpoint list) option \<times> buffer_state" where
  "flush_take s =
     (if bs_lines s = [] then (None, s)
      else let cids = remdups_adj (sort (map ll_cid (bs_lines s)));
               cps = List.map_filter (\<lambda>cid. map_option (\<lambda>(ts, h). (cid, ts, h))
                       (hm_get (bs_checkpoints s) cid)) cids in
        (Some (bs_lines s, cps), s\<lparr>bs_lines := []\<rparr>))"

fun advance_checkpoints :: "service_id \<Rightarrow> line_checkpoint list \<Rightarrow> metadata_db \<Rightarrow> metadata_db" where
  "advance_checkpoints sid [] db = db"
| "advance_checkpoints sid ((cid, ts, h) # cps) db =
     advance_checkpoints sid cps
       (fst (advance_log_checkpoint db sid cid \<lparr>lc_ts = ts, lc_line_hash = h\<rparr>))"

text \<open>
  After the append: on an error the lines go back in front of the newer ones and a retry is asked
  for; otherwise the checkpoints are persisted and the flush announced. \<open>None\<close> is a panic of the
  store, which ends the task.
\<close>

definition flush_land ::
  "'ls append_fn \<Rightarrow> string \<Rightarrow> log_line list \<Rightarrow> line_checkpoint list \<Rightarrow> i64 \<Rightarrow> 'ls log_buffer \<Rightarrow> 'ls log_buffer"
where
  "flush_land append_lines service lines cps now b =
     (case append_lines service lines (lb_logs b) of
        (logs, None) \<Rightarrow> b\<lparr>lb_logs := logs\<rparr>
      | (logs, Some (Inl e)) \<Rightarrow>
          request_service_flush service
            (update_state service (\<lambda>s. s\<lparr>bs_lines := lines @ bs_lines s\<rparr>) (b\<lparr>lb_logs := logs\<rparr>))
      | (logs, Some (Inr _)) \<Rightarrow>
          (case id_of sqlite_ops (lb_meta b) service now of
             (meta, Inl e) \<Rightarrow>
               b\<lparr>lb_logs := logs, lb_meta := meta, lb_watcher := flush_notify service (lb_watcher b)\<rparr>
           | (meta, Inr sid) \<Rightarrow>
               b\<lparr>lb_logs := logs, lb_meta := (fst meta, advance_checkpoints sid cps (snd meta)),
                 lb_watcher := flush_notify service (lb_watcher b)\<rparr>))"

definition flush_service :: "'ls append_fn \<Rightarrow> string \<Rightarrow> i64 \<Rightarrow> 'ls log_buffer \<Rightarrow> 'ls log_buffer" where
  "flush_service append_lines service now b =
     (case flush_take (sh_state (handle_of b service)) of
        (None, _) \<Rightarrow> b
      | (Some (lines, cps), s) \<Rightarrow>
          flush_land append_lines service lines cps now (update_state service (\<lambda>_. s) b))"

definition flush_all :: "'ls append_fn \<Rightarrow> i64 \<Rightarrow> 'ls log_buffer \<Rightarrow> 'ls log_buffer" where
  "flush_all append_lines now b =
     foldl (\<lambda>b service. flush_service append_lines service now b) b (map fst (lb_services b))"

section \<open>Pushing\<close>

text \<open>The check against replays: \<open>None\<close> drops the line.\<close>

definition accept_line :: "line_hash \<Rightarrow> log_line \<Rightarrow> buffer_state \<Rightarrow> buffer_state option" where
  "accept_line h line s =
     (let hash = hash_line h line in
      if (case hm_get (bs_checkpoints s) (ll_cid line) of None \<Rightarrow> False
          | Some (ts_last, hash_last) \<Rightarrow> ll_ts line < ts_last \<or> ll_ts line = ts_last \<and> hash = hash_last)
      then None
      else Some \<lparr>bs_lines = bs_lines s @ [line],
                 bs_checkpoints = hm_insert (ll_cid line) (ll_ts line, hash) (bs_checkpoints s)\<rparr>)"

text \<open>The locked part of \<^verbatim>\<open>push\<close>: the buffer and the backlog when the line is accepted.\<close>

definition push_locked :: "line_hash \<Rightarrow> log_line \<Rightarrow> 'ls log_buffer \<Rightarrow> 'ls log_buffer \<times> nat option" where
  "push_locked h line b =
     (case accept_line h line (sh_state (handle_of b (ll_service line))) of
        None \<Rightarrow> (update_state (ll_service line) id b, None)
      | Some s \<Rightarrow> (update_state (ll_service line) (\<lambda>_. s) b, Some (length (bs_lines s))))"

definition push :: "'ls append_fn \<Rightarrow> line_hash \<Rightarrow> log_line \<Rightarrow> i64 \<Rightarrow> 'ls log_buffer \<Rightarrow> 'ls log_buffer" where
  "push append_lines h line now b =
     (case push_locked h line b of
        (b1, None) \<Rightarrow> b1
      | (b1, Some buffered) \<Rightarrow>
          if lb_max_lines b1 \<le> buffered then flush_service append_lines (ll_service line) now b1
          else schedule_flush (ll_service line) b1)"

section \<open>The worker of a service\<close>

definition update_worker ::
  "string \<Rightarrow> (flush_worker \<Rightarrow> flush_worker option) \<Rightarrow> 'ls log_buffer \<Rightarrow> 'ls log_buffer" where
  "update_worker service f b =
     (case sh_worker (handle_of b service) of None \<Rightarrow> b
      | Some w \<Rightarrow> put_handle service ((handle_of b service)\<lparr>sh_worker := f w\<rparr>) b)"

text \<open>A request arrives and the debounce starts.\<close>

definition worker_receive :: "string \<Rightarrow> 'ls log_buffer \<Rightarrow> 'ls log_buffer" where
  "worker_receive service = update_worker service (\<lambda>w.
     Some (if fw_pending w \<and> \<not> fw_sleeping w then \<lparr>fw_pending = False, fw_sleeping = True\<rparr> else w))"

text \<open>The debounce ends: requests of the meantime are drained, the flush follows.\<close>

definition worker_wake :: "string \<Rightarrow> 'ls log_buffer \<Rightarrow> 'ls log_buffer" where
  "worker_wake service = update_worker service (\<lambda>w.
     Some (if fw_sleeping w then \<lparr>fw_pending = False, fw_sleeping = False\<rparr> else w))"

text \<open>No request for \<open>keep_alive\<close>: the worker ends unless lines wait.\<close>

definition worker_idle :: "string \<Rightarrow> 'ls log_buffer \<Rightarrow> 'ls log_buffer" where
  "worker_idle service b = update_worker service (\<lambda>w.
     if \<not> fw_pending w \<and> \<not> fw_sleeping w \<and> bs_lines (sh_state (handle_of b service)) = []
     then None else Some w) b"

section \<open>Ingestion\<close>

definition run_ingestion ::
  "'ls append_fn \<Rightarrow> line_hash \<Rightarrow> (log_line \<times> i64) list \<Rightarrow> i64 \<Rightarrow> 'ls log_buffer \<Rightarrow> 'ls log_buffer" where
  "run_ingestion append_lines h received stop b =
     flush_all append_lines stop (foldl (\<lambda>b (line, now). push append_lines h line now b) b received)"

section \<open>Runs of the buffer\<close>

text \<open>
  A run interleaves the locked part of \<^verbatim>\<open>push\<close>, the steps of the workers, and the two steps of any
  number of flushes. It records the lines that were accepted and the flushes that have taken their
  lines and wait for the store. With \<open>excl\<close> a service has at most one flush in flight.
\<close>

record 'ls buffer_run =
  br_buffer :: "'ls log_buffer"
  br_flights :: "(string \<times> log_line list \<times> line_checkpoint list) list"
  br_accepted :: "log_line list"

definition run_from :: "'ls log_buffer \<Rightarrow> 'ls buffer_run" where
  "run_from b = \<lparr>br_buffer = b, br_flights = [], br_accepted = []\<rparr>"

inductive buffer_reach ::
  "bool \<Rightarrow> 'ls append_fn \<Rightarrow> line_hash \<Rightarrow> 'ls log_buffer \<Rightarrow> 'ls buffer_run \<Rightarrow> bool"
  for excl append_lines h b0 where
  run_start: "buffer_reach excl append_lines h b0 (run_from b0)"
| run_push: "buffer_reach excl append_lines h b0 r \<Longrightarrow> dated (ll_ts line) \<Longrightarrow>
    push_locked h line (br_buffer r) = (b', backlog) \<Longrightarrow>
    buffer_reach excl append_lines h b0 (r\<lparr>br_buffer := b',
      br_accepted := br_accepted r @ (if backlog = None then [] else [line])\<rparr>)"
| run_schedule: "buffer_reach excl append_lines h b0 r \<Longrightarrow>
    buffer_reach excl append_lines h b0 (r\<lparr>br_buffer := schedule_flush service (br_buffer r)\<rparr>)"
| run_worker: "buffer_reach excl append_lines h b0 r \<Longrightarrow>
    step \<in> {worker_receive service, worker_wake service, worker_idle service} \<Longrightarrow>
    buffer_reach excl append_lines h b0 (r\<lparr>br_buffer := step (br_buffer r)\<rparr>)"
| run_take: "buffer_reach excl append_lines h b0 r \<Longrightarrow>
    (excl \<Longrightarrow> service \<notin> fst ` set (br_flights r)) \<Longrightarrow>
    flush_take (sh_state (handle_of (br_buffer r) service)) = (Some (lines, cps), s) \<Longrightarrow>
    buffer_reach excl append_lines h b0 (r\<lparr>br_buffer := update_state service (\<lambda>_. s) (br_buffer r),
      br_flights := br_flights r @ [(service, lines, cps)]\<rparr>)"
| run_land: "buffer_reach excl append_lines h b0 r \<Longrightarrow>
    br_flights r = fs1 @ (service, lines, cps) # fs2 \<Longrightarrow>
    buffer_reach excl append_lines h b0
      (r\<lparr>br_buffer := flush_land append_lines service lines cps now (br_buffer r), br_flights := fs1 @ fs2\<rparr>)"

text \<open>What waits for a service: in its buffer and in its flushes.\<close>

definition waiting_lines :: "'ls log_buffer \<Rightarrow> string \<Rightarrow> log_line list" where
  "waiting_lines b service = bs_lines (sh_state (handle_of b service))"

definition checkpoint_at :: "'ls log_buffer \<Rightarrow> string \<Rightarrow> container_id \<Rightarrow> (i64 \<times> u64) option" where
  "checkpoint_at b service cid = hm_get (bs_checkpoints (sh_state (handle_of b service))) cid"

definition flight_lines ::
  "(string \<times> log_line list \<times> line_checkpoint list) list \<Rightarrow> string \<Rightarrow> log_line list" where
  "flight_lines fs service = concat (map (\<lambda>(s, lines, _). if s = service then lines else []) fs)"

definition lines_of_service :: "string \<Rightarrow> log_line list \<Rightarrow> log_line list" where
  "lines_of_service service ls = filter (\<lambda>l. ll_service l = service) ls"

lemma handle_of_put [simp]: "handle_of (put_handle service h b) = (handle_of b)(service := h)"
  by (auto simp: handle_of_def put_handle_def fun_eq_iff)

lemma put_handle_fields [simp]:
  "lb_logs (put_handle service h b) = lb_logs b" "lb_meta (put_handle service h b) = lb_meta b"
  by (simp_all add: put_handle_def)

lemma update_state_lines [simp]:
  "waiting_lines (update_state service f b) s =
     (if s = service then bs_lines (f (sh_state (handle_of b service))) else waiting_lines b s)"
  "checkpoint_at (update_state service f b) s =
     (if s = service then hm_get (bs_checkpoints (f (sh_state (handle_of b service)))) else checkpoint_at b s)"
  "lb_logs (update_state service f b) = lb_logs b"
  by (auto simp: waiting_lines_def checkpoint_at_def update_state_def fun_eq_iff)

text \<open>Workers and scheduling touch neither lines nor checkpoints nor the store.\<close>

definition same_lines :: "'ls log_buffer \<Rightarrow> 'ls log_buffer \<Rightarrow> bool" where
  "same_lines b b' \<longleftrightarrow> waiting_lines b' = waiting_lines b \<and> checkpoint_at b' = checkpoint_at b \<and> lb_logs b' = lb_logs b"

lemma same_lines_refl [simp]: "same_lines b b"
  by (simp add: same_lines_def)

lemma same_lines_worker: "same_lines b (put_handle service ((handle_of b service)\<lparr>sh_worker := w\<rparr>) b)"
  by (simp add: same_lines_def waiting_lines_def checkpoint_at_def fun_eq_iff)

lemma same_lines_schedule: "same_lines b (schedule_flush service b)"
  using same_lines_worker by (simp add: schedule_flush_def Let_def)

lemma same_lines_request: "same_lines b (request_service_flush service b)"
  using same_lines_worker [of b service]
  by (auto simp: request_service_flush_def handle_of_def split: option.split)

lemma same_lines_update_worker: "same_lines b (update_worker service f b)"
  using same_lines_worker by (auto simp: update_worker_def split: option.split)

lemma same_lines_step:
  "step \<in> {worker_receive service, worker_wake service, worker_idle service} \<Longrightarrow> same_lines b (step b)"
  by (auto simp: worker_receive_def worker_wake_def worker_idle_def same_lines_update_worker)

lemma accept_line_Some:
  assumes "accept_line h line s = Some s'"
  shows "bs_lines s' = bs_lines s @ [line]"
    "hm_get (bs_checkpoints s') = (hm_get (bs_checkpoints s))(ll_cid line \<mapsto> (ll_ts line, hash_line h line))"
    "hm_get (bs_checkpoints s) (ll_cid line) = Some (ts, x) \<Longrightarrow> ts \<le> ll_ts line"
  using assms by (auto simp: accept_line_def Let_def split: if_splits)

lemma push_locked_lines:
  assumes "push_locked h line b = (b', backlog)"
  shows "backlog = None \<Longrightarrow> same_lines b b'"
    "backlog \<noteq> None \<Longrightarrow> waiting_lines b' = (waiting_lines b)(ll_service line := waiting_lines b (ll_service line) @ [line])"
    "backlog \<noteq> None \<Longrightarrow> checkpoint_at b' = (checkpoint_at b)(ll_service line :=
       (checkpoint_at b (ll_service line))(ll_cid line \<mapsto> (ll_ts line, hash_line h line)))"
    "backlog \<noteq> None \<Longrightarrow> checkpoint_at b (ll_service line) (ll_cid line) = Some (ts, x) \<Longrightarrow> ts \<le> ll_ts line"
    "lb_logs b' = lb_logs b"
proof -
  let ?s = "sh_state (handle_of b (ll_service line))"
  show "lb_logs b' = lb_logs b"
    using assms by (auto simp: push_locked_def split: option.splits)
  show "same_lines b b'" if "backlog = None"
    using assms that by (auto simp: push_locked_def same_lines_def waiting_lines_def checkpoint_at_def
        update_state_def fun_eq_iff split: option.splits)
  assume "backlog \<noteq> None"
  then obtain s where s: "accept_line h line ?s = Some s" and b': "b' = update_state (ll_service line) (\<lambda>_. s) b"
    using assms by (auto simp: push_locked_def split: option.splits)
  show "waiting_lines b' = (waiting_lines b)(ll_service line := waiting_lines b (ll_service line) @ [line])"
    using accept_line_Some(1) [OF s] by (auto simp: b' fun_eq_iff) (simp_all add: waiting_lines_def)
  show "checkpoint_at b' = (checkpoint_at b)(ll_service line :=
       (checkpoint_at b (ll_service line))(ll_cid line \<mapsto> (ll_ts line, hash_line h line)))"
    using accept_line_Some(2) [OF s] by (auto simp: b' fun_eq_iff) (simp_all add: checkpoint_at_def)
  show "ts \<le> ll_ts line" if "checkpoint_at b (ll_service line) (ll_cid line) = Some (ts, x)"
    using accept_line_Some(3) [OF s] that by (simp add: checkpoint_at_def)
qed

lemma flush_take_Some:
  assumes "flush_take s = (Some (lines, cps), s')"
  shows "lines = bs_lines s" "bs_lines s' = []" "bs_checkpoints s' = bs_checkpoints s"
    "(cid, ts, x) \<in> set cps \<Longrightarrow> hm_get (bs_checkpoints s) cid = Some (ts, x)"
  using assms by (auto simp: flush_take_def Let_def List.map_filter_def split: if_splits)

lemma flush_land_lines:
  assumes "append_lines service lines (lb_logs b) = (logs, Some res)"
  shows "lb_logs (flush_land append_lines service lines cps now b) = logs"
    "waiting_lines (flush_land append_lines service lines cps now b) = (case res of
       Inl _ \<Rightarrow> (waiting_lines b)(service := lines @ waiting_lines b service) | Inr _ \<Rightarrow> waiting_lines b)"
    "checkpoint_at (flush_land append_lines service lines cps now b) = checkpoint_at b"
proof -
  have fields: "waiting_lines (b\<lparr>lb_logs := l, lb_meta := m, lb_watcher := w\<rparr>) = waiting_lines b"
    "checkpoint_at (b\<lparr>lb_logs := l, lb_meta := m, lb_watcher := w\<rparr>) = checkpoint_at b"
    "waiting_lines (b\<lparr>lb_logs := l\<rparr>) = waiting_lines b" "checkpoint_at (b\<lparr>lb_logs := l\<rparr>) = checkpoint_at b"
    "handle_of (b\<lparr>lb_logs := l\<rparr>) = handle_of b" for l m w
    by (simp_all add: waiting_lines_def checkpoint_at_def handle_of_def fun_eq_iff)
  have "lb_logs (flush_land append_lines service lines cps now b) = logs \<and>
    waiting_lines (flush_land append_lines service lines cps now b) = (case res of
       Inl _ \<Rightarrow> (waiting_lines b)(service := lines @ waiting_lines b service) | Inr _ \<Rightarrow> waiting_lines b) \<and>
    checkpoint_at (flush_land append_lines service lines cps now b) = checkpoint_at b"
  proof (cases res)
    case (Inl e)
    let ?b = "update_state service (\<lambda>s. s\<lparr>bs_lines := lines @ bs_lines s\<rparr>) (b\<lparr>lb_logs := logs\<rparr>)"
    have "waiting_lines ?b = (waiting_lines b)(service := lines @ waiting_lines b service)"
      "checkpoint_at ?b = checkpoint_at b" "lb_logs ?b = logs"
      by (auto simp: fun_eq_iff fields) (simp_all add: waiting_lines_def checkpoint_at_def)
    with same_lines_request [of ?b service] show ?thesis
      by (simp add: flush_land_def assms Inl same_lines_def)
  next
    case (Inr u)
    then show ?thesis by (auto simp: flush_land_def assms fields split: prod.split sum.split)
  qed
  then show "lb_logs (flush_land append_lines service lines cps now b) = logs"
    "waiting_lines (flush_land append_lines service lines cps now b) = (case res of
       Inl _ \<Rightarrow> (waiting_lines b)(service := lines @ waiting_lines b service) | Inr _ \<Rightarrow> waiting_lines b)"
    "checkpoint_at (flush_land append_lines service lines cps now b) = checkpoint_at b" by simp_all
qed

lemma flight_lines_append [simp]:
  "flight_lines (fs @ gs) s = flight_lines fs s @ flight_lines gs s"
  "flight_lines ((t, ls, cps) # fs) s = (if t = s then ls else []) @ flight_lines fs s"
  "flight_lines [] s = []"
  by (simp_all add: flight_lines_def)

lemma flight_lines_absent: "s \<notin> fst ` set fs \<Longrightarrow> flight_lines fs s = []"
  by (induction fs) (auto simp: flight_lines_def)

section \<open>Nothing accepted is lost\<close>

context log_sink
begin

text \<open>
  Every accepted line is in the store, in the buffer or in a flush in flight; with at most one flush
  for a service, what a flush is about to checkpoint lies before everything still buffered.
\<close>

definition run_inv :: "bool \<Rightarrow> 'ls buffer_run \<Rightarrow> bool" where
  "run_inv excl r \<longleftrightarrow>
     ok (lb_logs (br_buffer r)) \<and> (\<forall>l \<in> set (br_accepted r). dated (ll_ts l)) \<and>
     (\<forall>s. \<exists>S. mset (lines_of_service s (br_accepted r))
          = S + mset (waiting_lines (br_buffer r) s @ flight_lines (br_flights r) s)
        \<and> image_mset (canon s) (filter_mset storable S) \<subseteq># content (lb_logs (br_buffer r)) s) \<and>
     (excl \<longrightarrow> distinct (map fst (br_flights r))) \<and>
     (\<forall>s lines cps cid ts x. excl \<longrightarrow> (s, lines, cps) \<in> set (br_flights r) \<longrightarrow> (cid, ts, x) \<in> set cps \<longrightarrow>
        (\<exists>ts' x'. checkpoint_at (br_buffer r) s cid = Some (ts', x') \<and> ts \<le> ts') \<and>
        (\<forall>l \<in> set (waiting_lines (br_buffer r) s). ll_cid l = cid \<longrightarrow> ts \<le> ll_ts l))"

lemma run_invI:
  assumes "ok (lb_logs (br_buffer r))" "\<And>l. l \<in> set (br_accepted r) \<Longrightarrow> dated (ll_ts l)"
    and "\<And>s. \<exists>S. mset (lines_of_service s (br_accepted r))
          = S + mset (waiting_lines (br_buffer r) s @ flight_lines (br_flights r) s)
        \<and> image_mset (canon s) (filter_mset storable S) \<subseteq># content (lb_logs (br_buffer r)) s"
    and "excl \<Longrightarrow> distinct (map fst (br_flights r))"
    and "\<And>s lines cps cid ts x. excl \<Longrightarrow> (s, lines, cps) \<in> set (br_flights r) \<Longrightarrow> (cid, ts, x) \<in> set cps \<Longrightarrow>
        (\<exists>ts' x'. checkpoint_at (br_buffer r) s cid = Some (ts', x') \<and> ts \<le> ts') \<and>
        (\<forall>l \<in> set (waiting_lines (br_buffer r) s). ll_cid l = cid \<longrightarrow> ts \<le> ll_ts l)"
  shows "run_inv excl r"
  unfolding run_inv_def by (intro conjI impI allI ballI assms)

lemma run_invD:
  assumes "run_inv excl r"
  shows "ok (lb_logs (br_buffer r))" "l \<in> set (br_accepted r) \<Longrightarrow> dated (ll_ts l)"
    "\<exists>S. mset (lines_of_service s (br_accepted r))
          = S + mset (waiting_lines (br_buffer r) s @ flight_lines (br_flights r) s)
        \<and> image_mset (canon s) (filter_mset storable S) \<subseteq># content (lb_logs (br_buffer r)) s"
    "excl \<Longrightarrow> distinct (map fst (br_flights r))"
    "excl \<Longrightarrow> (s, lines, cps) \<in> set (br_flights r) \<Longrightarrow> (cid, ts, x) \<in> set cps \<Longrightarrow>
        (\<exists>ts' x'. checkpoint_at (br_buffer r) s cid = Some (ts', x') \<and> ts \<le> ts') \<and>
        (\<forall>l \<in> set (waiting_lines (br_buffer r) s). ll_cid l = cid \<longrightarrow> ts \<le> ll_ts l)"
  using assms unfolding run_inv_def by blast+

lemma run_inv_same:
  assumes "run_inv excl r" "same_lines (br_buffer r) b'"
  shows "run_inv excl (r\<lparr>br_buffer := b'\<rparr>)"
  using assms by (simp add: run_inv_def same_lines_def)

lemma run_inv_start:
  assumes "ok (lb_logs b0)" "\<And>s. waiting_lines b0 s = []"
  shows "run_inv excl (run_from b0)"
  using assms by (simp add: run_inv_def run_from_def lines_of_service_def)

lemma run_inv_push:
  assumes inv: "run_inv excl r" and line: "dated (ll_ts line)"
    and p: "push_locked h line (br_buffer r) = (b', backlog)"
  shows "run_inv excl (r\<lparr>br_buffer := b', br_accepted := br_accepted r @ (if backlog = None then [] else [line])\<rparr>)"
proof (cases "backlog = None")
  case True
  with run_inv_same [OF inv push_locked_lines(1) [OF p]] show ?thesis by simp
next
  case False
  note pl = push_locked_lines(2,3,4,5) [OF p]
  let ?svc = "ll_service line"
  have "\<exists>S. mset (lines_of_service s (br_accepted r @ [line]))
        = S + mset (waiting_lines b' s @ flight_lines (br_flights r) s)
      \<and> image_mset (canon s) (filter_mset storable S) \<subseteq># content (lb_logs b') s" for s
  proof -
    obtain S where S: "mset (lines_of_service s (br_accepted r))
          = S + mset (waiting_lines (br_buffer r) s @ flight_lines (br_flights r) s)"
        "image_mset (canon s) (filter_mset storable S) \<subseteq># content (lb_logs (br_buffer r)) s"
      using run_invD(3) [OF inv] by blast
    then show ?thesis using pl(1) [OF False] pl(4)
      by (intro exI [of _ S]) (simp add: lines_of_service_def)
  qed
  moreover have "(\<exists>ts' x'. checkpoint_at b' s cid = Some (ts', x') \<and> ts \<le> ts') \<and>
      (\<forall>l \<in> set (waiting_lines b' s). ll_cid l = cid \<longrightarrow> ts \<le> ll_ts l)"
    if excl "(s, lines, cps) \<in> set (br_flights r)" "(cid, ts, x) \<in> set cps" for s lines cps cid ts x
  proof -
    from run_invD(5) [OF inv that] obtain ts' x' where
      c: "checkpoint_at (br_buffer r) s cid = Some (ts', x')" "ts \<le> ts'"
      and w: "\<forall>l \<in> set (waiting_lines (br_buffer r) s). ll_cid l = cid \<longrightarrow> ts \<le> ll_ts l" by blast
    show ?thesis
    proof (cases "s = ?svc \<and> cid = ll_cid line")
      case True
      then have "ts' \<le> ll_ts line" using pl(3) [OF False] c(1) by blast
      then show ?thesis using True c w pl(1,2) [OF False] by auto
    next
      case n: False
      then show ?thesis using c w pl(1,2) [OF False] by auto
    qed
  qed
  ultimately show ?thesis
    using line False pl(4) run_invD(1,2,4) [OF inv] by (intro run_invI) auto
qed

lemma run_inv_take:
  assumes inv: "run_inv excl r" and ex: "excl \<Longrightarrow> service \<notin> fst ` set (br_flights r)"
    and t: "flush_take (sh_state (handle_of (br_buffer r) service)) = (Some (lines, cps), s')"
  shows "run_inv excl (r\<lparr>br_buffer := update_state service (\<lambda>_. s') (br_buffer r),
      br_flights := br_flights r @ [(service, lines, cps)]\<rparr>)"
proof -
  note ft = flush_take_Some [OF t]
  let ?b = "update_state service (\<lambda>_. s') (br_buffer r)"
  have w: "waiting_lines ?b = (waiting_lines (br_buffer r))(service := [])"
    and c: "checkpoint_at ?b = checkpoint_at (br_buffer r)"
    using ft by (auto simp: fun_eq_iff) (simp_all add: checkpoint_at_def)
  have lines: "lines = waiting_lines (br_buffer r) service" using ft(1) by (simp add: waiting_lines_def)
  have "\<exists>S. mset (lines_of_service s (br_accepted r))
        = S + mset (waiting_lines ?b s @ flight_lines (br_flights r @ [(service, lines, cps)]) s)
      \<and> image_mset (canon s) (filter_mset storable S) \<subseteq># content (lb_logs ?b) s" for s
  proof -
    obtain S where "mset (lines_of_service s (br_accepted r))
          = S + mset (waiting_lines (br_buffer r) s @ flight_lines (br_flights r) s)"
        "image_mset (canon s) (filter_mset storable S) \<subseteq># content (lb_logs (br_buffer r)) s"
      using run_invD(3) [OF inv] by blast
    then show ?thesis using w lines by (intro exI [of _ S]) (simp add: ac_simps)
  qed
  moreover have "distinct (map fst (br_flights r @ [(service, lines, cps)]))" if excl
    using inv ex that by (simp add: run_inv_def)
  moreover have "(\<exists>ts' x'. checkpoint_at ?b s cid = Some (ts', x') \<and> ts \<le> ts') \<and>
      (\<forall>l \<in> set (waiting_lines ?b s). ll_cid l = cid \<longrightarrow> ts \<le> ll_ts l)"
    if excl "(s, ls, cs) \<in> set (br_flights r @ [(service, lines, cps)])" "(cid, ts, x) \<in> set cs" for s ls cs cid ts x
  proof (cases "(s, ls, cs) \<in> set (br_flights r)")
    case True
    from run_invD(5) [OF inv that(1) this that(3)] show ?thesis unfolding w c by simp
  next
    case False
    then have "s = service" "cs = cps" using that(2) by auto
    then have "checkpoint_at (br_buffer r) s cid = Some (ts, x)"
      using ft(4) [of cid ts x] that(3) by (simp add: checkpoint_at_def)
    then show ?thesis unfolding w c by (simp add: \<open>s = service\<close>)
  qed
  ultimately show ?thesis
    using run_invD(1,2) [OF inv] by (intro run_invI) simp_all
qed

lemma run_inv_land:
  assumes inv: "run_inv excl r" and fl: "br_flights r = fs1 @ (service, lines, cps) # fs2"
  shows "run_inv excl (r\<lparr>br_buffer := flush_land append_lines service lines cps now (br_buffer r),
      br_flights := fs1 @ fs2\<rparr>)"
proof -
  let ?b = "flush_land append_lines service lines cps now (br_buffer r)"
  obtain logs res where a: "append_lines service lines (lb_logs (br_buffer r)) = (logs, res)" by fastforce
  have "l \<in> set (br_accepted r)" if "l \<in> set lines" for l
  proof -
    obtain S where "mset (lines_of_service service (br_accepted r))
        = S + mset (waiting_lines (br_buffer r) service @ flight_lines (br_flights r) service)"
      using run_invD(3) [OF inv] by blast
    then have "l \<in># mset (lines_of_service service (br_accepted r))" using that by (simp add: fl)
    then show ?thesis by (simp add: lines_of_service_def)
  qed
  then have "\<forall>l \<in> set lines. dated (ll_ts l)" using run_invD(2) [OF inv] by blast
  note law = append_law [OF run_invD(1) [OF inv] this a]
  then obtain out where res: "res = Some out" by blast
  note land = flush_land_lines [where append_lines = append_lines and b = "br_buffer r", OF a [unfolded res], of cps now]
  have "\<exists>S. mset (lines_of_service s (br_accepted r)) = S + mset (waiting_lines ?b s @ flight_lines (fs1 @ fs2) s)
      \<and> image_mset (canon s) (filter_mset storable S) \<subseteq># content (lb_logs ?b) s" for s
  proof -
    obtain S where S: "mset (lines_of_service s (br_accepted r))
          = S + mset (waiting_lines (br_buffer r) s @ flight_lines (br_flights r) s)"
        "image_mset (canon s) (filter_mset storable S) \<subseteq># content (lb_logs (br_buffer r)) s"
      using run_invD(3) [OF inv] by blast
    have grow: "image_mset (canon s) (filter_mset storable S) \<subseteq># content logs s"
      using S(2) law subset_mset.order_trans by blast
    show ?thesis
    proof (cases "(\<exists>e. out = Inl e) \<or> s \<noteq> service")
      case True
      then show ?thesis using S(1) grow
        by (intro exI [of _ S]) (auto simp: land fl split: sum.split)
    next
      case False
      then have "s = service" by blast
      have "out = Inr ()" using False by (cases out) auto
      then have "content logs s = content (lb_logs (br_buffer r)) s + image_mset (canon s) (mset (filter storable lines))"
        using law res \<open>s = service\<close> by simp
      then show ?thesis using S \<open>out = Inr ()\<close> \<open>s = service\<close>
        by (intro exI [of _ "S + mset lines"]) (simp add: land fl)
    qed
  qed
  moreover have "(\<exists>ts' x'. checkpoint_at ?b s cid = Some (ts', x') \<and> ts \<le> ts') \<and>
      (\<forall>l \<in> set (waiting_lines ?b s). ll_cid l = cid \<longrightarrow> ts \<le> ll_ts l)"
    if excl "(s, ls, cs) \<in> set (fs1 @ fs2)" "(cid, ts, x) \<in> set cs" for s ls cs cid ts x
  proof -
    have "(s, ls, cs) \<in> set (br_flights r)" using that(2) by (auto simp: fl)
    note old = run_invD(5) [OF inv that(1) this that(3)]
    have "service \<notin> fst ` set (fs1 @ fs2)" using run_invD(4) [OF inv that(1)] by (auto simp: fl)
    moreover have "s \<in> fst ` set (fs1 @ fs2)" using imageI [OF that(2), of fst] by simp
    ultimately have "s \<noteq> service" by blast
    then have "waiting_lines ?b s = waiting_lines (br_buffer r) s" by (simp add: land split: sum.split)
    with old show ?thesis by (simp add: land(3))
  qed
  moreover have "distinct (map fst (fs1 @ fs2))" if excl
    using run_invD(4) [OF inv that] by (simp add: fl)
  ultimately show ?thesis
    using run_invD(2) [OF inv] law by (intro run_invI) (simp_all add: land)
qed

lemma reach_run_inv:
  assumes "buffer_reach excl append_lines h b0 r" "ok (lb_logs b0)" "\<And>s. waiting_lines b0 s = []"
  shows "run_inv excl r"
  using assms(1)
proof (induction rule: buffer_reach.induct)
  case run_start
  show ?case using assms(2,3) by (rule run_inv_start)
next
  case (run_push r line b' backlog)
  then show ?case by (intro run_inv_push)
next
  case (run_schedule r service)
  then show ?case by (intro run_inv_same same_lines_schedule)
next
  case (run_worker r step service)
  then show ?case by (intro run_inv_same same_lines_step)
next
  case (run_take r service lines cps s)
  then show ?case by (intro run_inv_take)
next
  case (run_land r fs1 service lines cps fs2 now)
  then show ?case by (intro run_inv_land)
qed

lemma nothing_lost:
  assumes "run_inv excl r"
  shows "image_mset (canon s) (filter_mset storable (mset (lines_of_service s (br_accepted r)))) \<subseteq>#
    content (lb_logs (br_buffer r)) s
      + image_mset (canon s) (filter_mset storable (mset (waiting_lines (br_buffer r) s @ flight_lines (br_flights r) s)))"
proof -
  obtain S where S: "mset (lines_of_service s (br_accepted r))
      = S + mset (waiting_lines (br_buffer r) s @ flight_lines (br_flights r) s)"
    "image_mset (canon s) (filter_mset storable S) \<subseteq># content (lb_logs (br_buffer r)) s"
    using run_invD(3) [OF assms] by blast
  show ?thesis unfolding S(1) using S(2) by (simp add: subset_mset.add_mono)
qed

lemma landed_checkpoint_covered:
  assumes inv: "run_inv True r" and fl: "br_flights r = fs1 @ (service, lines, cps) # fs2"
    and a: "append_lines service lines (lb_logs (br_buffer r)) = (logs, Some (Inr ()))"
    and l: "l \<in> set (br_accepted r)" "ll_service l = service" "storable l"
    and c: "(ll_cid l, ts, x) \<in> set cps" "ll_ts l < ts"
  shows "canon service l \<in># content logs service"
proof -
  have "run_inv True (r\<lparr>br_buffer := flush_land append_lines service lines cps now (br_buffer r),
      br_flights := fs1 @ fs2\<rparr>)" for now by (rule run_inv_land [OF inv fl])
  note after = this [of 0]
    and land = flush_land_lines [where append_lines = append_lines and b = "br_buffer r", OF a, of cps 0]
  obtain S where S: "mset (lines_of_service service (br_accepted r))
      = S + mset (waiting_lines (br_buffer r) service @ flight_lines (fs1 @ fs2) service)"
    "image_mset (canon service) (filter_mset storable S) \<subseteq># content logs service"
    using run_invD(3) [OF after, of service] by (auto simp: land)
  have "flight_lines (fs1 @ fs2) service = []"
  proof (rule flight_lines_absent)
    show "service \<notin> fst ` set (fs1 @ fs2)" using run_invD(4) [OF inv] by (auto simp: fl)
  qed
  moreover have "l \<notin> set (waiting_lines (br_buffer r) service)"
    using run_invD(5) [OF inv, of service lines cps "ll_cid l" ts x] c by (auto simp: fl)
  moreover have "l \<in># mset (lines_of_service service (br_accepted r))"
    using l by (simp add: lines_of_service_def)
  ultimately have "l \<in># S" unfolding S(1) by simp
  with l(3) have "canon service l \<in># image_mset (canon service) (filter_mset storable S)" by simp
  then show ?thesis using S(2) by (rule mset_subset_eqD [rotated])
qed

end

text \<open>
  C3. No accepted line is lost. However pushes, workers and flushes of all services interleave, and
  whatever statements of the store fail, every line that the buffer accepted and that has a week is
  readable in the store, or waits in the buffer or in a flush that has not landed.
\<close>

theorem accepted_lines_kept:
  assumes "iso_calendar env" "\<forall>xs. mset (iter xs) = mset xs" "store_wf env (lb_logs b0)"
    and "\<And>s. waiting_lines b0 s = []" "buffer_reach excl (logs_append env iter) h b0 r"
  shows "mset (map (as_stored s) (filter (\<lambda>l. ll_service l = s \<and> week_name env (ll_ts l) \<noteq> None) (br_accepted r)))
    \<subseteq># log_content env (lb_logs (br_buffer r)) s
      + mset (map (as_stored s) (filter (\<lambda>l. week_name env (ll_ts l) \<noteq> None)
          (waiting_lines (br_buffer r) s @ flight_lines (br_flights r) s)))"
proof -
  have "filter (\<lambda>l. ll_service l = s \<and> week_name env (ll_ts l) \<noteq> None) (br_accepted r)
      = filter (\<lambda>l. week_name env (ll_ts l) \<noteq> None) (lines_of_service s (br_accepted r))"
    by (simp add: lines_of_service_def conj_commute)
  moreover have ok: "iso_calendar env \<and> (\<forall>xs. mset (iter xs) = mset xs) \<and> store_wf env (lb_logs b0)"
    using assms(1-3) by simp
  note inv = sqlite_logs.reach_run_inv [OF assms(5) ok assms(4)]
  ultimately show ?thesis using sqlite_logs.nothing_lost [OF inv, of s] by simp
qed

text \<open>
  C4. A checkpoint never passes a line that is not stored, as long as a service has at most one
  flush in flight: when the append of a flush succeeds, every accepted line of a checkpointed
  container with an earlier time stamp is readable in the store, so that a restart from the
  checkpoint loses none of them.
\<close>

theorem checkpoints_cover_stored:
  assumes "iso_calendar env" "\<forall>xs. mset (iter xs) = mset xs" "store_wf env (lb_logs b0)"
    and "\<And>s. waiting_lines b0 s = []" "buffer_reach True (logs_append env iter) h b0 r"
    and "br_flights r = fs1 @ (service, lines, cps) # fs2"
    and "logs_append env iter service lines (lb_logs (br_buffer r)) = (logs, Some (Inr ()))"
    and "(ll_cid l, ts, x) \<in> set cps" "l \<in> set (br_accepted r)" "ll_service l = service" "ll_ts l < ts"
      "week_name env (ll_ts l) \<noteq> None"
  shows "as_stored service l \<in># log_content env logs service"
proof -
  have ok: "iso_calendar env \<and> (\<forall>xs. mset (iter xs) = mset xs) \<and> store_wf env (lb_logs b0)"
    using assms(1-3) by simp
  note inv = sqlite_logs.reach_run_inv [OF assms(5) ok assms(4)]
  show ?thesis
    by (rule sqlite_logs.landed_checkpoint_covered [OF inv assms(6,7,9,10,12,8,11)])
qed

text \<open>A buffer over a small store, with two lines in its flush.\<close>

definition small_buffer :: "log_store log_buffer" where
  "small_buffer = \<lparr>lb_services = [], lb_logs = week_one_store, lb_meta = (registry_empty, empty_metadata),
     lb_watcher = flush_watcher_new, lb_max_lines = 1000\<rparr>"

definition pushed_buffer :: "log_store buffer_run" where
  "pushed_buffer = foldl (\<lambda>r line. r\<lparr>br_buffer := fst (push_locked (\<lambda>_ _. 0) line (br_buffer r)),
     br_accepted := br_accepted r @ [line]\<rparr>) (run_from small_buffer) [hello_line 7000, hello_line 8000]"

definition taken_buffer :: "log_store buffer_run" where
  "taken_buffer = pushed_buffer\<lparr>
     br_buffer := update_state ''web'' (\<lambda>_. snd (flush_take (sh_state (handle_of (br_buffer pushed_buffer) ''web''))))
       (br_buffer pushed_buffer),
     br_flights := [(''web'', [hello_line 7000, hello_line 8000], [(ContainerId 1 2 3 4 5 6, 8000, 0)])]\<rparr>"

lemmas small_buffer_simps = pushed_buffer_def run_from_def push_locked_def accept_line_def hello_line_def
  hash_line_def handle_of_def update_state_def put_handle_def small_buffer_def empty_state_def Let_def
  hm_insert_def flush_take_def List.map_filter_def

lemma pushed_buffer_reach: "buffer_reach excl append_lines (\<lambda>_ _. 0) small_buffer pushed_buffer"
proof -
  have d: "dated (ll_ts (hello_line 7000))" "dated (ll_ts (hello_line 8000))"
    by (simp_all add: hello_line_def dated_def)
  define r1 where "r1 = (run_from small_buffer)\<lparr>br_buffer := fst (push_locked (\<lambda>_ _. 0) (hello_line 7000) small_buffer),
    br_accepted := [hello_line 7000]\<rparr>"
  have acc1: "snd (push_locked (\<lambda>_ _. 0) (hello_line 7000) small_buffer) \<noteq> None"
    by (simp add: small_buffer_simps)
  have "push_locked (\<lambda>_ _. 0) (hello_line 7000) (br_buffer (run_from small_buffer))
      = (fst (push_locked (\<lambda>_ _. 0) (hello_line 7000) small_buffer), snd (push_locked (\<lambda>_ _. 0) (hello_line 7000) small_buffer))"
    by (simp add: run_from_def)
  from buffer_reach.run_push [OF buffer_reach.run_start d(1) this] acc1
  have r1: "buffer_reach excl append_lines (\<lambda>_ _. 0) small_buffer r1" by (simp add: r1_def run_from_def)
  have acc2: "snd (push_locked (\<lambda>_ _. 0) (hello_line 8000) (br_buffer r1)) \<noteq> None"
    by (simp add: r1_def small_buffer_simps)
  have "push_locked (\<lambda>_ _. 0) (hello_line 8000) (br_buffer r1)
      = (fst (push_locked (\<lambda>_ _. 0) (hello_line 8000) (br_buffer r1)), snd (push_locked (\<lambda>_ _. 0) (hello_line 8000) (br_buffer r1)))"
    by simp
  note push2 = buffer_reach.run_push [OF r1 d(2) this]
  from acc2 obtain n where "snd (push_locked (\<lambda>_ _. 0) (hello_line 8000) (br_buffer r1)) = Some n" by blast
  with push2 show ?thesis by (simp add: r1_def pushed_buffer_def run_from_def)
qed

lemma small_buffer_ok:
  "store_wf week_one_env (lb_logs small_buffer)" "waiting_lines small_buffer s = []"
  using week_one_wf by (simp_all add: small_buffer_def waiting_lines_def handle_of_def empty_state_def)

theorem accepted_lines_kept_witness:
  "mset (map (as_stored ''web'') (filter (\<lambda>l. ll_service l = ''web'' \<and> week_name week_one_env (ll_ts l) \<noteq> None)
     (br_accepted pushed_buffer)))
    \<subseteq># log_content week_one_env (lb_logs (br_buffer pushed_buffer)) ''web''
      + mset (map (as_stored ''web'') (filter (\<lambda>l. week_name week_one_env (ll_ts l) \<noteq> None)
          (waiting_lines (br_buffer pushed_buffer) ''web'' @ flight_lines (br_flights pushed_buffer) ''web'')))"
  by (rule accepted_lines_kept [where iter = id, OF week_one_calendar _ small_buffer_ok pushed_buffer_reach]) simp

theorem checkpoints_cover_stored_witness:
  "\<exists>logs. logs_append week_one_env id ''web'' [hello_line 7000, hello_line 8000] (lb_logs (br_buffer taken_buffer))
      = (logs, Some (Inr ())) \<and>
    as_stored ''web'' (hello_line 7000) \<in># log_content week_one_env logs ''web''"
proof -
  have take: "flush_take (sh_state (handle_of (br_buffer pushed_buffer) ''web'')) =
    (Some ([hello_line 7000, hello_line 8000], [(ContainerId 1 2 3 4 5 6, 8000, 0)]),
     snd (flush_take (sh_state (handle_of (br_buffer pushed_buffer) ''web''))))"
    by (simp add: small_buffer_simps)
  have flights: "br_flights pushed_buffer = []" by (simp add: pushed_buffer_def run_from_def)
  have reach: "buffer_reach True (logs_append week_one_env id) (\<lambda>_ _. 0) small_buffer taken_buffer"
    using buffer_reach.run_take [OF pushed_buffer_reach _ take] flights by (simp add: taken_buffer_def)
  have dated: "\<forall>line \<in> set [hello_line 7000, hello_line 8000]. dated (ll_ts line)"
    by (simp add: hello_line_def dated_def)
  have "lb_logs (br_buffer taken_buffer) = week_one_store"
    by (simp add: taken_buffer_def small_buffer_simps)
  then have "ls_faults (lb_logs (br_buffer taken_buffer)) = []"
    by (simp add: week_one_store_def log_store_new_def)
  from logs_append_succeeds [OF week_one_calendar _ dated this, of id "''web''"] obtain logs where
    a: "logs_append week_one_env id ''web'' [hello_line 7000, hello_line 8000] (lb_logs (br_buffer taken_buffer))
      = (logs, Some (Inr ()))" by auto
  have "week_name week_one_env 7000 \<noteq> None"
    by (simp add: week_name_def week_database_name_def week_one_env_def)
  then have "as_stored ''web'' (hello_line 7000) \<in># log_content week_one_env logs ''web''"
    using checkpoints_cover_stored [OF week_one_calendar _ small_buffer_ok reach, of "[]" "''web''" _ _ "[]"
        logs "hello_line 7000" 8000 0] a
    by (simp add: taken_buffer_def pushed_buffer_def run_from_def) (simp add: hello_line_def)
  with a show ?thesis by blast
qed

section \<open>Replays\<close>

definition accept_all :: "line_hash \<Rightarrow> log_line list \<Rightarrow> buffer_state \<Rightarrow> buffer_state" where
  "accept_all h ls s = foldl (\<lambda>s l. case accept_line h l s of None \<Rightarrow> s | Some s' \<Rightarrow> s') s ls"

text \<open>
  C18. A replay adds nothing. Once a batch of lines has been offered whose lines of each container
  have increasing time stamps, every line of the batch is dropped when it is offered again, whatever
  the state before and whatever the hash; so a log stream that restarts anywhere in it stores no
  line twice.
\<close>

theorem replay_is_dropped:
  assumes "sorted_wrt (\<lambda>a b. ll_cid a = ll_cid b \<longrightarrow> ll_ts a < ll_ts b) ls" "l \<in> set ls"
  shows "accept_line h l (accept_all h ls s) = None"
  using assms
proof (induction ls rule: rev_induct)
  case (snoc x ls)
  let ?s = "accept_all h ls s"
  have step: "accept_all h (ls @ [x]) s = (case accept_line h x ?s of None \<Rightarrow> ?s | Some s' \<Rightarrow> s')"
    unfolding accept_all_def by simp
  show ?case
  proof (cases "accept_line h x ?s")
    case None
    with snoc show ?thesis by (auto simp: step sorted_wrt_append)
  next
    case (Some s')
    note cp = accept_line_Some(2) [OF Some]
    have all: "accept_all h (ls @ [x]) s = s'" by (simp add: step Some)
    consider "l = x" | "l \<in> set ls" "ll_cid l = ll_cid x" | "l \<in> set ls" "ll_cid l \<noteq> ll_cid x"
      using snoc.prems(2) by auto
    then show ?thesis
    proof cases
      case 1
      then show ?thesis by (simp add: all accept_line_def cp Let_def)
    next
      case b: 2
      then have "ll_ts l < ll_ts x" using snoc.prems(1) by (auto simp: sorted_wrt_append)
      then show ?thesis by (simp add: all accept_line_def cp b(2) Let_def)
    next
      case 3
      have "accept_line h l ?s = None" using snoc 3(1) by (auto simp: sorted_wrt_append)
      moreover have "accept_line h l s' = None \<longleftrightarrow> accept_line h l ?s = None"
        using 3(2) by (simp add: accept_line_def cp Let_def)
      ultimately show ?thesis by (simp add: all)
    qed
  qed
qed simp

theorem replay_is_dropped_witness:
  "accept_line (\<lambda>_ _. 0) (hello_line 7000) (accept_all (\<lambda>_ _. 0) [hello_line 7000, hello_line 8000] empty_state) = None"
  by (rule replay_is_dropped) (simp_all add: hello_line_def)

text \<open>
  Only the last line of a time stamp is remembered: of two different lines with the same time stamp
  the first is accepted again by a replay.
\<close>

lemma boundary_line_accepted_again:
  assumes "ll_cid a = ll_cid b" "ll_ts a = ll_ts b" "hash_line h a \<noteq> hash_line h b"
  shows "accept_line h a (accept_all h [a, b] empty_state) \<noteq> None"
  using assms by (simp add: accept_all_def accept_line_def empty_state_def Let_def)

text \<open>
  A flush that \<^verbatim>\<open>push\<close> runs itself, for a service without a worker, schedules no retry when the
  store fails: the lines wait until the next line of the service arrives.
\<close>

lemma inline_failure_not_scheduled:
  assumes "sh_worker (handle_of b service) = None"
    and "append_lines service lines (lb_logs b) = (logs, Some (Inl e))" "lines \<noteq> []"
  shows "sh_worker (handle_of (flush_land append_lines service lines cps now b) service) = None"
    "waiting_lines (flush_land append_lines service lines cps now b) service \<noteq> []"
proof -
  let ?b = "update_state service (\<lambda>s. s\<lparr>bs_lines := lines @ bs_lines s\<rparr>) (b\<lparr>lb_logs := logs\<rparr>)"
  have "handle_of (b\<lparr>lb_logs := logs\<rparr>) = handle_of b" by (simp add: handle_of_def fun_eq_iff)
  then have "sh_worker (handle_of ?b service) = None" using assms(1) by (simp add: update_state_def)
  then have "request_service_flush service ?b = ?b"
    by (auto simp: request_service_flush_def handle_of_def split: option.splits)
  then have "flush_land append_lines service lines cps now b = ?b" by (simp add: flush_land_def assms(2))
  with \<open>sh_worker (handle_of ?b service) = None\<close>
  show "sh_worker (handle_of (flush_land append_lines service lines cps now b) service) = None" by simp
  show "waiting_lines (flush_land append_lines service lines cps now b) service \<noteq> []"
    using flush_land_lines(2) [where append_lines = append_lines, OF assms(2), of cps now] assms(3) by simp
qed

end
