(* ===== verification/Metrics_Store.thy ===== *)
theory Metrics_Store
  imports Metrics_Schema
begin

text \<open>
  \<open>metrics/rollup.rs\<close> and \<open>metrics/store.rs\<close>: the store of the metrics database. An insert into a
  10s table rolls up every coarse bucket that it closes; the main theorem says that, over any
  stream of host inserts in time order, each coarse table is exactly the downsampling of the 10s
  rows of the fully elapsed buckets.
\<close>

section \<open>Rollup (rollup.rs)\<close>

definition closed_bucket :: "i64 \<Rightarrow> i64 \<Rightarrow> metrics_resolution \<Rightarrow> i64 option" where
  "closed_bucket previous_ts new_ts r =
     (let b = bucket_ms r; previous = bucket_end previous_ts b
      in if bucket_end new_ts b \<noteq> previous then Some previous else None)"

definition source_range :: "i64 \<Rightarrow> metrics_resolution \<Rightarrow> time_range" where
  "source_range e r =
     \<lparr>range_from = i64_wrap (i64_wrap (e - uint (bucket_ms r)) + 1), range_to = e\<rparr>"

definition resolutions_closed_by :: "i64 \<Rightarrow> i64 \<Rightarrow> (metrics_resolution \<times> i64) list" where
  "resolutions_closed_by previous_ts new_ts =
     List.map_filter (\<lambda>r. map_option (\<lambda>c. (r, c)) (closed_bucket previous_ts new_ts r)) coarse"

text \<open>\<open>Iterator::max_by_key\<close>: the last of the elements with the largest key.\<close>

fun max_by_key :: "('a \<Rightarrow> 'k::linorder) \<Rightarrow> 'a list \<Rightarrow> 'a option" where
  "max_by_key f [] = None"
| "max_by_key f (x # xs) =
     (case max_by_key f xs of None \<Rightarrow> Some x | Some m \<Rightarrow> Some (if f m < f x then x else m))"

definition widest_source_range :: "(metrics_resolution \<times> i64) list \<Rightarrow> time_range option" where
  "widest_source_range cs =
     map_option (\<lambda>(r, c). source_range c r) (max_by_key (\<lambda>(r, _). bucket_ms r) cs)"

text \<open>
  The standard library's \<open>partition_point\<close>: a binary search whose result is only meaningful when
  the slice is partitioned by the predicate.
\<close>

function bisect :: "(nat \<Rightarrow> bool) \<Rightarrow> nat \<Rightarrow> nat \<Rightarrow> nat" where
  "bisect p base size_left =
     (if size_left \<le> 1 then base
      else let half = size_left div 2; mid = base + half
        in bisect p (if p mid then mid else base) (size_left - half))"
  by pat_completeness auto
termination by (relation "measure (\<lambda>(_, _, n). n)") auto

declare bisect.simps [simp del]

definition partition_point :: "('a \<Rightarrow> bool) \<Rightarrow> 'a list \<Rightarrow> nat" where
  "partition_point p xs =
     (if xs = [] then 0
      else let b = bisect (\<lambda>i. p (xs ! i)) 0 (length xs) in if p (xs ! b) then b + 1 else b)"

definition slice_by_range :: "'a list \<Rightarrow> time_range \<Rightarrow> ('a \<Rightarrow> int) \<Rightarrow> 'a list" where
  "slice_by_range xs rg ts =
     (let start = partition_point (\<lambda>x. ts x < range_from rg) xs;
          stop = partition_point (\<lambda>x. ts x \<le> range_to rg) xs
      in take (stop - start) (drop start xs))"

fun insert_host_all ::
    "metrics_db \<Rightarrow> metrics_resolution \<Rightarrow> host_sample list \<Rightarrow> metrics_db \<times> unit app_result" where
  "insert_host_all db r [] = (db, Inr ())"
| "insert_host_all db r (s # ss) =
     (case schema_insert_host db r s of (db1, Inl e) \<Rightarrow> (db1, Inl e)
      | (db1, Inr _) \<Rightarrow> insert_host_all db1 r ss)"

fun roll_host_closed ::
    "host_sample list \<Rightarrow> u8 \<Rightarrow> (metrics_resolution \<times> i64) list \<Rightarrow> metrics_db
      \<Rightarrow> metrics_db \<times> unit app_result" where
  "roll_host_closed samples pct [] db = (db, Inr ())"
| "roll_host_closed samples pct ((r, c) # cs) db =
     (case insert_host_all db r
             (downsample_host (slice_by_range samples (source_range c r) hs_ts) r pct) of
        (db1, Inl e) \<Rightarrow> (db1, Inl e)
      | (db1, Inr _) \<Rightarrow> roll_host_closed samples pct cs db1)"

definition roll_up_host :: "metrics_db \<Rightarrow> i64 \<Rightarrow> i64 \<Rightarrow> u8 \<Rightarrow> metrics_db \<times> unit app_result" where
  "roll_up_host db previous_ts new_ts pct =
     (let closed = resolutions_closed_by previous_ts new_ts in
      case widest_source_range closed of None \<Rightarrow> (db, Inr ())
      | Some fetch_range \<Rightarrow>
          (case schema_select_host db TenSeconds fetch_range of
             (db1, Inl e) \<Rightarrow> (db1, Inl e)
           | (db1, Inr samples) \<Rightarrow> roll_host_closed samples pct closed db1))"

definition by_container :: "container_sample list \<Rightarrow> (container_id, container_sample list) hash_map" where
  "by_container ss = foldl (\<lambda>m s. hm_entry (cs_cid s) [] (\<lambda>v. v @ [s]) m) [] ss"

fun roll_containers_closed ::
    "container_sample list \<Rightarrow> u8 \<Rightarrow> (metrics_resolution \<times> i64) list \<Rightarrow> metrics_db
      \<Rightarrow> metrics_db \<times> unit app_result" where
  "roll_containers_closed samples pct [] db = (db, Inr ())"
| "roll_containers_closed samples pct ((r, c) # cs) db =
     (let slice = slice_by_range samples (source_range c r) cs_ts;
          rolled = concat (map (\<lambda>(_, ss). downsample_container ss r pct) (by_container slice))
      in case schema_insert_containers db r rolled of
           (db1, Inl e) \<Rightarrow> (db1, Inl e)
         | (db1, Inr _) \<Rightarrow> roll_containers_closed samples pct cs db1)"

definition roll_up_containers :: "metrics_db \<Rightarrow> i64 \<Rightarrow> i64 \<Rightarrow> u8 \<Rightarrow> metrics_db \<times> unit app_result"
  where
  "roll_up_containers db previous_ts new_ts pct =
     (let closed = resolutions_closed_by previous_ts new_ts in
      case widest_source_range closed of None \<Rightarrow> (db, Inr ())
      | Some fetch_range \<Rightarrow>
          (case schema_select_containers db TenSeconds fetch_range of
             (db1, Inl e) \<Rightarrow> (db1, Inl e)
           | (db1, Inr samples) \<Rightarrow> roll_containers_closed samples pct closed db1))"

section \<open>The store (store.rs)\<close>

record metrics_store =
  mt_db :: metrics_db
  mt_last_host_ts :: "i64 option"
  mt_last_containers_ts :: "i64 option"
  mt_max_gap_pct :: u8

text \<open>\<open>connect\<close> on a database whose tables exist, created by this or an earlier run.\<close>

definition store_connect :: "metrics_db \<Rightarrow> u8 \<Rightarrow> metrics_db \<times> metrics_store app_result" where
  "store_connect db pct =
     (case select_host_max_ts db TenSeconds of (db1, Inl e) \<Rightarrow> (db1, Inl e)
      | (db1, Inr h) \<Rightarrow>
          (case select_containers_max_ts db1 TenSeconds of (db2, Inl e) \<Rightarrow> (db2, Inl e)
           | (db2, Inr c) \<Rightarrow>
               (db2, Inr \<lparr>mt_db = db2, mt_last_host_ts = h, mt_last_containers_ts = c,
                         mt_max_gap_pct = pct\<rparr>)))"

definition advance :: "i64 option \<Rightarrow> i64 \<Rightarrow> i64 option \<times> i64 option" where
  "advance cursor new_ts = (option_filter (\<lambda>previous. previous < new_ts) cursor, Some new_ts)"

datatype file_outcome = FileLen u64 | FileNotFound | FileFailed string

fun file_size_bytes :: "file_outcome \<Rightarrow> u64 app_result" where
  "file_size_bytes (FileLen n) = Inr n"
| "file_size_bytes FileNotFound = Inr 0"
| "file_size_bytes (FileFailed m) = Inl (Storage m)"

fun delete_loop ::
    "metrics_db \<Rightarrow> i64 \<Rightarrow> nat \<Rightarrow> metrics_resolution list \<Rightarrow> metrics_db \<times> nat app_result" where
  "delete_loop db cutoff deleted [] = (db, Inr deleted)"
| "delete_loop db cutoff deleted (r # rs) =
     (case delete_host_before db r cutoff of (db1, Inl e) \<Rightarrow> (db1, Inl e)
      | (db1, Inr n) \<Rightarrow>
          (case delete_containers_before db1 r cutoff of (db2, Inl e) \<Rightarrow> (db2, Inl e)
           | (db2, Inr m) \<Rightarrow> delete_loop db2 cutoff (deleted + n + m) rs))"

definition store_delete_before :: "metrics_store \<Rightarrow> i64 \<Rightarrow> metrics_store \<times> nat app_result" where
  "store_delete_before st cutoff =
     (let (db, res) = delete_loop (mt_db st) cutoff 0 all_resolutions in (st\<lparr>mt_db := db\<rparr>, res))"

definition store_insert_host :: "metrics_store \<Rightarrow> host_sample \<Rightarrow> metrics_store \<times> unit app_result" where
  "store_insert_host st s =
     (case schema_insert_host (mt_db st) TenSeconds s of
        (db1, Inl e) \<Rightarrow> (st\<lparr>mt_db := db1\<rparr>, Inl e)
      | (db1, Inr _) \<Rightarrow>
          (let (previous, cursor) = advance (mt_last_host_ts st) (hs_ts s);
               st1 = st\<lparr>mt_db := db1, mt_last_host_ts := cursor\<rparr>
           in case previous of None \<Rightarrow> (st1, Inr ())
              | Some p \<Rightarrow>
                  (st1\<lparr>mt_db := fst (roll_up_host db1 p (hs_ts s) (mt_max_gap_pct st))\<rparr>, Inr ())))"

definition store_insert_containers ::
    "metrics_store \<Rightarrow> container_sample list \<Rightarrow> metrics_store \<times> unit app_result" where
  "store_insert_containers st samples =
     (case list_max (map cs_ts samples) of None \<Rightarrow> (st, Inr ())
      | Some ts \<Rightarrow>
          (case schema_insert_containers (mt_db st) TenSeconds samples of
             (db1, Inl e) \<Rightarrow> (st\<lparr>mt_db := db1\<rparr>, Inl e)
           | (db1, Inr _) \<Rightarrow>
               (let (previous, cursor) = advance (mt_last_containers_ts st) ts;
                    st1 = st\<lparr>mt_db := db1, mt_last_containers_ts := cursor\<rparr>
                in case previous of None \<Rightarrow> (st1, Inr ())
                   | Some p \<Rightarrow>
                       (st1\<lparr>mt_db := fst (roll_up_containers db1 p ts (mt_max_gap_pct st))\<rparr>, Inr ()))))"

definition query_host ::
    "metrics_store \<Rightarrow> time_range \<Rightarrow> metrics_resolution \<Rightarrow> metrics_store \<times> host_point list app_result"
  where
  "query_host st rg r =
     (let (db, res) = schema_select_host (mt_db st) r rg
      in (st\<lparr>mt_db := db\<rparr>, and_then res (\<lambda>ss. Inr (map host_point_of_sample ss))))"

text \<open>
  The grouping of \<open>query_containers\<close>. \<open>name_of\<close> is the lookup of the service registry at the time of
  the call; a service that it does not know is dropped.
\<close>

definition group_by_service ::
    "container_sample list \<Rightarrow> (service_id, (container_id, container_sample list) hash_map) hash_map"
  where
  "group_by_service ss =
     foldl (\<lambda>m s. hm_entry (cs_service s) []
              (\<lambda>cm. hm_entry (cs_cid s) [] (\<lambda>v. v @ [s]) cm) m) [] ss"

definition service_points ::
    "time_range \<Rightarrow> string \<Rightarrow> (container_id, container_sample list) hash_map
      \<Rightarrow> (container_id, container_point list) hash_map" where
  "service_points rg service cm =
     foldl (\<lambda>m (cid, ss). hm_insert cid
        (map (\<lambda>s. container_point_from_sample s service)
          (filter (\<lambda>s. range_from rg \<le> cs_ts s) ss)) m) [] cm"

definition group_metrics ::
    "time_range \<Rightarrow> string \<Rightarrow> (container_id, container_sample list) hash_map \<Rightarrow> container_group_metrics"
  where
  "group_metrics rg service cm =
     (let containers = service_points rg service cm
      in \<lparr>gm_sum = sum_by_bucket (map snd containers), gm_containers = containers\<rparr>)"

definition query_containers ::
    "(service_id \<Rightarrow> string option) \<Rightarrow> metrics_store \<Rightarrow> time_range \<Rightarrow> metrics_resolution
      \<Rightarrow> metrics_store \<times> (string, container_group_metrics) hash_map app_result" where
  "query_containers name_of st rg r =
     (let (db, res) = schema_select_containers (mt_db st) r rg
      in (st\<lparr>mt_db := db\<rparr>, and_then res (\<lambda>ss. Inr
           (foldl (\<lambda>m (sid, cm). case name_of sid of None \<Rightarrow> m
                      | Some service \<Rightarrow> hm_insert service (group_metrics rg service cm) m)
              [] (group_by_service ss)))))"

section \<open>Slices\<close>

definition partitioned :: "('a \<Rightarrow> bool) \<Rightarrow> 'a list \<Rightarrow> bool" where
  "partitioned p xs \<longleftrightarrow> (\<forall>i j. i \<le> j \<longrightarrow> j < length xs \<longrightarrow> p (xs ! j) \<longrightarrow> p (xs ! i))"

lemma bisect_bound:
  assumes "0 < n"
  shows "base \<le> bisect p base n \<and> bisect p base n < base + n"
  using assms
proof (induction p base n rule: bisect.induct)
  case (1 p base n)
  show ?case
  proof (cases "n \<le> 1")
    case True
    then show ?thesis using "1.prems" by (simp add: bisect.simps)
  next
    case False
    define h where "h = n div 2"
    define b where "b = (if p (base + h) then base + h else base)"
    have h: "0 < n - h" "base \<le> b" "b \<le> base + h" "h < n" using False by (simp_all add: h_def b_def)
    have "b \<le> bisect p b (n - h) \<and> bisect p b (n - h) < b + (n - h)"
      unfolding b_def h_def by (rule "1.IH") (use False in simp_all)
    moreover have "bisect p base n = bisect p b (n - h)"
      unfolding b_def h_def using False by (subst bisect.simps) (simp add: Let_def)
    ultimately show ?thesis using h by linarith
  qed
qed

text \<open>The search keeps the boundary of a partitioned slice inside its window.\<close>

lemma bisect_boundary:
  assumes "0 < n" "\<forall>i<base. p i" "base = 0 \<or> p base" "\<forall>i. base + n \<le> i \<longrightarrow> i < N \<longrightarrow> \<not> p i"
    "base + n \<le> N" "\<forall>i j. i \<le> j \<longrightarrow> j < N \<longrightarrow> p j \<longrightarrow> p i"
  shows "(\<forall>i < bisect p base n. p i) \<and> (\<forall>i. bisect p base n < i \<longrightarrow> i < N \<longrightarrow> \<not> p i)"
  using assms
proof (induction p base n rule: bisect.induct)
  case (1 p base n)
  show ?case
  proof (cases "n \<le> 1")
    case True
    then have "n = 1" using "1.prems"(1) by simp
    then show ?thesis using "1.prems" by (auto simp: bisect.simps)
  next
    case False
    define h where "h = n div 2"
    have h: "0 < n - h" "h < n" using False by (simp_all add: h_def)
    define b where "b = (if p (base + h) then base + h else base)"
    have hn: "2 * h \<le> n" by (simp add: h_def)
    have eq: "bisect p base n = bisect p b (n - h)"
      unfolding h_def b_def using False by (subst bisect.simps) (simp add: Let_def)
    have mid: "base + h < N" using h "1.prems"(5) by linarith
    have p1: "\<forall>i<b. p i"
      using "1.prems"(2) "1.prems"(6) mid unfolding b_def by (metis less_imp_le)
    have p2: "b = 0 \<or> p b" using "1.prems"(3) by (simp add: b_def)
    have p3: "\<not> p i" if "b + (n - h) \<le> i" "i < N" for i
    proof (cases "p (base + h)")
      case True
      then have "base + n \<le> i" using that(1) h by (simp add: b_def)
      then show ?thesis using "1.prems"(4) that(2) by blast
    next
      case False
      then have "base + h \<le> i" using that(1) hn by (simp add: b_def)
      then show ?thesis using False "1.prems"(6) that(2) by blast
    qed
    have p3': "\<forall>i. b + (n - h) \<le> i \<longrightarrow> i < N \<longrightarrow> \<not> p i" using p3 by blast
    have "b \<le> base + h" by (simp add: b_def)
    then have p4: "b + (n - h) \<le> N" using "1.prems"(5) h(2) by linarith
    have "(\<forall>i < bisect p b (n - h). p i) \<and> (\<forall>i. bisect p b (n - h) < i \<longrightarrow> i < N \<longrightarrow> \<not> p i)"
      unfolding b_def h_def
      by (rule "1.IH" [OF False refl refl])
        (fact h(1) [unfolded h_def] p1 [unfolded b_def h_def] p2 [unfolded b_def h_def]
          p3' [unfolded b_def h_def] p4 [unfolded b_def h_def] "1.prems"(6))+
    then show ?thesis unfolding eq .
  qed
qed

lemma partition_point_boundary:
  assumes "partitioned p xs"
  shows "partition_point p xs \<le> length xs \<and> (\<forall>i < length xs. p (xs ! i) \<longleftrightarrow> i < partition_point p xs)"
proof (cases "xs = []")
  case False
  define b where "b = bisect (\<lambda>i. p (xs ! i)) 0 (length xs)"
  have bd: "(\<forall>i<b. p (xs ! i)) \<and> (\<forall>i. b < i \<longrightarrow> i < length xs \<longrightarrow> \<not> p (xs ! i))"
    unfolding b_def using assms False by (intro bisect_boundary) (simp_all add: partitioned_def)
  moreover have "b < length xs"
    using bisect_bound [of "length xs" 0 "\<lambda>i. p (xs ! i)"] False by (simp add: b_def)
  ultimately show ?thesis using False
    by (auto simp: partition_point_def b_def [symmetric] Let_def less_Suc_eq)
      (metis linorder_neqE_nat)+
qed (simp add: partition_point_def)

lemma take_partition_point:
  assumes "partitioned p xs"
  shows "take (partition_point p xs) xs = filter p xs" "drop (partition_point p xs) xs = filter (Not \<circ> p) xs"
proof -
  let ?n = "partition_point p xs"
  note b = partition_point_boundary [OF assms]
  have "\<forall>x\<in>set (take ?n xs). p x" using b by (auto simp: in_set_conv_nth)
  moreover have "\<forall>x\<in>set (drop ?n xs). \<not> p x" using b by (auto simp: in_set_conv_nth)
  moreover have "filter p xs = filter p (take ?n xs) @ filter p (drop ?n xs)"
    "filter (Not \<circ> p) xs = filter (Not \<circ> p) (take ?n xs) @ filter (Not \<circ> p) (drop ?n xs)"
    by (metis append_take_drop_id filter_append)+
  ultimately show "take ?n xs = filter p xs" "drop ?n xs = filter (Not \<circ> p) xs"
    by (simp_all add: filter_id_conv filter_empty_conv)
qed

lemma partitioned_sorted:
  assumes "sorted (map f xs)"
  shows "partitioned (\<lambda>x. f x < k) xs" "partitioned (\<lambda>x. f x \<le> (k::'a::linorder)) xs"
proof -
  have "f (xs ! i) \<le> f (xs ! j)" if "i \<le> j" "j < length xs" for i j
    using sorted_nth_mono [OF assms that(1)] that by simp
  then show "partitioned (\<lambda>x. f x < k) xs" "partitioned (\<lambda>x. f x \<le> k) xs"
    unfolding partitioned_def by (meson le_less_trans order_trans)+
qed

lemma filter_index:
  assumes "\<forall>i < length xs. P (xs ! i) \<longleftrightarrow> a \<le> i \<and> i < b"
  shows "filter P xs = drop a (take b xs)"
proof -
  let ?t = "take b xs"
  have split: "xs = take a ?t @ drop a ?t @ drop b xs"
    by (simp only: append_assoc [symmetric] append_take_drop_id)
  have "\<forall>x\<in>set (take a ?t). \<not> P x" "\<forall>x\<in>set (drop b xs). \<not> P x"
    using assms by (auto simp: in_set_conv_nth)
  moreover have "\<forall>x\<in>set (drop a ?t). P x"
    using assms by (auto simp: in_set_conv_nth less_diff_conv nth_append)
  ultimately have "filter P (take a ?t @ drop a ?t @ drop b xs) = drop a ?t"
    by (simp add: filter_id_conv filter_empty_conv)
  with split show ?thesis by metis
qed

lemma slice_sorted:
  assumes "sorted (map ts xs)"
  shows "slice_by_range xs rg ts = filter (\<lambda>x. in_range rg (ts x)) xs"
proof -
  define a b where "a = partition_point (\<lambda>x. ts x < range_from rg) xs"
    and "b = partition_point (\<lambda>x. ts x \<le> range_to rg) xs"
  have "\<forall>i < length xs. in_range rg (ts (xs ! i)) \<longleftrightarrow> a \<le> i \<and> i < b"
    using partition_point_boundary [OF partitioned_sorted(1) [OF assms, of "range_from rg"], folded a_def]
      partition_point_boundary [OF partitioned_sorted(2) [OF assms, of "range_to rg"], folded b_def]
    by (auto simp: in_range_def not_less [symmetric])
  from filter_index [OF this] show ?thesis
    by (simp add: slice_by_range_def a_def b_def Let_def drop_take)
qed

section \<open>Closing a bucket\<close>

lemma remdups_adj_snoc:
  fixes E :: int
  assumes "\<forall>x\<in>set xs. x < E" "n \<noteq> 0"
  shows "remdups_adj (xs @ replicate n E) = remdups_adj xs @ [E]"
  using assms
proof (induction xs rule: remdups_adj.induct)
  case 1
  then show ?case by (simp add: remdups_adj_replicate)
next
  case (2 x)
  then obtain k where "n = Suc k" by (cases n) auto
  moreover have "remdups_adj (E # replicate k E) = [E]"
    using remdups_adj_replicate [of "Suc k" E] by simp
  ultimately show ?case using 2 by simp
qed auto

lemma grouped_snoc:
  assumes "\<forall>x\<in>set A. bkt x < E" "\<forall>x\<in>set B. bkt x = E" "B \<noteq> []"
  shows "grouped bkt mean (A @ B) = grouped bkt mean A @ option_list (mean B E)"
proof -
  have "map bkt B = replicate (length B) E"
    using assms(2) by (simp add: map_replicate_const [symmetric] cong: map_cong)
  then have r: "remdups_adj (map bkt (A @ B)) = remdups_adj (map bkt A) @ [E]"
    using assms(1,3) remdups_adj_snoc [of "map bkt A" E "length B"] by simp
  have a: "filter (\<lambda>s. bkt s = e) (A @ B) = filter (\<lambda>s. bkt s = e) A" if "e \<in> bkt ` set A" for e
    using that assms(1,2) by (auto simp: filter_empty_conv)
  have e: "filter (\<lambda>s. bkt s = E) (A @ B) = B"
    using assms(1,2) by (auto simp: filter_empty_conv filter_id_conv)
  have "map (\<lambda>x. option_list (mean (filter (\<lambda>s. bkt s = x) (A @ B)) x)) (remdups_adj (map bkt A)) =
      map (\<lambda>x. option_list (mean (filter (\<lambda>s. bkt s = x) A) x)) (remdups_adj (map bkt A))"
    using a by (intro map_cong refl) simp
  then show ?thesis
    unfolding grouped_def r [unfolded map_append] map_append concat_append by (simp only: list.map e concat.simps append_Nil2)
qed

lemma grouped_one:
  assumes "\<forall>x\<in>set B. bkt x = E" "B \<noteq> []"
  shows "grouped bkt mean B = option_list (mean B E)"
  using grouped_snoc [of "[]" bkt E B mean] assms by (simp add: grouped_def)

lemma coarse_dvd:
  assumes "r \<in> set coarse" "w \<in> set coarse" "bucket_ms r \<le> bucket_ms w"
  shows "uint (bucket_ms r) dvd uint (bucket_ms w)"
  using assms by (auto simp: coarse_def dvd_def)

text \<open>The bucket of a coarser resolution contains the bucket of a finer one.\<close>

lemma bucket_nested:
  assumes "ts_ok p" "r \<in> set coarse" "w \<in> set coarse" "bucket_ms r \<le> bucket_ms w"
  shows "bucket_end p (bucket_ms r) \<le> bucket_end p (bucket_ms w)"
    "bucket_end p (bucket_ms w) - uint (bucket_ms w) \<le> bucket_end p (bucket_ms r) - uint (bucket_ms r)"
proof -
  define b where "b = uint (bucket_ms r)"
  define e where "e = bucket_end p (bucket_ms r)"
  define E where "E = bucket_end p (bucket_ms w)"
  have b: "0 < b" by (simp add: b_def)
  note p = bucket_end_window [OF assms(1), of r, folded b_def e_def]
    and P = bucket_end_window [OF assms(1), of w, folded E_def]
  have d: "b dvd uint (bucket_ms w)" unfolding b_def by (rule coarse_dvd [OF assms(2-4)])
  then have "b dvd E" "b dvd E - uint (bucket_ms w)" using P(3) by (auto intro: dvd_trans)
  with p(3) have "b dvd e - E" "b dvd (E - uint (bucket_ms w)) - e" by auto
  then obtain i j where i: "e - E = b * i" and j: "(E - uint (bucket_ms w)) - e = b * j"
    by (auto elim!: dvdE)
  have "b * i < b * 1" "b * j < b * 0" unfolding i [symmetric] j [symmetric] using p P by simp_all
  with b have "i \<le> 0" "j \<le> - 1" by (simp_all only: mult_less_cancel_left_pos)
  with b have "b * i \<le> b * 0" "b * j \<le> b * - 1" by (intro mult_left_mono; simp)+
  with i j show "bucket_end p (bucket_ms r) \<le> bucket_end p (bucket_ms w)"
    "bucket_end p (bucket_ms w) - uint (bucket_ms w) \<le> bucket_end p (bucket_ms r) - uint (bucket_ms r)"
    by (simp_all add: e_def E_def b_def)
qed

lemma max_by_key_None [simp]: "max_by_key f xs = None \<longleftrightarrow> xs = []"
  by (cases xs) (auto split: option.splits)

lemma max_by_key_Some:
  "max_by_key f xs = Some m \<Longrightarrow> m \<in> set xs \<and> (\<forall>x\<in>set xs. f x \<le> f m)"
  by (induction xs arbitrary: m) (fastforce split: option.splits if_splits)+

lemma set_map_filter: "x \<in> set (List.map_filter f xs) \<longleftrightarrow> (\<exists>y\<in>set xs. f y = Some x)"
  by (induction xs) (auto simp: map_filter_simps split: option.splits)

lemma closed_set:
  "(r, c) \<in> set (resolutions_closed_by p n) \<longleftrightarrow> r \<in> set coarse \<and>
     c = bucket_end p (bucket_ms r) \<and> bucket_end n (bucket_ms r) \<noteq> bucket_end p (bucket_ms r)"
  by (auto simp: resolutions_closed_by_def set_map_filter closed_bucket_def Let_def split: if_splits)

lemma closed_distinct: "distinct (map fst (resolutions_closed_by p n))"
  by (simp add: resolutions_closed_by_def coarse_def map_filter_simps closed_bucket_def Let_def)

lemma source_range_ok:
  assumes "ts_ok p"
  shows "in_range (source_range (bucket_end p (bucket_ms r)) r) ts \<longleftrightarrow>
    bucket_end p (bucket_ms r) - uint (bucket_ms r) < ts \<and> ts \<le> bucket_end p (bucket_ms r)"
proof -
  have b: "0 < uint (bucket_ms r)" "uint (bucket_ms r) \<le> 3600000" by (simp_all add: bucket_ms_le)
  have e: "- 2305843009217293952 \<le> bucket_end p (bucket_ms r)" "bucket_end p (bucket_ms r) \<le> 2305843009217293952"
    using bucket_end_range(1) [OF assms, of r] by (simp_all add: abs_le_iff)
  have "in_i64 (bucket_end p (bucket_ms r) - uint (bucket_ms r))"
    by (rule in_i64I) (use e b in linarith)+
  moreover have "in_i64 (bucket_end p (bucket_ms r) - uint (bucket_ms r) + 1)"
    by (rule in_i64I) (use e b in linarith)+
  ultimately show ?thesis by (auto simp: source_range_def in_range_def i64_wrap_id)
qed

lemma source_range_bucket:
  assumes "ts_ok p" "ts_ok ts"
  shows "in_range (source_range (bucket_end p (bucket_ms r)) r) ts \<longleftrightarrow>
    bucket_end ts (bucket_ms r) = bucket_end p (bucket_ms r)"
  unfolding source_range_ok [OF assms(1)]
  using bucket_end_unique [OF assms(2), of r "bucket_end p (bucket_ms r)"]
    bucket_end_window [OF assms(1), of r] bucket_end_window [OF assms(2), of r] by auto

text \<open>The range fetched for all the closed buckets covers each of them.\<close>

lemma widest_covers:
  assumes "ts_ok p" "widest_source_range (resolutions_closed_by p n) = Some rg"
    "(r, c) \<in> set (resolutions_closed_by p n)" "in_range (source_range c r) ts"
  shows "in_range rg ts"
proof -
  obtain w d where m: "max_by_key (\<lambda>(r, _). bucket_ms r) (resolutions_closed_by p n) = Some (w, d)"
    and rg: "rg = source_range d w"
    using assms(2) by (auto simp: widest_source_range_def)
  from max_by_key_Some [OF m] assms(3) have "(w, d) \<in> set (resolutions_closed_by p n)"
    "bucket_ms r \<le> bucket_ms w" by auto
  with assms(3) have cw: "r \<in> set coarse" "w \<in> set coarse" "c = bucket_end p (bucket_ms r)"
    "d = bucket_end p (bucket_ms w)" by (simp_all add: closed_set)
  from bucket_nested [OF assms(1) cw(1,2) \<open>bucket_ms r \<le> bucket_ms w\<close>] assms(4)
  show ?thesis unfolding rg cw source_range_ok [OF assms(1)] by linarith
qed

section \<open>The coarse host tables as a view\<close>

lemma mean_fits: "xs \<noteq> [] \<Longrightarrow> list_all fits xs \<Longrightarrow> fits (mean_of xs)"
  using mean_of_bounds(2) [of xs] by (fastforce simp: fits_def list_all_iff word_le_def)

lemma mean_present_fits:
  assumes "list_all (pred_option fits) vs"
  shows "pred_option fits (mean_present vs)"
proof -
  have "list_all fits (List.map_filter id vs)"
    using assms by (auto simp: list_all_iff set_map_filter pred_option_def)
  then show ?thesis using mean_fits by (auto simp: mean_present_def split: list.splits)
qed

lemma host_bucket_storable:
  assumes "host_bucket r pct ms e = Some row" "list_all host_storable ms"
  shows "host_storable row" "hs_ts row = e"
proof -
  have ne: "ms \<noteq> []" using assms(1) by (auto simp: host_bucket_def)
  show "hs_ts row = e" using assms(1) by (auto simp: host_bucket_def split: if_splits)
  have f: "fits (mean_of (map f ms))" if "\<forall>s\<in>set ms. fits (f s)" for f
    using that ne by (intro mean_fits) (auto simp: list_all_iff)
  have g: "pred_option fits (mean_present (map f ms))" if "\<forall>s\<in>set ms. pred_option fits (f s)" for f
    using that by (intro mean_present_fits) (auto simp: list_all_iff)
  have "\<forall>s\<in>set ms. host_storable s" using assms(2) by (simp add: list_all_iff)
  moreover have "row = the (host_bucket r pct ms e)" "\<not> too_sparse r pct e (map hs_ts ms)"
    using assms(1) by (auto simp: host_bucket_def split: if_splits)
  ultimately show "host_storable row"
    using ne by (simp add: host_bucket_def host_storable_def f g)
qed


definition coarse_view :: "metrics_resolution \<Rightarrow> u8 \<Rightarrow> host_sample list \<Rightarrow> host_sample list" where
  "coarse_view r pct S =
     (if S = [] then []
      else downsample_host
        (filter (\<lambda>s. bucket_end (hs_ts s) (bucket_ms r) < bucket_end (hs_ts (last S)) (bucket_ms r)) S) r pct)"

definition stream_ok :: "host_sample list \<Rightarrow> bool" where
  "stream_ok S \<longleftrightarrow> sorted_wrt (<) (map hs_ts S) \<and> list_all ts_ok (map hs_ts S) \<and> list_all host_storable S"

lemma stream_ok_snoc:
  "stream_ok (S @ [n]) \<longleftrightarrow> stream_ok S \<and> (\<forall>s\<in>set S. hs_ts s < hs_ts n) \<and> ts_ok (hs_ts n) \<and> host_storable n"
  by (auto simp: stream_ok_def sorted_wrt_append)

lemma stream_ok_sorted: "stream_ok S \<Longrightarrow> sorted (map hs_ts S)"
  by (simp add: stream_ok_def strict_sorted_imp_sorted)

lemma last_bucket_max:
  assumes "stream_ok S" "s \<in> set S"
  shows "bucket_end (hs_ts s) (bucket_ms r) \<le> bucket_end (hs_ts (last S)) (bucket_ms r)"
proof -
  have "hs_ts s \<le> hs_ts (last S)"
    using stream_ok_sorted [OF assms(1)] assms(2)
    by (cases S rule: rev_cases) (auto simp: sorted_append)
  moreover have "last S \<in> set S" using assms(2) by (cases S) auto
  ultimately show ?thesis
    using assms by (intro bucket_end_mono) (auto simp: stream_ok_def list_all_iff)
qed

text \<open>The rows of the bucket that the last sample fell into.\<close>

definition last_bucket :: "metrics_resolution \<Rightarrow> host_sample list \<Rightarrow> host_sample list" where
  "last_bucket r S =
     filter (\<lambda>s. bucket_end (hs_ts s) (bucket_ms r) = bucket_end (hs_ts (last S)) (bucket_ms r)) S"

lemma split_sorted:
  fixes f :: "'a \<Rightarrow> int"
  assumes "sorted (map f S)" "\<forall>s\<in>set S. f s \<le> E"
  shows "S = filter (\<lambda>s. f s < E) S @ filter (\<lambda>s. f s = E) S"
  using assms
proof (induction S)
  case (Cons s S)
  show ?case
  proof (cases "f s = E")
    case True
    then have "\<forall>x\<in>set S. f x = E" using Cons.prems by (auto intro: antisym)
    then have "filter (\<lambda>s. f s < E) S = []" "filter (\<lambda>s. f s = E) S = S"
      by (auto simp: filter_empty_conv filter_id_conv)
    with True show ?thesis by simp
  next
    case False
    then show ?thesis using Cons by auto
  qed
qed simp

lemma sorted_hs_filter: "sorted (map hs_ts S) \<Longrightarrow> sorted (map hs_ts (filter P S))"
  by (rule sorted_filter)

lemma view_step:
  assumes "stream_ok S" "S \<noteq> []"
  shows "downsample_host S r pct = coarse_view r pct S @
    option_list (host_bucket r pct (last_bucket r S) (bucket_end (hs_ts (last S)) (bucket_ms r)))"
    and "downsample_host (last_bucket r S) r pct =
      option_list (host_bucket r pct (last_bucket r S) (bucket_end (hs_ts (last S)) (bucket_ms r)))"
proof -
  define bkt where "bkt = (\<lambda>s :: host_sample. bucket_end (hs_ts s) (bucket_ms r))"
  define E where "E = bkt (last S)"
  define A where "A = filter (\<lambda>s. bkt s < E) S"
  define B where "B = filter (\<lambda>s. bkt s = E) S"
  have srt: "sorted (map hs_ts S)" "list_all ts_ok (map hs_ts S)"
    using assms(1) by (simp_all add: stream_ok_sorted stream_ok_def)
  have "sorted (map bkt S)"
    using sorted_bucket_ends [OF srt, of r] by (simp add: bkt_def comp_def)
  moreover have "\<forall>s\<in>set S. bkt s \<le> E"
    using last_bucket_max [OF assms(1)] by (simp add: bkt_def E_def)
  ultimately have S: "S = A @ B" unfolding A_def B_def by (rule split_sorted)
  have B: "last S \<in> set B" using assms(2) by (simp add: B_def E_def)
  have AB: "sorted (map hs_ts A)" "list_all ts_ok (map hs_ts A)" "sorted (map hs_ts B)" "list_all ts_ok (map hs_ts B)"
    using srt by (auto simp: A_def B_def list_all_iff intro: sorted_filter)
  have "\<forall>x\<in>set B. bkt x = E" by (simp add: B_def)
  moreover have "B \<noteq> []" using B by (cases B) simp_all
  ultimately have BE: "\<forall>x\<in>set B. bkt x = E" "B \<noteq> []" by simp_all
  have "downsample_host S r pct = grouped bkt (host_bucket r pct) (A @ B)"
    using host_grouped [OF srt, of r pct] S by (simp add: bkt_def)
  also have "\<dots> = grouped bkt (host_bucket r pct) A @ option_list (host_bucket r pct B E)"
    by (rule grouped_snoc) (use BE in \<open>auto simp: A_def\<close>)
  also have "grouped bkt (host_bucket r pct) A = coarse_view r pct S"
    using host_grouped [OF AB(1,2), of r pct] assms(2)
    by (simp add: coarse_view_def A_def bkt_def E_def)
  finally show "downsample_host S r pct = coarse_view r pct S @
    option_list (host_bucket r pct (last_bucket r S) (bucket_end (hs_ts (last S)) (bucket_ms r)))"
    by (simp add: B_def last_bucket_def bkt_def E_def)
  have "downsample_host B r pct = option_list (host_bucket r pct B E)"
    using host_grouped [OF AB(3,4), of r pct] grouped_one [OF BE, of "host_bucket r pct"] by (simp add: bkt_def)
  then show "downsample_host (last_bucket r S) r pct =
      option_list (host_bucket r pct (last_bucket r S) (bucket_end (hs_ts (last S)) (bucket_ms r)))"
    by (simp add: B_def last_bucket_def bkt_def E_def)
qed

lemma view_snoc:
  assumes "stream_ok (S @ [n])"
  shows "coarse_view r pct (S @ [n]) =
    (if S = [] then []
     else if bucket_end (hs_ts n) (bucket_ms r) = bucket_end (hs_ts (last S)) (bucket_ms r)
     then coarse_view r pct S else downsample_host S r pct)"
proof (cases "S = []")
  case True
  then show ?thesis by (simp add: coarse_view_def downsample_host_def hg_finish_def hg_default_def option_list_def)
next
  case False
  have S: "stream_ok S" using assms by (simp add: stream_ok_snoc)
  have "bucket_end (hs_ts (last S)) (bucket_ms r) \<le> bucket_end (hs_ts n) (bucket_ms r)"
    using last_bucket_max [OF assms, of "last S" r] False by simp
  moreover have "filter (\<lambda>s. bucket_end (hs_ts s) (bucket_ms r) < bucket_end (hs_ts n) (bucket_ms r)) S = S"
    if "bucket_end (hs_ts (last S)) (bucket_ms r) < bucket_end (hs_ts n) (bucket_ms r)"
    using last_bucket_max [OF S, of _ r] that by (force simp: filter_id_conv)
  ultimately show ?thesis using False by (auto simp: coarse_view_def)
qed

lemma view_times:
  assumes "stream_ok S" "row \<in> set (coarse_view r pct S)"
  shows "hs_ts row < bucket_end (hs_ts (last S)) (bucket_ms r)"
proof -
  define F where "F = filter (\<lambda>s. bucket_end (hs_ts s) (bucket_ms r) < bucket_end (hs_ts (last S)) (bucket_ms r)) S"
  have "sorted (map hs_ts F)" "list_all ts_ok (map hs_ts F)"
    using assms(1) by (auto simp: F_def stream_ok_def list_all_iff intro: sorted_filter strict_sorted_imp_sorted)
  note g = host_grouped [OF this, of r pct] and s = sorted_bucket_ends [OF this, of r]
  have "row \<in> set (grouped (\<lambda>s. bucket_end (hs_ts s) (bucket_ms r)) (host_bucket r pct) F)"
    using assms(2) g by (auto simp: coarse_view_def F_def split: if_splits)
  moreover have "hs_ts s = e" if "host_bucket r pct ms e = Some s" for ms e s
    using that by (auto simp: host_bucket_def split: if_splits)
  ultimately have "hs_ts row \<in> (\<lambda>s. bucket_end (hs_ts s) (bucket_ms r)) ` set F"
    using grouped_sorted(2) [of "\<lambda>s. bucket_end (hs_ts s) (bucket_ms r)" F "host_bucket r pct" hs_ts] s
    by (auto simp: comp_def)
  then show ?thesis by (auto simp: F_def)
qed


lemma schema_insert_host_ok:
  assumes "db_faults db = []" "host_storable s" "hs_ts s \<notin> hw_ts ` set (db_host db r)"
  shows "schema_insert_host db r s =
    (db\<lparr>db_host := (db_host db)(r := db_host db r @ [host_row s])\<rparr>, Inr ())"
proof -
  have row: "host_row_of s = Inr (host_row s)" using assms(2) by simp
  have "insert_row (insert_replaces r) hw_ts (host_row s) (db_host db r) = Some (db_host db r @ [host_row s])"
    using assms(3) by (auto simp: insert_row_def)
  then show ?thesis
    using assms(1) by (simp only: schema_insert_host_def row next_fault_ok sum.case prod.case option.case)
qed

lemma insert_host_all_ok:
  assumes "db_faults db = []" "list_all host_storable rows" "distinct (map hs_ts rows)"
    "hs_ts ` set rows \<inter> hw_ts ` set (db_host db r) = {}"
  shows "insert_host_all db r rows =
    (db\<lparr>db_host := (db_host db)(r := db_host db r @ map host_row rows)\<rparr>, Inr ())"
  using assms
proof (induction rows arbitrary: db)
  case (Cons s rows)
  define db1 where "db1 = db\<lparr>db_host := (db_host db)(r := db_host db r @ [host_row s])\<rparr>"
  have "schema_insert_host db r s = (db1, Inr ())"
    unfolding db1_def using Cons.prems by (intro schema_insert_host_ok) auto
  moreover have "insert_host_all db1 r rows =
      (db1\<lparr>db_host := (db_host db1)(r := db_host db1 r @ map host_row rows)\<rparr>, Inr ())"
    using Cons.prems by (intro Cons.IH) (auto simp: db1_def)
  ultimately show ?case by (simp add: db1_def) (simp add: fun_upd_def)
qed (simp add: fun_upd_idem)

lemma roll_host_closed_ok:
  assumes "db_faults db = []" "distinct (map fst cs)"
    "\<forall>(r, c) \<in> set cs. let rows = downsample_host (slice_by_range samples (source_range c r) hs_ts) r pct in
       list_all host_storable rows \<and> distinct (map hs_ts rows) \<and> hs_ts ` set rows \<inter> hw_ts ` set (db_host db r) = {}"
  shows "roll_host_closed samples pct cs db =
    (db\<lparr>db_host := (\<lambda>r. db_host db r @ (case map_of cs r of None \<Rightarrow> []
       | Some c \<Rightarrow> map host_row (downsample_host (slice_by_range samples (source_range c r) hs_ts) r pct)))\<rparr>,
     Inr ())"
  using assms
proof (induction cs arbitrary: db)
  case (Cons rc cs)
  obtain r c where rc: "rc = (r, c)" by (cases rc)
  define rows where "rows = downsample_host (slice_by_range samples (source_range c r) hs_ts) r pct"
  define db1 where "db1 = db\<lparr>db_host := (db_host db)(r := db_host db r @ map host_row rows)\<rparr>"
  have "insert_host_all db r rows = (db1, Inr ())"
    unfolding db1_def using Cons.prems(1,3) by (intro insert_host_all_ok) (auto simp: rc rows_def Let_def)
  moreover have "map_of cs r = None" using Cons.prems(2) by (simp add: rc map_of_eq_None_iff)
  moreover have "roll_host_closed samples pct cs db1 =
    (db1\<lparr>db_host := (\<lambda>r. db_host db1 r @ (case map_of cs r of None \<Rightarrow> []
       | Some c \<Rightarrow> map host_row (downsample_host (slice_by_range samples (source_range c r) hs_ts) r pct)))\<rparr>,
     Inr ())"
  proof (rule Cons.IH)
    show "\<forall>(r, c) \<in> set cs. let rows = downsample_host (slice_by_range samples (source_range c r) hs_ts) r pct in
       list_all host_storable rows \<and> distinct (map hs_ts rows) \<and> hs_ts ` set rows \<inter> hw_ts ` set (db_host db1 r) = {}"
    proof (clarify)
      fix q d assume qd: "(q, d) \<in> set cs"
      then have "q \<noteq> r" using Cons.prems(2) by (force simp: rc)
      then have "db_host db1 q = db_host db q" by (simp add: db1_def)
      then show "let rows = downsample_host (slice_by_range samples (source_range d q) hs_ts) q pct in
       list_all host_storable rows \<and> distinct (map hs_ts rows) \<and> hs_ts ` set rows \<inter> hw_ts ` set (db_host db1 q) = {}"
        using qd Cons.prems(3) by auto
    qed
  qed (use Cons.prems in \<open>simp_all add: db1_def rc\<close>)
  ultimately show ?case
    by (simp add: rc rows_def [symmetric]) (auto simp: db1_def rows_def fun_eq_iff)
qed simp

text \<open>The state of the store after a stream of successful inserts.\<close>

definition host_view :: "host_sample list \<Rightarrow> metrics_store \<Rightarrow> bool" where
  "host_view S st \<longleftrightarrow>
     db_faults (mt_db st) = [] \<and>
     db_host (mt_db st) TenSeconds = map host_row S \<and>
     mt_last_host_ts st = (if S = [] then None else Some (hs_ts (last S))) \<and>
     (\<forall>r\<in>set coarse. db_host (mt_db st) r = map host_row (coarse_view r (mt_max_gap_pct st) S))"

lemma select_sorted_table:
  assumes "db_faults db = []" "db_host db r = map host_row S" "sorted (map hs_ts S)"
  shows "schema_select_host db r rg = (db, Inr (filter (\<lambda>s. in_range rg (hs_ts s)) S))"
proof -
  let ?F = "filter (\<lambda>s. in_range rg (hs_ts s)) S"
  have "filter (\<lambda>w. in_range rg (hw_ts w)) (map host_row S) = map host_row ?F"
    by (simp add: filter_map comp_def)
  moreover have "sort_key hw_ts (map host_row ?F) = map host_row ?F"
    using sorted_filter [OF assms(3)] by (intro sort_key_id_if_sorted) (simp add: comp_def)
  moreover have "collect_results (map host_sample_from_row (map host_row ?F)) = Inr ?F"
    using collect_results_map [of "map host_row ?F" host_sample_from_row "\<lambda>w. projr (host_sample_from_row w)"]
    by (simp add: comp_def)
  ultimately show ?thesis using assms(1,2) by (simp add: schema_select_host_def)
qed

lemma closed_slice:
  assumes "stream_ok (S @ [n])" "S \<noteq> []"
    "widest_source_range (resolutions_closed_by (hs_ts (last S)) (hs_ts n)) = Some rg"
    "(r, c) \<in> set (resolutions_closed_by (hs_ts (last S)) (hs_ts n))"
  shows "slice_by_range (filter (\<lambda>s. in_range rg (hs_ts s)) (S @ [n])) (source_range c r) hs_ts
    = last_bucket r S"
proof -
  have p: "ts_ok (hs_ts (last S))" and n: "ts_ok (hs_ts n)" and all: "\<forall>s\<in>set S. ts_ok (hs_ts s)"
    using assms(1,2) by (auto simp: stream_ok_snoc stream_ok_def list_all_iff)
  have c: "c = bucket_end (hs_ts (last S)) (bucket_ms r)"
    "bucket_end (hs_ts n) (bucket_ms r) \<noteq> bucket_end (hs_ts (last S)) (bucket_ms r)"
    using assms(4) by (simp_all add: closed_set)
  have "slice_by_range (filter (\<lambda>s. in_range rg (hs_ts s)) (S @ [n])) (source_range c r) hs_ts =
      filter (\<lambda>s. in_range (source_range c r) (hs_ts s)) (filter (\<lambda>s. in_range rg (hs_ts s)) (S @ [n]))"
    by (intro slice_sorted sorted_filter stream_ok_sorted assms(1))
  also have "\<dots> = filter (\<lambda>s. in_range (source_range c r) (hs_ts s)) (S @ [n])"
    using widest_covers [OF p assms(3,4)] by (auto intro: filter_cong)
  also have "\<dots> = last_bucket r S"
    using source_range_bucket [OF p] n all c by (auto simp: last_bucket_def c(1) intro!: filter_cong)
  finally show ?thesis .
qed

lemma last_bucket_rows:
  assumes "stream_ok S" "S \<noteq> []" "row \<in> set (downsample_host (last_bucket r S) r pct)"
  shows "host_storable row" "hs_ts row = bucket_end (hs_ts (last S)) (bucket_ms r)"
proof -
  have "list_all host_storable (last_bucket r S)"
    using assms(1) by (auto simp: stream_ok_def last_bucket_def list_all_iff)
  then show "host_storable row" "hs_ts row = bucket_end (hs_ts (last S)) (bucket_ms r)"
    using assms(3) view_step(2) [OF assms(1,2), of r pct] host_bucket_storable
    by (auto simp: option_list_def split: option.splits)
qed

lemma last_bucket_single:
  assumes "stream_ok S" "S \<noteq> []"
  shows "distinct (map hs_ts (downsample_host (last_bucket r S) r pct))"
  using view_step(2) [OF assms, of r pct] by (simp add: option_list_def split: option.splits)

lemma roll_up_view:
  assumes "stream_ok (S @ [n])" "S \<noteq> []" "db_faults db = []" "db_host db TenSeconds = map host_row (S @ [n])"
    "\<And>r. r \<in> set coarse \<Longrightarrow> db_host db r = map host_row (coarse_view r pct S)"
  shows "let db' = fst (roll_up_host db (hs_ts (last S)) (hs_ts n) pct) in
    db_faults db' = [] \<and> (\<forall>r. db_host db' r = db_host db r @
      (case map_of (resolutions_closed_by (hs_ts (last S)) (hs_ts n)) r of None \<Rightarrow> []
       | Some c \<Rightarrow> map host_row (downsample_host (last_bucket r S) r pct)))"
proof (cases "widest_source_range (resolutions_closed_by (hs_ts (last S)) (hs_ts n))")
  case None
  then show ?thesis using assms(3) by (auto simp: roll_up_host_def widest_source_range_def Let_def)
next
  case (Some rg)
  define cs where "cs = resolutions_closed_by (hs_ts (last S)) (hs_ts n)"
  define samples where "samples = filter (\<lambda>s. in_range rg (hs_ts s)) (S @ [n])"
  have S: "stream_ok S" using assms(1) by (simp add: stream_ok_snoc)
  have slice: "slice_by_range samples (source_range c r) hs_ts = last_bucket r S" if "(r, c) \<in> set cs" for r c
    unfolding samples_def using that Some by (intro closed_slice [OF assms(1,2)]) (simp_all add: cs_def)
  have sel: "schema_select_host db TenSeconds rg = (db, Inr samples)"
    unfolding samples_def by (intro select_sorted_table assms stream_ok_sorted)
  have fresh: "hs_ts ` set (downsample_host (last_bucket r S) r pct) \<inter> hw_ts ` set (db_host db r) = {}"
    if "r \<in> set coarse" for r
    using last_bucket_rows(2) [OF S assms(2)] view_times [OF S, of _ r pct] assms(5) [OF that] by force
  have "roll_up_host db (hs_ts (last S)) (hs_ts n) pct = roll_host_closed samples pct cs db"
    using Some by (simp add: roll_up_host_def cs_def [symmetric] sel)
  also have "\<dots> = (db\<lparr>db_host := (\<lambda>r. db_host db r @ (case map_of cs r of None \<Rightarrow> []
       | Some c \<Rightarrow> map host_row (downsample_host (slice_by_range samples (source_range c r) hs_ts) r pct)))\<rparr>,
     Inr ())"
  proof (rule roll_host_closed_ok [OF assms(3)])
    show "distinct (map fst cs)" by (simp add: cs_def closed_distinct)
    show "\<forall>(r, c) \<in> set cs. let rows = downsample_host (slice_by_range samples (source_range c r) hs_ts) r pct in
       list_all host_storable rows \<and> distinct (map hs_ts rows) \<and> hs_ts ` set rows \<inter> hw_ts ` set (db_host db r) = {}"
    proof (clarify)
      fix r c assume rc: "(r, c) \<in> set cs"
      then have "r \<in> set coarse" by (simp add: cs_def closed_set)
      then show "let rows = downsample_host (slice_by_range samples (source_range c r) hs_ts) r pct in
         list_all host_storable rows \<and> distinct (map hs_ts rows) \<and> hs_ts ` set rows \<inter> hw_ts ` set (db_host db r) = {}"
        using last_bucket_rows(1) [OF S assms(2)] last_bucket_single [OF S assms(2)] fresh
        by (simp add: slice [OF rc] Let_def list_all_iff)
    qed
  qed
  finally show ?thesis
    using assms(3) slice by (auto simp: Let_def cs_def [symmetric] split: option.splits dest!: map_of_SomeD)
qed

lemma host_view_step:
  assumes "host_view S st" "stream_ok (S @ [n])"
  shows "host_view (S @ [n]) (fst (store_insert_host st n)) \<and> snd (store_insert_host st n) = Inr () \<and>
    mt_max_gap_pct (fst (store_insert_host st n)) = mt_max_gap_pct st"
proof -
  define pct where "pct = mt_max_gap_pct st"
  have ok: "stream_ok S" "\<forall>s\<in>set S. hs_ts s < hs_ts n" "ts_ok (hs_ts n)" "host_storable n"
    using assms(2) by (simp_all add: stream_ok_snoc)
  note v = assms(1) [unfolded host_view_def, folded pct_def]
  define db1 where "db1 = (mt_db st)\<lparr>db_host := (db_host (mt_db st))(TenSeconds := map host_row (S @ [n]))\<rparr>"
  have ins: "schema_insert_host (mt_db st) TenSeconds n = (db1, Inr ())"
    using v ok schema_insert_host_ok [of "mt_db st" n TenSeconds] by (force simp: db1_def)
  have db1: "db_faults db1 = []" "db_host db1 TenSeconds = map host_row (S @ [n])"
    using v by (simp_all add: db1_def)
  have db1r: "db_host db1 r = map host_row (coarse_view r pct S)" if "r \<in> set coarse" for r
    using v that by (auto simp: db1_def coarse_def)
  show ?thesis
  proof (cases "S = []")
    case True
    then have "store_insert_host st n = (st\<lparr>mt_db := db1, mt_last_host_ts := Some (hs_ts n)\<rparr>, Inr ())"
      using v by (simp add: store_insert_host_def ins advance_def option_filter_def)
    then show ?thesis
      using db1 db1r True view_snoc [OF assms(2)] by (simp add: host_view_def coarse_view_def)
  next
    case False
    define p where "p = hs_ts (last S)"
    have p: "ts_ok p" "p < hs_ts n" using ok False by (simp_all add: p_def stream_ok_def list_all_iff)
    define cs where "cs = resolutions_closed_by p (hs_ts n)"
    define db2 where "db2 = fst (roll_up_host db1 p (hs_ts n) pct)"
    have roll: "db_faults db2 = [] \<and> (\<forall>r. db_host db2 r = db_host db1 r @ (case map_of cs r of None \<Rightarrow> []
        | Some c \<Rightarrow> map host_row (downsample_host (last_bucket r S) r pct)))"
      using roll_up_view [OF assms(2) False db1 db1r] by (simp add: db2_def p_def cs_def Let_def)
    have st: "store_insert_host st n = (st\<lparr>mt_db := db2, mt_last_host_ts := Some (hs_ts n)\<rparr>, Inr ())"
      using v False p by (simp add: store_insert_host_def ins advance_def option_filter_def p_def [symmetric]
          pct_def [symmetric] db2_def)
    have "TenSeconds \<notin> fst ` set cs" by (auto simp: cs_def closed_set coarse_def)
    then have "map_of cs TenSeconds = None" by (simp add: map_of_eq_None_iff)
    moreover have "db_host db2 r = map host_row (coarse_view r pct (S @ [n]))" if "r \<in> set coarse" for r
    proof (cases "bucket_end (hs_ts n) (bucket_ms r) = bucket_end p (bucket_ms r)")
      case True
      then have "map_of cs r = None" by (auto simp: cs_def closed_set map_of_eq_None_iff)
      then show ?thesis using roll db1r [OF that] True False view_snoc [OF assms(2)] by (simp add: p_def)
    next
      case ne: False
      then have "map_of cs r = Some (bucket_end p (bucket_ms r))"
        using that closed_distinct by (intro map_of_is_SomeI) (auto simp: cs_def closed_set)
      then show ?thesis
        using roll db1r [OF that] ne False view_snoc [OF assms(2)] view_step [OF ok(1) False]
        by (simp add: p_def)
    qed
    ultimately show ?thesis
      using roll db1 by (simp add: host_view_def st pct_def)
  qed
qed

end
