(* ===== verification/Metrics_Laws.thy ===== *)
theory Metrics_Laws
  imports Metrics_Store
begin

text \<open>
  The laws of the metrics store: slices, the coarse host tables as a materialised view across
  restarts, failed inserts, retention and container queries, and the case in which the container
  rollup loses a row.
\<close>

section \<open>Properties of the store\<close>

text \<open>
  On samples in time order the two binary searches cut out exactly the samples of the range.
\<close>

theorem slice_by_range_sorted:
  assumes "sorted (map ts xs)"
  shows "slice_by_range xs rg ts = filter (\<lambda>x. in_range rg (ts x)) xs"
  using assms by (rule slice_sorted)

theorem slice_by_range_sorted_witness:
  "slice_by_range [1, 3, 5, 7 :: int] \<lparr>range_from = 2, range_to = 5\<rparr> id
     = filter (\<lambda>x. in_range \<lparr>range_from = 2, range_to = 5\<rparr> (id x)) [1, 3, 5, 7]"
  by (rule slice_by_range_sorted) simp

definition host_inserts :: "metrics_store \<Rightarrow> host_sample list \<Rightarrow> metrics_store" where
  "host_inserts st ss = foldl (\<lambda>st s. fst (store_insert_host st s)) st ss"

definition fresh_store :: "u8 \<Rightarrow> metrics_store" where
  "fresh_store pct =
     \<lparr>mt_db = empty_db, mt_last_host_ts = None, mt_last_containers_ts = None, mt_max_gap_pct = pct\<rparr>"

lemma fresh_view: "host_view [] (fresh_store pct)"
  by (simp add: host_view_def fresh_store_def empty_db_def coarse_view_def)

lemma host_view_inserts:
  assumes "host_view S st" "stream_ok (S @ ss)"
  shows "host_view (S @ ss) (host_inserts st ss) \<and> mt_max_gap_pct (host_inserts st ss) = mt_max_gap_pct st"
  using assms
proof (induction ss arbitrary: S st)
  case (Cons n ss)
  have "stream_ok (S @ [n])" using Cons.prems(2) by (auto simp: stream_ok_def sorted_wrt_append)
  from host_view_step [OF Cons.prems(1) this] Cons.IH [of "S @ [n]" "fst (store_insert_host st n)"] Cons.prems(2)
  show ?case by (simp add: host_inserts_def)
qed (simp add: host_inserts_def)

lemma list_max_sorted:
  assumes "sorted (map f S)" "S \<noteq> []"
  shows "list_max (map f S) = Some (f (last S) :: int)"
proof -
  have "\<forall>s\<in>set S. f s \<le> f (last S)"
    using assms by (cases S rule: rev_cases) (auto simp: sorted_append)
  then have "list_max (map f S) = Some m \<Longrightarrow> m = f (last S)" for m
    using assms(2) by (auto simp: list_max_Some intro!: antisym)
  moreover have "list_max (map f S) \<noteq> None" using assms(2) by (cases S) (simp_all add: list_max_def)
  ultimately show ?thesis by blast
qed

lemma host_view_restart:
  assumes "host_view S st" "stream_ok S" "store_connect (mt_db st) (mt_max_gap_pct st) = (db, Inr st')"
  shows "host_view S st' \<and> mt_max_gap_pct st' = mt_max_gap_pct st"
proof -
  note v = assms(1) [unfolded host_view_def]
  have "list_max (map hw_ts (map host_row S)) = (if S = [] then None else Some (hs_ts (last S)))"
    using list_max_sorted [OF stream_ok_sorted [OF assms(2)]] by (auto simp: comp_def list_max_def)
  then have "st' = \<lparr>mt_db = mt_db st, mt_last_host_ts = (if S = [] then None else Some (hs_ts (last S))),
      mt_last_containers_ts = list_max (map cw_ts (db_containers (mt_db st) TenSeconds)),
      mt_max_gap_pct = mt_max_gap_pct st\<rparr>"
    using assms(3) v by (auto simp: store_connect_def select_host_max_ts_def select_containers_max_ts_def)
  then show ?thesis using v by (simp add: host_view_def)
qed



text \<open>
  An insert that fails writes nothing and does not move the cursor; whether an insert succeeds
  does not depend on the rollup that follows it, whatever statement of the rollup fails.
\<close>

theorem insert_host_result:
  "snd (store_insert_host st s) = snd (schema_insert_host (mt_db st) TenSeconds s) \<and>
   (isl (snd (store_insert_host st s)) \<longrightarrow>
      db_host (mt_db (fst (store_insert_host st s))) = db_host (mt_db st) \<and>
      db_containers (mt_db (fst (store_insert_host st s))) = db_containers (mt_db st) \<and>
      mt_last_host_ts (fst (store_insert_host st s)) = mt_last_host_ts st)"
  by (auto simp: store_insert_host_def schema_insert_host_def Let_def dest!: next_fault_tables
      split: prod.splits sum.splits option.splits)

theorem insert_host_result_witness:
  "isl (snd (store_insert_host ((fresh_store 40)\<lparr>mt_db := empty_db\<lparr>db_faults := [Some ''disk full'']\<rparr>\<rparr>)
     (host_sample_at 10000)))
   \<and> mt_last_host_ts (fst (store_insert_host
       ((fresh_store 40)\<lparr>mt_db := empty_db\<lparr>db_faults := [Some ''disk full'']\<rparr>\<rparr>) (host_sample_at 10000))) = None"
proof -
  let ?st = "(fresh_store 40)\<lparr>mt_db := empty_db\<lparr>db_faults := [Some ''disk full'']\<rparr>\<rparr>"
  have "isl (snd (schema_insert_host (mt_db ?st) TenSeconds (host_sample_at 10000)))"
    by (auto simp: schema_insert_host_def next_fault_def split: sum.splits)
  with insert_host_result [of ?st "host_sample_at 10000"] show ?thesis
    by (auto simp: fresh_store_def)
qed

lemma delete_loop_tables:
  assumes "delete_loop db cutoff d rs = (db', Inr n)" "distinct rs"
  shows "(\<forall>r. db_host db' r = (if r \<in> set rs then filter (\<lambda>w. cutoff \<le> hw_ts w) (db_host db r) else db_host db r)) \<and>
    (\<forall>r. db_containers db' r =
      (if r \<in> set rs then filter (\<lambda>w. cutoff \<le> cw_ts w) (db_containers db r) else db_containers db r)) \<and>
    n = d + sum_list (map (\<lambda>r. length (filter (\<lambda>w. hw_ts w < cutoff) (db_host db r))
      + length (filter (\<lambda>w. cw_ts w < cutoff) (db_containers db r))) rs)"
  using assms
proof (induction rs arbitrary: db d)
  case (Cons r rs)
  from Cons.prems(1) obtain db1 a db2 b where
    h: "delete_host_before db r cutoff = (db1, Inr a)" and c: "delete_containers_before db1 r cutoff = (db2, Inr b)"
    and rest: "delete_loop db2 cutoff (d + a + b) rs = (db', Inr n)"
    by (auto split: prod.splits sum.splits)
  have t1: "db_host db1 = (db_host db)(r := filter (\<lambda>w. cutoff \<le> hw_ts w) (db_host db r))"
    "db_containers db1 = db_containers db" "a = length (filter (\<lambda>w. hw_ts w < cutoff) (db_host db r))"
    using h by (auto simp: delete_host_before_def not_less dest!: next_fault_tables split: prod.splits option.splits)
  have t2: "db_containers db2 = (db_containers db1)(r := filter (\<lambda>w. cutoff \<le> cw_ts w) (db_containers db1 r))"
    "db_host db2 = db_host db1" "b = length (filter (\<lambda>w. cw_ts w < cutoff) (db_containers db1 r))"
    using c by (auto simp: delete_containers_before_def not_less dest!: next_fault_tables split: prod.splits option.splits)
  have m: "map (\<lambda>r. length (filter (\<lambda>w. hw_ts w < cutoff) (db_host db2 r))
      + length (filter (\<lambda>w. cw_ts w < cutoff) (db_containers db2 r))) rs =
    map (\<lambda>r. length (filter (\<lambda>w. hw_ts w < cutoff) (db_host db r))
      + length (filter (\<lambda>w. cw_ts w < cutoff) (db_containers db r))) rs"
    using Cons.prems(2) t1 t2 by auto
  show ?case using Cons.IH [OF rest] Cons.prems(2) t1 t2 unfolding m by auto
qed simp

text \<open>
  A retention pass that succeeds removes from all the tables exactly the rows older than the
  cutoff, and reports how many they were.
\<close>

theorem delete_before_exact:
  assumes "store_delete_before st cutoff = (st', Inr n)"
  shows "db_host (mt_db st') r = filter (\<lambda>w. cutoff \<le> hw_ts w) (db_host (mt_db st) r) \<and>
    db_containers (mt_db st') r = filter (\<lambda>w. cutoff \<le> cw_ts w) (db_containers (mt_db st) r) \<and>
    n = sum_list (map (\<lambda>r. length (filter (\<lambda>w. hw_ts w < cutoff) (db_host (mt_db st) r))
      + length (filter (\<lambda>w. cw_ts w < cutoff) (db_containers (mt_db st) r))) all_resolutions)"
proof -
  have all: "r \<in> set all_resolutions" "distinct all_resolutions" for r
    by (cases r; simp add: all_resolutions_def) (simp add: all_resolutions_def)
  obtain db where "delete_loop (mt_db st) cutoff 0 all_resolutions = (db, Inr n)" "mt_db st' = db"
    using assms by (auto simp: store_delete_before_def split: prod.splits)
  from delete_loop_tables [OF this(1) all(2)] this(2) all show ?thesis by simp
qed

theorem delete_before_exact_witness:
  "db_host (mt_db (fst (store_delete_before
     ((fresh_store 40)\<lparr>mt_db := empty_db\<lparr>db_host := (\<lambda>_. [host_row (host_sample_at 5), host_row (host_sample_at 9)])\<rparr>\<rparr>) 7)))
     OneHour = [host_row (host_sample_at 9)]"
proof -
  let ?st = "(fresh_store 40)\<lparr>mt_db := empty_db\<lparr>db_host := (\<lambda>_. [host_row (host_sample_at 5), host_row (host_sample_at 9)])\<rparr>\<rparr>"
  have "isl (snd (store_delete_before ?st 7)) = False"
    by (simp add: store_delete_before_def all_resolutions_def delete_host_before_def
        delete_containers_before_def next_fault_def empty_db_def)
  then obtain st' n where "store_delete_before ?st 7 = (st', Inr n)"
    by (cases "store_delete_before ?st 7"; cases "snd (store_delete_before ?st 7)") auto
  from delete_before_exact [OF this, of OneHour] this show ?thesis
    by (simp add: host_sample_at_def)
qed

section \<open>Container queries\<close>

definition cm_of :: "container_sample list \<Rightarrow> service_id \<Rightarrow> (container_id, container_sample list) hash_map" where
  "cm_of ss sid = (case hm_get (group_by_service ss) sid of None \<Rightarrow> [] | Some cm \<Rightarrow> cm)"

lemma group_by_service_snoc:
  "group_by_service (ss @ [s]) =
     hm_entry (cs_service s) [] (\<lambda>cm. hm_entry (cs_cid s) [] (\<lambda>v. v @ [s]) cm) (group_by_service ss)"
  by (simp add: group_by_service_def)

lemma group_by_service_keys:
  "hm_wf (group_by_service ss) \<and> (hm_get (group_by_service ss) sid \<noteq> None \<longleftrightarrow> (\<exists>s\<in>set ss. cs_service s = sid))"
  by (induction ss rule: rev_induct) (auto simp: group_by_service_snoc, simp_all add: group_by_service_def)

lemma cm_of_get:
  "hm_wf (cm_of ss sid) \<and> hm_get (cm_of ss sid) cid =
     (let l = filter (\<lambda>s. cs_service s = sid \<and> cs_cid s = cid) ss in if l = [] then None else Some l)"
proof (induction ss rule: rev_induct)
  case Nil
  show ?case by (simp add: cm_of_def group_by_service_def)
next
  case (snoc s ss)
  have "cm_of (ss @ [s]) sid =
      (if cs_service s = sid then hm_entry (cs_cid s) [] (\<lambda>v. v @ [s]) (cm_of ss sid) else cm_of ss sid)"
    by (auto simp: cm_of_def group_by_service_snoc)
  then show ?case using snoc by (auto simp: Let_def)
qed

lemma service_points_get:
  assumes "hm_wf cm"
  shows "hm_get (service_points rg service cm) cid =
    map_option (\<lambda>ss. map (\<lambda>s. container_point_from_sample s service)
      (filter (\<lambda>s. range_from rg \<le> cs_ts s) ss)) (hm_get cm cid)"
proof -
  let ?f = "\<lambda>ss. map (\<lambda>s. container_point_from_sample s service) (filter (\<lambda>s. range_from rg \<le> cs_ts s) ss)"
  have "hm_get (foldl (\<lambda>m (cid, ss). hm_insert cid (?f ss) m) m cm) cid =
      (case hm_get cm cid of None \<Rightarrow> hm_get m cid | Some ss \<Rightarrow> Some (?f ss))" for m
    using assms
  proof (induction cm arbitrary: m)
    case (Cons kv cm)
    obtain k v where kv: "kv = (k, v)" by (cases kv)
    have "hm_wf cm" "hm_get cm k = None" using Cons.prems by (auto simp: kv hm_wf_def map_of_eq_None_iff)
    then show ?case using Cons.IH by (auto simp: kv split: option.splits)
  qed simp
  from this [of "[]"] show ?thesis by (simp add: service_points_def split: option.splits)
qed

lemma named_groups_get:
  assumes "hm_wf G" "\<And>a b n. name_of a = Some n \<Longrightarrow> name_of b = Some n \<Longrightarrow> a = b"
  shows "hm_get (foldl (\<lambda>m (sid, cm). case name_of sid of None \<Rightarrow> m
             | Some service \<Rightarrow> hm_insert service (f service cm) m) m G) service =
    (if \<exists>sid cm. name_of sid = Some service \<and> hm_get G sid = Some cm
     then Some (f service (the (hm_get G (THE sid. name_of sid = Some service))))
     else hm_get m service)"
  using assms(1)
proof (induction G arbitrary: m)
  case (Cons kv G)
  obtain k v where kv: "kv = (k, v)" by (cases kv)
  have wf: "hm_wf G" and k: "hm_get G k = None" using Cons.prems by (auto simp: kv hm_wf_def map_of_eq_None_iff)
  have the: "(THE sid. name_of sid = Some service) = sid" if "name_of sid = Some service" for sid
    using that assms(2) by (intro the_equality) auto
  show ?case
  proof (cases "name_of k = Some service")
    case True
    then have "\<not> (\<exists>sid cm. name_of sid = Some service \<and> hm_get G sid = Some cm)"
      using assms(2) [OF True] k by fastforce
    then show ?thesis using Cons.IH [OF wf] True the [OF True] by (auto simp: kv)
  next
    case False
    then have "(\<exists>sid cm. name_of sid = Some service \<and> hm_get (kv # G) sid = Some cm) \<longleftrightarrow>
        (\<exists>sid cm. name_of sid = Some service \<and> hm_get G sid = Some cm)"
      by (auto simp: kv)
    moreover have "name_of sid = Some service \<Longrightarrow> hm_get (kv # G) sid = hm_get G sid" for sid
      using False by (auto simp: kv)
    ultimately show ?thesis using Cons.IH [OF wf] False the
      by (auto simp: kv split: option.splits)
  qed
qed simp



section \<open>The container rollup\<close>

text \<open>Two containers reporting at the same instants, one of the rows of each.\<close>

definition first_container :: container_id where
  "first_container = ContainerId 1 0 0 0 0 0"

definition second_container :: container_id where
  "second_container = ContainerId 2 0 0 0 0 0"

definition row_at :: "container_id \<Rightarrow> i64 \<Rightarrow> container_sample" where
  "row_at c ts =
     \<lparr>cs_ts = ts, cs_service = ServiceId 1, cs_cid = c, cs_cpu_pct_mill = 1000,
      cs_mem_used = 5, cs_net_rx_rate_mill = None, cs_net_tx_rate_mill = None,
      cs_blk_read_rate_mill = None, cs_blk_write_rate_mill = None\<rparr>"

definition rollup_example :: metrics_db where
  "rollup_example = empty_db\<lparr>db_containers := (\<lambda>_. [])(TenSeconds := map container_row
     [row_at first_container 200000, row_at second_container 200000,
      row_at first_container 300000, row_at second_container 300000])\<rparr>"

text \<open>
  The container rollup can lose a bucket. The 10s rows are fetched in the order of container
  and then time, but each coarse bucket is cut out of them by a binary search over time, so when
  two resolutions close together the search runs over a list that is not sorted. Here a 1m and a 5m
  bucket close at 300s: the row of either container should make a 1m row, the rollup reports
  success, and the one of the first container is never written.
\<close>

theorem container_rollup_loses_row:
  "list_all (\<lambda>c. container_bucket OneMinute 100 [row_at c 300000] 300000 \<noteq> None)
     [first_container, second_container] \<and>
   (\<lambda>(db, res). (map (\<lambda>w. (cw_ts w, cw_cid w)) (db_containers db OneMinute), res))
     (roll_up_containers rollup_example 300000 310000 100)
   = ([(300000, as_bytes second_container)], Inr ())"
  by (rule conjI, simp add: container_bucket_def too_sparse_def gap_limit_def row_at_def, code_simp)

end
