(* ===== verification/Retention.thy ===== *)
theory Retention
  imports Metrics_Laws Log_Store_Laws Service_Registry
begin

text \<open>
  \<open>retention.rs\<close>: the weekly cutoff and one clean-up pass over the metrics, the log databases, the
  checkpoints and the service dictionary, in the order of the code. A date of the \<open>time\<close> library is
  the number of its day since 1970-01-01, a Thursday; dates before -9999-01-01 panic. The outcomes of
  the statements are part of the states of the three databases.
\<close>

definition date_min_day :: int where
  "date_min_day = - 4371587"

definition days_from_monday :: "int \<Rightarrow> int" where
  "days_from_monday day = (day + 3) mod 7"

definition retention_cutoff_ms :: "int \<Rightarrow> u32 \<Rightarrow> i64 option" where
  "retention_cutoff_ms now_s weeks =
     (let today = now_s div 86400;
          current_week = today - days_from_monday today;
          cutoff = current_week - 7 * uint weeks in
      if current_week < date_min_day \<or> cutoff < date_min_day then None
      else Some (i64_wrap (cutoff * 86400 * 1000)))"

record retention_state =
  rt_metrics :: metrics_store
  rt_logs :: log_store
  rt_registry :: service_registry
  rt_meta :: metadata_db

definition reclaim_cutoff_ms :: "i64 \<Rightarrow> i64" where
  "reclaim_cutoff_ms cutoff = i64_wrap (i64_wrap (cutoff - uint max_bucket_ms) - max_watermark_lag_ms)"

text \<open>Each failure is logged and leaves the pass running.\<close>

definition cleanup_once :: "log_env \<Rightarrow> int \<Rightarrow> u32 \<Rightarrow> retention_state \<Rightarrow> retention_state option" where
  "cleanup_once env now_s weeks st =
     (case retention_cutoff_ms now_s weeks of None \<Rightarrow> None
      | Some cutoff \<Rightarrow>
          (let (metrics, metrics_cleaned) = store_delete_before (rt_metrics st) cutoff;
               (logs, logs_removed) = logs_delete_before env cutoff (rt_logs st);
               meta = (if isl logs_removed then rt_meta st
                       else fst (delete_checkpoints_before (rt_meta st) cutoff));
               (registry, meta') =
                 (if isl metrics_cleaned \<or> isl logs_removed then (rt_registry st, meta)
                  else fst (reclaim_before sqlite_ops (rt_registry st, meta) (reclaim_cutoff_ms cutoff)))
           in Some \<lparr>rt_metrics = metrics, rt_logs = logs, rt_registry = registry, rt_meta = meta'\<rparr>))"

text \<open>\<open>run\<close> with the times at which it wakes up; a panic ends the task.\<close>

fun retention_run :: "log_env \<Rightarrow> u32 \<Rightarrow> int list \<Rightarrow> retention_state \<Rightarrow> retention_state option" where
  "retention_run env weeks [] st = Some st"
| "retention_run env weeks (now_s # later) st =
     (case cleanup_once env now_s weeks st of None \<Rightarrow> None
      | Some st' \<Rightarrow> retention_run env weeks later st')"

section \<open>The cutoff\<close>

lemma retention_cutoff_Some:
  assumes "retention_cutoff_ms now_s weeks = Some cutoff" "now_s < 253402300800"
  shows "cutoff = (now_s div 86400 - days_from_monday (now_s div 86400) - 7 * uint weeks) * 86400000"
    "- 377705116800000 \<le> cutoff" "cutoff < 253402300800000"
proof -
  define c where "c = now_s div 86400 - days_from_monday (now_s div 86400) - 7 * uint weeks"
  have lo: "date_min_day \<le> c" and cut: "cutoff = i64_wrap (c * 86400 * 1000)"
    using assms(1) by (auto simp: retention_cutoff_ms_def Let_def c_def split: if_splits)
  have "0 \<le> days_from_monday (now_s div 86400)" "0 \<le> uint weeks"
    by (simp_all add: days_from_monday_def)
  moreover have "now_s div 86400 < 2932897" using assms(2) by linarith
  ultimately have hi: "c < 2932897" unfolding c_def by linarith
  have "in_i64 (c * 86400 * 1000)"
    using lo hi by (intro in_i64I) (simp_all add: date_min_day_def)
  then have "cutoff = c * 86400000" by (simp add: cut i64_wrap_id)
  then show "cutoff = (now_s div 86400 - days_from_monday (now_s div 86400) - 7 * uint weeks) * 86400000"
    "- 377705116800000 \<le> cutoff" "cutoff < 253402300800000"
    using lo hi by (simp_all add: c_def date_min_day_def)
qed

text \<open>
  The cutoff is a Monday at midnight UTC, at least the configured number of weeks before now and
  less than one week more.
\<close>

theorem retention_cutoff_bounds:
  assumes "retention_cutoff_ms now_s weeks = Some cutoff" "now_s < 253402300800"
  shows "cutoff mod 604800000 = 345600000 \<and>
    cutoff \<le> now_s * 1000 - uint weeks * 604800000 \<and>
    now_s * 1000 - uint weeks * 604800000 < cutoff + 604800000"
proof -
  define d where "d = now_s div 86400"
  have c: "cutoff = (d - (d + 3) mod 7 - 7 * uint weeks) * 86400000"
    using retention_cutoff_Some(1) [OF assms] by (simp add: d_def days_from_monday_def)
  have d: "d * 86400 \<le> now_s" "now_s < d * 86400 + 86400" by (simp_all add: d_def)
  define m where "m = (d + 3) mod 7"
  have m: "0 \<le> m" "m < 7" by (simp_all add: m_def)
  have c': "cutoff = d * 86400000 - m * 86400000 - uint weeks * 604800000"
    by (simp add: c m_def left_diff_distrib)
  have "d - (d + 3) mod 7 = 7 * ((d + 3) div 7) - 3"
    by (simp add: minus_mod_eq_mult_div [symmetric])
  then have "cutoff = 345600000 + 604800000 * ((d + 3) div 7 - uint weeks - 1)"
    by (simp add: c)
  then have "cutoff mod 604800000 = 345600000" by (simp only: mod_mult_self2) simp
  moreover have "cutoff \<le> now_s * 1000 - uint weeks * 604800000"
    using c' d m by linarith
  moreover have "now_s * 1000 - uint weeks * 604800000 < cutoff + 604800000"
    using c' d m by linarith
  ultimately show ?thesis by simp
qed

theorem retention_cutoff_bounds_witness:
  "retention_cutoff_ms 1787443200 4 = Some 1784505600000 \<and>
    (1784505600000 :: int) mod 604800000 = 345600000"
proof -
  have "retention_cutoff_ms 1787443200 4 = Some 1784505600000"
    by (simp add: retention_cutoff_ms_def days_from_monday_def date_min_day_def i64_wrap_def Let_def)
  from retention_cutoff_bounds [OF this] this show ?thesis by simp
qed

section \<open>What a failing pass leaves\<close>

lemma delete_loop_subset:
  "delete_loop db cutoff d rs = (db', res) \<Longrightarrow> set (db_containers db' r) \<subseteq> set (db_containers db r)"
proof (induction rs arbitrary: db d)
  case (Cons r' rs)
  obtain db1 a where h: "delete_host_before db r' cutoff = (db1, a)" by fastforce
  then have t1: "db_containers db1 = db_containers db"
    by (auto simp: delete_host_before_def dest!: next_fault_tables split: prod.splits option.splits)
  show ?case
  proof (cases a)
    case (Inl e)
    then show ?thesis using Cons.prems h t1 by simp
  next
    case (Inr n)
    obtain db2 b where c: "delete_containers_before db1 r' cutoff = (db2, b)" by fastforce
    then have t2: "set (db_containers db2 r) \<subseteq> set (db_containers db1 r)"
      by (auto simp: delete_containers_before_def dest!: next_fault_tables split: prod.splits option.splits if_splits)
    show ?thesis
    proof (cases b)
      case (Inl e)
      then show ?thesis using Cons.prems h Inr c t1 t2 by simp
    next
      case (Inr m)
      then show ?thesis using Cons.prems h \<open>a = Inr n\<close> c t1 t2 Cons.IH [of db2] by auto
    qed
  qed
qed simp

lemma delete_loop_recent:
  assumes "delete_loop db cutoff d all_resolutions = (db', Inr n)" "w \<in> set (db_containers db' r)"
  shows "cutoff \<le> cw_ts w"
proof -
  have "distinct all_resolutions" "r \<in> set all_resolutions"
    by (simp add: all_resolutions_def) (cases r; simp add: all_resolutions_def)
  with delete_loop_tables [OF assms(1)] assms(2) show ?thesis by auto
qed

lemma delete_checkpoints_tables:
  assumes "delete_checkpoints_before db cutoff = (db', res)"
  shows "md_services db' = md_services db" "set (md_checkpoints db') \<subseteq> set (md_checkpoints db)"
    "res = Inr n \<Longrightarrow> md_checkpoints db' = filter (\<lambda>c. cutoff \<le> kr_ts c) (md_checkpoints db)"
    "md_faults db = [] \<Longrightarrow> \<exists>n. res = Inr n"
    "md_faults db = [] \<Longrightarrow> md_faults db' = []"
  using assms
  by (auto simp: delete_checkpoints_before_def not_less md_next_def split: list.splits option.splits)

lemma reclaim_tables:
  assumes "reclaim_before sqlite_ops (rg, db) cutoff = ((rg', db'), res)"
  shows "md_checkpoints db' = md_checkpoints db"
    "\<exists>P. md_services db' = filter P (md_services db) \<and> (\<forall>s. cutoff \<le> sr_last_seen_ms s \<longrightarrow> P s)"
    "md_faults db = [] \<Longrightarrow> md_services db' = filter (\<lambda>s. cutoff \<le> sr_last_seen_ms s) (md_services db)"
proof -
  have d: "\<exists>r. delete_services_before db cutoff = (db', r)"
    using assms by (auto simp: reclaim_before_def sqlite_ops_def split: prod.splits sum.splits)
  then show "md_checkpoints db' = md_checkpoints db"
    by (auto simp: delete_services_before_def dest!: md_next_tables split: prod.splits option.splits)
  show "\<exists>P. md_services db' = filter P (md_services db) \<and> (\<forall>s. cutoff \<le> sr_last_seen_ms s \<longrightarrow> P s)"
  proof (cases "md_services db' = md_services db")
    case True
    then show ?thesis by (intro exI [of _ "\<lambda>_. True"]) simp
  next
    case False
    then show ?thesis using d
      by (intro exI [of _ "\<lambda>s. \<not> sr_last_seen_ms s < cutoff"])
        (auto simp: delete_services_before_def dest!: md_next_tables split: prod.splits option.splits)
  qed
  show "md_services db' = filter (\<lambda>s. cutoff \<le> sr_last_seen_ms s) (md_services db)" if "md_faults db = []"
    using d that by (auto simp: delete_services_before_def md_next_def not_less)
qed

section \<open>References stay covered\<close>

text \<open>
  A time stamp is covered when the dictionary still has the service and has seen it recently enough:
  a row carries the end of its bucket, and the last-seen time lags by at most the touch interval.
\<close>

definition sid_covered :: "metadata_db \<Rightarrow> int \<Rightarrow> i64 \<Rightarrow> bool" where
  "sid_covered db sid ts \<longleftrightarrow> (\<exists>s \<in> set (md_services db). sr_sid s = sid \<and>
     ts \<le> sr_last_seen_ms s + uint max_bucket_ms + max_watermark_lag_ms)"

definition rows_covered :: "retention_state \<Rightarrow> bool" where
  "rows_covered st \<longleftrightarrow> (\<forall>r. \<forall>w \<in> set (db_containers (mt_db (rt_metrics st)) r).
     sid_covered (rt_meta st) (cw_sid w) (cw_ts w))"

definition checkpoints_covered :: "retention_state \<Rightarrow> bool" where
  "checkpoints_covered st \<longleftrightarrow> (\<forall>c \<in> set (md_checkpoints (rt_meta st)).
     sid_covered (rt_meta st) (kr_sid c) (kr_ts c))"

lemma widest_bucket: "uint max_bucket_ms = 3600000"
  by (simp add: max_bucket_ms_def coarse_def)

lemma greatest_lag: "max_watermark_lag_ms = 3600000"
  by (simp add: max_watermark_lag_ms_def touch_interval_ms_def)

lemma reclaim_cutoff:
  assumes "retention_cutoff_ms now_s weeks = Some cutoff" "now_s < 253402300800"
  shows "reclaim_cutoff_ms cutoff = cutoff - uint max_bucket_ms - max_watermark_lag_ms"
  using retention_cutoff_Some(2,3) [OF assms]
  by (simp add: reclaim_cutoff_ms_def widest_bucket greatest_lag i64_wrap_id in_i64I)


lemma covered_after_reclaim:
  assumes "reclaim_before sqlite_ops (rg, db) (cutoff - uint max_bucket_ms - max_watermark_lag_ms) = ((rg', db'), res)"
    and "sid_covered db sid ts" "cutoff \<le> ts"
  shows "sid_covered db' sid ts"
proof -
  obtain P where P: "md_services db' = filter P (md_services db)"
    "\<And>s. cutoff - uint max_bucket_ms - max_watermark_lag_ms \<le> sr_last_seen_ms s \<Longrightarrow> P s"
    using reclaim_tables(2) [OF assms(1)] by blast
  obtain s where s: "s \<in> set (md_services db)" "sr_sid s = sid"
    "ts \<le> sr_last_seen_ms s + uint max_bucket_ms + max_watermark_lag_ms"
    using assms(2) by (auto simp: sid_covered_def)
  with assms(3) have "P s" by (intro P(2)) simp
  with s P(1) show ?thesis by (auto simp: sid_covered_def)
qed

lemma sid_covered_services: "md_services db' = md_services db \<Longrightarrow> sid_covered db' = sid_covered db"
  by (simp add: sid_covered_def fun_eq_iff)


section \<open>A whole pass\<close>

lemma delete_loop_succeeds:
  "db_faults db = [] \<Longrightarrow> \<exists>db' n. delete_loop db cutoff d rs = (db', Inr n)"
  by (induction rs arbitrary: db d)
    (simp_all add: delete_host_before_def delete_containers_before_def next_fault_def)

lemma delete_files_succeeds:
  "ls_faults st = [] \<Longrightarrow> \<exists>st' r. delete_files env cutoff dir names removed st = (st', Inr r) \<and> ls_faults st' = []"
  by (induction names arbitrary: st removed)
    (simp_all add: ls_next_def lock_path_def evict_def forget_path_def remove_file_def Let_def)

lemma delete_dirs_succeeds:
  "ls_faults st = [] \<Longrightarrow> \<exists>st' r. delete_dirs env cutoff dirs removed st = (st', Inr r)"
proof (induction dirs arbitrary: st removed)
  case (Cons dir dirs)
  obtain st' r where "delete_files env cutoff dir (map fst (files_of st dir)) removed st = (st', Inr r)" "ls_faults st' = []"
    using delete_files_succeeds [OF Cons.prems] by blast
  then show ?case using Cons.IH [of st' r] Cons.prems by (simp add: ls_next_def)
qed simp

lemma logs_delete_files:
  assumes "ls_faults st = []" "store_wf env st" "hm_wf (ls_dirs st)"
  shows "\<exists>st' removed. logs_delete_before env cutoff st = (st', Inr removed) \<and>
    (\<forall>dir. dir \<noteq> [] \<longrightarrow> files_of st' dir = filter (\<lambda>(w, _). \<not> expired_file env cutoff w) (files_of st dir))"
proof -
  obtain st' r where d: "delete_dirs env cutoff (service_dirs st) [] st = (st', Inr r)"
    using delete_dirs_succeeds [OF assms(1)] by blast
  have dist: "distinct (service_dirs st)" using assms(3) by (simp add: service_dirs_def hm_wf_def)
  have "\<forall>dir. hm_wf (files_of st dir)" using assms(2) by (simp add: store_wf_def files_wf_def)
  note ok = delete_dirs_ok [OF d dist this]
  have "dir \<in> set (service_dirs st) \<or> files_of st dir = []" if "dir \<noteq> []" for dir
    using that by (cases "hm_get (ls_dirs st) dir") (force simp: service_dirs_def files_of_def dest: map_of_SomeD)+
  then show ?thesis
    using d ok assms(1) by (fastforce simp: logs_delete_before_def ls_next_def)
qed

text \<open>
  C29. A pass without I/O errors removes exactly the metric rows, the log weeks and the checkpoints
  from before the cutoff, and exactly the services that were last seen before it by more than the
  widest bucket and the greatest lag of the last-seen time.
\<close>

theorem cleanup_once_exact:
  assumes "db_faults (mt_db (rt_metrics st)) = []" "ls_faults (rt_logs st) = []" "md_faults (rt_meta st) = []"
    and "store_wf env (rt_logs st)" "hm_wf (ls_dirs (rt_logs st))"
    and "retention_cutoff_ms now_s weeks = Some cutoff" "now_s < 253402300800"
  shows "\<exists>st'. cleanup_once env now_s weeks st = Some st' \<and>
    (\<forall>r. db_host (mt_db (rt_metrics st')) r = filter (\<lambda>w. cutoff \<le> hw_ts w) (db_host (mt_db (rt_metrics st)) r)) \<and>
    (\<forall>r. db_containers (mt_db (rt_metrics st')) r =
       filter (\<lambda>w. cutoff \<le> cw_ts w) (db_containers (mt_db (rt_metrics st)) r)) \<and>
    (\<forall>dir. dir \<noteq> [] \<longrightarrow> files_of (rt_logs st') dir =
       filter (\<lambda>(w, _). \<not> expired_file env cutoff w) (files_of (rt_logs st) dir)) \<and>
    md_checkpoints (rt_meta st') = filter (\<lambda>c. cutoff \<le> kr_ts c) (md_checkpoints (rt_meta st)) \<and>
    md_services (rt_meta st') =
      filter (\<lambda>s. cutoff \<le> sr_last_seen_ms s + uint max_bucket_ms + max_watermark_lag_ms) (md_services (rt_meta st))"
proof -
  note rc = reclaim_cutoff [OF assms(6,7)]
  obtain mdb n where mdb: "delete_loop (mt_db (rt_metrics st)) cutoff 0 all_resolutions = (mdb, Inr n)"
    using delete_loop_succeeds [OF assms(1)] by blast
  obtain logs removed where logs: "logs_delete_before env cutoff (rt_logs st) = (logs, Inr removed)"
    "\<forall>dir. dir \<noteq> [] \<longrightarrow> files_of logs dir = filter (\<lambda>(w, _). \<not> expired_file env cutoff w) (files_of (rt_logs st) dir)"
    using logs_delete_files [OF assms(2,4,5)] by blast
  obtain meta kres where k: "delete_checkpoints_before (rt_meta st) cutoff = (meta, kres)" by fastforce
  obtain kn where kn: "kres = Inr kn" using delete_checkpoints_tables(4) [OF k assms(3)] by blast
  obtain rg db sres where r: "reclaim_before sqlite_ops (rt_registry st, meta)
      (cutoff - uint max_bucket_ms - max_watermark_lag_ms) = ((rg, db), sres)" by (metis surj_pair)
  have run: "cleanup_once env now_s weeks st = Some \<lparr>rt_metrics = (rt_metrics st)\<lparr>mt_db := mdb\<rparr>,
      rt_logs = logs, rt_registry = rg, rt_meta = db\<rparr>"
    by (simp add: cleanup_once_def assms(6) store_delete_before_def mdb logs(1) k r rc)
  have "distinct all_resolutions" "q \<in> set all_resolutions" for q
    by (simp add: all_resolutions_def) (cases q; simp add: all_resolutions_def)
  note tables = delete_loop_tables [OF mdb this(1)] this(2)
  have "md_services db = filter (\<lambda>s. cutoff \<le> sr_last_seen_ms s + uint max_bucket_ms + max_watermark_lag_ms)
      (md_services (rt_meta st))"
    using reclaim_tables(3) [OF r delete_checkpoints_tables(5) [OF k assms(3)]]
      delete_checkpoints_tables(1) [OF k] by (simp add: algebra_simps)
  then show ?thesis
    using run tables logs(2) delete_checkpoints_tables(3) [OF k kn] reclaim_tables(1) [OF r] by simp
qed


section \<open>Examples\<close>

definition aged_row :: "int \<Rightarrow> int \<Rightarrow> container_row" where
  "aged_row sid ts = \<lparr>cw_ts = ts, cw_cid = [1, 2, 3, 4, 5, 6], cw_sid = sid, cw_cpu_pct_mill = 0, cw_mem_used = 0,
     cw_net_rx_rate_mill = None, cw_net_tx_rate_mill = None, cw_blk_read_rate_mill = None,
     cw_blk_write_rate_mill = None\<rparr>"

text \<open>
  A Sunday of the second week of 1970 with a service that is in use, one that is not, and a
  checkpoint of each.
\<close>

definition two_services :: "int \<Rightarrow> retention_state" where
  "two_services seen = \<lparr>
     rt_metrics = (fresh_store 40)\<lparr>mt_db := empty_db\<lparr>db_containers := (\<lambda>_. [aged_row 1 345600010, aged_row 2 20])\<rparr>\<rparr>,
     rt_logs = week_one_store,
     rt_registry = registry_empty,
     rt_meta = empty_metadata\<lparr>
       md_services := [\<lparr>sr_sid = 1, sr_name = ''web'', sr_last_seen_ms = seen\<rparr>,
                       \<lparr>sr_sid = 2, sr_name = ''old'', sr_last_seen_ms = 10\<rparr>],
       md_checkpoints := [\<lparr>kr_sid = 2, kr_cid = [1, 2, 3, 4, 5, 6], kr_ts = 20, kr_line_hash = 7\<rparr>]\<rparr>\<rparr>"

lemma two_services_cutoff: "retention_cutoff_ms 864000 0 = Some 345600000"
  by (simp add: retention_cutoff_ms_def days_from_monday_def date_min_day_def i64_wrap_def Let_def)

lemma two_services_pass: "\<exists>st'. cleanup_once env 864000 0 st = Some st'"
  by (simp add: cleanup_once_def two_services_cutoff Let_def split_beta)

lemma two_services_covered:
  "rows_covered (two_services 345000000)" "checkpoints_covered (two_services 345000000)"
  by (auto simp: rows_covered_def checkpoints_covered_def two_services_def sid_covered_def aged_row_def
      widest_bucket greatest_lag empty_db_def)


theorem cleanup_once_exact_witness:
  "\<exists>st'. cleanup_once week_one_env 864000 0 (two_services 345000000) = Some st' \<and>
    db_containers (mt_db (rt_metrics st')) TenSeconds = [aged_row 1 345600010] \<and>
    files_of (rt_logs st') ''web'' = [] \<and>
    md_checkpoints (rt_meta st') = [] \<and> map sr_name (md_services (rt_meta st')) = [''web'']"
proof -
  let ?st = "two_services 345000000"
  have db: "db_faults (mt_db (rt_metrics ?st)) = []" by (simp add: two_services_def empty_db_def)
  have md: "md_faults (rt_meta ?st) = []" by (simp add: two_services_def empty_metadata_def)
  have l: "ls_faults (rt_logs ?st) = []" by (simp add: two_services_def week_one_store_def log_store_new_def)
  have w: "store_wf week_one_env (rt_logs ?st)" using week_one_wf by (simp add: two_services_def)
  have h: "hm_wf (ls_dirs (rt_logs ?st))" by (simp add: two_services_def week_one_store_def hm_wf_def)
  have n: "(864000 :: int) < 253402300800" by simp
  have e: "expired_file week_one_env 345600000 ''1970_w01.db''"
    using expired_iff [OF week_one_start] by simp
  obtain st' where run: "cleanup_once week_one_env 864000 0 ?st = Some st'"
    and c: "\<forall>r. db_containers (mt_db (rt_metrics st')) r =
       filter (\<lambda>w. 345600000 \<le> cw_ts w) (db_containers (mt_db (rt_metrics ?st)) r)"
    and f: "\<forall>dir. dir \<noteq> [] \<longrightarrow> files_of (rt_logs st') dir =
       filter (\<lambda>(w, _). \<not> expired_file week_one_env 345600000 w) (files_of (rt_logs ?st) dir)"
    and k: "md_checkpoints (rt_meta st') = filter (\<lambda>c. 345600000 \<le> kr_ts c) (md_checkpoints (rt_meta ?st))"
    and s: "md_services (rt_meta st') =
      filter (\<lambda>s. 345600000 \<le> sr_last_seen_ms s + uint max_bucket_ms + max_watermark_lag_ms) (md_services (rt_meta ?st))"
    using cleanup_once_exact [OF db l md w h two_services_cutoff n] by blast
  have "db_containers (mt_db (rt_metrics st')) TenSeconds = [aged_row 1 345600010]"
    by (simp add: c two_services_def aged_row_def empty_db_def)
  moreover have "files_of (rt_logs st') ''web'' = []"
  proof -
    have "files_of (rt_logs ?st) ''web'' = files_of week_one_store ''web''" by (simp add: two_services_def)
    moreover have "filter (\<lambda>(w, _). \<not> expired_file week_one_env 345600000 w) (files_of week_one_store ''web'') = []"
      using e by (simp add: week_one_store_def files_of_def)
    ultimately show ?thesis using f by simp
  qed
  moreover have "md_checkpoints (rt_meta st') = []"
    unfolding k by (simp add: two_services_def)
  moreover have "map sr_name (md_services (rt_meta st')) = [''web'']"
  proof -
    have "md_services (rt_meta ?st) = [\<lparr>sr_sid = 1, sr_name = ''web'', sr_last_seen_ms = 345000000\<rparr>,
        \<lparr>sr_sid = 2, sr_name = ''old'', sr_last_seen_ms = 10\<rparr>]" by (simp add: two_services_def)
    then show ?thesis by (simp only: s widest_bucket greatest_lag) simp
  qed
  ultimately show ?thesis using run by - (rule exI [of _ st'], (rule conjI, assumption)+, assumption)
qed

text \<open>
  The services are reclaimed even when the checkpoints could not be pruned: a failure of that one
  statement leaves a checkpoint of a service that is gone.
\<close>

lemma failed_prune_orphans_checkpoint:
  "let st = two_services 345000000;
       st1 = st\<lparr>rt_meta := (rt_meta st)\<lparr>md_faults := [Some ''database is locked'']\<rparr>\<rparr> in
    checkpoints_covered st1 \<and>
    (\<exists>st'. cleanup_once week_one_env 864000 0 st1 = Some st' \<and> \<not> checkpoints_covered st' \<and>
       map sr_name (md_services (rt_meta st')) = [''web''])"
proof -
  let ?st = "two_services 345000000"
  let ?st1 = "?st\<lparr>rt_meta := (rt_meta ?st)\<lparr>md_faults := [Some ''database is locked'']\<rparr>\<rparr>"
  have "checkpoints_covered ?st1"
    using two_services_covered(2) by (simp add: checkpoints_covered_def sid_covered_def)
  have db: "db_faults (mt_db (rt_metrics ?st)) = []" by (simp add: two_services_def empty_db_def)
  obtain mdb n where m: "delete_loop (mt_db (rt_metrics ?st)) 345600000 0 all_resolutions = (mdb, Inr n)"
    using delete_loop_succeeds [OF db] by blast
  have "ls_faults week_one_store = []" "hm_wf (ls_dirs week_one_store)"
    by (simp_all add: week_one_store_def log_store_new_def hm_wf_def)
  then obtain logs removed where l: "logs_delete_before week_one_env 345600000 week_one_store = (logs, Inr removed)"
    using logs_delete_files week_one_wf by blast
  have rl: "rt_logs ?st = week_one_store" by (simp add: two_services_def)
  have rc: "reclaim_cutoff_ms 345600000 = 338400000"
    using reclaim_cutoff [OF two_services_cutoff]
    by (simp add: widest_bucket greatest_lag)
  have "\<exists>st'. cleanup_once week_one_env 864000 0 ?st1 = Some st' \<and> \<not> checkpoints_covered st' \<and>
      map sr_name (md_services (rt_meta st')) = [''web'']"
    using m l
    by (simp add: cleanup_once_def two_services_cutoff store_delete_before_def rl rc)
      (simp add: two_services_def empty_metadata_def delete_checkpoints_before_def md_next_def
        reclaim_before_def sqlite_ops_def delete_services_before_def stored_service_id_def
        checkpoints_covered_def sid_covered_def Let_def)
  with \<open>checkpoints_covered ?st1\<close> show ?thesis by (simp add: Let_def)
qed

end
