(* ===== verification/Docker_Control.thy ===== *)
theory Docker_Control
  imports Container_Registry Log_Buffer Retention
begin

text \<open>
  \<open>docker/mod.rs\<close>: the Docker service of the program, with its two channels, the control commands
  and their guards, the connection probe, the tasks that follow the logs and the sampling round. The
  connection flag is shared with the container registry. A spawned call to Docker is recorded as a
  command; one round of a worker is a function whose arguments are the answers of Docker.
\<close>

datatype controls_mode = ControlsAuto | ControlsEnabled | ControlsDisabled

datatype docker_command = StartCmd string | StopCmd string | RestartCmd string

record docker_service =
  dk_registry :: container_registry
  dk_controls :: bool
  dk_mode :: controls_mode
  dk_log_queue :: "log_line list"
  dk_log_capacity :: nat
  dk_logs_closed :: bool
  dk_logs_taken :: bool
  dk_sample_queue :: "container_raw_sample list list"
  dk_samples_closed :: bool
  dk_samples_taken :: bool
  dk_pressure :: nat
  dk_meta :: "service_registry \<times> metadata_db"
  dk_weeks :: u32

definition docker_service_new ::
    "controls_mode \<Rightarrow> nat \<Rightarrow> nat \<Rightarrow> service_registry \<times> metadata_db \<Rightarrow> u32 \<Rightarrow> docker_service" where
  "docker_service_new mode log_capacity events_capacity meta weeks =
     \<lparr>dk_registry = container_registry_new events_capacity True,
      dk_controls = (mode = ControlsEnabled), dk_mode = mode,
      dk_log_queue = [], dk_log_capacity = log_capacity, dk_logs_closed = False, dk_logs_taken = False,
      dk_sample_queue = [], dk_samples_closed = False, dk_samples_taken = False,
      dk_pressure = 0, dk_meta = meta, dk_weeks = weeks\<rparr>"

definition docker_connected :: "docker_service \<Rightarrow> bool" where
  "docker_connected sv = cy_connected (dk_registry sv)"

text \<open>The receivers are handed out once; later callers get a stream that never yields.\<close>

definition take_logs :: "docker_service \<Rightarrow> docker_service \<times> bool" where
  "take_logs sv = (sv\<lparr>dk_logs_taken := True\<rparr>, \<not> dk_logs_taken sv)"

definition take_container_samples :: "docker_service \<Rightarrow> docker_service \<times> bool" where
  "take_container_samples sv = (sv\<lparr>dk_samples_taken := True\<rparr>, \<not> dk_samples_taken sv)"

section \<open>Control commands\<close>

definition ensure_connected :: "bool \<Rightarrow> unit app_result" where
  "ensure_connected up = (if up then Inr () else Inl (Docker ''docker socket/proxy is unreachable''))"

text \<open>\<open>{:?}\<close> of a container state.\<close>

fun state_debug :: "container_state \<Rightarrow> string" where
  "state_debug Created = ''Created''"
| "state_debug Restarting = ''Restarting''"
| "state_debug Running = ''Running''"
| "state_debug Removing = ''Removing''"
| "state_debug Paused = ''Paused''"
| "state_debug Exited = ''Exited''"
| "state_debug Dead = ''Dead''"
| "state_debug Stopping = ''Stopping''"
| "state_debug Empty = ''Empty''"

definition state_conflict :: "string \<Rightarrow> container_state \<Rightarrow> app_error" where
  "state_conflict verb s =
     Conflict (''cannot '' @ verb @ '' container while state is Some('' @ state_debug s @ '')'')"

text \<open>The guards that the three commands share: the container and its known state.\<close>

definition control_target ::
    "docker_service \<Rightarrow> container_id \<Rightarrow> (container_summary \<times> container_state) app_result" where
  "control_target sv cid =
     and_then (ensure_connected (docker_connected sv)) (\<lambda>_.
     if \<not> dk_controls sv
     then Inl (Forbidden ''container controls are disabled or unavailable on this backend'')
     else and_then (container_info (dk_registry sv) cid) (\<lambda>found.
       case found of None \<Rightarrow> Inl (NotFound (''container not found: '' @ to_hex cid))
       | Some c \<Rightarrow>
           (case ct_state c of
              None \<Rightarrow> Inl (Docker (''container state unknown: '' @ summary_log_id c))
            | Some s \<Rightarrow> Inr (c, s))))"

definition start_container ::
    "docker_service \<Rightarrow> container_id \<Rightarrow> (container_command_result \<times> docker_command list) app_result" where
  "start_container sv cid =
     and_then (control_target sv cid) (\<lambda>(c, s).
       if s = Running then Inr (Noop, [])
       else if s \<in> {Removing, Dead, Restarting} then Inl (state_conflict ''start'' s)
       else Inr (Submitted, [StartCmd (ct_full_id c)]))"

definition stop_container ::
    "docker_service \<Rightarrow> container_id \<Rightarrow> (container_command_result \<times> docker_command list) app_result" where
  "stop_container sv cid =
     and_then (control_target sv cid) (\<lambda>(c, s).
       if s \<in> {Created, Exited} then Inr (Noop, [])
       else if s \<in> {Removing, Dead} then Inl (state_conflict ''stop'' s)
       else Inr (Submitted, [StopCmd (ct_full_id c)]))"

definition restart_container ::
    "docker_service \<Rightarrow> container_id \<Rightarrow> (container_command_result \<times> docker_command list) app_result" where
  "restart_container sv cid =
     and_then (control_target sv cid) (\<lambda>(c, s).
       if s \<in> {Created, Exited} then Inr (Submitted, [StartCmd (ct_full_id c)])
       else if s \<in> {Running, Paused} then Inr (Submitted, [RestartCmd (ct_full_id c)])
       else if s \<in> {Removing, Dead, Restarting} then Inl (state_conflict ''restart'' s)
       else Inr (Submitted, []))"

section \<open>The probe\<close>

definition docker_probe_round :: "unit docker_call \<Rightarrow> unit docker_call \<Rightarrow> docker_service \<Rightarrow> docker_service" where
  "docker_probe_round pinged write_probe sv =
     (let up = \<not> isl (ping pinged);
          sv1 = sv\<lparr>dk_registry := (dk_registry sv)\<lparr>cy_connected := up\<rparr>\<rparr> in
      if up \<and> dk_mode sv = ControlsAuto then
        (case supports_write_operations write_probe of
           Inl _ \<Rightarrow> sv1 | Inr available \<Rightarrow> sv1\<lparr>dk_controls := available\<rparr>)
      else sv1)"

section \<open>Log tasks\<close>

record log_task =
  lt_container :: observed_container
  lt_finished :: bool

text \<open>
  One round of the log observer: finished tasks are dropped, and each observed container without a
  task gets one. The result has the tasks and the containers for which one was spawned.
\<close>

definition spawn_missing ::
    "(container_id, log_task) hash_map \<times> observed_container list \<Rightarrow> observed_container
      \<Rightarrow> (container_id, log_task) hash_map \<times> observed_container list" where
  "spawn_missing = (\<lambda>(tasks, spawned) c.
     if hm_contains tasks (oc_id c) then (tasks, spawned)
     else (hm_insert (oc_id c) \<lparr>lt_container = c, lt_finished = False\<rparr> tasks, spawned @ [c]))"

definition log_observer_round ::
    "docker_service \<Rightarrow> (container_id, log_task) hash_map
      \<Rightarrow> (container_id, log_task) hash_map \<times> observed_container list" where
  "log_observer_round sv tasks =
     (if \<not> docker_connected sv then (tasks, [])
      else let alive = filter (\<lambda>(_, t). \<not> lt_finished t) tasks in
        case observed_containers (dk_registry sv) of
          Inl _ \<Rightarrow> (alive, [])
        | Inr running \<Rightarrow> foldl spawn_missing (alive, []) running)"

definition clamp_to_i32 :: "i64 \<Rightarrow> int" where
  "clamp_to_i32 v = (if v < - (2 ^ 31) then - (2 ^ 31) else if 2 ^ 31 - 1 < v then 2 ^ 31 - 1 else v)"

definition log_since_secs :: "log_checkpoint option \<Rightarrow> int \<Rightarrow> u32 \<Rightarrow> int option" where
  "log_since_secs checkpoint now_s weeks =
     map_option (\<lambda>cutoff.
       let cutoff_secs = cutoff div 1000 in
       clamp_to_i32 (case checkpoint of None \<Rightarrow> cutoff_secs
         | Some cp \<Rightarrow> max (lc_ts cp div 1000) cutoff_secs)) (retention_cutoff_ms now_s weeks)"

text \<open>The start of a task: it ends, panics in the calendar, or follows the log from a second on.\<close>

datatype log_task_start = TaskEnds | TaskPanics | TaskFollows int

definition container_log_start ::
    "observed_container \<Rightarrow> i64 \<Rightarrow> int \<Rightarrow> docker_service \<Rightarrow> docker_service \<times> log_task_start" where
  "container_log_start c now_ms now_s sv =
     (case id_of sqlite_ops (dk_meta sv) (oc_service c) now_ms of
        (meta, Inl _) \<Rightarrow> (sv\<lparr>dk_meta := meta\<rparr>, TaskEnds)
      | ((rg, db), Inr sid) \<Rightarrow>
          (case load_log_checkpoint db sid (oc_id c) of
             (db1, Inl _) \<Rightarrow> (sv\<lparr>dk_meta := (rg, db1)\<rparr>, TaskEnds)
           | (db1, Inr checkpoint) \<Rightarrow>
               (sv\<lparr>dk_meta := (rg, db1)\<rparr>,
                case log_since_secs checkpoint now_s (dk_weeks sv) of
                  None \<Rightarrow> TaskPanics | Some since \<Rightarrow> TaskFollows since)))"

datatype log_output = StdOutChunk string | StdErrChunk string | OtherChunk

definition output_lines ::
    "(string \<Rightarrow> int option) \<Rightarrow> observed_container \<Rightarrow> log_output \<Rightarrow> log_line list option" where
  "output_lines nanos_of c out = (case out of
     StdOutChunk message \<Rightarrow> map_log_output nanos_of (oc_id c) (oc_service c) message Stdout
   | StdErrChunk message \<Rightarrow> map_log_output nanos_of (oc_id c) (oc_service c) message Stderr
   | OtherChunk \<Rightarrow> Some [])"

text \<open>
  The lines that a task offers to the channel from the items of its stream, and whether it panicked.
\<close>

fun follow_lines ::
    "(string \<Rightarrow> int option) \<Rightarrow> observed_container \<Rightarrow> (docker_error + log_output) list \<Rightarrow> log_line list \<times> bool" where
  "follow_lines nanos_of c [] = ([], False)"
| "follow_lines nanos_of c (Inl _ # items) = ([], False)"
| "follow_lines nanos_of c (Inr out # items) =
     (case output_lines nanos_of c out of None \<Rightarrow> ([], True)
      | Some ls \<Rightarrow> (let (rest, panicked) = follow_lines nanos_of c items in (ls @ rest, panicked)))"

definition channel_pressure_pct_mill :: "nat \<Rightarrow> nat \<Rightarrow> nat" where
  "channel_pressure_pct_mill depth max_capacity =
     (if max_capacity = 0 then 0 else depth * 100000 div max_capacity)"

text \<open>Sending one line waits for room, and ends the task when the receiver is gone.\<close>

datatype send_outcome = SendWaits | SendFails | SendDone docker_service

definition send_log_line :: "log_line \<Rightarrow> docker_service \<Rightarrow> send_outcome" where
  "send_log_line line sv =
     (if dk_logs_closed sv then SendFails
      else if dk_log_capacity sv \<le> length (dk_log_queue sv) then SendWaits
      else let queue = dk_log_queue sv @ [line] in
        SendDone (sv\<lparr>dk_log_queue := queue,
          dk_pressure := max (dk_pressure sv)
            (channel_pressure_pct_mill (length queue) (dk_log_capacity sv))\<rparr>))"

definition receive_log_line :: "docker_service \<Rightarrow> (log_line \<times> docker_service) option" where
  "receive_log_line sv = (case dk_log_queue sv of [] \<Rightarrow> None
     | line # queue \<Rightarrow> Some (line, sv\<lparr>dk_log_queue := queue\<rparr>))"

section \<open>Samples\<close>

text \<open>
  The requests of a round run concurrently: \<open>order\<close> is the order in which they complete. A container
  whose service or whose statistics fail is left out.
\<close>

definition sample_one ::
    "i64 \<Rightarrow> i64 option \<Rightarrow> (string \<Rightarrow> docker_stats option docker_call) \<Rightarrow> observed_container
      \<Rightarrow> service_registry \<times> metadata_db
      \<Rightarrow> (service_registry \<times> metadata_db) \<times> container_raw_sample option" where
  "sample_one ts now_ms stats_of c meta =
     (case id_of sqlite_ops meta (oc_service c) ts of
        (meta1, Inl _) \<Rightarrow> (meta1, None)
      | (meta1, Inr sid) \<Rightarrow>
          (case sample_container_stats now_ms (oc_full_id c) (stats_of (oc_full_id c)) of
             Inl _ \<Rightarrow> (meta1, None)
           | Inr st \<Rightarrow> (meta1, Some \<lparr>cr_ts = ts, cr_service = sid, cr_cid = st_cid st,
               cr_cpu_usage_ns = st_cpu_usage_ns st, cr_system_cpu_usage_ns = st_system_cpu_usage_ns st,
               cr_cpu_count = st_cpu_count st, cr_mem_used = st_mem_used st, cr_net_rx = st_net_rx st,
               cr_net_tx = st_net_tx st, cr_blk_read = st_blk_read st, cr_blk_write = st_blk_write st\<rparr>)))"

fun sample_all ::
    "i64 \<Rightarrow> i64 option \<Rightarrow> (string \<Rightarrow> docker_stats option docker_call) \<Rightarrow> observed_container list
      \<Rightarrow> service_registry \<times> metadata_db
      \<Rightarrow> (service_registry \<times> metadata_db) \<times> container_raw_sample list" where
  "sample_all ts now_ms stats_of [] meta = (meta, [])"
| "sample_all ts now_ms stats_of (c # cs) meta =
     (let (meta1, s) = sample_one ts now_ms stats_of c meta;
          (meta2, ss) = sample_all ts now_ms stats_of cs meta1
      in (meta2, option_list s @ ss))"

definition sample_round ::
    "i64 option \<Rightarrow> (string \<Rightarrow> docker_stats option docker_call) \<Rightarrow> nat list \<Rightarrow> docker_service \<Rightarrow> docker_service" where
  "sample_round clock stats_of order sv =
     (if \<not> docker_connected sv then sv
      else case observed_containers (dk_registry sv) of Inl _ \<Rightarrow> sv
      | Inr running \<Rightarrow> (case clock of None \<Rightarrow> sv
        | Some ts \<Rightarrow>
            (let (meta, samples) = sample_all ts clock stats_of (completed order running) (dk_meta sv);
                 sv1 = sv\<lparr>dk_meta := meta\<rparr> in
             if samples = [] \<or> dk_samples_closed sv then sv1
             else sv1\<lparr>dk_sample_queue := dk_sample_queue sv @ [samples]\<rparr>)))"


section \<open>Commands are guarded\<close>

declare hm_contains_iff [simp del]

lemma control_target_Inr:
  assumes "control_target sv cid = Inr (c, s)"
  shows "docker_connected sv" "dk_controls sv" "container_info (dk_registry sv) cid = Inr (Some c)"
    "ct_id c = cid" "ct_state c = Some s"
proof -
  show up: "docker_connected sv" and on: "dk_controls sv"
    using assms by (auto simp: control_target_def ensure_connected_def split: if_splits)
  show i: "container_info (dk_registry sv) cid = Inr (Some c)" and "ct_state c = Some s"
    using assms by (auto simp: control_target_def ensure_connected_def split: if_splits option.splits)
  show "ct_id c = cid"
    using i by (auto simp: container_info_def containers_info_def find_Some_iff split: if_splits)
qed

definition control_calls ::
    "docker_service \<Rightarrow> container_id \<Rightarrow> docker_command list \<Rightarrow> bool" where
  "control_calls sv cid calls \<longleftrightarrow> (\<exists>r. start_container sv cid = Inr (r, calls) \<or>
     stop_container sv cid = Inr (r, calls) \<or> restart_container sv cid = Inr (r, calls))"


definition web_service :: "container_state \<Rightarrow> docker_service" where
  "web_service s = (let sv = docker_service_new ControlsEnabled 10 10 (registry_empty, empty_metadata) 4 in
     sv\<lparr>dk_registry := (dk_registry sv)\<lparr>cy_info :=
       [(map_container_summary example_summary)\<lparr>ct_state := Some s\<rparr>]\<rparr>\<rparr>)"

lemma web_target:
  "control_target (web_service s) (ct_id (map_container_summary example_summary)) =
    Inr ((map_container_summary example_summary)\<lparr>ct_state := Some s\<rparr>, s)"
  by (simp add: control_target_def web_service_def docker_service_new_def docker_connected_def
      container_registry_new_def ensure_connected_def container_info_def containers_info_def Let_def)


text \<open>A restart of a container that is stopping is reported as submitted, but no command is sent.\<close>

lemma restart_stopping_sends_nothing:
  "restart_container (web_service Stopping) (ct_id (map_container_summary example_summary)) = Inr (Submitted, [])"
  by (simp add: restart_container_def web_target)

section \<open>The probe\<close>

lemma docker_probe_round_mode [simp]: "dk_mode (docker_probe_round p w sv) = dk_mode sv"
  by (simp add: docker_probe_round_def Let_def split: sum.split)

definition probe_rounds :: "(unit docker_call \<times> unit docker_call) list \<Rightarrow> docker_service \<Rightarrow> docker_service" where
  "probe_rounds ps sv = foldl (\<lambda>sv (p, w). docker_probe_round p w sv) sv ps"

lemma probe_rounds_mode [simp]: "dk_mode (probe_rounds ps sv) = dk_mode sv"
  by (induction ps rule: rev_induct) (simp_all add: probe_rounds_def split: prod.splits)

lemma docker_service_new_mode [simp]: "dk_mode (docker_service_new mode lc ec meta weeks) = mode"
  by (simp add: docker_service_new_def)

text \<open>The write probes that were answered while Docker was reachable.\<close>

definition answered_probes :: "(unit docker_call \<times> unit docker_call) list \<Rightarrow> bool list" where
  "answered_probes ps = List.map_filter (\<lambda>(p, w). if isl (ping p) then None
     else case supports_write_operations w of Inl _ \<Rightarrow> None | Inr b \<Rightarrow> Some b) ps"

text \<open>
  The configuration decides about the controls: forced on or off they stay so whatever the probes
  say, otherwise they are what the last answered write probe found, and off before the first one. The
  connection flag is always the result of the last ping.
\<close>

theorem probe_decides_controls:
  "(let sv = probe_rounds ps (docker_service_new mode lc ec meta weeks) in
    dk_controls sv = (case mode of ControlsEnabled \<Rightarrow> True | ControlsDisabled \<Rightarrow> False
      | ControlsAuto \<Rightarrow> (if answered_probes ps = [] then False else last (answered_probes ps))) \<and>
    docker_connected sv = (if ps = [] then True else \<not> isl (ping (fst (last ps)))))"
proof (induction ps rule: rev_induct)
  case Nil
  show ?case
    by (cases mode) (simp_all add: probe_rounds_def docker_service_new_def docker_connected_def
        container_registry_new_def answered_probes_def List.map_filter_def)
next
  case (snoc x ps)
  obtain p w where x: "x = (p, w)" by fastforce
  let ?sv = "probe_rounds ps (docker_service_new mode lc ec meta weeks)"
  have step: "probe_rounds (ps @ [x]) (docker_service_new mode lc ec meta weeks) = docker_probe_round p w ?sv"
    by (simp add: probe_rounds_def x)
  have ans: "answered_probes (ps @ [(p, w)]) = answered_probes ps @ (if isl (ping p) then []
      else case supports_write_operations w of Inl _ \<Rightarrow> [] | Inr b \<Rightarrow> [b])"
    by (simp add: answered_probes_def List.map_filter_def split: sum.split)
  show ?case
    using snoc unfolding step
    by (cases mode; cases "supports_write_operations w"; cases "isl (ping p)")
      (simp_all add: docker_probe_round_def ans Let_def docker_connected_def x)
qed

section \<open>Log tasks\<close>

lemma spawn_missing_get:
  "foldl spawn_missing (tasks, spawned) cs = (tasks', spawned') \<Longrightarrow> hm_wf tasks \<Longrightarrow>
    hm_wf tasks' \<and>
    (\<forall>k t. hm_get tasks k = Some t \<longrightarrow> hm_get tasks' k = Some t) \<and>
    (\<forall>k t. hm_get tasks' k = Some t \<longrightarrow> hm_get tasks k = Some t \<or>
       hm_get tasks k = None \<and> oc_id (lt_container t) = k \<and> lt_container t \<in> set cs \<and> \<not> lt_finished t) \<and>
    (\<forall>c \<in> set cs. hm_get tasks' (oc_id c) \<noteq> None) \<and>
    (\<exists>new. spawned' = spawned @ new \<and> distinct (map oc_id new) \<and> (\<forall>c \<in> set new. hm_get tasks (oc_id c) = None))"
proof (induction cs arbitrary: tasks spawned)
  case (Cons c cs)
  show ?case
  proof (cases "hm_get tasks (oc_id c) = None")
    case False
    then have "spawn_missing (tasks, spawned) c = (tasks, spawned)"
      by (simp add: spawn_missing_def hm_contains_get)
    with Cons False show ?thesis by fastforce
  next
    case True
    let ?t = "\<lparr>lt_container = c, lt_finished = False\<rparr>"
    let ?tasks = "hm_insert (oc_id c) ?t tasks"
    have "spawn_missing (tasks, spawned) c = (?tasks, spawned @ [c])"
      using True by (simp add: spawn_missing_def hm_contains_get)
    with Cons.prems have "foldl spawn_missing (?tasks, spawned @ [c]) cs = (tasks', spawned')" "hm_wf ?tasks"
      by simp_all
    note IH = Cons.IH [OF this]
    obtain new where new: "spawned' = (spawned @ [c]) @ new" "distinct (map oc_id new)"
      "\<forall>d \<in> set new. hm_get ?tasks (oc_id d) = None" using IH by blast
    have g: "hm_get ?tasks k = (if k = oc_id c then Some ?t else hm_get tasks k)" for k by simp
    have "hm_get tasks' (oc_id c) = Some ?t" using IH g by metis
    moreover have "\<forall>k t. hm_get tasks k = Some t \<longrightarrow> hm_get tasks' k = Some t"
      using IH True g by (metis option.distinct(1))
    moreover have "\<forall>k t. hm_get tasks' k = Some t \<longrightarrow> hm_get tasks k = Some t \<or>
       hm_get tasks k = None \<and> oc_id (lt_container t) = k \<and> lt_container t \<in> set (c # cs) \<and> \<not> lt_finished t"
    proof (intro allI impI)
      fix k t assume "hm_get tasks' k = Some t"
      then have "hm_get ?tasks k = Some t \<or> hm_get ?tasks k = None \<and> oc_id (lt_container t) = k \<and>
          lt_container t \<in> set cs \<and> \<not> lt_finished t" using IH by blast
      then show "hm_get tasks k = Some t \<or>
         hm_get tasks k = None \<and> oc_id (lt_container t) = k \<and> lt_container t \<in> set (c # cs) \<and> \<not> lt_finished t"
        using True by (auto simp: g split: if_splits)
    qed
    moreover have "\<exists>new. spawned' = spawned @ new \<and> distinct (map oc_id new) \<and> (\<forall>c \<in> set new. hm_get tasks (oc_id c) = None)"
      using new True by (intro exI [of _ "c # new"]) (auto split: if_splits)
    ultimately show ?thesis using IH by auto
  qed
qed auto

text \<open>
  After a round of the log observer every observed container has a task that was running or has
  just been started, a running task is never replaced, and no container gets two tasks.
\<close>

theorem observed_logs_are_followed:
  assumes "docker_connected sv" "observed_containers (dk_registry sv) = Inr running" "hm_wf tasks"
    and "log_observer_round sv tasks = (tasks', spawned)"
  shows "hm_wf tasks' \<and> (\<forall>c \<in> set running. \<exists>t. hm_get tasks' (oc_id c) = Some t \<and> \<not> lt_finished t) \<and>
    (\<forall>k t. hm_get tasks k = Some t \<and> \<not> lt_finished t \<longrightarrow> hm_get tasks' k = Some t \<and> k \<notin> oc_id ` set spawned) \<and>
    distinct (map oc_id spawned)"
proof -
  let ?alive = "filter (\<lambda>(_, t). \<not> lt_finished t) tasks"
  have wf: "hm_wf ?alive" using assms(3) by simp
  have run: "foldl spawn_missing (?alive, []) running = (tasks', spawned)"
    using assms(1,2,4) by (simp add: log_observer_round_def Let_def)
  have alive: "hm_get ?alive k = (case hm_get tasks k of None \<Rightarrow> None | Some t \<Rightarrow> if \<not> lt_finished t then Some t else None)" for k
    using hm_get_filter [OF assms(3)] by (simp split: option.split)
  note r = spawn_missing_get [OF run wf]
  have live: "\<not> lt_finished t" if "hm_get tasks' k = Some t" for k t
  proof -
    have "hm_get ?alive k = Some t \<or> \<not> lt_finished t" using r that by blast
    then show ?thesis using alive [of k] by (auto split: option.splits if_splits)
  qed
  show ?thesis
  proof (intro conjI ballI allI impI)
    show "hm_wf tasks'" using r by blast
    show "\<exists>t. hm_get tasks' (oc_id c) = Some t \<and> \<not> lt_finished t" if "c \<in> set running" for c
      using r that live by blast
    show "hm_get tasks' k = Some t" if "hm_get tasks k = Some t \<and> \<not> lt_finished t" for k t
      using r that alive [of k] by simp
    show "k \<notin> oc_id ` set spawned" if "hm_get tasks k = Some t \<and> \<not> lt_finished t" for k t
      using r that alive [of k] by auto
    show "distinct (map oc_id spawned)" using r by auto
  qed
qed


theorem observed_logs_are_followed_witness:
  "\<exists>tasks' spawned. log_observer_round
     ((web_service Running)\<lparr>dk_registry := (container_registry_new 8 True)\<lparr>cy_observed :=
        [(''aabbccddeeff0011'', observed_of example_summary)]\<rparr>\<rparr>) [] = (tasks', spawned) \<and>
    (\<exists>t. hm_get tasks' (oc_id (observed_of example_summary)) = Some t \<and> \<not> lt_finished t)"
proof -
  let ?sv = "(web_service Running)\<lparr>dk_registry := (container_registry_new 8 True)\<lparr>cy_observed :=
        [(''aabbccddeeff0011'', observed_of example_summary)]\<rparr>\<rparr>"
  have up: "docker_connected ?sv" "observed_containers (dk_registry ?sv) = Inr [observed_of example_summary]"
    by (simp_all add: docker_connected_def observed_containers_def container_registry_new_def)
  obtain tasks' spawned where r: "log_observer_round ?sv [] = (tasks', spawned)" by fastforce
  show ?thesis using observed_logs_are_followed [OF up hm_wf_Nil r] r by auto
qed

section \<open>Where a log is resumed\<close>

lemma log_since_eq:
  assumes "log_since_secs checkpoint now_s weeks = Some since" "retention_cutoff_ms now_s weeks = Some cutoff"
  shows "since = clamp_to_i32 (case checkpoint of None \<Rightarrow> cutoff div 1000
      | Some cp \<Rightarrow> max (lc_ts cp div 1000) (cutoff div 1000))"
  using assms by (auto simp: log_since_secs_def Let_def)

lemma clamp_bounds:
  "- 2147483648 \<le> clamp_to_i32 v" "clamp_to_i32 v \<le> 2147483647" "clamp_to_i32 v \<le> max (- 2147483648) v"
  "v \<le> 2147483647 \<Longrightarrow> v \<le> clamp_to_i32 v"
  by (simp_all add: clamp_to_i32_def)

lemma secs_bounds: "x div 1000 * 1000 \<le> (x :: int)" "x < x div 1000 * 1000 + 1000"
  by linarith+

text \<open>
  A log is followed from a second that fits the protocol's 32 bits, that is not after the
  checkpoint unless the checkpoint is older than the retention cutoff, and that is never a second
  before the cutoff (until 2038, when the seconds no longer fit).
\<close>

theorem log_since_bounds:
  assumes "log_since_secs checkpoint now_s weeks = Some since" "retention_cutoff_ms now_s weeks = Some cutoff"
    and "- 2147483648000 \<le> cutoff"
  shows "- 2147483648 \<le> since \<and> since \<le> 2147483647 \<and>
    since * 1000 \<le> (case checkpoint of None \<Rightarrow> cutoff | Some cp \<Rightarrow> max (lc_ts cp) cutoff) \<and>
    (cutoff \<le> 2147483647000 \<longrightarrow> cutoff < since * 1000 + 1000)"
proof -
  define v where "v = (case checkpoint of None \<Rightarrow> cutoff div 1000
      | Some cp \<Rightarrow> max (lc_ts cp div 1000) (cutoff div 1000))"
  have since: "since = clamp_to_i32 v" using log_since_eq [OF assms(1,2)] by (simp add: v_def)
  have v: "cutoff div 1000 \<le> v" by (simp add: v_def split: option.split)
  then have lo: "- 2147483648 \<le> v" using assms(3) by linarith
  then have "since \<le> v" using clamp_bounds(3) [of v] by (simp add: since)
  moreover have "v * 1000 \<le> (case checkpoint of None \<Rightarrow> cutoff | Some cp \<Rightarrow> max (lc_ts cp) cutoff)"
    using secs_bounds(1) [of cutoff] secs_bounds(1) [of "lc_ts (the checkpoint)"]
    by (cases checkpoint) (auto simp: v_def max_def)
  moreover have "cutoff < since * 1000 + 1000" if "cutoff \<le> 2147483647000"
  proof -
    have "cutoff div 1000 \<le> since"
    proof (cases "v \<le> 2147483647")
      case True
      then show ?thesis using v clamp_bounds(4) [of v] by (simp add: since)
    next
      case False
      then have "since = 2147483647" by (simp add: since clamp_to_i32_def)
      then show ?thesis using that by linarith
    qed
    then show ?thesis using secs_bounds(2) [of cutoff] by linarith
  qed
  ultimately show ?thesis using clamp_bounds(1,2) [of v] since
    by (cases checkpoint) auto
qed

theorem log_since_bounds_witness:
  "log_since_secs (Some \<lparr>lc_ts = 1787000000500, lc_line_hash = 0\<rparr>) 1787443200 4 = Some 1787000000 \<and>
    1787000000 * 1000 \<le> (1787000000500 :: int)"
proof -
  have cut: "retention_cutoff_ms 1787443200 4 = Some 1784505600000"
    by (simp add: retention_cutoff_ms_def days_from_monday_def date_min_day_def i64_wrap_def Let_def)
  have since: "log_since_secs (Some \<lparr>lc_ts = 1787000000500, lc_line_hash = 0\<rparr>) 1787443200 4 = Some 1787000000"
    by (simp add: log_since_secs_def cut Let_def clamp_to_i32_def)
  from log_since_bounds [OF since cut] since show ?thesis by simp
qed

lemma accept_all_Cons:
  "accept_all h (l # ls) s = accept_all h ls (case accept_line h l s of None \<Rightarrow> s | Some s' \<Rightarrow> s')"
  by (simp add: accept_all_def)

lemma accept_all_after:
  assumes "sorted_wrt (\<lambda>a b. ll_ts a < ll_ts b) ls" "\<forall>l \<in> set ls. ll_cid l = cid"
    and "hm_get (bs_checkpoints s) cid = Some (ts, hash)"
    and "\<forall>l \<in> set ls. ll_ts l = ts \<longrightarrow> hash_line h l = hash"
  shows "bs_lines (accept_all h ls s) = bs_lines s @ filter (\<lambda>l. ts < ll_ts l) ls"
  using assms
proof (induction ls arbitrary: s ts hash)
  case Nil
  then show ?case by (simp add: accept_all_def)
next
  case (Cons l ls)
  show ?case
  proof (cases "ts < ll_ts l")
    case False
    then have "accept_line h l s = None"
      using Cons.prems(2-4) by (auto simp: accept_line_def Let_def)
    then show ?thesis using Cons False by (simp add: accept_all_Cons)
  next
    case True
    then have a: "accept_line h l s = Some \<lparr>bs_lines = bs_lines s @ [l],
        bs_checkpoints = hm_insert cid (ll_ts l, hash_line h l) (bs_checkpoints s)\<rparr>"
      using Cons.prems(2,3) by (simp add: accept_line_def Let_def)
    have later: "\<forall>x \<in> set ls. ll_ts l < ll_ts x" using Cons.prems(1) by simp
    then have "filter (\<lambda>x. ll_ts l < ll_ts x) ls = ls" "filter (\<lambda>x. ts < ll_ts x) ls = ls"
      using True by (auto simp: filter_id_conv)
    moreover have "bs_lines (accept_all h ls \<lparr>bs_lines = bs_lines s @ [l],
        bs_checkpoints = hm_insert cid (ll_ts l, hash_line h l) (bs_checkpoints s)\<rparr>)
      = (bs_lines s @ [l]) @ filter (\<lambda>x. ll_ts l < ll_ts x) ls"
      using Cons.IH [of "\<lparr>bs_lines = bs_lines s @ [l],
        bs_checkpoints = hm_insert cid (ll_ts l, hash_line h l) (bs_checkpoints s)\<rparr>" "ll_ts l" "hash_line h l"]
        Cons.prems(1,2) later by fastforce
    ultimately show ?thesis using True by (simp add: accept_all_Cons a)
  qed
qed



section \<open>The log channel and the samples\<close>

definition log_channel_inv :: "docker_service \<Rightarrow> bool" where
  "log_channel_inv sv \<longleftrightarrow> length (dk_log_queue sv) \<le> dk_log_capacity sv \<and> dk_pressure sv \<le> 100000"

text \<open>
  The log channel never holds more than its capacity, delivers in order, and the pressure that is
  reported lies between 0 and 100 per cent, with 100 whenever a line filled the channel.
\<close>

theorem log_channel_bounded:
  assumes "log_channel_inv sv" "send_log_line line sv = SendDone sv'"
  shows "log_channel_inv sv' \<and> dk_log_queue sv' = dk_log_queue sv @ [line] \<and>
    (length (dk_log_queue sv') = dk_log_capacity sv' \<longrightarrow> dk_pressure sv' = 100000)"
proof -
  have cap: "length (dk_log_queue sv) < dk_log_capacity sv"
    and sv': "sv' = sv\<lparr>dk_log_queue := dk_log_queue sv @ [line],
      dk_pressure := max (dk_pressure sv)
        (channel_pressure_pct_mill (Suc (length (dk_log_queue sv))) (dk_log_capacity sv))\<rparr>"
    using assms(2) by (auto simp: send_log_line_def Let_def split: if_splits)
  have "channel_pressure_pct_mill d m \<le> 100000" if "d \<le> m" for d m
    using that div_le_mono [of "d * 100000" "m * 100000" m]
    by (auto simp: channel_pressure_pct_mill_def)
  then have "channel_pressure_pct_mill (Suc (length (dk_log_queue sv))) (dk_log_capacity sv) \<le> 100000"
    using cap by simp
  then show ?thesis
    using assms(1) cap by (auto simp: sv' log_channel_inv_def channel_pressure_pct_mill_def)
qed


theorem log_channel_bounded_witness:
  "\<exists>sv'. send_log_line (hello_line 5) (docker_service_new ControlsAuto 1 1 (registry_empty, empty_metadata) 4) =
      SendDone sv' \<and> dk_pressure sv' = 100000"
proof -
  let ?sv = "docker_service_new ControlsAuto 1 1 (registry_empty, empty_metadata) 4"
  have inv: "log_channel_inv ?sv" by (simp add: log_channel_inv_def docker_service_new_def)
  obtain sv' where s: "send_log_line (hello_line 5) ?sv = SendDone sv'" and c: "dk_log_capacity sv' = 1"
    "dk_log_queue ?sv = []"
    by (auto simp: send_log_line_def docker_service_new_def Let_def)
  from log_channel_bounded [OF inv s] s c show ?thesis by simp
qed

text \<open>
  All samples of a round carry the time at which the round began, and each belongs to a container
  that was observed then.
\<close>

lemma sample_all_elem:
  "sample_all ts now stats_of cs meta = (meta', ss) \<Longrightarrow> s \<in> set ss \<Longrightarrow>
    cr_ts s = ts \<and> (\<exists>c \<in> set cs. \<exists>st. sample_container_stats now (oc_full_id c) (stats_of (oc_full_id c)) = Inr st
      \<and> cr_cid s = st_cid st)"
proof (induction cs arbitrary: meta ss meta')
  case (Cons c cs)
  obtain meta1 x where one: "sample_one ts now stats_of c meta = (meta1, x)" by fastforce
  obtain meta2 ys where rest: "sample_all ts now stats_of cs meta1 = (meta2, ys)" by fastforce
  have ss: "ss = option_list x @ ys" using Cons.prems(1) by (simp add: one rest)
  show ?case
  proof (cases "s \<in> set ys")
    case True
    then show ?thesis using Cons.IH [OF rest] by auto
  next
    case False
    then have "x = Some s" using Cons.prems(2) by (auto simp: ss option_list_def split: option.splits)
    then show ?thesis
      using one by (auto simp: sample_one_def split: prod.splits sum.splits)
  qed
qed simp

lemma sample_round_batch:
  assumes "dk_sample_queue (sample_round clock stats_of order sv) = dk_sample_queue sv @ [ss]" "s \<in> set ss"
  shows "clock = Some (cr_ts s)"
proof -
  obtain running ts where r: "observed_containers (dk_registry sv) = Inr running" "clock = Some ts"
    using assms(1) by (auto simp: sample_round_def split: if_splits sum.splits option.splits)
  obtain meta all where a: "sample_all ts clock stats_of (completed order running) (dk_meta sv) = (meta, all)"
    by fastforce
  then have "ss = all"
    using assms(1) r by (auto simp: sample_round_def Let_def split: if_splits)
  then show ?thesis using sample_all_elem [OF a] assms(2) r(2) by simp
qed

end
