(* ===== verification/Config.thy ===== *)
theory Config
  imports Docker_Control
begin

text \<open>
  \<open>config.rs\<close>: the settings read from the environment and their listing. The environment maps a
  variable to its bytes; a panic of the start-up is an error value with the key and the offending
  input. Numbers are words of the width of their field (\<open>usize\<close> has 64 bits), durations are kept in
  milliseconds.
\<close>

type_synonym u16 = "16 word"
type_synonym environment = "string \<Rightarrow> string option"

section \<open>Reading a variable\<close>

text \<open>\<open>env::var\<close> fails for a missing variable and for one that is not UTF-8.\<close>

fun valid_utf8 :: "string \<Rightarrow> bool" where
  "valid_utf8 [] = True"
| "valid_utf8 (c # cs) =
     (let (n, ok) = utf8_seq (byte_of c) cs in ok \<and> valid_utf8 (drop (n - 1) cs))"

definition env_var :: "environment \<Rightarrow> string \<Rightarrow> string option" where
  "env_var env key = option_filter valid_utf8 (env key)"

datatype config_panic =
    NotValid string string
  | NotPositive string nat
  | AboveMax string nat nat
  | NotPercent string nat

type_synonym 'a configured = "config_panic + 'a"

definition env_or :: "environment \<Rightarrow> string \<Rightarrow> string \<Rightarrow> string" where
  "env_or env key fallback = (case env_var env key of None \<Rightarrow> fallback | Some v \<Rightarrow> v)"

definition parse_or :: "(string \<Rightarrow> 'a option) \<Rightarrow> environment \<Rightarrow> string \<Rightarrow> 'a \<Rightarrow> 'a configured" where
  "parse_or from_str env key fallback =
     (case env_var env key of
        None \<Rightarrow> Inr fallback
      | Some v \<Rightarrow> (case from_str v of None \<Rightarrow> Inl (NotValid key v) | Some x \<Rightarrow> Inr x))"

text \<open>\<open>FromStr\<close> of the unsigned integers and of the mode; \<open>Display\<close> of both.\<close>

definition parse_uint :: "string \<Rightarrow> 'w::len word option" where
  "parse_uint s = map_option of_nat (parse_nat (2 ^ LENGTH('w)) s)"

definition display_uint :: "'w::len word \<Rightarrow> string" where
  "display_uint w = nat_to_string (unat w)"

definition parse_controls_mode :: "string \<Rightarrow> controls_mode option" where
  "parse_controls_mode v =
     (let l = to_ascii_lowercase v in
      if l = ''auto'' then Some ControlsAuto
      else if l \<in> {''enabled'', ''true'', ''on''} then Some ControlsEnabled
      else if l \<in> {''disabled'', ''false'', ''off''} then Some ControlsDisabled
      else None)"

fun display_controls_mode :: "controls_mode \<Rightarrow> string" where
  "display_controls_mode ControlsAuto = ''auto''"
| "display_controls_mode ControlsEnabled = ''enabled''"
| "display_controls_mode ControlsDisabled = ''disabled''"

text \<open>The checked readers; each assertion that fails is a panic.\<close>

definition assert_positive :: "string \<Rightarrow> 'w::len word \<Rightarrow> 'w word configured" where
  "assert_positive key parsed =
     (if parsed > 0 then Inr parsed else Inl (NotPositive key (unat parsed)))"

definition parse_positive_u64_or :: "environment \<Rightarrow> string \<Rightarrow> u64 \<Rightarrow> u64 configured" where
  "parse_positive_u64_or env key fallback =
     and_then (parse_or parse_uint env key fallback) (assert_positive key)"

definition parse_bounded_u64_or :: "environment \<Rightarrow> string \<Rightarrow> u64 \<Rightarrow> u64 \<Rightarrow> u64 configured" where
  "parse_bounded_u64_or env key fallback max_value =
     and_then (parse_positive_u64_or env key fallback)
       (\<lambda>parsed. if parsed \<le> max_value then Inr parsed
                  else Inl (AboveMax key (unat parsed) (unat max_value)))"

definition parse_percent_or :: "environment \<Rightarrow> string \<Rightarrow> u8 \<Rightarrow> u8 configured" where
  "parse_percent_or env key fallback =
     and_then (parse_or parse_uint env key fallback)
       (\<lambda>parsed. if parsed \<le> 100 then Inr parsed else Inl (NotPercent key (unat parsed)))"

definition parse_positive_usize_or :: "environment \<Rightarrow> string \<Rightarrow> u64 \<Rightarrow> u64 configured" where
  "parse_positive_usize_or env key fallback =
     and_then (parse_or parse_uint env key fallback) (assert_positive key)"

definition parse_positive_u16_or :: "environment \<Rightarrow> string \<Rightarrow> u16 \<Rightarrow> u16 configured" where
  "parse_positive_u16_or env key fallback =
     and_then (parse_or parse_uint env key fallback) (assert_positive key)"

section \<open>The variables and their defaults\<close>

definition env_docker_host :: string where "env_docker_host = ''VPSINER_DOCKER_HOST''"
definition env_docker_timeout_secs :: string where "env_docker_timeout_secs = ''VPSINER_DOCKER_TIMEOUT_SECS''"
definition env_docker_request_timeout_secs :: string where
  "env_docker_request_timeout_secs = ''VPSINER_DOCKER_REQUEST_TIMEOUT_SECS''"
definition env_data_path :: string where "env_data_path = ''VPSINER_DATA_PATH''"
definition env_config_path :: string where "env_config_path = ''VPSINER_CONFIG_PATH''"
definition env_static_dir :: string where "env_static_dir = ''VPSINER_STATIC_DIR''"
definition env_port :: string where "env_port = ''VPSINER_PORT''"
definition env_retention_weeks :: string where "env_retention_weeks = ''VPSINER_RETENTION_WEEKS''"
definition env_collect_interval_secs :: string where
  "env_collect_interval_secs = ''VPSINER_COLLECT_INTERVAL_SECS''"
definition env_log_flush_debounce_ms :: string where
  "env_log_flush_debounce_ms = ''VPSINER_LOG_FLUSH_DEBOUNCE_MS''"
definition env_log_flush_keep_alive_secs :: string where
  "env_log_flush_keep_alive_secs = ''VPSINER_LOG_FLUSH_KEEP_ALIVE_SECS''"
definition env_log_max_buffered_lines :: string where
  "env_log_max_buffered_lines = ''VPSINER_LOG_MAX_BUFFERED_LINES''"
definition env_docker_controls :: string where "env_docker_controls = ''VPSINER_DOCKER_CONTROLS''"
definition env_docker_probe_interval_secs :: string where
  "env_docker_probe_interval_secs = ''VPSINER_DOCKER_PROBE_INTERVAL_SECS''"
definition env_docker_retry_secs :: string where "env_docker_retry_secs = ''VPSINER_DOCKER_RETRY_SECS''"
definition env_docker_request_concurrency :: string where
  "env_docker_request_concurrency = ''VPSINER_DOCKER_REQUEST_CONCURRENCY''"
definition env_docker_debounce_ms :: string where "env_docker_debounce_ms = ''VPSINER_DOCKER_DEBOUNCE_MS''"
definition env_log_channel_capacity :: string where
  "env_log_channel_capacity = ''VPSINER_LOG_CHANNEL_CAPACITY''"
definition env_samples_channel_capacity :: string where
  "env_samples_channel_capacity = ''VPSINER_SAMPLES_CHANNEL_CAPACITY''"
definition env_docker_events_channel_capacity :: string where
  "env_docker_events_channel_capacity = ''VPSINER_DOCKER_EVENTS_CHANNEL_CAPACITY''"
definition env_sqlite_cache_size_kb :: string where
  "env_sqlite_cache_size_kb = ''VPSINER_SQLITE_CACHE_SIZE_KB''"
definition env_sqlite_busy_timeout_ms :: string where
  "env_sqlite_busy_timeout_ms = ''VPSINER_SQLITE_BUSY_TIMEOUT_MS''"
definition env_sqlite_keep_alive_secs :: string where
  "env_sqlite_keep_alive_secs = ''VPSINER_SQLITE_KEEP_ALIVE_SECS''"
definition env_downsample_max_gap_pct :: string where
  "env_downsample_max_gap_pct = ''VPSINER_DOWNSAMPLE_MAX_GAP_PCT''"
definition env_worker_threads :: string where "env_worker_threads = ''VPSINER_WORKER_THREADS''"
definition env_rust_log :: string where "env_rust_log = ''RUST_LOG''"

definition default_rust_log :: string where "default_rust_log = ''info''"
definition default_docker_host :: string where "default_docker_host = ''unix:///var/run/docker.sock''"
definition default_docker_timeout_secs :: u64 where "default_docker_timeout_secs = 60"
definition default_docker_request_timeout_secs :: u64 where "default_docker_request_timeout_secs = 5"
definition default_data_path :: string where "default_data_path = ''data''"
definition default_config_path :: string where "default_config_path = ''config''"
definition default_port :: u16 where "default_port = 3000"
definition default_retention_weeks :: u32 where "default_retention_weeks = 4"
definition default_collect_interval_secs :: u64 where "default_collect_interval_secs = 5"
definition max_collect_interval_secs :: u64 where "max_collect_interval_secs = 10"
definition default_log_flush_debounce_ms :: u64 where "default_log_flush_debounce_ms = 500"
definition default_log_flush_keep_alive_secs :: u64 where "default_log_flush_keep_alive_secs = 60"
definition default_log_max_buffered_lines :: u64 where "default_log_max_buffered_lines = 100"
definition default_docker_controls :: controls_mode where "default_docker_controls = ControlsAuto"
definition default_docker_probe_interval_secs :: u64 where "default_docker_probe_interval_secs = 15"
definition default_docker_retry_secs :: u64 where "default_docker_retry_secs = 5"
definition default_docker_request_concurrency :: u64 where "default_docker_request_concurrency = 8"
definition default_docker_debounce_ms :: u64 where "default_docker_debounce_ms = 1000"
definition default_log_channel_capacity :: u64 where "default_log_channel_capacity = 1000"
definition default_samples_channel_capacity :: u64 where "default_samples_channel_capacity = 32"
definition default_docker_events_channel_capacity :: u64 where
  "default_docker_events_channel_capacity = 256"
definition default_sqlite_cache_size_kb :: u64 where "default_sqlite_cache_size_kb = 1024"
definition default_sqlite_busy_timeout_ms :: u64 where "default_sqlite_busy_timeout_ms = 5000"
definition default_sqlite_keep_alive_secs :: u64 where "default_sqlite_keep_alive_secs = 300"
definition default_downsample_max_gap_pct :: u8 where "default_downsample_max_gap_pct = 40"
definition default_worker_threads :: u64 where "default_worker_threads = 2"

section \<open>The configuration\<close>

record config =
  docker_host :: string
  docker_timeout_secs :: u64
  docker_request_timeout_secs :: u64
  data_path :: string
  config_path :: string
  static_dir :: "string option"
  port :: u16
  retention_weeks :: u32
  collect_interval :: nat
  log_flush_debounce :: nat
  log_flush_keep_alive :: nat
  log_max_buffered_lines :: u64
  docker_controls_mode :: controls_mode
  docker_probe_interval :: nat
  docker_retry_delay :: nat
  docker_request_concurrency :: u64
  docker_debounce :: nat
  log_channel_capacity :: u64
  samples_channel_capacity :: u64
  docker_events_channel_capacity :: u64
  sqlite_cache_size_kb :: u64
  sqlite_busy_timeout :: nat
  sqlite_keep_alive :: nat
  downsample_max_gap_pct :: u8

definition from_secs :: "u64 \<Rightarrow> nat" where "from_secs s = 1000 * unat s"
definition from_millis :: "u64 \<Rightarrow> nat" where "from_millis m = unat m"
definition as_secs :: "nat \<Rightarrow> nat" where "as_secs d = d div 1000"

text \<open>\<open>Config::from_env\<close>: the fields in their order, so the first variable that fails panics.\<close>

definition from_env :: "environment \<Rightarrow> config configured" where
  "from_env env =
     and_then (parse_positive_u64_or env env_docker_timeout_secs default_docker_timeout_secs) (\<lambda>timeout.
     and_then (parse_positive_u64_or env env_docker_request_timeout_secs default_docker_request_timeout_secs)
       (\<lambda>request_timeout.
     and_then (parse_positive_u16_or env env_port default_port) (\<lambda>p.
     and_then (parse_or parse_uint env env_retention_weeks default_retention_weeks) (\<lambda>weeks.
     and_then (parse_bounded_u64_or env env_collect_interval_secs default_collect_interval_secs
         max_collect_interval_secs) (\<lambda>interval.
     and_then (parse_or parse_uint env env_log_flush_debounce_ms default_log_flush_debounce_ms) (\<lambda>debounce.
     and_then (parse_positive_u64_or env env_log_flush_keep_alive_secs default_log_flush_keep_alive_secs)
       (\<lambda>flush_keep_alive.
     and_then (parse_positive_usize_or env env_log_max_buffered_lines default_log_max_buffered_lines)
       (\<lambda>max_lines.
     and_then (parse_or parse_controls_mode env env_docker_controls default_docker_controls) (\<lambda>controls.
     and_then (parse_positive_u64_or env env_docker_probe_interval_secs default_docker_probe_interval_secs)
       (\<lambda>probe.
     and_then (parse_positive_u64_or env env_docker_retry_secs default_docker_retry_secs) (\<lambda>retry.
     and_then (parse_positive_usize_or env env_docker_request_concurrency default_docker_request_concurrency)
       (\<lambda>concurrency.
     and_then (parse_or parse_uint env env_docker_debounce_ms default_docker_debounce_ms) (\<lambda>docker_delay.
     and_then (parse_positive_usize_or env env_log_channel_capacity default_log_channel_capacity)
       (\<lambda>log_capacity.
     and_then (parse_positive_usize_or env env_samples_channel_capacity default_samples_channel_capacity)
       (\<lambda>samples_capacity.
     and_then (parse_positive_usize_or env env_docker_events_channel_capacity
         default_docker_events_channel_capacity) (\<lambda>events_capacity.
     and_then (parse_positive_u64_or env env_sqlite_cache_size_kb default_sqlite_cache_size_kb) (\<lambda>cache.
     and_then (parse_positive_u64_or env env_sqlite_busy_timeout_ms default_sqlite_busy_timeout_ms) (\<lambda>busy.
     and_then (parse_positive_u64_or env env_sqlite_keep_alive_secs default_sqlite_keep_alive_secs)
       (\<lambda>keep_alive.
     and_then (parse_percent_or env env_downsample_max_gap_pct default_downsample_max_gap_pct) (\<lambda>gap.
       Inr \<lparr> docker_host = env_or env env_docker_host default_docker_host,
             docker_timeout_secs = timeout,
             docker_request_timeout_secs = request_timeout,
             data_path = env_or env env_data_path default_data_path,
             config_path = env_or env env_config_path default_config_path,
             static_dir = env env_static_dir,
             port = p,
             retention_weeks = weeks,
             collect_interval = from_secs interval,
             log_flush_debounce = from_millis debounce,
             log_flush_keep_alive = from_secs flush_keep_alive,
             log_max_buffered_lines = max_lines,
             docker_controls_mode = controls,
             docker_probe_interval = from_secs probe,
             docker_retry_delay = from_secs retry,
             docker_request_concurrency = concurrency,
             docker_debounce = from_millis docker_delay,
             log_channel_capacity = log_capacity,
             samples_channel_capacity = samples_capacity,
             docker_events_channel_capacity = events_capacity,
             sqlite_cache_size_kb = cache,
             sqlite_busy_timeout = from_millis busy,
             sqlite_keep_alive = from_secs keep_alive,
             downsample_max_gap_pct = gap \<rparr>))))))))))))))))))))"

definition worker_thread_limit_from_env :: "environment \<Rightarrow> u64 configured" where
  "worker_thread_limit_from_env env = parse_positive_usize_or env env_worker_threads default_worker_threads"

definition rust_log_filter_from_env :: "environment \<Rightarrow> string" where
  "rust_log_filter_from_env env = env_or env env_rust_log default_rust_log"

section \<open>The listing of the settings\<close>

record setting_entry =
  se_name :: string
  se_value :: string
  se_default :: string
  se_description :: string
  se_category :: string
  se_overridden :: bool

definition setting :: "environment \<Rightarrow> string \<Rightarrow> string \<Rightarrow> string \<Rightarrow> string \<Rightarrow> string \<Rightarrow> setting_entry" where
  "setting env name v fallback description category =
     \<lparr> se_name = name, se_value = v, se_default = fallback, se_description = description,
       se_category = category, se_overridden = (env name \<noteq> None) \<rparr>"

text \<open>\<open>Path::display\<close> replaces what is not UTF-8.\<close>

definition path_display :: "string \<Rightarrow> string" where
  "path_display p = from_utf8_lossy p"

definition display_secs :: "nat \<Rightarrow> string" where
  "display_secs d = nat_to_string (as_secs d)"

definition display_millis :: "nat \<Rightarrow> string" where
  "display_millis d = nat_to_string d"

text \<open>\<open>Config::describe\<close>, whose list is written in two parts.\<close>

definition describe_first :: "environment \<Rightarrow> config \<Rightarrow> setting_entry list" where
  "describe_first env cfg =
     [
      setting env env_docker_host
        (docker_host cfg) default_docker_host
        ''Docker socket or socket-proxy endpoint, for example http://docker-proxy:2375'' ''common'',
      setting env env_retention_weeks
        (display_uint (retention_weeks cfg)) (display_uint default_retention_weeks)
        ''Number of weeks of metrics and logs to retain'' ''common'',
      setting env env_docker_controls
        (display_controls_mode (docker_controls_mode cfg)) (display_controls_mode default_docker_controls)
        ''Container controls mode: auto, enabled, or disabled'' ''common'',
      setting env env_port
        (display_uint (port cfg)) (display_uint default_port)
        ''HTTP listen port inside the container'' ''common'',
      setting env env_worker_threads
        (case env_var env env_worker_threads of Some v \<Rightarrow> v | None \<Rightarrow> display_uint default_worker_threads) (display_uint default_worker_threads)
        ''Maximum Tokio runtime worker-thread count; actual allocation is capped by available CPU parallelism'' ''advanced'',
      setting env env_data_path
        (path_display (data_path cfg)) default_data_path
        ''Directory containing metrics and log databases'' ''advanced'',
      setting env env_config_path
        (path_display (config_path cfg)) default_config_path
        ''Directory containing UI configuration (ui.json)'' ''advanced'',
      setting env env_collect_interval_secs
        (display_secs (collect_interval cfg)) (display_uint default_collect_interval_secs)
        ''Host and container metrics collection interval, at most 10 seconds'' ''advanced'',
      setting env env_log_flush_debounce_ms
        (display_millis (log_flush_debounce cfg)) (display_uint default_log_flush_debounce_ms)
        ''Delay used to coalesce buffered log lines per service before writing them to storage'' ''advanced'',
      setting env env_log_flush_keep_alive_secs
        (display_secs (log_flush_keep_alive cfg)) (display_uint default_log_flush_keep_alive_secs)
        ''How long an idle per-service log flush worker stays alive before exiting'' ''advanced'',
      setting env env_log_max_buffered_lines
        (display_uint (log_max_buffered_lines cfg)) (display_uint default_log_max_buffered_lines)
        ''Per-service buffered log lines allowed before ingestion blocks on a write'' ''advanced'',
      setting env env_log_channel_capacity
        (display_uint (log_channel_capacity cfg)) (display_uint default_log_channel_capacity)
        ''Maximum number of log lines buffered before backpressure'' ''advanced'',
      setting env env_samples_channel_capacity
        (display_uint (samples_channel_capacity cfg)) (display_uint default_samples_channel_capacity)
        ''Maximum number of container sample batches buffered before backpressure'' ''advanced''
     ]"

definition describe_rest :: "environment \<Rightarrow> config \<Rightarrow> setting_entry list" where
  "describe_rest env cfg =
     [
      setting env env_docker_probe_interval_secs
        (display_secs (docker_probe_interval cfg)) (display_uint default_docker_probe_interval_secs)
        ''Interval for Docker connection and write-capability probing, log observer fallback reconciliation, and registry refresh workers'' ''advanced'',
      setting env env_docker_retry_secs
        (display_secs (docker_retry_delay cfg)) (display_uint default_docker_retry_secs)
        ''Delay before retrying the Docker container event observer after its stream ends or fails'' ''advanced'',
      setting env env_docker_request_concurrency
        (display_uint (docker_request_concurrency cfg)) (display_uint default_docker_request_concurrency)
        ''Maximum number of concurrent Docker inspect and stats requests'' ''advanced'',
      setting env env_docker_events_channel_capacity
        (display_uint (docker_events_channel_capacity cfg)) (display_uint default_docker_events_channel_capacity)
        ''Maximum number of container observe events buffered before new events are dropped'' ''advanced'',
      setting env env_docker_debounce_ms
        (display_millis (docker_debounce cfg)) (display_uint default_docker_debounce_ms)
        ''Delay used to coalesce container observation and container info refresh requests'' ''advanced'',
      setting env env_docker_timeout_secs
        (display_uint (docker_timeout_secs cfg)) (display_uint default_docker_timeout_secs)
        ''Internal timeout for Docker API requests'' ''advanced'',
      setting env env_docker_request_timeout_secs
        (display_uint (docker_request_timeout_secs cfg)) (display_uint default_docker_request_timeout_secs)
        ''Timeout for fetch requests'' ''advanced'',
      setting env env_sqlite_cache_size_kb
        (display_uint (sqlite_cache_size_kb cfg)) (display_uint default_sqlite_cache_size_kb)
        ''Page cache limit in KiB for each SQLite database connection'' ''advanced'',
      setting env env_sqlite_busy_timeout_ms
        (display_millis (sqlite_busy_timeout cfg)) (display_uint default_sqlite_busy_timeout_ms)
        ''How long SQLite waits for a locked database before failing'' ''advanced'',
      setting env env_sqlite_keep_alive_secs
        (display_secs (sqlite_keep_alive cfg)) (display_uint default_sqlite_keep_alive_secs)
        ''How long an idle log database connection is kept open before it is closed'' ''advanced'',
      setting env env_downsample_max_gap_pct
        (display_uint (downsample_max_gap_pct cfg)) (display_uint default_downsample_max_gap_pct)
        ''Discard a rolled-up 1m/5m/1h bucket (0-100) if its largest sample gap exceeds this percentage of the bucket length'' ''advanced'',
      setting env env_static_dir
        (case static_dir cfg of None \<Rightarrow> [] | Some p \<Rightarrow> path_display p) []
        ''Directory from which the backend serves the frontend'' ''advanced'',
      setting env env_rust_log
        (env_or env env_rust_log default_rust_log) default_rust_log
        ''Backend log filter, such as debug or vpsiner=debug'' ''common''
     ]"

definition describe :: "environment \<Rightarrow> config \<Rightarrow> setting_entry list" where
  "describe env cfg = describe_first env cfg @ describe_rest env cfg"


section \<open>Facts on the readers\<close>

lemma and_then_Inr_iff: "and_then r f = Inr y \<longleftrightarrow> (\<exists>x. r = Inr x \<and> f x = Inr y)"
  by (cases r) auto

lemma parse_uint_display [simp]: "parse_uint (display_uint w) = Some w"
  by (simp add: parse_uint_def display_uint_def parse_nat_to_string)

lemma parse_uint_nat: "n = unat w \<Longrightarrow> parse_uint (nat_to_string n) = Some w"
  using parse_uint_display [of w] by (simp add: display_uint_def)

lemma parse_display_controls_mode [simp]: "parse_controls_mode (display_controls_mode m) = Some m"
  by (cases m) (simp_all add: parse_controls_mode_def to_ascii_lowercase_def byte_of_def)

lemma valid_utf8_ascii: "list_all (\<lambda>c. byte_of c < 128) s \<Longrightarrow> valid_utf8 s"
  by (induction s) (simp_all add: utf8_seq_def)

lemma valid_utf8_number [simp]: "valid_utf8 (nat_to_string n)"
  using nat_to_string_digits [of n]
  by (intro valid_utf8_ascii) (auto simp: list_all_iff is_ascii_digit_def)

lemma valid_utf8_display [simp]: "valid_utf8 (display_uint w)" "valid_utf8 (display_controls_mode m)"
  by (simp add: display_uint_def) (cases m; simp add: utf8_seq_def byte_of_def)

lemma valid_utf8_lossy: "valid_utf8 s \<Longrightarrow> from_utf8_lossy s = s"
  by (induction s rule: valid_utf8.induct) (auto simp: Let_def split: prod.splits)

text \<open>What a reader accepts, and that it reads its own result back from any other environment.\<close>

lemma parse_or_result:
  "parse_or from_str env key d = Inr x \<longleftrightarrow>
     (case env_var env key of None \<Rightarrow> x = d | Some v \<Rightarrow> from_str v = Some x)"
  by (auto simp: parse_or_def split: option.splits)

lemma parse_or_reads: "env_var env key = Some v \<Longrightarrow> from_str v = Some x \<Longrightarrow> parse_or from_str env key d = Inr x"
  by (simp add: parse_or_def)

lemma positive_result:
  "parse_positive_u64_or env key d = Inr x \<longleftrightarrow> parse_or parse_uint env key d = Inr x \<and> 0 < x"
  "parse_positive_usize_or env key d = Inr x \<longleftrightarrow> parse_or parse_uint env key d = Inr x \<and> 0 < x"
  "parse_positive_u16_or env key e = Inr y \<longleftrightarrow> parse_or parse_uint env key e = Inr y \<and> 0 < y"
  by (auto simp: parse_positive_u64_or_def parse_positive_usize_or_def parse_positive_u16_or_def
      assert_positive_def and_then_Inr_iff split: if_splits)

lemma bounded_result:
  "parse_bounded_u64_or env key d m = Inr x \<longleftrightarrow> parse_or parse_uint env key d = Inr x \<and> 0 < x \<and> x \<le> m"
  "parse_percent_or env key p = Inr y \<longleftrightarrow> parse_or parse_uint env key p = Inr y \<and> y \<le> 100"
  by (auto simp: parse_bounded_u64_or_def parse_percent_or_def positive_result and_then_Inr_iff
      split: if_splits)

lemmas reader_results = positive_result bounded_result

text \<open>The configuration that the variables give, as one equation per field.\<close>

lemma from_env_Inr_iff:
  "from_env env = Inr cfg \<longleftrightarrow>
     docker_host cfg = env_or env env_docker_host default_docker_host \<and>
     parse_positive_u64_or env env_docker_timeout_secs default_docker_timeout_secs = Inr (docker_timeout_secs cfg) \<and>
     parse_positive_u64_or env env_docker_request_timeout_secs default_docker_request_timeout_secs
       = Inr (docker_request_timeout_secs cfg) \<and>
     data_path cfg = env_or env env_data_path default_data_path \<and>
     config_path cfg = env_or env env_config_path default_config_path \<and>
     static_dir cfg = env env_static_dir \<and>
     parse_positive_u16_or env env_port default_port = Inr (port cfg) \<and>
     parse_or parse_uint env env_retention_weeks default_retention_weeks = Inr (retention_weeks cfg) \<and>
     (\<exists>s. parse_bounded_u64_or env env_collect_interval_secs default_collect_interval_secs
        max_collect_interval_secs = Inr s \<and> collect_interval cfg = from_secs s) \<and>
     (\<exists>m. parse_or parse_uint env env_log_flush_debounce_ms default_log_flush_debounce_ms = Inr m \<and>
        log_flush_debounce cfg = from_millis m) \<and>
     (\<exists>s. parse_positive_u64_or env env_log_flush_keep_alive_secs default_log_flush_keep_alive_secs = Inr s \<and>
        log_flush_keep_alive cfg = from_secs s) \<and>
     parse_positive_usize_or env env_log_max_buffered_lines default_log_max_buffered_lines
       = Inr (log_max_buffered_lines cfg) \<and>
     parse_or parse_controls_mode env env_docker_controls default_docker_controls
       = Inr (docker_controls_mode cfg) \<and>
     (\<exists>s. parse_positive_u64_or env env_docker_probe_interval_secs default_docker_probe_interval_secs = Inr s \<and>
        docker_probe_interval cfg = from_secs s) \<and>
     (\<exists>s. parse_positive_u64_or env env_docker_retry_secs default_docker_retry_secs = Inr s \<and>
        docker_retry_delay cfg = from_secs s) \<and>
     parse_positive_usize_or env env_docker_request_concurrency default_docker_request_concurrency
       = Inr (docker_request_concurrency cfg) \<and>
     (\<exists>m. parse_or parse_uint env env_docker_debounce_ms default_docker_debounce_ms = Inr m \<and>
        docker_debounce cfg = from_millis m) \<and>
     parse_positive_usize_or env env_log_channel_capacity default_log_channel_capacity
       = Inr (log_channel_capacity cfg) \<and>
     parse_positive_usize_or env env_samples_channel_capacity default_samples_channel_capacity
       = Inr (samples_channel_capacity cfg) \<and>
     parse_positive_usize_or env env_docker_events_channel_capacity default_docker_events_channel_capacity
       = Inr (docker_events_channel_capacity cfg) \<and>
     parse_positive_u64_or env env_sqlite_cache_size_kb default_sqlite_cache_size_kb
       = Inr (sqlite_cache_size_kb cfg) \<and>
     (\<exists>m. parse_positive_u64_or env env_sqlite_busy_timeout_ms default_sqlite_busy_timeout_ms = Inr m \<and>
        sqlite_busy_timeout cfg = from_millis m) \<and>
     (\<exists>s. parse_positive_u64_or env env_sqlite_keep_alive_secs default_sqlite_keep_alive_secs = Inr s \<and>
        sqlite_keep_alive cfg = from_secs s) \<and>
     parse_percent_or env env_downsample_max_gap_pct default_downsample_max_gap_pct
       = Inr (downsample_max_gap_pct cfg)"
  by (cases cfg) (simp add: from_env_def and_then_Inr_iff, blast)


section \<open>The names\<close>

lemmas env_names = env_docker_host_def env_docker_timeout_secs_def env_docker_request_timeout_secs_def
  env_data_path_def env_config_path_def env_static_dir_def env_port_def env_retention_weeks_def
  env_collect_interval_secs_def env_log_flush_debounce_ms_def env_log_flush_keep_alive_secs_def
  env_log_max_buffered_lines_def env_docker_controls_def env_docker_probe_interval_secs_def
  env_docker_retry_secs_def env_docker_request_concurrency_def env_docker_debounce_ms_def
  env_log_channel_capacity_def env_samples_channel_capacity_def env_docker_events_channel_capacity_def
  env_sqlite_cache_size_kb_def env_sqlite_busy_timeout_ms_def env_sqlite_keep_alive_secs_def
  env_downsample_max_gap_pct_def env_worker_threads_def env_rust_log_def

lemma setting_fields [simp]:
  "se_name (setting env n v d t c) = n" "se_value (setting env n v d t c) = v"
  "se_default (setting env n v d t c) = d" "se_description (setting env n v d t c) = t"
  "se_category (setting env n v d t c) = c" "se_overridden (setting env n v d t c) = (env n \<noteq> None)"
  by (simp_all add: setting_def)

lemma describe_names_distinct: "distinct (map se_name (describe env cfg))"
proof -
  have "map se_name (describe env cfg) =
     [env_docker_host, env_retention_weeks, env_docker_controls, env_port, env_worker_threads, env_data_path,
      env_config_path, env_collect_interval_secs, env_log_flush_debounce_ms, env_log_flush_keep_alive_secs,
      env_log_max_buffered_lines, env_log_channel_capacity, env_samples_channel_capacity,
      env_docker_probe_interval_secs, env_docker_retry_secs, env_docker_request_concurrency,
      env_docker_events_channel_capacity, env_docker_debounce_ms, env_docker_timeout_secs,
      env_docker_request_timeout_secs, env_sqlite_cache_size_kb, env_sqlite_busy_timeout_ms,
      env_sqlite_keep_alive_secs, env_downsample_max_gap_pct, env_static_dir, env_rust_log]" (is "_ = ?names")
    by (simp add: describe_def describe_first_def describe_rest_def)
  moreover have "distinct ?names" unfolding env_names by code_simp
  ultimately show ?thesis by simp
qed

text \<open>The environment that sets every variable to its reported value.\<close>

definition reported :: "environment \<Rightarrow> config \<Rightarrow> environment" where
  "reported env cfg = map_of (map (\<lambda>e. (se_name e, se_value e)) (describe env cfg))"

lemma reported_setting:
  assumes "e \<in> set (describe env cfg)" "valid_utf8 (se_value e)"
  shows "reported env cfg (se_name e) = Some (se_value e)" "env_var (reported env cfg) (se_name e) = Some (se_value e)"
proof -
  show r: "reported env cfg (se_name e) = Some (se_value e)"
    using assms(1) describe_names_distinct [of env cfg]
    by (auto simp: reported_def map_of_eq_Some_iff comp_def)
  then show "env_var (reported env cfg) (se_name e) = Some (se_value e)"
    using assms(2) by (simp add: env_var_def option_filter_def)
qed

lemma described:
  "(n, v) \<in> set (map (\<lambda>e. (se_name e, se_value e)) (describe env cfg)) \<Longrightarrow> valid_utf8 v \<Longrightarrow>
     reported env cfg n = Some v"
  "(n, v) \<in> set (map (\<lambda>e. (se_name e, se_value e)) (describe env cfg)) \<Longrightarrow> valid_utf8 v \<Longrightarrow>
     env_var (reported env cfg) n = Some v"
  using reported_setting by auto

lemma env_or_valid: "valid_utf8 d \<Longrightarrow> valid_utf8 (env_or env key d)"
  by (auto simp: env_or_def env_var_def option_filter_def split: option.splits if_splits)


lemmas default_values = default_port_def default_retention_weeks_def default_docker_controls_def
  default_docker_timeout_secs_def default_docker_request_timeout_secs_def default_collect_interval_secs_def
  max_collect_interval_secs_def default_log_flush_debounce_ms_def default_log_flush_keep_alive_secs_def
  default_log_max_buffered_lines_def default_docker_probe_interval_secs_def default_docker_retry_secs_def
  default_docker_request_concurrency_def default_docker_debounce_ms_def default_log_channel_capacity_def
  default_samples_channel_capacity_def default_docker_events_channel_capacity_def
  default_sqlite_cache_size_kb_def default_sqlite_busy_timeout_ms_def default_sqlite_keep_alive_secs_def
  default_downsample_max_gap_pct_def default_worker_threads_def

lemma config_without_variables: "\<exists>cfg. from_env (\<lambda>_. None) = Inr cfg"
proof -
  have "from_env (\<lambda>_. None) = Inr (projr (from_env (\<lambda>_. None)))"
    by (simp add: from_env_def parse_positive_u64_or_def parse_positive_usize_or_def parse_positive_u16_or_def
        parse_bounded_u64_or_def parse_percent_or_def parse_or_def env_var_def option_filter_def
        assert_positive_def default_values)
  then show ?thesis by blast
qed

section \<open>What the configuration guarantees\<close>



definition reads_uint :: "nat \<Rightarrow> (nat \<Rightarrow> bool) \<Rightarrow> string \<Rightarrow> bool" where
  "reads_uint w ok v = (case parse_nat (2 ^ w) v of None \<Rightarrow> False | Some n \<Rightarrow> ok n)"

definition setting_rules :: "(string \<times> (string \<Rightarrow> bool)) list" where
  "setting_rules =
     [(env_docker_timeout_secs, reads_uint 64 (\<lambda>n. 0 < n)),
      (env_docker_request_timeout_secs, reads_uint 64 (\<lambda>n. 0 < n)),
      (env_port, reads_uint 16 (\<lambda>n. 0 < n)),
      (env_retention_weeks, reads_uint 32 (\<lambda>_. True)),
      (env_collect_interval_secs, reads_uint 64 (\<lambda>n. 0 < n \<and> n \<le> 10)),
      (env_log_flush_debounce_ms, reads_uint 64 (\<lambda>_. True)),
      (env_log_flush_keep_alive_secs, reads_uint 64 (\<lambda>n. 0 < n)),
      (env_log_max_buffered_lines, reads_uint 64 (\<lambda>n. 0 < n)),
      (env_docker_controls, \<lambda>v. parse_controls_mode v \<noteq> None),
      (env_docker_probe_interval_secs, reads_uint 64 (\<lambda>n. 0 < n)),
      (env_docker_retry_secs, reads_uint 64 (\<lambda>n. 0 < n)),
      (env_docker_request_concurrency, reads_uint 64 (\<lambda>n. 0 < n)),
      (env_docker_debounce_ms, reads_uint 64 (\<lambda>_. True)),
      (env_log_channel_capacity, reads_uint 64 (\<lambda>n. 0 < n)),
      (env_samples_channel_capacity, reads_uint 64 (\<lambda>n. 0 < n)),
      (env_docker_events_channel_capacity, reads_uint 64 (\<lambda>n. 0 < n)),
      (env_sqlite_cache_size_kb, reads_uint 64 (\<lambda>n. 0 < n)),
      (env_sqlite_busy_timeout_ms, reads_uint 64 (\<lambda>n. 0 < n)),
      (env_sqlite_keep_alive_secs, reads_uint 64 (\<lambda>n. 0 < n)),
      (env_downsample_max_gap_pct, reads_uint 8 (\<lambda>n. n \<le> 100))]"

definition passes :: "environment \<Rightarrow> string \<Rightarrow> (string \<Rightarrow> bool) \<Rightarrow> bool" where
  "passes env key ok = (case env_var env key of None \<Rightarrow> True | Some v \<Rightarrow> ok v)"

lemma parse_nat_less: "parse_nat b v = Some n \<Longrightarrow> n < b"
  by (auto simp: parse_nat_def Let_def split: if_splits)

lemma parse_uint_reads:
  assumes "\<And>n. n < 2 ^ LENGTH('w) \<Longrightarrow> P (of_nat n) \<longleftrightarrow> ok n" "P d"
  shows "(\<exists>x :: 'w::len word. parse_or parse_uint env key d = Inr x \<and> P x) \<longleftrightarrow>
    passes env key (reads_uint LENGTH('w) ok)"
  using assms(1) [OF parse_nat_less] assms(2)
  by (auto simp: parse_or_def parse_uint_def reads_uint_def passes_def split: option.splits)

lemma positive_of_nat: "n < 2 ^ LENGTH('w) \<Longrightarrow> 0 < (of_nat n :: 'w::len word) \<longleftrightarrow> 0 < n"
  by (simp add: word_less_nat_alt unsigned_of_nat take_bit_nat_eq_self)

lemma reader_passes:
  "0 < d \<Longrightarrow> (\<exists>x. parse_positive_u64_or env key d = Inr x) \<longleftrightarrow> passes env key (reads_uint 64 (\<lambda>n. 0 < n))"
  "0 < d \<Longrightarrow> (\<exists>x. parse_positive_usize_or env key d = Inr x) \<longleftrightarrow> passes env key (reads_uint 64 (\<lambda>n. 0 < n))"
  "(\<exists>x. parse_or parse_uint env key d = Inr x) \<longleftrightarrow> passes env key (reads_uint 64 (\<lambda>_. True))"
  for d :: u64
  using parse_uint_reads [where 'w = 64, of "\<lambda>x. 0 < x" "\<lambda>n. 0 < n" d env key, OF positive_of_nat]
    parse_uint_reads [where 'w = 64, of "\<lambda>_. True" "\<lambda>_. True" d env key]
  by (simp_all add: reader_results)

lemma port_passes:
  "0 < d \<Longrightarrow> (\<exists>x. parse_positive_u16_or env key d = Inr x) \<longleftrightarrow> passes env key (reads_uint 16 (\<lambda>n. 0 < n))"
  for d :: u16
  using parse_uint_reads [where 'w = 16, of "\<lambda>x. 0 < x" "\<lambda>n. 0 < n" d env key, OF positive_of_nat]
  by (simp add: reader_results)

lemma interval_passes:
  "0 < d \<Longrightarrow> d \<le> 10 \<Longrightarrow> (\<exists>x. parse_bounded_u64_or env key d 10 = Inr x) \<longleftrightarrow>
     passes env key (reads_uint 64 (\<lambda>n. 0 < n \<and> n \<le> 10))" for d :: u64
proof -
  have "0 < (of_nat n :: u64) \<and> (of_nat n :: u64) \<le> 10 \<longleftrightarrow> 0 < n \<and> n \<le> 10" if "n < 2 ^ LENGTH(64)" for n
    using that by (simp add: word_less_nat_alt word_le_nat_alt unsigned_of_nat take_bit_nat_eq_self)
  from parse_uint_reads [of "\<lambda>x. 0 < x \<and> x \<le> 10", OF this]
  show "0 < d \<Longrightarrow> d \<le> 10 \<Longrightarrow> ?thesis" by (simp add: reader_results)
qed

lemma percent_passes:
  "d \<le> 100 \<Longrightarrow> (\<exists>x. parse_percent_or env key d = Inr x) \<longleftrightarrow> passes env key (reads_uint 8 (\<lambda>n. n \<le> 100))"
  for d :: u8
proof -
  have "(of_nat n :: u8) \<le> 100 \<longleftrightarrow> n \<le> 100" if "n < 2 ^ LENGTH(8)" for n
    using that by (simp add: word_le_nat_alt unsigned_of_nat take_bit_nat_eq_self)
  from parse_uint_reads [of "\<lambda>x. x \<le> 100", OF this]
  show "d \<le> 100 \<Longrightarrow> ?thesis" by (simp add: reader_results)
qed

lemma plain_passes:
  "(\<exists>x. parse_or parse_uint env key w = Inr x) \<longleftrightarrow> passes env key (reads_uint 32 (\<lambda>_. True))"
  "(\<exists>x. parse_or parse_controls_mode env key m = Inr x) \<longleftrightarrow> passes env key (\<lambda>v. parse_controls_mode v \<noteq> None)"
  for w :: u32
  using parse_uint_reads [where 'w = 32, of "\<lambda>_. True" "\<lambda>_. True" w env key]
  by (simp_all add: passes_def parse_or_def split: option.splits)


lemma default_texts [simp]:
  "valid_utf8 default_docker_host" "valid_utf8 default_data_path" "valid_utf8 default_config_path"
  by (simp_all add: default_docker_host_def default_data_path_def default_config_path_def utf8_seq_def byte_of_def)

lemma ex_config:
  "(\<exists>cfg. and_then r f = Inr (cfg :: config)) \<longleftrightarrow> (\<exists>x. r = Inr x \<and> (\<exists>cfg. f x = Inr cfg))"
  by (auto simp: and_then_Inr_iff)

text \<open>
  Start-up accepts an environment exactly when every numeric or mode variable that is set to
  readable text obeys its rule; each other variable, and one that is not UTF-8, never stops it.
\<close>

theorem from_env_starts_iff:
  "(\<exists>cfg. from_env env = Inr cfg) \<longleftrightarrow> (\<forall>(key, ok) \<in> set setting_rules. passes env key ok)"
  unfolding from_env_def ex_config setting_rules_def
  by (simp add: reader_passes port_passes interval_passes percent_passes plain_passes default_values)

theorem from_env_starts_iff_witness:
  "\<not> (\<exists>cfg. from_env [env_port \<mapsto> ''0''] = Inr cfg)"
  unfolding from_env_starts_iff
  by (simp add: setting_rules_def passes_def env_var_def option_filter_def env_port_def reads_uint_def utf8_seq_def
      byte_of_def parse_nat_def is_ascii_digit_def digits_value_def)

lemmas describe_defs = describe_def describe_first_def describe_rest_def

lemma reported_uint:
  "(n, display_uint w) \<in> set (map (\<lambda>e. (se_name e, se_value e)) (describe env cfg)) \<Longrightarrow>
     parse_or parse_uint (reported env cfg) n e = Inr w"
  using described(2) [of n "display_uint w" env cfg, OF _ valid_utf8_display(1)]
  by (simp add: parse_or_def parse_uint_display)

lemma display_duration [simp]:
  "display_secs (from_secs w) = display_uint w" "display_millis (from_millis m) = display_uint m"
  by (simp_all add: display_secs_def as_secs_def from_secs_def display_millis_def from_millis_def display_uint_def)

lemma reported_numbers:
  "parse_or parse_uint (reported env cfg) env_docker_timeout_secs a = Inr (docker_timeout_secs cfg)"
  "parse_or parse_uint (reported env cfg) env_docker_request_timeout_secs b = Inr (docker_request_timeout_secs cfg)"
  "parse_or parse_uint (reported env cfg) env_port p = Inr (port cfg)"
  "parse_or parse_uint (reported env cfg) env_retention_weeks w = Inr (retention_weeks cfg)"
  "parse_or parse_uint (reported env cfg) env_log_max_buffered_lines m = Inr (log_max_buffered_lines cfg)"
  "parse_or parse_uint (reported env cfg) env_docker_request_concurrency n = Inr (docker_request_concurrency cfg)"
  "parse_or parse_uint (reported env cfg) env_log_channel_capacity k = Inr (log_channel_capacity cfg)"
  "parse_or parse_uint (reported env cfg) env_samples_channel_capacity l = Inr (samples_channel_capacity cfg)"
  "parse_or parse_uint (reported env cfg) env_docker_events_channel_capacity q = Inr (docker_events_channel_capacity cfg)"
  "parse_or parse_uint (reported env cfg) env_sqlite_cache_size_kb r = Inr (sqlite_cache_size_kb cfg)"
  "parse_or parse_uint (reported env cfg) env_downsample_max_gap_pct g = Inr (downsample_max_gap_pct cfg)"
  by (rule reported_uint, simp add: describe_defs)+

lemma reported_secs:
  "collect_interval cfg = from_secs s \<Longrightarrow> parse_or parse_uint (reported env cfg) env_collect_interval_secs d = Inr s"
  "log_flush_keep_alive cfg = from_secs s \<Longrightarrow> parse_or parse_uint (reported env cfg) env_log_flush_keep_alive_secs d = Inr s"
  "docker_probe_interval cfg = from_secs s \<Longrightarrow> parse_or parse_uint (reported env cfg) env_docker_probe_interval_secs d = Inr s"
  "docker_retry_delay cfg = from_secs s \<Longrightarrow> parse_or parse_uint (reported env cfg) env_docker_retry_secs d = Inr s"
  "sqlite_keep_alive cfg = from_secs s \<Longrightarrow> parse_or parse_uint (reported env cfg) env_sqlite_keep_alive_secs d = Inr s"
  by (rule reported_uint, simp add: describe_defs)+

lemma reported_millis:
  "log_flush_debounce cfg = from_millis s \<Longrightarrow> parse_or parse_uint (reported env cfg) env_log_flush_debounce_ms d = Inr s"
  "docker_debounce cfg = from_millis s \<Longrightarrow> parse_or parse_uint (reported env cfg) env_docker_debounce_ms d = Inr s"
  "sqlite_busy_timeout cfg = from_millis s \<Longrightarrow> parse_or parse_uint (reported env cfg) env_sqlite_busy_timeout_ms d = Inr s"
  by (rule reported_uint, simp add: describe_defs)+

lemma reported_controls: "parse_or parse_controls_mode (reported env cfg) env_docker_controls d = Inr (docker_controls_mode cfg)"
  by (rule parse_or_reads [OF described(2) [where v = "display_controls_mode (docker_controls_mode cfg)"]])
    (simp_all add: describe_defs)

lemma reported_text:
  "valid_utf8 (docker_host cfg) \<Longrightarrow> env_or (reported env cfg) env_docker_host a = docker_host cfg"
  "valid_utf8 (data_path cfg) \<Longrightarrow> env_or (reported env cfg) env_data_path b = data_path cfg"
  "valid_utf8 (config_path cfg) \<Longrightarrow> env_or (reported env cfg) env_config_path c = config_path cfg"
  using described(2) [of env_docker_host "docker_host cfg" env cfg] described(2) [of env_data_path "data_path cfg" env cfg]
    described(2) [of env_config_path "config_path cfg" env cfg]
  by (simp_all add: env_or_def describe_defs path_display_def valid_utf8_lossy)

lemma reported_static:
  assumes "\<And>p. static_dir cfg = Some p \<Longrightarrow> valid_utf8 p"
  shows "reported env cfg env_static_dir = Some (unwrap_or [] (static_dir cfg))"
proof -
  let ?v = "case static_dir cfg of None \<Rightarrow> [] | Some p \<Rightarrow> path_display p"
  have v: "?v = unwrap_or [] (static_dir cfg)" "valid_utf8 ?v"
    using assms by (auto simp: unwrap_or_def path_display_def valid_utf8_lossy split: option.split)
  have "(env_static_dir, ?v) \<in> set (map (\<lambda>e. (se_name e, se_value e)) (describe env cfg))"
    by (simp add: describe_defs)
  from described(1) [OF this v(2)] v(1) show ?thesis by simp
qed

text \<open>
  The settings that are listed reproduce the configuration: an environment that sets each
  variable to its reported value is accepted and gives the same configuration, where a missing
  static directory has become the empty path.
\<close>

theorem reported_settings_reload:
  assumes "from_env env = Inr cfg" and "\<And>p. static_dir cfg = Some p \<Longrightarrow> valid_utf8 p"
  shows "from_env (reported env cfg) = Inr (cfg\<lparr>static_dir := Some (unwrap_or [] (static_dir cfg))\<rparr>)"
proof -
  let ?r = "reported env cfg"
  have valid: "valid_utf8 (docker_host cfg)" "valid_utf8 (data_path cfg)" "valid_utf8 (config_path cfg)"
    using assms(1) by (simp_all add: from_env_Inr_iff env_or_valid default_texts)
  show ?thesis using assms(1) reported_static [of cfg env] assms(2)
    by (auto simp: from_env_Inr_iff reader_results reported_numbers reported_controls
        reported_text(1) [OF valid(1)] reported_text(2) [OF valid(2)] reported_text(3) [OF valid(3)]
        reported_secs reported_millis)
qed


theorem reported_settings_reload_witness:
  "\<exists>cfg. from_env (\<lambda>_. None) = Inr cfg \<and> from_env (reported (\<lambda>_. None) cfg) = Inr (cfg\<lparr>static_dir := Some []\<rparr>)"
proof -
  obtain cfg where cfg: "from_env (\<lambda>_. None) = Inr cfg" using config_without_variables by blast
  then have "static_dir cfg = None" by (simp add: from_env_Inr_iff)
  with reported_settings_reload [OF cfg] cfg show ?thesis by (simp add: unwrap_or_def)
qed

text \<open>
  Each of the listed settings that the environment leaves unset is reported with its default.
\<close>

theorem unset_settings_report_default:
  assumes "from_env env = Inr cfg" "e \<in> set (describe env cfg)" "\<not> se_overridden e"
  shows "se_value e = se_default e"
proof -
  have unset: "env n = None \<Longrightarrow> env_var env n = None" for n
    by (simp add: env_var_def option_filter_def)
  have p: "path_display default_data_path = default_data_path" "path_display default_config_path = default_config_path"
    by (simp_all add: path_display_def valid_utf8_lossy)
  from assms show ?thesis
    by (auto simp: describe_defs from_env_Inr_iff reader_results parse_or_result unset env_or_def p)
qed

theorem unset_settings_report_default_witness:
  "\<exists>cfg. from_env (\<lambda>_. None) = Inr cfg \<and> (\<forall>e \<in> set (describe (\<lambda>_. None) cfg). se_value e = se_default e)"
proof -
  obtain cfg where cfg: "from_env (\<lambda>_. None) = Inr cfg" using config_without_variables by blast
  have "\<not> se_overridden e" if "e \<in> set (describe (\<lambda>_. None) cfg)" for e
    using that by (auto simp: describe_defs)
  with cfg show ?thesis using unset_settings_report_default by blast
qed

end
