(* ===== verification/Snapshot.thy ===== *)
theory Snapshot
  imports Downsampling
begin

text \<open>
  \<open>metrics/snapshot.rs\<close>: the latest values of the host and of the containers, kept in memory. The
  clock is an argument, and so is the service registry's lookup of names. A revision counter counts
  the changes of each half.
\<close>

definition stale_intervals :: int where
  "stale_intervals = 3"

record host_state =
  hst_current :: "current_host_point option"
  hst_previous :: "host_raw_sample option"

record containers_state =
  cst_current :: "(container_id, container_point) hash_map"
  cst_previous :: "(container_id, container_raw_sample) hash_map"

record metrics_snapshot_state =
  mss_host :: host_state
  mss_containers :: containers_state
  mss_stale_after_ms :: i64
  mss_host_revision :: u64
  mss_containers_revision :: u64

definition snapshot_new :: "nat \<Rightarrow> metrics_snapshot_state" where
  "snapshot_new collect_interval =
     \<lparr>mss_host = \<lparr>hst_current = None, hst_previous = None\<rparr>,
      mss_containers = \<lparr>cst_current = [], cst_previous = []\<rparr>,
      mss_stale_after_ms = i64_wrap (i64_wrap (int collect_interval) * stale_intervals),
      mss_host_revision = 0, mss_containers_revision = 0\<rparr>"

definition rate_since :: "('a \<Rightarrow> u64) \<Rightarrow> ('a \<Rightarrow> i64) \<Rightarrow> 'a \<Rightarrow> 'a option \<Rightarrow> f64 option" where
  "rate_since field ts s previous =
     (case previous of None \<Rightarrow> None
      | Some p \<Rightarrow> optional_rate (field s) (field p) (i64_wrap (ts s - ts p)))"

definition record_host :: "metrics_snapshot_state \<Rightarrow> host_raw_sample \<Rightarrow> metrics_snapshot_state" where
  "record_host st s =
     (let rate = (\<lambda>field. rate_since field hr_ts s (hst_previous (mss_host st))) in
      st\<lparr>mss_host :=
           \<lparr>hst_current = Some
              \<lparr>ch_ts = hr_ts s, ch_cpu_pct = hr_cpu_pct s, ch_mem_used = hr_mem_used s,
               ch_mem_total = hr_mem_total s, ch_storage_used = hr_storage_used s,
               ch_storage_total = hr_storage_total s, ch_metrics_size = hr_metrics_size s,
               ch_logs_size = hr_logs_size s, ch_net_rx_rate = rate hr_net_rx,
               ch_net_tx_rate = rate hr_net_tx, ch_disk_read_rate = rate hr_disk_read,
               ch_disk_write_rate = rate hr_disk_write,
               ch_log_pressure_pct = Some (f64_div (f64_of_u64 (hr_log_pressure_pct_mill s)) (Fin 1000)),
               ch_app_rss_bytes = hr_app_rss_bytes s\<rparr>,
            hst_previous = Some s\<rparr>,
         mss_host_revision := mss_host_revision st + 1\<rparr>)"

definition snapshot_cpu_pct :: "container_raw_sample \<Rightarrow> container_raw_sample option \<Rightarrow> f64" where
  "snapshot_cpu_pct s previous =
     (case rate_since cr_cpu_usage_ns cr_ts s previous of None \<Rightarrow> Fin 0
      | Some cpu_rate \<Rightarrow>
          (case rate_since cr_system_cpu_usage_ns cr_ts s previous of None \<Rightarrow> Fin 0
           | Some system_rate \<Rightarrow>
               if f64_lt (Fin 0) system_rate
               then f64_mul (f64_mul (f64_div cpu_rate system_rate) (f64_of_int (uint (cr_cpu_count s))))
                      (Fin 100)
               else Fin 0))"

definition snapshot_point ::
    "(service_id \<Rightarrow> string option) \<Rightarrow> container_raw_sample \<Rightarrow> container_raw_sample option \<Rightarrow> container_point"
  where
  "snapshot_point name_of s previous =
     \<lparr>cp_ts = cr_ts s,
      cp_service = (case name_of (cr_service s) of None \<Rightarrow> [] | Some n \<Rightarrow> n),
      cp_cpu_pct = snapshot_cpu_pct s previous,
      cp_mem_used = cr_mem_used s,
      cp_net_rx_rate = rate_since cr_net_rx cr_ts s previous,
      cp_net_tx_rate = rate_since cr_net_tx cr_ts s previous,
      cp_blk_read_rate = rate_since cr_blk_read cr_ts s previous,
      cp_blk_write_rate = rate_since cr_blk_write cr_ts s previous\<rparr>"

definition record_containers ::
    "(service_id \<Rightarrow> string option) \<Rightarrow> metrics_snapshot_state \<Rightarrow> container_raw_sample list
      \<Rightarrow> metrics_snapshot_state" where
  "record_containers name_of st samples =
     (let old = cst_previous (mss_containers st);
          (current, previous) =
            foldl (\<lambda>(cur, prev) s.
              (hm_insert (cr_cid s) (snapshot_point name_of s (hm_get old (cr_cid s))) cur,
               hm_insert (cr_cid s) s prev)) ([], []) samples
      in st\<lparr>mss_containers := \<lparr>cst_current = current, cst_previous = previous\<rparr>,
            mss_containers_revision := mss_containers_revision st + 1\<rparr>)"

definition snapshot_cutoff :: "metrics_snapshot_state \<Rightarrow> timestamp_ms \<Rightarrow> timestamp_ms" where
  "snapshot_cutoff st now = i64_wrap (now - mss_stale_after_ms st)"

definition current_host_at :: "metrics_snapshot_state \<Rightarrow> timestamp_ms \<Rightarrow> current_host_point option" where
  "current_host_at st now =
     (case hst_current (mss_host st) of None \<Rightarrow> None
      | Some p \<Rightarrow> if snapshot_cutoff st now \<le> ch_ts p then Some p else None)"

text \<open>The body of the loop over the containers, on the entry of the point's service.\<close>

definition add_service_point :: "container_point \<Rightarrow> group_point \<Rightarrow> group_point" where
  "add_service_point p g = add_point p (g\<lparr>gp_ts := max (gp_ts g) (cp_ts p)\<rparr>)"

definition service_totals :: "container_point list \<Rightarrow> (string, group_point) hash_map" where
  "service_totals ps =
     foldl (\<lambda>m p. hm_entry (cp_service p) (default_group_point\<lparr>gp_ts := cp_ts p\<rparr>)
                    (add_service_point p) m) [] ps"

definition current_containers_at :: "metrics_snapshot_state \<Rightarrow> timestamp_ms \<Rightarrow> containers_snapshot" where
  "current_containers_at st now =
     (let containers = filter (\<lambda>(_, p). snapshot_cutoff st now \<le> cp_ts p) (cst_current (mss_containers st))
      in \<lparr>cn_containers = containers, cn_services = service_totals (map snd containers)\<rparr>)"

definition current_at :: "metrics_snapshot_state \<Rightarrow> timestamp_ms \<Rightarrow> metrics_snapshot" where
  "current_at st now =
     (let cs = current_containers_at st now
      in \<lparr>ms_host = current_host_at st now, ms_containers = cn_containers cs,
          ms_services = cn_services cs\<rparr>)"

section \<open>Recording\<close>

lemma record_containers_fold:
  "foldl (\<lambda>(cur, prev) s. (hm_insert (cr_cid s) (f s) cur, hm_insert (cr_cid s) s prev)) (c, p) samples =
     (foldl (\<lambda>m s. hm_insert (cr_cid s) (f s) m) c samples, foldl (\<lambda>m s. hm_insert (cr_cid s) s m) p samples)"
  by (induction samples arbitrary: c p) simp_all

lemma insert_fold_get:
  "hm_get (foldl (\<lambda>m s. hm_insert (key s) (f s) m) m ss) k =
     (case find (\<lambda>s. key s = k) (rev ss) of None \<Rightarrow> hm_get m k | Some s \<Rightarrow> Some (f s))"
  by (induction ss rule: rev_induct) auto

lemma insert_fold_wf: "hm_wf m \<Longrightarrow> hm_wf (foldl (\<lambda>m s. hm_insert (key s) (f s) m) m ss)"
  by (induction ss arbitrary: m) auto

text \<open>
  Recording a batch replaces the container half as a whole: a container is shown exactly when
  the batch has it, with the values of its last sample, rates against the sample of the batch
  before, and no rate when it was not in that batch or its counter went back.
\<close>

theorem record_containers_replaces:
  "let st' = record_containers name_of st samples in
     hm_get (cst_current (mss_containers st')) cid =
       map_option (\<lambda>s. snapshot_point name_of s (hm_get (cst_previous (mss_containers st)) cid))
         (find (\<lambda>s. cr_cid s = cid) (rev samples)) \<and>
     hm_get (cst_previous (mss_containers st')) cid = find (\<lambda>s. cr_cid s = cid) (rev samples) \<and>
     mss_host st' = mss_host st \<and> mss_containers_revision st' = mss_containers_revision st + 1"
proof -
  let ?old = "cst_previous (mss_containers st)"
  have cid: "find (\<lambda>s. cr_cid s = cid) (rev samples) = Some s \<Longrightarrow> cr_cid s = cid" for s
    by (auto simp: find_Some_iff)
  show ?thesis
    by (auto simp: Let_def record_containers_def record_containers_fold insert_fold_get
        dest!: cid split: option.splits)
qed

section \<open>Reading\<close>

lemma add_service_point_simps [simp]:
  "gp_ts (add_service_point p g) = max (gp_ts g) (cp_ts p)"
  "gp_mem_used (add_service_point p g) = saturating_add (gp_mem_used g) (cp_mem_used p)"
  by (simp_all add: add_service_point_def add_point_def)

lemma service_totals_get:
  "hm_get (service_totals ps) n =
     (if filter (\<lambda>p. cp_service p = n) ps = [] then None
      else Some (foldl (\<lambda>g p. add_service_point p g)
        (default_group_point\<lparr>gp_ts := cp_ts (hd (filter (\<lambda>p. cp_service p = n) ps))\<rparr>)
        (filter (\<lambda>p. cp_service p = n) ps)))"
proof (induction ps rule: rev_induct)
  case (snoc p ps)
  have "service_totals (ps @ [p]) = hm_entry (cp_service p) (default_group_point\<lparr>gp_ts := cp_ts p\<rparr>)
      (add_service_point p) (service_totals ps)"
    by (simp add: service_totals_def)
  then show ?case using snoc by (auto simp: hd_append split: option.splits)
qed (simp add: service_totals_def)

lemma service_fold_values:
  "unat (gp_mem_used (foldl (\<lambda>g p. add_service_point p g) g ps)) =
     min (unat (gp_mem_used g) + sum_list (map (unat \<circ> cp_mem_used) ps)) (2 ^ 64 - 1)"
  "gp_ts (foldl (\<lambda>g p. add_service_point p g) g ps) = foldl max (gp_ts g) (map cp_ts ps)"
proof (induction ps arbitrary: g)
  case Nil
  { case 1 show ?case using unat_u64_less [of "gp_mem_used g"] by simp }
  { case 2 show ?case by simp }
next
  case (Cons p ps)
  { case 1 show ?case by (simp add: Cons.IH(1) unat_saturating_add) }
  { case 2 show ?case by (simp add: Cons.IH(2)) }
qed

lemma foldl_max_Max: "foldl max a xs = Max (insert a (set xs))"
  for a :: "'a::linorder"
proof (induction xs arbitrary: a)
  case (Cons x xs)
  have "Max (insert (max a x) (set xs)) = Max (insert a (insert x (set xs)))"
    by (cases "xs = []") (simp_all add: max.assoc)
  then show ?case by (simp add: Cons.IH)
qed simp

text \<open>
  The snapshot shows exactly the containers that are not stale, and sums them up by service
  whatever order the map iterates in: a service is shown exactly when a shown container belongs to
  it, at the newest of their timestamps, its memory the sum of theirs capped at the largest 64-bit
  value.
\<close>

theorem current_containers_totals:
  "let sn = current_containers_at st now;
       shown = filter (\<lambda>p. snapshot_cutoff st now \<le> cp_ts p) (map snd (cst_current (mss_containers st)));
       members = filter (\<lambda>p. cp_service p = n) shown in
     map snd (cn_containers sn) = shown \<and>
     (case hm_get (cn_services sn) n of
        None \<Rightarrow> members = []
      | Some g \<Rightarrow> members \<noteq> [] \<and> gp_ts g = Max (cp_ts ` set members) \<and>
          unat (gp_mem_used g) = min (sum_list (map (unat \<circ> cp_mem_used) members)) (2 ^ 64 - 1))"
proof -
  define shown where "shown = filter (\<lambda>p. snapshot_cutoff st now \<le> cp_ts p) (map snd (cst_current (mss_containers st)))"
  define members where "members = filter (\<lambda>p. cp_service p = n) shown"
  have m: "map snd (filter (\<lambda>(_, p). snapshot_cutoff st now \<le> cp_ts p) (cst_current (mss_containers st))) = shown"
    by (simp add: shown_def filter_map comp_def case_prod_unfold)
  have "Max (insert (cp_ts (hd members)) (cp_ts ` set members)) = Max (cp_ts ` set members)" if "members \<noteq> []"
    using that by (simp add: insert_absorb)
  then show ?thesis
    unfolding Let_def shown_def [symmetric] members_def [symmetric]
    by (simp add: current_containers_at_def Let_def m service_totals_get members_def [symmetric]
        service_fold_values foldl_max_Max default_group_point_def)
qed

end
