(* ===== verification/Bucket_Watcher.thy ===== *)
theory Bucket_Watcher
  imports Downsampling
begin

text \<open>
  \<open>metrics/bucket_watcher.rs\<close>: for each source and resolution, the end of the newest bucket that a
  persisted sample completed. A watch channel keeps its latest value only; a receiver sees the value
  at the time it looks.
\<close>

record resolution_channel =
  rc_last_bucket_end :: timestamp_ms
  rc_tx :: timestamp_ms

definition channel_new :: resolution_channel where
  "channel_new = \<lparr>rc_last_bucket_end = 0, rc_tx = 0\<rparr>"

definition channel_observe :: "resolution_channel \<Rightarrow> timestamp_ms \<Rightarrow> u64 \<Rightarrow> resolution_channel" where
  "channel_observe c ts b =
     (let e = bucket_end ts b in
      if rc_last_bucket_end c < e then \<lparr>rc_last_bucket_end = e, rc_tx = e\<rparr> else c)"

record resolution_channels =
  rcs_ten_seconds :: resolution_channel
  rcs_one_minute :: resolution_channel
  rcs_five_minutes :: resolution_channel
  rcs_one_hour :: resolution_channel

definition channels_new :: resolution_channels where
  "channels_new =
     \<lparr>rcs_ten_seconds = channel_new, rcs_one_minute = channel_new,
      rcs_five_minutes = channel_new, rcs_one_hour = channel_new\<rparr>"

fun channel_of :: "resolution_channels \<Rightarrow> metrics_resolution \<Rightarrow> resolution_channel" where
  "channel_of c TenSeconds = rcs_ten_seconds c"
| "channel_of c OneMinute = rcs_one_minute c"
| "channel_of c FiveMinutes = rcs_five_minutes c"
| "channel_of c OneHour = rcs_one_hour c"

fun channel_update ::
    "metrics_resolution \<Rightarrow> (resolution_channel \<Rightarrow> resolution_channel) \<Rightarrow> resolution_channels
      \<Rightarrow> resolution_channels" where
  "channel_update TenSeconds f c = c\<lparr>rcs_ten_seconds := f (rcs_ten_seconds c)\<rparr>"
| "channel_update OneMinute f c = c\<lparr>rcs_one_minute := f (rcs_one_minute c)\<rparr>"
| "channel_update FiveMinutes f c = c\<lparr>rcs_five_minutes := f (rcs_five_minutes c)\<rparr>"
| "channel_update OneHour f c = c\<lparr>rcs_one_hour := f (rcs_one_hour c)\<rparr>"

datatype metrics_source = HostSource | ContainersSource

record bucket_watcher =
  bw_host :: resolution_channels
  bw_containers :: resolution_channels

definition watcher_new :: bucket_watcher where
  "watcher_new = \<lparr>bw_host = channels_new, bw_containers = channels_new\<rparr>"

fun channels_of :: "bucket_watcher \<Rightarrow> metrics_source \<Rightarrow> resolution_channels" where
  "channels_of w HostSource = bw_host w"
| "channels_of w ContainersSource = bw_containers w"

definition observe_channels :: "resolution_channels \<Rightarrow> timestamp_ms \<Rightarrow> resolution_channels" where
  "observe_channels c ts =
     foldl (\<lambda>c r. channel_update r (\<lambda>ch. channel_observe ch ts (bucket_ms r)) c) c all_resolutions"

fun observe_sample :: "bucket_watcher \<Rightarrow> metrics_source \<Rightarrow> timestamp_ms \<Rightarrow> bucket_watcher" where
  "observe_sample w HostSource ts = w\<lparr>bw_host := observe_channels (bw_host w) ts\<rparr>"
| "observe_sample w ContainersSource ts = w\<lparr>bw_containers := observe_channels (bw_containers w) ts\<rparr>"

text \<open>What a receiver of \<open>subscribe\<close> reads.\<close>

definition watched :: "bucket_watcher \<Rightarrow> metrics_source \<Rightarrow> metrics_resolution \<Rightarrow> timestamp_ms" where
  "watched w src r = rc_tx (channel_of (channels_of w src) r)"

lemma observe_channels_of [simp]:
  "channel_of (observe_channels c ts) r = channel_observe (channel_of c r) ts (bucket_ms r)"
  by (cases r) (simp_all add: observe_channels_def all_resolutions_def)

lemma channels_of_observe [simp]:
  "channels_of (observe_sample w src ts) s =
     (if s = src then observe_channels (channels_of w src) ts else channels_of w s)"
  by (cases src; cases s) simp_all

definition watcher_inv :: "bucket_watcher \<Rightarrow> bool" where
  "watcher_inv w \<longleftrightarrow> (\<forall>src r. rc_tx (channel_of (channels_of w src) r)
     = rc_last_bucket_end (channel_of (channels_of w src) r))"

lemma watcher_inv_new [simp]: "watcher_inv watcher_new"
proof -
  have "channel_of (channels_of watcher_new src) r = channel_new" for src r
    by (cases src; cases r) (simp_all add: watcher_new_def channels_new_def)
  then show ?thesis by (simp add: watcher_inv_def channel_new_def)
qed

lemma watched_new [simp]: "watched watcher_new src r = 0"
  by (cases src; cases r) (simp_all add: watched_def watcher_new_def channels_new_def channel_new_def)

lemma watcher_inv_observe [simp]: "watcher_inv w \<Longrightarrow> watcher_inv (observe_sample w src ts)"
  by (simp add: watcher_inv_def channel_observe_def Let_def)

lemma watched_observe:
  "watcher_inv w \<Longrightarrow> watched (observe_sample w src ts) s r =
     (if s = src then max (watched w s r) (bucket_end ts (bucket_ms r)) else watched w s r)"
  by (auto simp: watched_def watcher_inv_def channel_observe_def Let_def max_def)

definition observe_all :: "bucket_watcher \<Rightarrow> (metrics_source \<times> timestamp_ms) list \<Rightarrow> bucket_watcher" where
  "observe_all w xs = foldl (\<lambda>w (src, ts). observe_sample w src ts) w xs"

lemma observe_all_watched:
  assumes "watcher_inv w"
  shows "watched (observe_all w xs) s r =
    foldl max (watched w s r) (map (\<lambda>(_, ts). bucket_end ts (bucket_ms r)) (filter (\<lambda>(src, _). src = s) xs))"
  using assms
proof (induction xs arbitrary: w)
  case (Cons x xs)
  then show ?case
    by (cases x) (simp add: observe_all_def watched_observe)
qed (simp add: observe_all_def)

text \<open>
  Whatever samples of both sources are observed in whatever order, a stream of one source and
  resolution sees the end of the newest bucket that a sample of its own source reached: the value
  never goes back and the other source never changes it.
\<close>

theorem watcher_is_maximum:
  "watched (observe_all watcher_new xs) s r =
    foldl max 0 (map (\<lambda>(_, ts). bucket_end ts (bucket_ms r)) (filter (\<lambda>(src, _). src = s) xs))"
  using observe_all_watched [of watcher_new xs s r] by simp

end
