(* ===== verification/Db_Version.thy ===== *)
theory Db_Version
  imports Rust_Str
begin

text \<open>
  \<open>db_version.rs\<close>: the start-up guard that compares the schema versions recorded in
  \<open>versions.json\<close> with those of the build. The data directory is a state: the bytes of the manifest,
  the files of the three database directories, the directories whose metadata the process may not
  read, and the outcomes of the I/O calls to come. A failing removal has deleted some of the files,
  a failing write has written a prefix: the outcome carries the number. JSON is a parameter.
\<close>

datatype db_kind = MetadataDb | LogsDb | MetricsDb

record db_versions =
  dv_metadata :: u32
  dv_logs :: u32
  dv_metrics :: u32

record versions_json =
  vj_from_slice :: "string \<Rightarrow> string + db_versions"
  vj_to_vec_pretty :: "db_versions \<Rightarrow> string + string"

record data_dir =
  dd_manifest :: "string option"
  dd_files :: "db_kind \<Rightarrow> string list option"
  dd_hidden :: "db_kind list"
  dd_faults :: "(string \<times> nat) option list"

definition metadata_db_version :: u32 where "metadata_db_version = 3"
definition logs_db_version :: u32 where "logs_db_version = 3"
definition metrics_db_version :: u32 where "metrics_db_version = 3"

definition all_kinds :: "db_kind list" where "all_kinds = [MetadataDb, LogsDb, MetricsDb]"

fun dir_name :: "db_kind \<Rightarrow> string" where
  "dir_name MetadataDb = ''metadata''"
| "dir_name LogsDb = ''logs''"
| "dir_name MetricsDb = ''metrics''"

fun kind_label :: "db_kind \<Rightarrow> string" where
  "kind_label MetadataDb = ''metadata''"
| "kind_label LogsDb = ''logs''"
| "kind_label MetricsDb = ''metrics''"

fun expected_version :: "db_kind \<Rightarrow> u32" where
  "expected_version MetadataDb = metadata_db_version"
| "expected_version LogsDb = logs_db_version"
| "expected_version MetricsDb = metrics_db_version"

fun recorded_version :: "db_kind \<Rightarrow> db_versions \<Rightarrow> u32" where
  "recorded_version MetadataDb v = dv_metadata v"
| "recorded_version LogsDb v = dv_logs v"
| "recorded_version MetricsDb v = dv_metrics v"

fun contents_description :: "db_kind \<Rightarrow> string" where
  "contents_description MetadataDb = ''internal bookkeeping vpsiner keeps about the data it collects''"
| "contents_description LogsDb = ''all archived container logs''"
| "contents_description MetricsDb = ''all historical host and container metrics''"

definition current_versions :: db_versions where
  "current_versions = \<lparr>dv_metadata = metadata_db_version, dv_logs = logs_db_version,
     dv_metrics = metrics_db_version\<rparr>"

text \<open>\<open>Path::join\<close> with a relative path, on paths as they are displayed.\<close>

definition path_join :: "string \<Rightarrow> string \<Rightarrow> string" where
  "path_join p q =
     (if p = [] then q else if last p = CHR ''/'' then p @ q else p @ CHR ''/'' # q)"

definition metadata_dir :: "string \<Rightarrow> string" where "metadata_dir p = path_join p (dir_name MetadataDb)"
definition metrics_dir :: "string \<Rightarrow> string" where "metrics_dir p = path_join p (dir_name MetricsDb)"
definition logs_dir :: "string \<Rightarrow> string" where "logs_dir p = path_join p (dir_name LogsDb)"

definition versions_path :: "string \<Rightarrow> string" where
  "versions_path p = path_join p ''versions.json''"

section \<open>The force switch\<close>

definition env_force :: string where "env_force = ''VPSINER_FORCE_DB_MIGRATION''"

text \<open>The value of the variable; \<open>None\<close> when it is not set or not Unicode.\<close>

definition force_enabled :: "string option \<Rightarrow> bool" where
  "force_enabled var =
     (case var of None \<Rightarrow> False
      | Some value \<Rightarrow> to_ascii_lowercase (str_trim value) \<in> {''1'', ''true''})"

section \<open>Files\<close>

definition dd_next :: "data_dir \<Rightarrow> (string \<times> nat) option \<times> data_dir" where
  "dd_next d = (case dd_faults d of [] \<Rightarrow> (None, d) | f # fs \<Rightarrow> (f, d\<lparr>dd_faults := fs\<rparr>))"

text \<open>\<open>Path::exists\<close> is false as well when the metadata cannot be read.\<close>

definition dir_exists :: "data_dir \<Rightarrow> db_kind \<Rightarrow> bool" where
  "dir_exists d k = (dd_files d k \<noteq> None \<and> k \<notin> set (dd_hidden d))"

definition read_versions :: "versions_json \<Rightarrow> data_dir \<Rightarrow> data_dir \<times> db_versions option" where
  "read_versions j d =
     (case dd_next d of (Some _, d1) \<Rightarrow> (d1, None)
      | (None, d1) \<Rightarrow>
          (d1, case dd_manifest d1 of None \<Rightarrow> None
               | Some raw \<Rightarrow> (case vj_from_slice j raw of Inl _ \<Rightarrow> None | Inr v \<Rightarrow> Some v)))"

definition write_versions ::
    "versions_json \<Rightarrow> string \<Rightarrow> db_versions \<Rightarrow> data_dir \<Rightarrow> data_dir \<times> (string + unit)" where
  "write_versions j p v d =
     (case vj_to_vec_pretty j v of
        Inl err \<Rightarrow> (d, Inl (''failed to serialize version manifest: '' @ err))
      | Inr body \<Rightarrow>
          (case dd_next d of
             (Some (err, n), d1) \<Rightarrow>
               (d1\<lparr>dd_manifest := Some (take n body)\<rparr>,
                Inl (''failed to write '' @ versions_path p @ '': '' @ err))
           | (None, d1) \<Rightarrow> (d1\<lparr>dd_manifest := Some body\<rparr>, Inr ())))"

text \<open>A directory that is not there is a success.\<close>

definition remove_dir :: "string \<Rightarrow> db_kind \<Rightarrow> data_dir \<Rightarrow> data_dir \<times> (string + unit)" where
  "remove_dir p k d =
     (case dd_next d of
        (Some (err, n), d1) \<Rightarrow>
          (d1\<lparr>dd_files := (dd_files d1)(k := map_option (drop n) (dd_files d1 k))\<rparr>,
           Inl (''failed to delete '' @ path_join p (dir_name k) @ '': '' @ err))
      | (None, d1) \<Rightarrow> (d1\<lparr>dd_files := (dd_files d1)(k := None)\<rparr>, Inr ()))"

fun remove_dirs :: "string \<Rightarrow> db_kind list \<Rightarrow> data_dir \<Rightarrow> data_dir \<times> (string + unit)" where
  "remove_dirs p [] d = (d, Inr ())"
| "remove_dirs p (k # ks) d =
     (case remove_dir p k d of (d1, Inl e) \<Rightarrow> (d1, Inl e)
      | (d1, Inr _) \<Rightarrow> remove_dirs p ks d1)"

section \<open>The guard\<close>

definition LF :: char where "LF = CHR 0x0A"

definition labels :: "db_kind list \<Rightarrow> string" where
  "labels ks = join '', '' (map kind_label ks)"

definition incompatible_message :: "string \<Rightarrow> db_versions \<Rightarrow> db_kind list \<Rightarrow> string" where
  "incompatible_message p recorded stale =
     ''incompatible database schema, refusing to start.'' @ [LF, LF]
     @ ''The following databases were written by a different version of vpsiner:'' @ [LF]
     @ concat (map (\<lambda>k. ''  - '' @ kind_label k @ '': on disk v''
         @ nat_to_string (unat (recorded_version k recorded)) @ '', this build requires v''
         @ nat_to_string (unat (expected_version k)) @ [LF]) stale)
     @ [LF] @ ''This version requires a clean slate: the affected data has to be deleted'' @ [LF]
     @ ''and collection started from scratch. That means PERMANENTLY LOSING, with'' @ [LF]
     @ ''no backup:'' @ [LF]
     @ concat (map (\<lambda>k. ''  - '' @ path_join p (dir_name k) @ '' - '' @ contents_description k
         @ [LF]) stale)
     @ [LF] @ ''Back up the data directory first if you want to keep any of it, then'' @ [LF]
     @ ''either restart vpsiner once with:'' @ [LF, LF]
     @ ''    '' @ env_force @ ''=1'' @ [LF, LF]
     @ ''which deletes the paths above for you, or delete them yourself while'' @ [LF]
     @ ''vpsiner is stopped and start it again normally.''"

definition stale_kinds :: "db_versions \<Rightarrow> data_dir \<Rightarrow> db_kind list" where
  "stale_kinds recorded d =
     filter (dir_exists d) (filter (\<lambda>k. recorded_version k recorded \<noteq> expected_version k) all_kinds)"

definition evaluate_versions ::
    "versions_json \<Rightarrow> string \<Rightarrow> bool \<Rightarrow> data_dir \<Rightarrow> data_dir \<times> (string + unit)" where
  "evaluate_versions j p force d =
     (case dd_next d of
        (Some (err, _), d1) \<Rightarrow> (d1, Inl (''failed to create data directory '' @ p @ '': '' @ err))
      | (None, d1) \<Rightarrow>
          (case read_versions j d1 of
             (d2, None) \<Rightarrow>
               (case remove_dirs p all_kinds d2 of (d3, Inl e) \<Rightarrow> (d3, Inl e)
                | (d3, Inr _) \<Rightarrow> write_versions j p current_versions d3)
           | (d2, Some recorded) \<Rightarrow>
               (let stale = stale_kinds recorded d2 in
                if stale = [] then
                  (if recorded \<noteq> current_versions then write_versions j p current_versions d2
                   else (d2, Inr ()))
                else if \<not> force then (d2, Inl (incompatible_message p recorded stale))
                else
                  (case remove_dirs p stale d2 of (d3, Inl e) \<Rightarrow> (d3, Inl e)
                   | (d3, Inr _) \<Rightarrow> write_versions j p current_versions d3))))"

definition ensure_compatible ::
    "versions_json \<Rightarrow> string \<Rightarrow> string option \<Rightarrow> data_dir \<Rightarrow> data_dir \<times> (string + unit)" where
  "ensure_compatible j p var d = evaluate_versions j p (force_enabled var) d"

section \<open>Facts\<close>

lemma kind_cases: "k \<in> set all_kinds"
  by (cases k) (simp_all add: all_kinds_def)

lemma dd_next_same:
  "dd_next d = (f, d1) \<Longrightarrow> dd_files d1 = dd_files d \<and> dd_manifest d1 = dd_manifest d \<and> dd_hidden d1 = dd_hidden d"
  by (auto simp: dd_next_def split: list.splits)

lemma read_versions_same:
  "read_versions j d = (d1, r) \<Longrightarrow> dd_files d1 = dd_files d \<and> dd_manifest d1 = dd_manifest d \<and> dd_hidden d1 = dd_hidden d"
  by (auto simp: read_versions_def dest!: dd_next_same split: prod.splits option.splits)

lemma read_versions_Some:
  assumes "read_versions j d = (d1, Some v)"
  shows "\<exists>raw. dd_manifest d = Some raw \<and> vj_from_slice j raw = Inr v"
  using assms
  by (auto simp: read_versions_def dest!: dd_next_same split: prod.splits option.splits sum.splits)

lemma write_versions_same:
  "write_versions j p v d = (d1, r) \<Longrightarrow> dd_files d1 = dd_files d"
  by (auto simp: write_versions_def dest!: dd_next_same split: prod.splits option.splits sum.splits)

lemma write_versions_ok:
  "write_versions j p v d = (d1, Inr u) \<Longrightarrow> \<exists>body. vj_to_vec_pretty j v = Inr body \<and> dd_manifest d1 = Some body"
  by (auto simp: write_versions_def split: prod.splits option.splits sum.splits)

lemma remove_dir_other:
  "remove_dir p k d = (d1, r) \<Longrightarrow> k' \<noteq> k \<Longrightarrow> dd_files d1 k' = dd_files d k'"
  by (auto simp: remove_dir_def dest!: dd_next_same split: prod.splits option.splits)

lemma remove_dir_ok: "remove_dir p k d = (d1, Inr u) \<Longrightarrow> dd_files d1 k = None"
  by (auto simp: remove_dir_def split: prod.splits option.splits)

lemma remove_dir_None: "remove_dir p k d = (d1, r) \<Longrightarrow> dd_files d k = None \<Longrightarrow> dd_files d1 k = None"
  by (auto simp: remove_dir_def dest!: dd_next_same split: prod.splits option.splits)

lemma remove_dirs_other:
  "remove_dirs p ks d = (d1, r) \<Longrightarrow> k \<notin> set ks \<Longrightarrow> dd_files d1 k = dd_files d k"
  by (induction ks arbitrary: d) (auto dest: remove_dir_other split: prod.splits sum.splits)

lemma remove_dirs_None:
  "remove_dirs p ks d = (d1, r) \<Longrightarrow> dd_files d k = None \<Longrightarrow> dd_files d1 k = None"
  by (induction ks arbitrary: d)
    (auto dest: remove_dir_None [where k = k] remove_dir_other [where k' = k] split: prod.splits sum.splits,
     metis remove_dir_None remove_dir_other, metis remove_dir_None remove_dir_other)

lemma remove_dirs_ok:
  "remove_dirs p ks d = (d1, Inr u) \<Longrightarrow> k \<in> set ks \<Longrightarrow> dd_files d1 k = None"
  by (induction ks arbitrary: d)
    (auto dest: remove_dir_ok remove_dirs_None split: prod.splits sum.splits)

lemma stale_kinds_iff:
  "k \<in> set (stale_kinds v d) \<longleftrightarrow> recorded_version k v \<noteq> expected_version k \<and> dir_exists d k"
  using kind_cases [of k] by (auto simp: stale_kinds_def)

lemma recorded_current [simp]: "recorded_version k current_versions = expected_version k"
  by (cases k) (simp_all add: current_versions_def)

section \<open>What the guard promises\<close>

text \<open>
  C24. The guard deletes no data that it is not told to: when the manifest can be read, the files of
  a database change only if the force switch is set and the recorded version is another one. This
  holds whatever I/O call fails.
\<close>

theorem guard_spares_data:
  assumes "dd_next d = (None, d1)" "read_versions j d1 = (d2, Some recorded)"
    "evaluate_versions j p force d = (d', res)"
  shows "dd_files d' k = dd_files d k \<or> force \<and> recorded_version k recorded \<noteq> expected_version k"
proof -
  have same: "dd_files d2 = dd_files d"
    using dd_next_same [OF assms(1)] read_versions_same [OF assms(2)] by simp
  show ?thesis
    using assms same stale_kinds_iff [of k recorded d2]
    by (fastforce simp: evaluate_versions_def Let_def dest: write_versions_same remove_dirs_other [where k = k]
        split: if_splits prod.splits sum.splits)
qed

text \<open>
  A start that passes the guard finds only databases that this build wrote: afterwards the
  manifest records the current versions, and each database still on disk is untouched and was
  recorded with the current version before.
\<close>

theorem guard_passes_only_current:
  assumes json: "\<And>v body. vj_to_vec_pretty j v = Inr body \<Longrightarrow> vj_from_slice j body = Inr v"
    and seen: "dd_hidden d = []"
    and run: "evaluate_versions j p force d = (d', Inr u)"
  shows "(\<exists>body. dd_manifest d' = Some body \<and> vj_from_slice j body = Inr current_versions) \<and>
    (\<forall>k files. dd_files d' k = Some files \<longrightarrow> dd_files d k = Some files \<and>
       (\<exists>raw recorded. dd_manifest d = Some raw \<and> vj_from_slice j raw = Inr recorded \<and>
          recorded_version k recorded = expected_version k))"
proof -
  obtain d1 where d1: "dd_next d = (None, d1)"
    using run by (auto simp: evaluate_versions_def split: prod.splits option.splits)
  obtain d2 r where d2: "read_versions j d1 = (d2, r)" by fastforce
  note same = dd_next_same [OF d1] read_versions_same [OF d2]
  show ?thesis
  proof (cases r)
    case None
    then obtain d3 v where d3: "remove_dirs p all_kinds d2 = (d3, Inr v)"
      and w: "write_versions j p current_versions d3 = (d', Inr u)"
      using run d1 d2 by (auto simp: evaluate_versions_def split: prod.splits sum.splits)
    have "dd_files d' k = None" for k
      using remove_dirs_ok [OF d3 kind_cases] write_versions_same [OF w] by simp
    then show ?thesis using write_versions_ok [OF w] json by auto
  next
    case (Some recorded)
    obtain raw where raw: "dd_manifest d = Some raw" "vj_from_slice j raw = Inr recorded"
      using read_versions_Some [OF d2 [unfolded Some]] same by auto
    have stale: "recorded_version k recorded = expected_version k \<or> k \<in> set (stale_kinds recorded d2) \<or>
        dd_files d k = None" for k
      using same seen by (auto simp: stale_kinds_iff dir_exists_def)
    show ?thesis
    proof (cases "stale_kinds recorded d2 = []")
      case True
      then have run2: "(if recorded \<noteq> current_versions then write_versions j p current_versions d2
          else (d2, Inr ())) = (d', Inr u)"
        using run d1 d2 Some by (simp add: evaluate_versions_def)
      then have files: "dd_files d' = dd_files d"
        using same by (auto dest: write_versions_same split: if_splits)
      have "\<exists>body. dd_manifest d' = Some body \<and> vj_from_slice j body = Inr current_versions"
        using run2 same raw by (auto dest!: write_versions_ok json split: if_splits)
      then show ?thesis using files stale True raw by fastforce
    next
      case False
      then obtain d3 v where d3: "remove_dirs p (stale_kinds recorded d2) d2 = (d3, Inr v)"
        and w: "write_versions j p current_versions d3 = (d', Inr u)"
        using run d1 d2 Some by (auto simp: evaluate_versions_def Let_def split: prod.splits sum.splits if_splits)
      have files: "dd_files d' k = (if k \<in> set (stale_kinds recorded d2) then None else dd_files d k)" for k
        using remove_dirs_ok [OF d3] remove_dirs_other [OF d3] write_versions_same [OF w] same by auto
      show ?thesis using write_versions_ok [OF w] json files stale raw by (fastforce split: if_splits)
    qed
  qed
qed


text \<open>
  Without I/O errors the guard refuses to start exactly when a readable manifest records
  another version for a database that exists and the force switch is not set; a refusal changes
  nothing and its message names the databases.
\<close>

theorem guard_refuses_iff:
  assumes "dd_faults d = []" "vj_to_vec_pretty j current_versions = Inr body"
  shows "evaluate_versions j p force d =
    (case dd_manifest d of Some raw \<Rightarrow>
       (case vj_from_slice j raw of
          Inr recorded \<Rightarrow>
            (if \<not> force \<and> (\<exists>k. dir_exists d k \<and> recorded_version k recorded \<noteq> expected_version k)
             then (d, Inl (incompatible_message p recorded (stale_kinds recorded d)))
             else (d\<lparr>dd_manifest := Some (if recorded = current_versions then raw else body),
                     dd_files := (\<lambda>k. if k \<in> set (stale_kinds recorded d) then None else dd_files d k)\<rparr>,
                   Inr ()))
        | Inl _ \<Rightarrow> (d\<lparr>dd_manifest := Some body, dd_files := (\<lambda>_. None)\<rparr>, Inr ()))
     | None \<Rightarrow> (d\<lparr>dd_manifest := Some body, dd_files := (\<lambda>_. None)\<rparr>, Inr ()))"
proof -
  have nx: "dd_next d = (None, d)" using assms(1) by (simp add: dd_next_def)
  have rm: "remove_dirs p ks d =
      (d\<lparr>dd_files := (\<lambda>k. if k \<in> set ks then None else dd_files d k)\<rparr>, Inr ())" for ks
    using assms(1)
  proof (induction ks arbitrary: d)
    case (Cons k ks)
    then show ?case
      by (simp add: remove_dir_def dd_next_def)
        (rule arg_cong [where f = "\<lambda>g. dd_files_update (\<lambda>_. g) d"], auto)
  qed simp
  have wr: "write_versions j p current_versions (d\<lparr>dd_files := g\<rparr>) =
      (d\<lparr>dd_files := g, dd_manifest := Some body\<rparr>, Inr ())" for g
    using assms by (simp add: write_versions_def dd_next_def)
  have wr0: "write_versions j p current_versions d = (d\<lparr>dd_manifest := Some body\<rparr>, Inr ())"
    using assms by (simp add: write_versions_def dd_next_def)
  have all: "k \<in> set all_kinds" for k by (rule kind_cases)
  have rd: "read_versions j d = (d, case dd_manifest d of None \<Rightarrow> None
      | Some raw \<Rightarrow> (case vj_from_slice j raw of Inl _ \<Rightarrow> None | Inr v \<Rightarrow> Some v))"
    using assms(1) by (simp add: read_versions_def dd_next_def)
  have stale: "(\<exists>k. dir_exists d k \<and> recorded_version k v \<noteq> expected_version k) \<longleftrightarrow> stale_kinds v d \<noteq> []" for v
    using stale_kinds_iff [of _ v d] by (metis empty_iff empty_set list.set_intros(1) neq_Nil_conv)
  have cur: "stale_kinds current_versions d = []"
    by (metis recorded_current stale_kinds_iff list.set_intros(1) neq_Nil_conv)
  have eta: "d\<lparr>dd_manifest := Some raw, dd_files := dd_files d\<rparr> = d" if "dd_manifest d = Some raw" for raw
    using that by (cases d) simp
  show ?thesis
  proof (cases "snd (read_versions j d)")
    case None
    then show ?thesis
      by (auto simp: evaluate_versions_def nx rd rm wr all split: option.splits sum.splits)
  next
    case (Some v)
    then obtain raw where raw: "dd_manifest d = Some raw" "vj_from_slice j raw = Inr v"
      by (auto simp: rd split: option.splits sum.splits)
    show ?thesis
      using eta [OF raw(1)] cur
      by (auto simp: evaluate_versions_def nx rd raw rm wr wr0 Let_def stale)
  qed
qed

section \<open>Examples\<close>

text \<open>Versions in unary with a final mark, for a JSON library that refuses a truncated text.\<close>

definition unary_json :: versions_json where
  "unary_json = \<lparr>
     vj_from_slice = (\<lambda>s. if s = [] \<or> last s \<noteq> CHR ''.'' then Inl ''EOF''
       else Inr \<lparr>dv_metadata = of_nat (count_list s (CHR ''a'')), dv_logs = of_nat (count_list s (CHR ''b'')),
                 dv_metrics = of_nat (count_list s (CHR ''c''))\<rparr>),
     vj_to_vec_pretty = (\<lambda>v. Inr (replicate (unat (dv_metadata v)) (CHR ''a'')
       @ replicate (unat (dv_logs v)) (CHR ''b'') @ replicate (unat (dv_metrics v)) (CHR ''c'') @ ''.''))\<rparr>"

lemma count_replicate: "count_list (replicate n x) y = (if x = y then n else 0)"
  by (induction n) auto

lemma unary_json_roundtrip: "vj_to_vec_pretty unary_json v = Inr body \<Longrightarrow> vj_from_slice unary_json body = Inr v"
  by (cases v) (auto simp: unary_json_def count_replicate)

definition old_metrics :: data_dir where
  "old_metrics = \<lparr>dd_manifest = Some ''aaabbbc.'',
     dd_files = (\<lambda>k. Some [kind_label k]), dd_hidden = [], dd_faults = []\<rparr>"

lemmas guard_run = evaluate_versions_def read_versions_def dd_next_def stale_kinds_def dir_exists_def
  remove_dir_def write_versions_def all_kinds_def unary_json_def old_metrics_def current_versions_def
  metadata_db_version_def logs_db_version_def metrics_db_version_def

theorem guard_spares_data_witness:
  "dd_files (fst (evaluate_versions unary_json ''/data'' True old_metrics)) LogsDb = Some [''logs'']"
proof -
  have a: "dd_next old_metrics = (None, old_metrics)" by (simp add: guard_run)
  have b: "read_versions unary_json old_metrics =
      (old_metrics, Some \<lparr>dv_metadata = 3, dv_logs = 3, dv_metrics = 1\<rparr>)"
    by (simp add: guard_run)
  show ?thesis
    using guard_spares_data [OF a b prod.collapse [symmetric], of "''/data''" True LogsDb]
    by (simp add: logs_db_version_def) (simp add: old_metrics_def)
qed

theorem guard_passes_only_current_witness:
  "\<exists>d'. evaluate_versions unary_json ''/data'' True old_metrics = (d', Inr ()) \<and>
    dd_files d' MetricsDb = None \<and>
    (\<exists>body. dd_manifest d' = Some body \<and> vj_from_slice unary_json body = Inr current_versions)"
proof -
  obtain d' where run: "evaluate_versions unary_json ''/data'' True old_metrics = (d', Inr ())"
    and m: "dd_files d' MetricsDb = None"
    by (simp add: guard_run)
  have h: "dd_hidden old_metrics = []" by (simp add: old_metrics_def)
  show ?thesis using guard_passes_only_current [OF unary_json_roundtrip h run] run m by blast
qed

theorem guard_refuses_iff_witness:
  "snd (evaluate_versions unary_json ''/data'' False old_metrics) =
    Inl (incompatible_message ''/data'' \<lparr>dv_metadata = 3, dv_logs = 3, dv_metrics = 1\<rparr> [MetricsDb])"
proof -
  have f: "dd_faults old_metrics = []" by (simp add: old_metrics_def)
  have w: "vj_to_vec_pretty unary_json current_versions = Inr ''aaabbbccc.''" by (simp add: guard_run) (simp add: numeral_3_eq_3)
  have m: "dd_manifest old_metrics = Some ''aaabbbc.''" by (simp add: old_metrics_def)
  have r: "vj_from_slice unary_json ''aaabbbc.'' = Inr \<lparr>dv_metadata = 3, dv_logs = 3, dv_metrics = 1\<rparr>"
    by (simp add: guard_run)
  have s: "stale_kinds \<lparr>dv_metadata = 3, dv_logs = 3, dv_metrics = 1\<rparr> old_metrics = [MetricsDb]"
    by (simp add: guard_run)
  then have "\<exists>k. dir_exists old_metrics k \<and>
      recorded_version k \<lparr>dv_metadata = 3, dv_logs = 3, dv_metrics = 1\<rparr> \<noteq> expected_version k"
    using stale_kinds_iff [of MetricsDb] by (metis list.set_intros(1))
  then show ?thesis using guard_refuses_iff [OF f w, of "''/data''" False] m r s by simp
qed

text \<open>
  The manifest is written in place. A migration of the metrics whose last write fails leaves a
  truncated manifest, and the next start, without the force switch, deletes the logs and the
  metadata, which were current.
\<close>

lemma torn_manifest_wipes:
  "let d = old_metrics\<lparr>dd_faults := [None, None, None, Some (''No space left on device'', 0)]\<rparr>;
       first = evaluate_versions unary_json ''/data'' True d;
       second = evaluate_versions unary_json ''/data'' False ((fst first)\<lparr>dd_faults := []\<rparr>) in
    isl (snd first) \<and> dd_files (fst first) LogsDb = Some [''logs''] \<and>
    snd second = Inr () \<and> dd_files (fst second) LogsDb = None \<and> dd_files (fst second) MetadataDb = None"
  by (simp add: guard_run)

text \<open>A read error of the manifest is taken for a first run as well.\<close>

lemma unreadable_manifest_wipes:
  "let d = old_metrics\<lparr>dd_manifest := Some ''aaabbbccc.'',
                       dd_faults := [None, Some (''Input/output error'', 0)]\<rparr>;
       run = evaluate_versions unary_json ''/data'' False d in
    snd run = Inr () \<and> dd_files (fst run) LogsDb = None"
  by (simp add: guard_run)

end
