(* ===== verification/Api.thy ===== *)
theory Api
  imports BTree_Map Config Snapshot Bucket_Watcher Db_Version Metrics_Laws
begin

text \<open>
  \<open>state.rs\<close> and the request handlers of \<open>api/\<close>: the shared state, the parsing of the queries and what
  each endpoint computes from the stores. A handler takes the state and returns it with a result, as
  the storage calls consume their outcomes; extraction of the query and serialisation of the body are
  the web framework. The metadata store and the registry are shared with the Docker service, which
  holds them in the model.
\<close>

section \<open>The shared state (state.rs)\<close>

record app_state =
  as_config :: config
  as_docker :: docker_service
  as_metrics :: metrics_store
  as_logs :: log_store
  as_snapshot :: metrics_snapshot_state
  as_bucket_watcher :: bucket_watcher
  as_log_flush_watcher :: flush_watcher
  as_shutdown :: bool

definition app_state_new :: "config \<Rightarrow> docker_service \<Rightarrow> metrics_store \<Rightarrow> log_store \<Rightarrow> app_state" where
  "app_state_new cfg docker metrics logs =
     \<lparr>as_config = cfg, as_docker = docker, as_metrics = metrics, as_logs = logs,
      as_snapshot = snapshot_new (collect_interval cfg), as_bucket_watcher = watcher_new,
      as_log_flush_watcher = flush_watcher_new, as_shutdown = False\<rparr>"

definition as_services :: "app_state \<Rightarrow> service_registry" where
  "as_services st = fst (dk_meta (as_docker st))"

definition as_metadata :: "app_state \<Rightarrow> metadata_db" where
  "as_metadata st = snd (dk_meta (as_docker st))"

definition put_metadata :: "metadata_db \<Rightarrow> app_state \<Rightarrow> app_state" where
  "put_metadata db st = st\<lparr>as_docker := (as_docker st)\<lparr>dk_meta := (as_services st, db)\<rparr>\<rparr>"

section \<open>Health and settings (api/mod.rs, api/config.rs)\<close>

record health_response =
  hr_ok :: bool
  hr_app :: string
  hr_version :: string
  hr_port :: u16
  hr_sample_interval_ms :: u64
  hr_retention_weeks :: u32
  hr_docker_controls_available :: bool
  hr_docker_connected :: bool

definition health :: "string \<Rightarrow> app_state \<Rightarrow> health_response" where
  "health version st =
     \<lparr>hr_ok = True, hr_app = ''vpsiner'', hr_version = version, hr_port = port (as_config st),
      hr_sample_interval_ms = of_nat (collect_interval (as_config st)),
      hr_retention_weeks = retention_weeks (as_config st),
      hr_docker_controls_available = dk_controls (as_docker st),
      hr_docker_connected = docker_connected (as_docker st)\<rparr>"

definition settings :: "environment \<Rightarrow> app_state \<Rightarrow> setting_entry list" where
  "settings env st = describe env (as_config st)"

record computed_entry =
  ce_name :: string
  ce_value :: string
  ce_description :: string

definition computed :: "nat \<Rightarrow> computed_entry list" where
  "computed num_workers =
     [\<lparr>ce_name = ''tokio_worker_threads'', ce_value = nat_to_string num_workers,
       ce_description = ''Actual number of worker threads allocated to the Tokio runtime''\<rparr>]"

text \<open>The JSON values that the program itself builds.\<close>

datatype json = JString string | JArray "json list" | JObject "(string \<times> json) list"

definition default_ui_config :: json where
  "default_ui_config =
     JObject
       [(''name'', JString ''VPSiner''),
        (''eyebrow'', JString ''Simply Observed''),
        (''links'', JArray
          [JObject
             [(''icon'', JString ''Github''),
              (''label'', JString ''GitHub''),
              (''url'', JString ''https://github.com/skvostik/vpsiner'')]])]"

text \<open>\<open>read\<close> gives the content of a file when it can be read as text, \<open>from_str\<close> is the JSON parser.\<close>

definition ui :: "(string \<Rightarrow> string option) \<Rightarrow> (string \<Rightarrow> json option) \<Rightarrow> app_state \<Rightarrow> json" where
  "ui read from_str st =
     (case Option.bind (read (path_join (config_path (as_config st)) ''ui.json'')) from_str of
        Some v \<Rightarrow> v
      | None \<Rightarrow> default_ui_config)"

section \<open>Routes (api/mod.rs)\<close>

datatype http_method = Get | Post

type_synonym routes = "(http_method \<times> string \<times> string) list"

text \<open>A route names its handler; matching a path against the patterns is the framework's.\<close>

definition nest :: "string \<Rightarrow> routes \<Rightarrow> routes" where
  "nest pre rs = map (\<lambda>(m, path, handler). (m, pre @ path, handler)) rs"

definition stream_router :: routes where
  "stream_router =
     [(Get, ''/metrics/current'', ''stream::current''),
      (Get, ''/metrics/host'', ''metrics_stream::host''),
      (Get, ''/metrics/containers'', ''metrics_stream::containers''),
      (Get, ''/metrics/containers/{service}'', ''metrics_stream::container''),
      (Get, ''/containers'', ''stream::containers''),
      (Get, ''/logs'', ''logs_stream::groups''),
      (Get, ''/logs/{service}'', ''logs_stream::tail'')]"

definition router :: routes where
  "router =
     [(Get, ''/health'', ''health''),
      (Get, ''/config/ui'', ''config::ui''),
      (Get, ''/config/settings'', ''config::settings''),
      (Get, ''/config/computed'', ''config::computed''),
      (Get, ''/containers'', ''containers::list''),
      (Post, ''/containers/{id}/start'', ''containers::start''),
      (Post, ''/containers/{id}/stop'', ''containers::stop''),
      (Post, ''/containers/{id}/restart'', ''containers::restart''),
      (Get, ''/metrics/host'', ''metrics::host''),
      (Get, ''/metrics/current'', ''metrics::current''),
      (Get, ''/metrics/containers/{service}'', ''metrics::container''),
      (Get, ''/metrics/containers'', ''metrics::containers_history''),
      (Get, ''/logs'', ''logs::list_groups''),
      (Get, ''/logs/{service}'', ''logs::query'')]
     @ nest ''/stream'' stream_router"

lemma routes_unambiguous: "distinct (map (\<lambda>(m, path, _). (m, path)) router)"
  by (simp add: router_def stream_router_def nest_def)

section \<open>Containers (api/containers.rs)\<close>

definition no_content :: nat where "no_content = 204"

text \<open>\<open>None\<close> is the unreachable arm, a panic; a command goes to Docker after the answer.\<close>

definition run_action :: "app_state \<Rightarrow> string \<Rightarrow> string \<Rightarrow> (nat \<times> docker_command list) app_result option" where
  "run_action st cid action =
     (case parse_cid cid of
        None \<Rightarrow> Some (Inl (BadRequest ''invalid container id''))
      | Some c \<Rightarrow>
          map_option (\<lambda>res. and_then res (\<lambda>(_, cmds). Inr (no_content, cmds)))
            (if action = ''start'' then Some (start_container (as_docker st) c)
             else if action = ''stop'' then Some (stop_container (as_docker st) c)
             else if action = ''restart'' then Some (restart_container (as_docker st) c)
             else None))"

definition containers_list :: "app_state \<Rightarrow> container_summary list app_result" where
  "containers_list st = containers_info (dk_registry (as_docker st))"

definition action_start :: "app_state \<Rightarrow> string \<Rightarrow> (nat \<times> docker_command list) app_result option" where
  "action_start st cid = run_action st cid ''start''"

definition action_stop :: "app_state \<Rightarrow> string \<Rightarrow> (nat \<times> docker_command list) app_result option" where
  "action_stop st cid = run_action st cid ''stop''"

definition action_restart :: "app_state \<Rightarrow> string \<Rightarrow> (nat \<times> docker_command list) app_result option" where
  "action_restart st cid = run_action st cid ''restart''"

section \<open>Logs (api/logs.rs)\<close>

record log_query =
  lq_from :: "i64 option"
  lq_to :: "i64 option"
  lq_q :: "string option"
  lq_level :: "string option"
  lq_stream :: "string option"
  lq_limit :: "u32 option"
  lq_before :: "string option"
  lq_after :: "string option"

definition parse_level :: "string \<Rightarrow> log_level app_result" where
  "parse_level item =
     (if item = ''debug'' then Inr LogDebug
      else if item = ''info'' then Inr LogInfo
      else if item = ''warn'' then Inr LogWarn
      else if item = ''error'' then Inr LogError
      else Inl (BadRequest (''invalid log level: '' @ item)))"

definition parse_levels :: "string option \<Rightarrow> log_level list app_result" where
  "parse_levels v =
     (case v of None \<Rightarrow> Inr []
      | Some s \<Rightarrow> collect_results (map parse_level (split_at (\<lambda>c. c = CHR '','') s)))"

definition parse_stream :: "string \<Rightarrow> log_stream app_result" where
  "parse_stream item =
     (if item = ''stdout'' then Inr Stdout
      else if item = ''stderr'' then Inr Stderr
      else Inl (BadRequest (''invalid log stream: '' @ item)))"

definition parse_streams :: "string option \<Rightarrow> log_stream list app_result" where
  "parse_streams v =
     (case v of None \<Rightarrow> Inr []
      | Some s \<Rightarrow> collect_results (map parse_stream (split_at (\<lambda>c. c = CHR '','') s)))"

definition log_query_filter :: "log_query \<Rightarrow> log_filter app_result" where
  "log_query_filter q =
     (if lq_before q \<noteq> None \<and> lq_after q \<noteq> None
      then Inl (BadRequest ''before and after are mutually exclusive'')
      else if (case (lq_from q, lq_to q) of (Some a, Some b) \<Rightarrow> a > b | _ \<Rightarrow> False)
      then Inl (BadRequest ''from must be before or equal to to'')
      else and_then (parse_levels (lq_level q)) (\<lambda>levels.
           and_then (parse_streams (lq_stream q)) (\<lambda>streams.
             Inr \<lparr>lf_from = lq_from q, lf_to = lq_to q, lf_query = lq_q q, lf_levels = levels,
                  lf_streams = streams, lf_limit = lq_limit q, lf_before = lq_before q,
                  lf_after = lq_after q\<rparr>)))"

definition resolve_watermarks :: "app_state \<Rightarrow> app_state \<times> (string, i64) btree_map app_result" where
  "resolve_watermarks st =
     (let (db, res) = list_service_log_watermarks (as_metadata st) in
      (put_metadata db st,
       and_then res (\<lambda>watermarks. Inr (bt_collect (List.map_filter
         (\<lambda>(sid, ts). map_option (\<lambda>name. (name, ts)) (registry_name (as_services st) sid)) watermarks)))))"

definition merge_services ::
    "(string, i64) btree_map \<Rightarrow> container_summary list \<Rightarrow> (string, service_status) btree_map" where
  "merge_services stored containers =
     foldl (\<lambda>services c.
       bt_entry (ct_service c) \<lparr>ss_last_received = None, ss_live = False\<rparr>
         (\<lambda>s. s\<lparr>ss_live := ss_live s \<or> ct_state c = Some Running\<rparr>) services)
       (bt_collect (map (\<lambda>(service, ts).
          (service, \<lparr>ss_last_received = Some ts, ss_live = False\<rparr>)) stored)) containers"

definition list_groups :: "app_state \<Rightarrow> app_state \<times> (string, service_status) btree_map app_result" where
  "list_groups st =
     (let (st1, res) = resolve_watermarks st in
      (st1, and_then res (\<lambda>stored.
            and_then (containers_list st1) (\<lambda>containers. Inr (merge_services stored containers)))))"

definition logs_page ::
    "log_env \<Rightarrow> app_state \<Rightarrow> string \<Rightarrow> log_query \<Rightarrow> app_state \<times> log_page app_result option" where
  "logs_page env st service q =
     (case log_query_filter q of
        Inl e \<Rightarrow> (st, Some (Inl e))
      | Inr f \<Rightarrow> (let (ls, res) = logs_query env service f (as_logs st) in (st\<lparr>as_logs := ls\<rparr>, res)))"

section \<open>Metrics (api/metrics.rs)\<close>

record metrics_query =
  mq_from :: i64
  mq_to :: i64

record 'd metrics_response =
  mr_resolution :: string
  mr_data :: 'd

definition metrics_query_parse :: "metrics_query \<Rightarrow> time_range app_result" where
  "metrics_query_parse q =
     (if mq_from q > mq_to q then Inl (BadRequest ''from must be before or equal to to'')
      else Inr \<lparr>range_from = mq_from q, range_to = mq_to q\<rparr>)"

definition metrics_host ::
    "app_state \<Rightarrow> metrics_query \<Rightarrow> app_state \<times> host_point list metrics_response app_result" where
  "metrics_host st q =
     (case metrics_query_parse q of
        Inl e \<Rightarrow> (st, Inl e)
      | Inr rg \<Rightarrow>
          (let resolution = for_range rg; (ms, res) = query_host (as_metrics st) rg resolution in
           (st\<lparr>as_metrics := ms\<rparr>,
            and_then res (\<lambda>points.
              Inr \<lparr>mr_resolution = resolution_as_str resolution, mr_data = points\<rparr>))))"

text \<open>The query of both container endpoints, by the names the registry has at that time.\<close>

definition metrics_by_service ::
    "app_state \<Rightarrow> time_range \<Rightarrow> metrics_resolution
      \<Rightarrow> app_state \<times> (string, container_group_metrics) hash_map app_result" where
  "metrics_by_service st rg resolution =
     (let (ms, res) = query_containers (registry_name (as_services st)) (as_metrics st) rg resolution in
      (st\<lparr>as_metrics := ms\<rparr>, res))"

definition metrics_container ::
    "app_state \<Rightarrow> string \<Rightarrow> metrics_query
      \<Rightarrow> app_state \<times> container_group_metrics metrics_response app_result" where
  "metrics_container st service q =
     (case metrics_query_parse q of
        Inl e \<Rightarrow> (st, Inl e)
      | Inr rg \<Rightarrow>
          (let resolution = for_range rg; (st1, res) = metrics_by_service st rg resolution in
           (st1, and_then res (\<lambda>by_service.
              Inr \<lparr>mr_resolution = resolution_as_str resolution,
                   mr_data = unwrap_or default_group_metrics (hm_get by_service service)\<rparr>))))"

definition metrics_containers_history ::
    "app_state \<Rightarrow> metrics_query
      \<Rightarrow> app_state \<times> (string, group_point list) hash_map metrics_response app_result" where
  "metrics_containers_history st q =
     (case metrics_query_parse q of
        Inl e \<Rightarrow> (st, Inl e)
      | Inr rg \<Rightarrow>
          (let resolution = for_range rg; (st1, res) = metrics_by_service st rg resolution in
           (st1, and_then res (\<lambda>by_service.
              Inr \<lparr>mr_resolution = resolution_as_str resolution,
                   mr_data = hm_collect (map (\<lambda>(service, g). (service, gm_sum g)) by_service)\<rparr>))))"

definition metrics_current :: "app_state \<Rightarrow> timestamp_ms \<Rightarrow> metrics_snapshot" where
  "metrics_current st now = current_at (as_snapshot st) now"


section \<open>Lists of levels and streams\<close>

lemma collect_results_iff: "collect_results rs = Inr xs \<longleftrightarrow> rs = map Inr xs"
proof (induction rs arbitrary: xs)
  case (Cons r rs)
  then show ?case by (cases r; cases xs) (auto simp: and_then_Inr_iff)
qed auto

lemma collect_results_ok: "(\<exists>xs. collect_results (map f items) = Inr xs) \<longleftrightarrow> (\<forall>i \<in> set items. \<exists>x. f i = Inr x)"
  by (induction items) (auto simp: and_then_Inr_iff)

lemma split_at_skip: "list_all (\<lambda>c. \<not> p c) w \<Longrightarrow> p x \<Longrightarrow> split_at p (w @ x # s) = w # split_at p s"
  by (induction w) auto

lemma split_at_whole: "list_all (\<lambda>c. \<not> p c) w \<Longrightarrow> split_at p w = [w]"
  by (induction w) auto

lemma split_at_comma:
  "list_all (\<lambda>w. CHR '','' \<notin> set w) ws \<Longrightarrow> ws \<noteq> [] \<Longrightarrow> split_at (\<lambda>c. c = CHR '','') (join '','' ws) = ws"
proof (induction ws rule: induct_list012)
  case (2 w)
  then show ?case by (subst split_at_whole) (auto simp: list_all_iff)
next
  case (3 w v ws)
  then have "list_all (\<lambda>c. c \<noteq> CHR '','') w" by (auto simp: list_all_iff)
  with 3 show ?case by (simp add: split_at_skip)
qed simp

fun level_str :: "log_level \<Rightarrow> string" where
  "level_str LogDebug = ''debug''"
| "level_str LogInfo = ''info''"
| "level_str LogWarn = ''warn''"
| "level_str LogError = ''error''"

fun stream_str :: "log_stream \<Rightarrow> string" where
  "stream_str Stdout = ''stdout''"
| "stream_str Stderr = ''stderr''"

lemma parse_level_iff: "parse_level item = Inr l \<longleftrightarrow> item = level_str l"
  by (cases l) (auto simp: parse_level_def)

lemma parse_level_str [simp]: "parse_level (level_str l) = Inr l"
  by (simp add: parse_level_iff)

lemma parse_stream_iff: "parse_stream item = Inr s \<longleftrightarrow> item = stream_str s"
  by (cases s) (auto simp: parse_stream_def)

lemma parse_stream_str [simp]: "parse_stream (stream_str s) = Inr s"
  by (simp add: parse_stream_iff)

lemma parse_levels_join:
  assumes "ls \<noteq> []"
  shows "parse_levels (Some (join '','' (map level_str ls))) = Inr ls"
proof -
  have "CHR '','' \<notin> set (level_str l)" for l by (cases l) simp_all
  then have "split_at (\<lambda>c. c = CHR '','') (join '','' (map level_str ls)) = map level_str ls"
    by (intro split_at_comma) (use assms in \<open>auto simp: list_all_iff\<close>)
  then show ?thesis by (simp add: parse_levels_def collect_results_iff)
qed

lemma parse_streams_join:
  assumes "ss \<noteq> []"
  shows "parse_streams (Some (join '','' (map stream_str ss))) = Inr ss"
proof -
  have "CHR '','' \<notin> set (stream_str s)" for s by (cases s) simp_all
  then have "split_at (\<lambda>c. c = CHR '','') (join '','' (map stream_str ss)) = map stream_str ss"
    by (intro split_at_comma) (use assms in \<open>auto simp: list_all_iff\<close>)
  then show ?thesis by (simp add: parse_streams_def collect_results_iff)
qed

definition list_param :: "('a \<Rightarrow> string) \<Rightarrow> 'a list \<Rightarrow> string option" where
  "list_param str xs = (if xs = [] then None else Some (join '','' (map str xs)))"

definition query_of_filter :: "log_filter \<Rightarrow> log_query" where
  "query_of_filter f =
     \<lparr>lq_from = lf_from f, lq_to = lf_to f, lq_q = lf_query f, lq_level = list_param level_str (lf_levels f),
      lq_stream = list_param stream_str (lf_streams f), lq_limit = lf_limit f, lq_before = lf_before f,
      lq_after = lf_after f\<rparr>"

text \<open>
  Each filter that the store understands can be asked for: the query that spells a filter out is
  parsed back to that filter, unless it has two cursors or an empty range, which are refused.
\<close>

theorem log_filter_roundtrip:
  "log_query_filter (query_of_filter f) =
     (if lf_before f \<noteq> None \<and> lf_after f \<noteq> None
      then Inl (BadRequest ''before and after are mutually exclusive'')
      else if \<exists>a b. lf_from f = Some a \<and> lf_to f = Some b \<and> b < a
      then Inl (BadRequest ''from must be before or equal to to'') else Inr f)"
proof -
  have "parse_levels (lq_level (query_of_filter f)) = Inr (lf_levels f)"
    "parse_streams (lq_stream (query_of_filter f)) = Inr (lf_streams f)"
    using parse_levels_join [of "lf_levels f"] parse_streams_join [of "lf_streams f"]
    by (auto simp: query_of_filter_def list_param_def parse_levels_def parse_streams_def)
  then show ?thesis
    by (cases f) (auto simp: log_query_filter_def query_of_filter_def split: option.splits)
qed

definition valid_list_param :: "('a \<Rightarrow> string) \<Rightarrow> 'a list \<Rightarrow> string option \<Rightarrow> bool" where
  "valid_list_param str xs v =
     (case v of None \<Rightarrow> True | Some s \<Rightarrow> set (split_at (\<lambda>c. c = CHR '','') s) \<subseteq> str ` set xs)"

definition valid_log_query :: "log_query \<Rightarrow> bool" where
  "valid_log_query q \<longleftrightarrow>
     (lq_before q = None \<or> lq_after q = None) \<and>
     (case (lq_from q, lq_to q) of (Some a, Some b) \<Rightarrow> a \<le> b | _ \<Rightarrow> True) \<and>
     valid_list_param level_str [LogDebug, LogInfo, LogWarn, LogError] (lq_level q) \<and>
     valid_list_param stream_str [Stdout, Stderr] (lq_stream q)"

lemma parse_levels_ok:
  "(\<exists>ls. parse_levels v = Inr ls) \<longleftrightarrow> valid_list_param level_str [LogDebug, LogInfo, LogWarn, LogError] v"
proof -
  have "(\<exists>l. parse_level i = Inr l) \<longleftrightarrow> i \<in> level_str ` {LogDebug, LogInfo, LogWarn, LogError}" for i
    by (auto simp: parse_level_def)
  then show ?thesis
    by (cases v) (simp_all add: parse_levels_def valid_list_param_def collect_results_ok subset_eq)
qed

lemma parse_streams_ok:
  "(\<exists>ss. parse_streams v = Inr ss) \<longleftrightarrow> valid_list_param stream_str [Stdout, Stderr] v"
proof -
  have "(\<exists>s. parse_stream i = Inr s) \<longleftrightarrow> i \<in> stream_str ` {Stdout, Stderr}" for i
    by (auto simp: parse_stream_def)
  then show ?thesis
    by (cases v) (simp_all add: parse_streams_def valid_list_param_def collect_results_ok subset_eq)
qed

lemma collect_results_Inl:
  "collect_results rs = Inl e \<Longrightarrow> Inl e \<in> set rs"
proof (induction rs)
  case (Cons r rs)
  then show ?case by (cases r; cases "collect_results rs") auto
qed simp

lemma list_param_error:
  "parse_levels v = Inl e \<Longrightarrow> error_status e = 400" "parse_streams w = Inl e \<Longrightarrow> error_status e = 400"
  by (auto simp: parse_levels_def parse_streams_def parse_level_def parse_stream_def
      split: option.splits if_splits dest!: collect_results_Inl)

text \<open>
  A log request is answered from the store exactly when it has at most one cursor, its range is
  not reversed and every item of its two lists is a name; otherwise the answer is 400 and the store
  is not asked.
\<close>

theorem logs_page_refuses_iff:
  "(case log_query_filter q of
      Inr f \<Rightarrow> valid_log_query q
    | Inl e \<Rightarrow> \<not> valid_log_query q \<and> error_status e = 400 \<and> logs_page env st service q = (st, Some (Inl e)))"
proof (cases "log_query_filter q")
  case (Inr f)
  then show ?thesis
    using parse_levels_ok [of "lq_level q"] parse_streams_ok [of "lq_stream q"]
    by (auto simp: log_query_filter_def valid_log_query_def and_then_Inr_iff split: if_splits option.splits)
next
  case (Inl e)
  have "\<not> valid_log_query q \<and> error_status e = 400"
  proof (cases "\<exists>ls ss. parse_levels (lq_level q) = Inr ls \<and> parse_streams (lq_stream q) = Inr ss")
    case True
    with Inl show ?thesis
      by (auto simp: log_query_filter_def valid_log_query_def split: if_splits option.splits)
  next
    case False
    then have "\<not> valid_log_query q"
      using parse_levels_ok [of "lq_level q"] parse_streams_ok [of "lq_stream q"] by (auto simp: valid_log_query_def)
    moreover have "error_status e = 400"
      using Inl by (cases "parse_levels (lq_level q)"; cases "parse_streams (lq_stream q)")
        (auto simp: log_query_filter_def list_param_error split: if_splits)
    ultimately show ?thesis by simp
  qed
  with Inl show ?thesis by (simp add: logs_page_def)
qed


section \<open>The groups\<close>

lemma merge_fold:
  assumes "bt_wf m"
  defines "step \<equiv> \<lambda>services c.
       bt_entry (ct_service c) \<lparr>ss_last_received = None, ss_live = False\<rparr>
         (\<lambda>s. s\<lparr>ss_live := ss_live s \<or> ct_state c = Some Running\<rparr>) services"
  shows "bt_wf (foldl step m cs) \<and>
    map_of (foldl step m cs) s =
      (if map_of m s = None \<and> (\<forall>c \<in> set cs. ct_service c \<noteq> s) then None
       else Some (let d = unwrap_or \<lparr>ss_last_received = None, ss_live = False\<rparr> (map_of m s) in
         d\<lparr>ss_live := ss_live d \<or> (\<exists>c \<in> set cs. ct_service c = s \<and> ct_state c = Some Running)\<rparr>))"
  using assms(1)
proof (induction cs arbitrary: m)
  case Nil
  then show ?case by (cases "map_of m s") (auto simp: unwrap_or_def)
next
  case (Cons c cs)
  have wf: "bt_wf (step m c)" using Cons.prems by (simp add: step_def)
  have get: "map_of (step m c) = (map_of m)(ct_service c \<mapsto>
      (let d = unwrap_or \<lparr>ss_last_received = None, ss_live = False\<rparr> (map_of m (ct_service c)) in
       d\<lparr>ss_live := ss_live d \<or> ct_state c = Some Running\<rparr>))"
    using Cons.prems by (simp add: step_def bt_get_entry unwrap_or_def Let_def)
  show ?case using Cons.IH [OF wf] by (auto simp: get unwrap_or_def Let_def split: option.splits)
qed

lemma merge_services_get:
  assumes "bt_wf stored"
  shows "bt_wf (merge_services stored cs) \<and>
    map_of (merge_services stored cs) s =
      (if map_of stored s = None \<and> (\<forall>c \<in> set cs. ct_service c \<noteq> s) then None
       else Some \<lparr>ss_last_received = map_of stored s,
                  ss_live = (\<exists>c \<in> set cs. ct_service c = s \<and> ct_state c = Some Running)\<rparr>)"
proof -
  let ?m = "bt_collect (map (\<lambda>(service, ts). (service, \<lparr>ss_last_received = Some ts, ss_live = False\<rparr>)) stored)"
  have "map_of ?m s = map_option (\<lambda>ts. \<lparr>ss_last_received = Some ts, ss_live = False\<rparr>) (map_of stored s)"
    using bt_wf_hm_wf [OF assms]
    using map_of_map [of "\<lambda>ts. \<lparr>ss_last_received = Some ts, ss_live = False\<rparr>" stored]
    by (subst bt_get_collect_distinct) (simp_all add: hm_wf_def comp_def split_def)
  then show ?thesis
    using merge_fold [of ?m cs s] unfolding merge_services_def
    by (cases "map_of stored s") (auto simp: unwrap_or_def Let_def)
qed


text \<open>The service of a checkpoint row by the names of the registry, and its newest time stamp.\<close>

definition row_service :: "app_state \<Rightarrow> checkpoint_row \<Rightarrow> string option" where
  "row_service st r =
     (case stored_service_id (kr_sid r) of Inl _ \<Rightarrow> None | Inr sid \<Rightarrow> registry_name (as_services st) sid)"

definition last_received :: "app_state \<Rightarrow> string \<Rightarrow> i64 option" where
  "last_received st s =
     list_max (map kr_ts (filter (\<lambda>r. row_service st r = Some s) (md_checkpoints (as_metadata st))))"

definition names_unique :: "service_registry \<Rightarrow> bool" where
  "names_unique rg \<longleftrightarrow> distinct (map snd (rg_by_id rg)) \<and> hm_wf (rg_by_id rg)"

lemma names_uniqueD:
  assumes "names_unique rg" "registry_name rg a = Some s" "registry_name rg b = Some s"
  shows "a = b"
proof -
  have "(a, s) \<in> set (rg_by_id rg)" "(b, s) \<in> set (rg_by_id rg)"
    using assms by (auto simp: names_unique_def registry_name_def dest: map_of_SomeD)
  with assms(1) show ?thesis
    by (fastforce simp: names_unique_def distinct_map inj_on_def)
qed

lemma stored_pairs:
  "map (\<lambda>i. and_then (stored_service_id i) (\<lambda>s. Inr (s, g i))) ids = map Inr ws \<Longrightarrow>
     ids = map (\<lambda>w. sid_int (fst w)) ws \<and> ws = map (\<lambda>s. (s, g (sid_int s))) (map fst ws)"
proof (induction ws arbitrary: ids)
  case (Cons w ws)
  then obtain i js where ids: "ids = i # js" by (cases ids) auto
  with Cons.prems have i: "and_then (stored_service_id i) (\<lambda>s. Inr (s, g i)) = Inr w" by simp
  then obtain s where "stored_service_id i = Inr s" "w = (s, g i)" by (auto simp: and_then_Inr_iff)
  then have "i = sid_int (fst w) \<and> w = (fst w, g (sid_int (fst w)))" by (simp add: stored_sid_Inr)
  with Cons.IH [of js] Cons.prems show ?case by (simp add: ids)
qed simp

lemma watermarks_result:
  assumes "list_service_log_watermarks db = (db', Inr ws)"
  shows "md_checkpoints db' = md_checkpoints db" "distinct (map fst ws)"
    "map_of ws sid = list_max (map kr_ts (filter (\<lambda>r. kr_sid r = sid_int sid) (md_checkpoints db)))"
proof -
  let ?rows = "md_checkpoints db"
  let ?ids = "sort (remdups (map kr_sid ?rows))"
  let ?max = "\<lambda>i. the (list_max (map kr_ts (filter (\<lambda>r. kr_sid r = i) ?rows)))"
  obtain db1 where n: "md_next db = (None, db1)"
    using assms by (cases "md_next db") (auto simp: list_service_log_watermarks_def split: option.splits)
  have same: "md_checkpoints db1 = ?rows" using md_next_tables [OF n] by simp
  have res: "db' = db1" "map (\<lambda>i. and_then (stored_service_id i) (\<lambda>s. Inr (s, ?max i))) ?ids = map Inr ws"
    using assms by (simp_all add: list_service_log_watermarks_def n same Let_def collect_results_iff)
  show "md_checkpoints db' = ?rows" using res(1) same by simp
  note pairs = stored_pairs [OF res(2)]
  have "distinct (map (\<lambda>w. sid_int (fst w)) ws)" using pairs by (metis distinct_remdups distinct_sort)
  then show d: "distinct (map fst ws)"
    by (simp add: distinct_map inj_on_def)
  have keys: "sid \<in> fst ` set ws \<longleftrightarrow> sid_int sid \<in> kr_sid ` set ?rows"
  proof -
    have "inj sid_int" by (metis injI stored_sid_int sum.inject(2))
    moreover have "kr_sid ` set ?rows = (\<lambda>w. sid_int (fst w)) ` set ws" using pairs by (metis list.set_map set_remdups set_sort)
    then have "kr_sid ` set ?rows = sid_int ` (fst ` set ws)" by (simp add: image_image)
    ultimately show ?thesis by (simp add: inj_image_mem_iff)
  qed
  show "map_of ws sid = list_max (map kr_ts (filter (\<lambda>r. kr_sid r = sid_int sid) ?rows))"
  proof (cases "sid \<in> fst ` set ws")
    case True
    then have "(sid, ?max (sid_int sid)) \<in> set ws" using pairs by (metis (no_types, lifting) imageI list.set_map)
    then have "map_of ws sid = Some (?max (sid_int sid))" using d by simp
    moreover have "filter (\<lambda>r. kr_sid r = sid_int sid) ?rows \<noteq> []"
      using True keys by (auto simp: filter_empty_conv)
    ultimately show ?thesis by (cases "filter (\<lambda>r. kr_sid r = sid_int sid) ?rows") (auto simp: list_max_Max)
  next
    case False
    then have "filter (\<lambda>r. kr_sid r = sid_int sid) ?rows = []"
      using keys by (force simp: filter_empty_conv)
    moreover have "map_of ws sid = None" using False by (simp add: map_of_eq_None_iff)
    ultimately show ?thesis by (simp add: list_max_def)
  qed
qed

lemma resolved_get:
  assumes "names_unique (as_services st)" "list_service_log_watermarks (as_metadata st) = (db, Inr ws)"
  defines "named \<equiv> List.map_filter
      (\<lambda>(sid, ts). map_option (\<lambda>name. (name, ts)) (registry_name (as_services st) sid)) ws"
  shows "map_of (bt_collect named) s = last_received st s"
proof -
  let ?rg = "as_services st"
  note w = watermarks_result [OF assms(2)]
  have mem: "(n, t) \<in> set named \<longleftrightarrow> (\<exists>sid. (sid, t) \<in> set ws \<and> registry_name ?rg sid = Some n)" for n t
    by (auto simp: named_def set_map_filter split_def) (metis fst_conv snd_conv)
  have uniq: "t = t'" if "(n, t) \<in> set named" "(n, t') \<in> set named" for n t t'
  proof -
    from that mem obtain a b where "(a, t) \<in> set ws" "registry_name ?rg a = Some n"
      "(b, t') \<in> set ws" "registry_name ?rg b = Some n" by blast
    with names_uniqueD [OF assms(1)] w(2) show ?thesis by (metis eq_key_imp_eq_value)
  qed
  have get: "map_of (rev named) s = Some t \<longleftrightarrow> (s, t) \<in> set named" for t
    using uniq by (auto dest: map_of_SomeD) (metis map_of_SomeD map_of_eq_None_iff not_Some_eq set_rev weak_map_of_SomeI)
  have rows: "row_service st r = Some s \<longleftrightarrow> (\<exists>sid. kr_sid r = sid_int sid \<and> registry_name ?rg sid = Some s)" for r
    by (cases "stored_service_id (kr_sid r)") (auto simp: row_service_def stored_sid_Inr)
  show ?thesis
  proof (cases "\<exists>sid. registry_name ?rg sid = Some s")
    case True
    then obtain sid where sid: "registry_name ?rg sid = Some s" by blast
    have "row_service st r = Some s \<longleftrightarrow> kr_sid r = sid_int sid" for r
      using rows [of r] sid names_uniqueD [OF assms(1) _ sid] by blast
    then have "last_received st s = map_of ws sid" by (simp add: last_received_def w(3))
    moreover have "(s, t) \<in> set named \<longleftrightarrow> (sid, t) \<in> set ws" for t
      using mem sid names_uniqueD [OF assms(1) _ sid] by blast
    ultimately have "map_of (rev named) s = Some t \<longleftrightarrow> last_received st s = Some t" for t
      using get w(2) by simp
    then show ?thesis by (metis bt_get_collect option.exhaust)
  next
    case False
    then have "last_received st s = None" "\<And>t. (s, t) \<notin> set named"
      using rows mem by (auto simp: last_received_def filter_empty_conv)
    then show ?thesis using get by (metis bt_get_collect option.exhaust)
  qed
qed



text \<open>A state with one running container and a fresh database, for the examples.\<close>

definition web_state :: app_state where
  "web_state =
     app_state_new (projr (from_env (\<lambda>_. None))) (web_service Running) (fresh_store 40) (log_store_new 300000)"

lemma web_state_parts:
  "as_services web_state = registry_empty" "as_metadata web_state = empty_metadata"
  "cy_info (dk_registry (as_docker web_state)) = [(map_container_summary example_summary)\<lparr>ct_state := Some Running\<rparr>]"
  "cy_info_poisoned (dk_registry (as_docker web_state)) = False"
  by (simp_all add: web_state_def app_state_new_def as_services_def as_metadata_def web_service_def
      docker_service_new_def container_registry_new_def Let_def)

lemma web_groups:
  "list_groups web_state =
     (put_metadata empty_metadata web_state,
      Inr (merge_services [] [(map_container_summary example_summary)\<lparr>ct_state := Some Running\<rparr>]))"
proof -
  have "list_service_log_watermarks empty_metadata = (empty_metadata, Inr [])"
    by (simp add: list_service_log_watermarks_def empty_metadata_def md_next_def Let_def)
  moreover have "bt_collect ([] :: (string \<times> i64) list) = []" by (simp add: bt_collect_def)
  ultimately show ?thesis
    by (simp add: list_groups_def resolve_watermarks_def web_state_parts List.map_filter_simps
        containers_list_def containers_info_def put_metadata_def)
qed


theorem logs_page_refuses_iff_witness:
  "logs_page env web_state service
     \<lparr>lq_from = Some 2, lq_to = Some 1, lq_q = None, lq_level = None, lq_stream = None, lq_limit = None,
      lq_before = None, lq_after = None\<rparr> =
     (web_state, Some (Inl (BadRequest ''from must be before or equal to to'')))"
  using logs_page_refuses_iff [of "\<lparr>lq_from = Some 2, lq_to = Some 1, lq_q = None, lq_level = None, lq_stream = None,
     lq_limit = None, lq_before = None, lq_after = None\<rparr>" env web_state service]
  by (simp add: log_query_filter_def)

section \<open>Actions\<close>

text \<open>
  A container action is always answered: with 204 and at most one command to Docker, or with a
  documented status, 400 exactly for a malformed id; the routes never reach the panic of the
  dispatch.
\<close>

theorem action_outcome:
  assumes "action \<in> {''start'', ''stop'', ''restart''}"
  shows "\<exists>res. run_action st cid action = Some res \<and>
    (case res of Inr (code, cmds) \<Rightarrow> code = 204 \<and> length cmds \<le> 1
     | Inl e \<Rightarrow> error_status e \<in> {400, 403, 404, 409, 502} \<and> (error_status e = 400 \<longleftrightarrow> parse_cid cid = None))"
proof (cases "parse_cid cid")
  case None
  then show ?thesis by (simp add: run_action_def)
next
  case (Some c)
  have target: "control_target sv c = Inl e \<Longrightarrow> error_status e \<in> {403, 404, 409, 502}" for sv e
    by (auto simp: control_target_def ensure_connected_def container_info_def containers_info_def
        split: if_splits option.splits)
  have start: "case start_container sv c of Inr (code, cmds) \<Rightarrow> length cmds \<le> 1
      | Inl e \<Rightarrow> error_status e \<in> {403, 404, 409, 502}" for sv
    using target by (cases "control_target sv c") (auto simp: start_container_def state_conflict_def)
  have stop: "case stop_container sv c of Inr (code, cmds) \<Rightarrow> length cmds \<le> 1
      | Inl e \<Rightarrow> error_status e \<in> {403, 404, 409, 502}" for sv
    using target by (cases "control_target sv c") (auto simp: stop_container_def state_conflict_def)
  have restart: "case restart_container sv c of Inr (code, cmds) \<Rightarrow> length cmds \<le> 1
      | Inl e \<Rightarrow> error_status e \<in> {403, 404, 409, 502}" for sv
    using target by (cases "control_target sv c") (auto simp: restart_container_def state_conflict_def)
  have answer: "case and_then res (\<lambda>(_, cmds). Inr (no_content, cmds)) of
        Inr (code, cmds) \<Rightarrow> code = 204 \<and> length cmds \<le> 1
      | Inl e \<Rightarrow> error_status e \<in> {400, 403, 404, 409, 502} \<and> (error_status e = 400 \<longleftrightarrow> parse_cid cid = None)"
    if "case res of Inr (code, cmds) \<Rightarrow> length cmds \<le> 1 | Inl e \<Rightarrow> error_status e \<in> {403, 404, 409, 502}"
    for res :: "(container_command_result \<times> docker_command list) app_result"
    using that Some by (auto simp: no_content_def split: sum.splits)
  from assms show ?thesis
    using answer [OF start [of "as_docker st"]] answer [OF stop [of "as_docker st"]]
      answer [OF restart [of "as_docker st"]]
    by (auto simp: run_action_def Some)
qed

theorem action_outcome_witness:
  "\<exists>e. run_action web_state ''xyz'' ''start'' = Some (Inl e) \<and> error_status e = 400"
proof -
  have "parse_cid ''xyz'' = None" by (simp add: parse_cid_def str_get_to_def is_char_boundary_def)
  moreover from this have "run_action web_state ''xyz'' ''start'' = Some (Inl (BadRequest ''invalid container id''))"
    by (simp add: run_action_def)
  ultimately show ?thesis using action_outcome [of "''start''" web_state "''xyz''"]
    by (auto simp del: error_status.simps)
qed

section \<open>Metrics\<close>

text \<open>The two container endpoints agree: the history holds the sums of the groups.\<close>

lemma history_is_sums:
  assumes "metrics_containers_history st q = (st1, Inr history)"
    and "hm_wf by_service"
    and "metrics_by_service st rg (for_range rg) = (st1, Inr by_service)" "metrics_query_parse q = Inr rg"
  shows "hm_get (mr_data history) service = map_option gm_sum (hm_get by_service service)"
    "\<exists>one. metrics_container st service q = (st1, Inr one) \<and>
       mr_data one = unwrap_or default_group_metrics (hm_get by_service service) \<and>
       mr_resolution one = mr_resolution history"
proof -
  have "hm_get (hm_collect (map (\<lambda>(service, g). (service, gm_sum g)) by_service)) service =
      map_option gm_sum (hm_get by_service service)"
    using assms(2) by (subst hm_get_collect_distinct) (simp_all add: hm_wf_def comp_def split_def map_of_map [unfolded split_def])
  with assms show "hm_get (mr_data history) service = map_option gm_sum (hm_get by_service service)"
    by (auto simp: metrics_containers_history_def)
  show "\<exists>one. metrics_container st service q = (st1, Inr one) \<and>
       mr_data one = unwrap_or default_group_metrics (hm_get by_service service) \<and>
       mr_resolution one = mr_resolution history"
    using assms by (auto simp: metrics_containers_history_def metrics_container_def)
qed

end
