(* ===== verification/Collector_Loop.thy ===== *)
theory Collector_Loop
  imports Metrics_Laws Bucket_Watcher Snapshot
begin

text \<open>
  \<open>metrics/collector.rs\<close> and \<open>collect_host_once\<close> of \<open>metrics/collector_host.rs\<close>: the two loops that
  take raw samples, show them in the snapshot, write the rows of closed buckets to the store and
  announce the buckets that were written. The outcomes of the sampling and of the size measurements
  are inputs of a step; the outcomes of the database are those of the store's state.
\<close>

record collector_loop =
  cl_host :: host_collector_state
  cl_containers :: container_collector_state
  cl_metrics :: metrics_store
  cl_snapshot :: metrics_snapshot_state
  cl_watcher :: bucket_watcher
  cl_log_pressure :: u64

definition collect_host_once ::
    "collector_loop \<Rightarrow> host_raw_sample app_result \<Rightarrow> u64 app_result \<Rightarrow> u64 app_result \<Rightarrow> collector_loop"
  where
  "collect_host_once l sampled metrics_size logs_size =
     (case sampled of Inl _ \<Rightarrow> l
      | Inr s0 \<Rightarrow> (case metrics_size of Inl _ \<Rightarrow> l
        | Inr ms \<Rightarrow> (case logs_size of Inl _ \<Rightarrow> l
          | Inr ls \<Rightarrow>
              (let s = s0\<lparr>hr_metrics_size := ms, hr_logs_size := ls,
                          hr_log_pressure_pct_mill := cl_log_pressure l\<rparr>;
                   (host, row) = host_observe (cl_host l) s;
                   l1 = l\<lparr>cl_log_pressure := 0, cl_snapshot := record_host (cl_snapshot l) s,
                          cl_host := host\<rparr>
               in case row of None \<Rightarrow> l1
                  | Some r \<Rightarrow>
                      (case store_insert_host (cl_metrics l1) r of
                         (st, Inr _) \<Rightarrow>
                           l1\<lparr>cl_metrics := st,
                              cl_watcher := observe_sample (cl_watcher l1) HostSource (hs_ts r)\<rparr>
                       | (st, Inl _) \<Rightarrow> l1\<lparr>cl_metrics := st\<rparr>)))))"

definition collect_containers_once ::
    "(service_id \<Rightarrow> string option) \<Rightarrow> collector_loop \<Rightarrow> container_raw_sample list \<Rightarrow> collector_loop"
  where
  "collect_containers_once name_of l batch =
     (let l0 = l\<lparr>cl_snapshot := record_containers name_of (cl_snapshot l) batch\<rparr>;
          (cs, rows) = cc_observe (cl_containers l0) batch;
          l1 = l0\<lparr>cl_containers := cs\<rparr>
      in case list_max (map cs_ts rows) of None \<Rightarrow> l1
         | Some latest \<Rightarrow>
             (case store_insert_containers (cl_metrics l1) rows of
                (st, Inr _) \<Rightarrow>
                  l1\<lparr>cl_metrics := st,
                     cl_watcher := observe_sample (cl_watcher l1) ContainersSource latest\<rparr>
              | (st, Inl _) \<Rightarrow> l1\<lparr>cl_metrics := st\<rparr>))"

definition loop_new :: "nat \<Rightarrow> metrics_store \<Rightarrow> collector_loop" where
  "loop_new interval st =
     \<lparr>cl_host = host_collector_new interval, cl_containers = container_collector_new interval,
      cl_metrics = st, cl_snapshot = snapshot_new interval, cl_watcher = watcher_new,
      cl_log_pressure = 0\<rparr>"

section \<open>Steps\<close>

text \<open>Timestamps of a clock that is not astronomically wrong.\<close>

definition clock_ok :: "i64 \<Rightarrow> bool" where
  "clock_ok ts \<longleftrightarrow> - (2 ^ 60) \<le> ts \<and> ts \<le> 2 ^ 60"

text \<open>
  The two tasks run concurrently and share the store and the watcher; one step is one pass of
  either. A log task may raise the log pressure in between.
\<close>

inductive collector_step ::
    "(service_id \<Rightarrow> string option) \<Rightarrow> collector_loop \<Rightarrow> collector_loop \<Rightarrow> bool" for name_of where
  host_tick: "(\<forall>s. sampled = Inr s \<longrightarrow> clock_ok (hr_ts s)) \<Longrightarrow>
     collector_step name_of l (collect_host_once l sampled ms ls)"
| container_batch: "(\<forall>s\<in>set batch. clock_ok (cr_ts s)) \<Longrightarrow>
     collector_step name_of l (collect_containers_once name_of l batch)"
| pressure: "collector_step name_of l (l\<lparr>cl_log_pressure := p\<rparr>)"

inductive collector_reach ::
    "(service_id \<Rightarrow> string option) \<Rightarrow> collector_loop \<Rightarrow> collector_loop \<Rightarrow> bool" for name_of l0 where
  reach_start: "collector_reach name_of l0 l0"
| reach_step: "collector_reach name_of l0 l \<Longrightarrow> collector_step name_of l l' \<Longrightarrow> collector_reach name_of l0 l'"

inductive_cases collector_stepE: "collector_step name_of l l'"

section \<open>What is announced is stored\<close>

lemma bucket_end_idem:
  assumes "clock_ok ts"
  shows "bucket_end (bucket_end ts 10000) 10000 = bucket_end ts 10000"
proof -
  have ts: "ts_ok ts" "- (2 ^ 60) \<le> ts" "ts \<le> 2 ^ 60" using assms by (simp_all add: clock_ok_def ts_ok_def)
  note w = bucket_end_window [OF ts(1), of TenSeconds, simplified]
  then have "ts_ok (bucket_end ts 10000)" using ts by (simp add: ts_ok_def)
  from bucket_end_unique [OF this, of TenSeconds "bucket_end ts 10000"] w show ?thesis by simp
qed

lemma schema_insert_host_table:
  assumes "schema_insert_host db r s = (db1, res)"
  shows "r' \<noteq> r \<Longrightarrow> db_host db1 r' = db_host db r'" "db_containers db1 = db_containers db"
    "res = Inr u \<Longrightarrow> hs_ts s \<in> hw_ts ` set (db_host db1 r)"
    "hw_ts ` set (db_host db r) \<subseteq> hw_ts ` set (db_host db1 r)"
  using assms
  by (auto simp: schema_insert_host_def insert_row_def dest!: next_fault_tables
      split: sum.splits prod.splits option.splits if_splits)

lemma insert_host_all_table:
  "insert_host_all db r ss = (db1, res) \<Longrightarrow> r' \<noteq> r \<Longrightarrow> db_host db1 r' = db_host db r'"
  "insert_host_all db r ss = (db1, res) \<Longrightarrow> db_containers db1 = db_containers db"
  by (induction ss arbitrary: db)
    (auto split: prod.splits sum.splits dest: schema_insert_host_table)

lemma roll_host_closed_table:
  "roll_host_closed samples pct cs db = (db1, res) \<Longrightarrow> r \<notin> fst ` set cs \<Longrightarrow> db_host db1 r = db_host db r"
  "roll_host_closed samples pct cs db = (db1, res) \<Longrightarrow> db_containers db1 = db_containers db"
proof (induction cs arbitrary: db)
  case (Cons rc cs)
  { case 1 then show ?case using Cons.IH(1) insert_host_all_table(1)
      by (cases rc) (fastforce split: prod.splits sum.splits) }
  { case 2 then show ?case using Cons.IH(2) insert_host_all_table(2)
      by (cases rc) (fastforce split: prod.splits sum.splits) }
qed simp_all

lemma roll_up_host_table:
  "db_host (fst (roll_up_host db p n pct)) TenSeconds = db_host db TenSeconds"
  "db_containers (fst (roll_up_host db p n pct)) = db_containers db"
proof -
  have "TenSeconds \<notin> fst ` set (resolutions_closed_by p n)" by (auto simp: closed_set coarse_def)
  then show "db_host (fst (roll_up_host db p n pct)) TenSeconds = db_host db TenSeconds"
    "db_containers (fst (roll_up_host db p n pct)) = db_containers db"
    by (auto simp: roll_up_host_def Let_def schema_select_host_def roll_host_closed_table
        dest!: next_fault_tables split: option.splits prod.splits sum.splits)
      (metis fst_conv roll_host_closed_table surj_pair)+
qed

lemma insert_row_key_set: "insert_row rp key r t = Some t' \<Longrightarrow> key ` set t' = insert (key r) (key ` set t)"
  by (auto simp: insert_row_def image_iff split: if_splits)

lemma insert_rows_key_set:
  "insert_rows rp key rs t = Some t' \<Longrightarrow> key ` set t' = key ` set rs \<union> key ` set t"
proof (induction rs arbitrary: t)
  case (Cons r rs)
  then obtain y where "insert_row rp key r t = Some y" "insert_rows rp key rs y = Some t'"
    by (auto simp: bind_eq_Some_conv)
  with Cons.IH [of y] insert_row_key_set [of rp key r t y] show ?case by simp
qed simp

lemma insert_chunks_tables:
  assumes "insert_chunks rp cs db t = (db1, res)"
  shows "db_host db1 = db_host db" "db_containers db1 = db_containers db"
    "res = Inr t' \<Longrightarrow> insert_rows rp container_key (concat cs) t = Some t'"
  using assms
proof (induction cs arbitrary: db t)
  case (Cons c cs)
  { case 1 then show ?case using Cons.IH(1)
      by (auto split: prod.splits option.splits dest!: next_fault_tables) }
  { case 2 then show ?case using Cons.IH(2)
      by (auto split: prod.splits option.splits dest!: next_fault_tables) }
  { case 3 then show ?case using Cons.IH(3)
      by (auto simp: insert_rows_append split: prod.splits option.splits) }
qed simp_all

lemma insert_chunks_same:
  "insert_chunks rp cs db t = (db1, res) \<Longrightarrow>
     db_host db1 = db_host db \<and> db_containers db1 = db_containers db"
  using insert_chunks_tables(1,2) by blast

lemma collect_results_rows:
  "collect_results (map container_row_of samples) = Inr rows \<Longrightarrow> rows = map container_row samples"
  by (induction samples arbitrary: rows) auto

lemma schema_insert_containers_other:
  assumes "schema_insert_containers db r samples = (db1, res)"
  shows "db_host db1 = db_host db" "r' \<noteq> r \<Longrightarrow> db_containers db1 r' = db_containers db r'"
  using assms
  by (auto simp: schema_insert_containers_def dest!: next_fault_tables insert_chunks_same
      split: if_splits sum.splits prod.splits option.splits)

lemma schema_insert_containers_same:
  assumes "schema_insert_containers db r samples = (db1, res)"
  shows "container_key ` set (db_containers db r) \<subseteq> container_key ` set (db_containers db1 r)"
    "res = Inr u \<Longrightarrow> container_key ` container_row ` set samples \<subseteq> container_key ` set (db_containers db1 r)"
proof -
  consider (same) "db_containers db1 = db_containers db" "samples = [] \<or> isl res"
    | (inserted) rows t where "collect_results (map container_row_of samples) = Inr rows"
        "insert_rows (insert_replaces r) container_key rows (db_containers db r) = Some t"
        "db_containers db1 r = t"
  proof (cases "samples = [] \<or> isl res")
    case True
    then have "db_containers db1 = db_containers db"
      using assms by (auto simp: schema_insert_containers_def dest!: next_fault_tables insert_chunks_same
        split: if_splits sum.splits prod.splits option.splits)
    with True show ?thesis using same by blast
  next
    case False
    have c: "concat (chunks insert_chunk_rows xs) = xs" for xs :: "container_row list"
      by (rule concat_chunks) (simp add: insert_chunk_rows_def)
    obtain rows a db2 t db3 where "collect_results (map container_row_of samples) = Inr rows"
      "next_fault db = (None, a)" and i: "insert_chunks (insert_replaces r) (chunks insert_chunk_rows rows) a
         (db_containers a r) = (db2, Inr t)"
      and "next_fault db2 = (None, db3)" "db1 = db3\<lparr>db_containers := (db_containers db3)(r := t)\<rparr>"
      using assms False by (auto simp: schema_insert_containers_def
          split: if_splits sum.splits prod.splits option.splits)
    then show ?thesis
      using insert_chunks_tables(3) [OF i refl] next_fault_tables [of db None a] by (intro inserted) (simp_all add: c)
  qed
  then have "container_key ` set (db_containers db r) \<subseteq> container_key ` set (db_containers db1 r) \<and>
      (res = Inr u \<longrightarrow> container_key ` container_row ` set samples \<subseteq> container_key ` set (db_containers db1 r))"
    by cases (auto dest!: insert_rows_key_set collect_results_rows)
  then show "container_key ` set (db_containers db r) \<subseteq> container_key ` set (db_containers db1 r)"
    "res = Inr u \<Longrightarrow> container_key ` container_row ` set samples \<subseteq> container_key ` set (db_containers db1 r)"
    by blast+
qed

lemma roll_containers_closed_table:
  "roll_containers_closed samples pct cs db = (db1, res) \<Longrightarrow> r \<notin> fst ` set cs
    \<Longrightarrow> db_containers db1 r = db_containers db r"
  "roll_containers_closed samples pct cs db = (db1, res) \<Longrightarrow> db_host db1 = db_host db"
proof (induction cs arbitrary: db)
  case (Cons rc cs)
  { case 1 then show ?case using Cons.IH(1) schema_insert_containers_other(2)
      by (cases rc) (fastforce simp: Let_def split: prod.splits sum.splits) }
  { case 2 then show ?case using Cons.IH(2) schema_insert_containers_other(1)
      by (cases rc) (fastforce simp: Let_def split: prod.splits sum.splits) }
qed simp_all

lemma roll_up_containers_table:
  "db_containers (fst (roll_up_containers db p n pct)) TenSeconds = db_containers db TenSeconds"
  "db_host (fst (roll_up_containers db p n pct)) = db_host db"
proof -
  have "TenSeconds \<notin> fst ` set (resolutions_closed_by p n)" by (auto simp: closed_set coarse_def)
  then show "db_containers (fst (roll_up_containers db p n pct)) TenSeconds = db_containers db TenSeconds"
    "db_host (fst (roll_up_containers db p n pct)) = db_host db"
    by (auto simp: roll_up_containers_def Let_def schema_select_containers_def
        dest!: next_fault_tables split: option.splits prod.splits sum.splits)
      (metis fst_conv roll_containers_closed_table surj_pair)+
qed

text \<open>The timestamps that the 10s tables hold.\<close>

definition stored_ts :: "metrics_store \<Rightarrow> metrics_source \<Rightarrow> int set" where
  "stored_ts st src =
     (case src of HostSource \<Rightarrow> hw_ts ` set (db_host (mt_db st) TenSeconds)
      | ContainersSource \<Rightarrow> cw_ts ` set (db_containers (mt_db st) TenSeconds))"

lemma container_ts_subset:
  "container_key ` A \<subseteq> container_key ` B \<Longrightarrow> cw_ts ` A \<subseteq> cw_ts ` B"
  by (force simp: container_key_def image_iff subset_iff)

lemma store_insert_host_stored:
  assumes "store_insert_host st s = (st', res)"
  shows "stored_ts st src \<subseteq> stored_ts st' src" "res = Inr u \<Longrightarrow> hs_ts s \<in> stored_ts st' HostSource"
proof -
  obtain db1 res1 where i: "schema_insert_host (mt_db st) TenSeconds s = (db1, res1)"
    by (cases "schema_insert_host (mt_db st) TenSeconds s") auto
  note t = schema_insert_host_table [OF i]
  have "res = res1 \<and> db_host (mt_db st') TenSeconds = db_host db1 TenSeconds \<and>
      db_containers (mt_db st') = db_containers db1"
    using assms by (auto simp: store_insert_host_def i Let_def roll_up_host_table
        split: sum.splits option.splits prod.splits)
  then show "stored_ts st src \<subseteq> stored_ts st' src" "res = Inr u \<Longrightarrow> hs_ts s \<in> stored_ts st' HostSource"
    using t by (auto simp: stored_ts_def split: metrics_source.splits)
qed

lemma store_insert_containers_stored:
  assumes "store_insert_containers st rows = (st', res)"
  shows "stored_ts st src \<subseteq> stored_ts st' src"
    "res = Inr u \<Longrightarrow> cs_ts ` set rows \<subseteq> stored_ts st' ContainersSource"
proof -
  consider (empty) "rows = []" "st' = st" | (tables) db1 where
      "schema_insert_containers (mt_db st) TenSeconds rows = (db1, res)"
      "db_containers (mt_db st') TenSeconds = db_containers db1 TenSeconds"
      "db_host (mt_db st') = db_host db1"
    using assms
    by (cases rows) (auto simp: store_insert_containers_def list_max_def Let_def roll_up_containers_table
        split: sum.splits option.splits prod.splits)
  then have "stored_ts st src \<subseteq> stored_ts st' src \<and>
      (res = Inr u \<longrightarrow> cs_ts ` set rows \<subseteq> stored_ts st' ContainersSource)"
  proof cases
    case (tables db1)
    note o = schema_insert_containers_other [OF tables(1)]
      and s = schema_insert_containers_same [OF tables(1), THEN container_ts_subset]
    show ?thesis using o s tables(2,3)
      by (auto simp: stored_ts_def image_image split: metrics_source.splits)
  qed simp
  then show "stored_ts st src \<subseteq> stored_ts st' src"
    "res = Inr u \<Longrightarrow> cs_ts ` set rows \<subseteq> stored_ts st' ContainersSource" by blast+
qed

definition announced_stored :: "collector_loop \<Rightarrow> bool" where
  "announced_stored l \<longleftrightarrow>
     (\<forall>src. watched (cl_watcher l) src TenSeconds = 0 \<or>
        watched (cl_watcher l) src TenSeconds \<in> stored_ts (cl_metrics l) src)"

definition cursor_ok :: "i64 option \<Rightarrow> bool" where
  "cursor_ok c \<longleftrightarrow> (\<forall>e. c = Some e \<longrightarrow> (\<exists>ts. clock_ok ts \<and> e = bucket_end ts 10000))"

definition loop_inv :: "collector_loop \<Rightarrow> bool" where
  "loop_inv l \<longleftrightarrow> watcher_inv (cl_watcher l) \<and> announced_stored l \<and>
     cursor_ok (hcs_last_raw_bucket_end (cl_host l)) \<and>
     cursor_ok (ccs_last_raw_bucket_end (cl_containers l))"

lemma loop_inv_new: "loop_inv (loop_new interval st)"
  by (simp add: loop_inv_def loop_new_def announced_stored_def cursor_ok_def host_collector_new_def
      container_collector_new_def)

lemma loop_inv_I:
  assumes "loop_inv l" "\<And>src. stored_ts (cl_metrics l) src \<subseteq> stored_ts st src"
    "w = cl_watcher l \<or> (\<exists>src e. w = observe_sample (cl_watcher l) src e \<and> e \<in> stored_ts st src \<and>
       bucket_end e 10000 = e)"
    "cursor_ok (hcs_last_raw_bucket_end h)" "cursor_ok (ccs_last_raw_bucket_end c)"
    "cl_metrics l' = st" "cl_watcher l' = w" "cl_host l' = h" "cl_containers l' = c"
  shows "loop_inv l'"
proof -
  have "watcher_inv w" using assms(1,3) by (auto simp: loop_inv_def)
  moreover have "watched w src TenSeconds = 0 \<or> watched w src TenSeconds \<in> stored_ts st src" for src
  proof -
    have "watched (cl_watcher l) src TenSeconds = 0 \<or> watched (cl_watcher l) src TenSeconds \<in> stored_ts st src"
      using assms(1) assms(2) [of src] by (auto simp: loop_inv_def announced_stored_def)
    moreover have "watcher_inv (cl_watcher l)" using assms(1) by (simp add: loop_inv_def)
    ultimately show ?thesis using assms(3) by (auto simp: watched_observe max_def)
  qed
  ultimately show ?thesis using assms by (simp add: loop_inv_def announced_stored_def)
qed

lemma host_tick_inv:
  assumes "loop_inv l" "\<forall>s. sampled = Inr s \<longrightarrow> clock_ok (hr_ts s)"
  shows "loop_inv (collect_host_once l sampled ms ls)"
proof (cases "isl sampled \<or> isl ms \<or> isl ls")
  case True
  then have "collect_host_once l sampled ms ls = l"
    by (auto simp: collect_host_once_def split: sum.splits)
  then show ?thesis using assms(1) by simp
next
  case False
  then obtain s0 m k where in_: "sampled = Inr s0" "ms = Inr m" "ls = Inr k" by (auto simp: isl_def) (metis obj_sumE)
  define s where "s = s0\<lparr>hr_metrics_size := m, hr_logs_size := k, hr_log_pressure_pct_mill := cl_log_pressure l\<rparr>"
  have ts: "clock_ok (hr_ts s)" using assms(2) in_ by (simp add: s_def)
  obtain host row where ob: "host_observe (cl_host l) s = (host, row)" by (cases "host_observe (cl_host l) s")
  have cur: "cursor_ok (hcs_last_raw_bucket_end host)" "cursor_ok (ccs_last_raw_bucket_end (cl_containers l))"
    using host_observe_last [of "cl_host l" s] ts assms(1) by (auto simp: ob cursor_ok_def loop_inv_def)
  have res: "collect_host_once l sampled ms ls = (let l1 = l\<lparr>cl_log_pressure := 0,
      cl_snapshot := record_host (cl_snapshot l) s, cl_host := host\<rparr> in case row of None \<Rightarrow> l1
      | Some r \<Rightarrow> (case store_insert_host (cl_metrics l) r of
          (st, Inr _) \<Rightarrow> l1\<lparr>cl_metrics := st, cl_watcher := observe_sample (cl_watcher l) HostSource (hs_ts r)\<rparr>
        | (st, Inl _) \<Rightarrow> l1\<lparr>cl_metrics := st\<rparr>))"
    by (simp add: collect_host_once_def in_ s_def [symmetric] ob Let_def split: option.split sum.split prod.split)
  show ?thesis
  proof (cases row)
    case None
    then show ?thesis unfolding res using assms(1) cur by (intro loop_inv_I [OF assms(1)]) auto
  next
    case (Some r)
    have "hcs_last_raw_bucket_end (cl_host l) = Some (hs_ts r)"
      using host_observe_row [of "cl_host l" s r] ob Some by simp
    then have e: "bucket_end (hs_ts r) 10000 = hs_ts r"
      using assms(1) bucket_end_idem by (auto simp: loop_inv_def cursor_ok_def)
    obtain st out where ins: "store_insert_host (cl_metrics l) r = (st, out)"
      by (cases "store_insert_host (cl_metrics l) r")
    note sub = store_insert_host_stored [OF ins]
    show ?thesis
      unfolding res
      using sub e cur by (cases out; intro loop_inv_I [OF assms(1) sub(1)]) (auto simp: Some ins)
  qed
qed

lemma cc_observe_row_ts:
  assumes "cc_observe st batch = (st', rows)"
  shows "row \<in> set rows \<Longrightarrow> ccs_last_raw_bucket_end st = Some (cs_ts row)"
    "ccs_last_raw_bucket_end st' = ccs_last_raw_bucket_end st \<or>
     (\<exists>s\<in>set batch. ccs_last_raw_bucket_end st' = Some (bucket_end (cr_ts s) 10000))"
  using assms
  by (cases rule: cc_observe_cases [of batch st];
      auto simp: flush_entries_rows list_max_Some dest!: cb_collect_row)+

lemma container_batch_inv:
  assumes "loop_inv l" "\<forall>s\<in>set batch. clock_ok (cr_ts s)"
  shows "loop_inv (collect_containers_once name_of l batch)"
proof -
  obtain cs rows where ob: "cc_observe (cl_containers l) batch = (cs, rows)"
    by (cases "cc_observe (cl_containers l) batch")
  note r = cc_observe_row_ts [OF ob]
  have cur: "cursor_ok (hcs_last_raw_bucket_end (cl_host l))" "cursor_ok (ccs_last_raw_bucket_end cs)"
    using r(2) assms by (auto simp: cursor_ok_def loop_inv_def)
  have res: "collect_containers_once name_of l batch = (let l1 = l\<lparr>cl_snapshot :=
      record_containers name_of (cl_snapshot l) batch, cl_containers := cs\<rparr> in
      case list_max (map cs_ts rows) of None \<Rightarrow> l1 | Some latest \<Rightarrow>
        (case store_insert_containers (cl_metrics l) rows of
          (st, Inr _) \<Rightarrow> l1\<lparr>cl_metrics := st,
            cl_watcher := observe_sample (cl_watcher l) ContainersSource latest\<rparr>
        | (st, Inl _) \<Rightarrow> l1\<lparr>cl_metrics := st\<rparr>))"
    by (simp add: collect_containers_once_def ob Let_def cong: option.case_cong sum.case_cong)
  show ?thesis
  proof (cases "list_max (map cs_ts rows)")
    case None
    show ?thesis unfolding res None option.case Let_def
      using cur by (intro loop_inv_I [OF assms(1)]) auto
  next
    case (Some latest)
    then obtain row where row: "row \<in> set rows" "cs_ts row = latest" by (auto simp: list_max_Some)
    then have e: "bucket_end latest 10000 = latest"
      using r(1) [of row] assms(1) bucket_end_idem by (auto simp: loop_inv_def cursor_ok_def)
    obtain st out where ins: "store_insert_containers (cl_metrics l) rows = (st, out)"
      by (cases "store_insert_containers (cl_metrics l) rows")
    note sub = store_insert_containers_stored [OF ins]
    show ?thesis
      unfolding res
      using sub e cur row by (cases out; intro loop_inv_I [OF assms(1) sub(1)]) (auto simp: Some ins)
  qed
qed

lemma reach_inv:
  assumes "collector_reach name_of l0 l" "loop_inv l0"
  shows "loop_inv l"
  using assms
proof (induction rule: collector_reach.induct)
  case (reach_step l l')
  then have "loop_inv l" by simp
  from reach_step.hyps(2) show ?case
    using \<open>loop_inv l\<close>
    by (elim collector_stepE)
      (simp_all add: host_tick_inv container_batch_inv, simp add: loop_inv_def announced_stored_def)
qed

text \<open>
  C11. A bucket is announced only once it is stored: in every state that the two collection tasks
  can reach together, whatever fails on the way, the newest 10s bucket that the streams of either
  source are told about is a bucket that the 10s table of that source holds.
\<close>

theorem announced_bucket_is_stored:
  assumes "collector_reach name_of (loop_new interval st) l"
  shows "watched (cl_watcher l) src TenSeconds = 0 \<or>
    watched (cl_watcher l) src TenSeconds \<in> stored_ts (cl_metrics l) src"
  using reach_inv [OF assms loop_inv_new] by (simp add: loop_inv_def announced_stored_def)

theorem announced_bucket_is_stored_witness:
  "watched (cl_watcher (collect_host_once (loop_new 5000 (fresh_store 40)) (Inr (host_raw_at 10000 7)) (Inr 1) (Inr 2)))
     HostSource TenSeconds = 0 \<or>
   watched (cl_watcher (collect_host_once (loop_new 5000 (fresh_store 40)) (Inr (host_raw_at 10000 7)) (Inr 1) (Inr 2)))
     HostSource TenSeconds
   \<in> stored_ts (cl_metrics (collect_host_once (loop_new 5000 (fresh_store 40)) (Inr (host_raw_at 10000 7)) (Inr 1) (Inr 2)))
       HostSource"
  by (rule announced_bucket_is_stored [where name_of = "\<lambda>_. None"], rule reach_step, rule reach_start, rule host_tick)
    (simp add: host_raw_at_def clock_ok_def)

end
