(* ===== verification/Api_Streams.thy ===== *)
theory Api_Streams
  imports Api Collector_Loop
begin

text \<open>
  \<open>api/stream.rs\<close>, \<open>api/metrics_stream.rs\<close> and the groups of \<open>api/logs_stream.rs\<close>: the event streams.
  A stream is a state and one function for an iteration of its loop, whose argument is the branch of
  the \<open>select!\<close> that became ready. A subscription is the revision it has seen; waking marks the current
  one as seen before anything is read. Serialising an event and keep-alives are the framework.
\<close>

section \<open>Polling\<close>

datatype wake = Cancelled | SenderGone | FirstChanged | SecondChanged

datatype ('e, 's) polled = StreamEnds | StreamWaits 's | StreamYields 'e 's

section \<open>The snapshot (api/stream.rs)\<close>

datatype snapshot_event =
    SnapshotEvent metrics_snapshot
  | HostEvent "current_host_point option"
  | ContainersEvent containers_snapshot

datatype stream_state = CurrentInitial u64 u64 | CurrentWaiting u64 u64

definition current_subscribe :: "app_state \<Rightarrow> stream_state" where
  "current_subscribe st =
     CurrentInitial (mss_host_revision (as_snapshot st)) (mss_containers_revision (as_snapshot st))"

definition current_poll ::
    "app_state \<Rightarrow> timestamp_ms \<Rightarrow> wake \<Rightarrow> stream_state \<Rightarrow> (snapshot_event, stream_state) polled" where
  "current_poll st now w s =
     (case s of
        CurrentInitial host_rx containers_rx \<Rightarrow>
          StreamYields (SnapshotEvent (current_at (as_snapshot st) now)) (CurrentWaiting host_rx containers_rx)
      | CurrentWaiting host_rx containers_rx \<Rightarrow>
          (case w of
             Cancelled \<Rightarrow> if as_shutdown st then StreamEnds else StreamWaits s
           | SenderGone \<Rightarrow> StreamEnds
           | FirstChanged \<Rightarrow>
               if mss_host_revision (as_snapshot st) = host_rx then StreamWaits s
               else StreamYields (HostEvent (current_host_at (as_snapshot st) now))
                      (CurrentWaiting (mss_host_revision (as_snapshot st)) containers_rx)
           | SecondChanged \<Rightarrow>
               if mss_containers_revision (as_snapshot st) = containers_rx then StreamWaits s
               else StreamYields (ContainersEvent (current_containers_at (as_snapshot st) now))
                      (CurrentWaiting host_rx (mss_containers_revision (as_snapshot st)))))"

section \<open>The containers (api/stream.rs)\<close>

definition index_by_id :: "container_summary list \<Rightarrow> (container_id, container_summary) hash_map" where
  "index_by_id cs = hm_collect (map (\<lambda>c. (ct_id c, c)) cs)"

definition diff_step ::
    "(container_id, container_summary) hash_map \<Rightarrow> container_diff \<times> container_id set \<Rightarrow> container_summary
      \<Rightarrow> container_diff \<times> container_id set" where
  "diff_step last_sent acc c =
     (let (diff, seen) = acc; seen1 = insert (ct_id c) seen in
      case hm_get last_sent (ct_id c) of
        None \<Rightarrow> (diff\<lparr>cd_added := cd_added diff @ [c]\<rparr>, seen1)
      | Some previous \<Rightarrow>
          (if previous \<noteq> c then diff\<lparr>cd_updated := cd_updated diff @ [c]\<rparr> else diff, seen1))"

definition diff_containers ::
    "(container_id, container_summary) hash_map \<Rightarrow> container_summary list \<Rightarrow> container_diff" where
  "diff_containers last_sent current =
     (let (diff, seen) = foldl (diff_step last_sent)
            (\<lparr>cd_added = [], cd_updated = [], cd_removed = []\<rparr>, {}) current in
      diff\<lparr>cd_removed := filter (\<lambda>cid. cid \<notin> seen) (map fst last_sent)\<rparr>)"

definition container_diff_empty :: "container_diff \<Rightarrow> bool" where
  "container_diff_empty d \<longleftrightarrow> cd_added d = [] \<and> cd_updated d = [] \<and> cd_removed d = []"

datatype containers_event = ContainersSnapshot "container_summary list" | ContainersDiff container_diff

datatype containers_stream =
    ContainersInitial u64
  | ContainersWaiting u64 "(container_id, container_summary) hash_map"

definition containers_subscribe :: "container_registry \<Rightarrow> containers_stream" where
  "containers_subscribe rg = ContainersInitial (cy_revision rg)"

definition listed_containers :: "container_registry \<Rightarrow> container_summary list" where
  "listed_containers rg = (case containers_info rg of Inl _ \<Rightarrow> [] | Inr cs \<Rightarrow> cs)"

definition containers_poll ::
    "container_registry \<Rightarrow> bool \<Rightarrow> wake \<Rightarrow> containers_stream \<Rightarrow> (containers_event, containers_stream) polled"
where
  "containers_poll rg shutdown w s =
     (case s of
        ContainersInitial rx \<Rightarrow>
          (let containers = listed_containers rg in
           StreamYields (ContainersSnapshot containers) (ContainersWaiting rx (index_by_id containers)))
      | ContainersWaiting rx last_sent \<Rightarrow>
          (case w of
             Cancelled \<Rightarrow> if shutdown then StreamEnds else StreamWaits s
           | SenderGone \<Rightarrow> StreamEnds
           | _ \<Rightarrow>
               if cy_revision rg = rx then StreamWaits s
               else
                 let containers = listed_containers rg; diff = diff_containers last_sent containers in
                 if container_diff_empty diff then StreamWaits (ContainersWaiting (cy_revision rg) last_sent)
                 else StreamYields (ContainersDiff diff)
                        (ContainersWaiting (cy_revision rg) (index_by_id containers))))"

section \<open>The groups (api/logs_stream.rs)\<close>

definition diff_services ::
    "(string, service_status) btree_map \<Rightarrow> (string, service_status) btree_map \<Rightarrow> service_diff" where
  "diff_services last_sent current =
     (let diff = foldl (\<lambda>d (service, status).
            case map_of last_sent service of
              None \<Rightarrow> d\<lparr>sd_added := bt_insert service status (sd_added d)\<rparr>
            | Some previous \<Rightarrow>
                if previous \<noteq> status then d\<lparr>sd_updated := bt_insert service status (sd_updated d)\<rparr> else d)
          \<lparr>sd_added = [], sd_updated = [], sd_removed = []\<rparr> current in
      foldl (\<lambda>d service.
          if map_of current service = None then d\<lparr>sd_removed := sd_removed d @ [service]\<rparr> else d)
        diff (map fst last_sent))"

definition service_diff_empty :: "service_diff \<Rightarrow> bool" where
  "service_diff_empty d \<longleftrightarrow> sd_added d = [] \<and> sd_updated d = [] \<and> sd_removed d = []"

definition current_groups :: "app_state \<Rightarrow> app_state \<times> (string, service_status) btree_map" where
  "current_groups st =
     (let (st1, res) = resolve_watermarks st;
          stored = (case res of Inl _ \<Rightarrow> [] | Inr m \<Rightarrow> m) in
      (st1, merge_services stored (listed_containers (dk_registry (as_docker st1)))))"

datatype groups_event = GroupsSnapshot "(string, service_status) btree_map" | GroupsDiff service_diff

datatype groups_stream =
    GroupsInitial u64 u64
  | GroupsWaiting u64 u64 "(string, service_status) btree_map"

definition groups_subscribe :: "app_state \<Rightarrow> groups_stream" where
  "groups_subscribe st =
     GroupsInitial (flush_subscribe_any (as_log_flush_watcher st)) (cy_revision (dk_registry (as_docker st)))"

text \<open>What an iteration of the waiting loop does once one of the two receivers has changed.\<close>

definition groups_wake ::
    "app_state \<Rightarrow> u64 \<Rightarrow> u64 \<Rightarrow> (string, service_status) btree_map
      \<Rightarrow> app_state \<times> (groups_event, groups_stream) polled" where
  "groups_wake st flush_rx containers_rx last_sent =
     (let (st1, current) = current_groups st; diff = diff_services last_sent current in
      (st1, if service_diff_empty diff then StreamWaits (GroupsWaiting flush_rx containers_rx last_sent)
            else StreamYields (GroupsDiff diff) (GroupsWaiting flush_rx containers_rx current)))"

definition groups_poll ::
    "app_state \<Rightarrow> wake \<Rightarrow> groups_stream \<Rightarrow> app_state \<times> (groups_event, groups_stream) polled" where
  "groups_poll st w s =
     (case s of
        GroupsInitial flush_rx containers_rx \<Rightarrow>
          (let (st1, current) = current_groups st in
           (st1, StreamYields (GroupsSnapshot current) (GroupsWaiting flush_rx containers_rx current)))
      | GroupsWaiting flush_rx containers_rx last_sent \<Rightarrow>
          (let flushes = fl_any (as_log_flush_watcher st); revision = cy_revision (dk_registry (as_docker st)) in
           case w of
             Cancelled \<Rightarrow> (st, if as_shutdown st then StreamEnds else StreamWaits s)
           | SenderGone \<Rightarrow> (st, StreamEnds)
           | FirstChanged \<Rightarrow>
               if flushes = flush_rx then (st, StreamWaits s)
               else groups_wake st flushes containers_rx last_sent
           | SecondChanged \<Rightarrow>
               if revision = containers_rx then (st, StreamWaits s)
               else groups_wake st flush_rx revision last_sent))"

section \<open>The series (api/metrics_stream.rs)\<close>

definition stream_query_parse :: "i64 \<Rightarrow> timestamp_ms \<Rightarrow> (time_range \<times> metrics_resolution) app_result" where
  "stream_query_parse start now =
     (if start > now then Inl (BadRequest ''from must not be in the future'')
      else Inr (\<lparr>range_from = start, range_to = now\<rparr>,
                for_range \<lparr>range_from = start, range_to = now\<rparr>))"

datatype series_stream =
    SeriesInitial timestamp_ms time_range metrics_resolution
  | SeriesWaiting timestamp_ms timestamp_ms metrics_resolution

datatype ('d, 'a) series_event = SeriesSnapshot "'d metrics_response" | SeriesAppend 'a

text \<open>
  The loop that the three endpoints share: \<open>fetch\<close> is the query with its default on an error, \<open>latest\<close>
  the newest time stamp of its answer and \<open>payload\<close> the event made of it.
\<close>

definition series_poll ::
    "(app_state \<Rightarrow> time_range \<Rightarrow> metrics_resolution \<Rightarrow> app_state \<times> 'd) \<Rightarrow> ('d \<Rightarrow> timestamp_ms option)
      \<Rightarrow> ('d \<Rightarrow> 'a) \<Rightarrow> metrics_source \<Rightarrow> app_state \<Rightarrow> wake \<Rightarrow> series_stream
      \<Rightarrow> app_state \<times> (('d, 'a) series_event, series_stream) polled" where
  "series_poll fetch latest payload source st w s =
     (case s of
        SeriesInitial rx rg resolution \<Rightarrow>
          (let (st1, points) = fetch st rg resolution;
               last_sent = unwrap_or (range_from rg) (latest points) in
           (st1, StreamYields
              (SeriesSnapshot \<lparr>mr_resolution = resolution_as_str resolution, mr_data = points\<rparr>)
              (SeriesWaiting rx last_sent resolution)))
      | SeriesWaiting rx last_sent resolution \<Rightarrow>
          (case w of
             Cancelled \<Rightarrow> (st, if as_shutdown st then StreamEnds else StreamWaits s)
           | SenderGone \<Rightarrow> (st, StreamEnds)
           | _ \<Rightarrow>
               let end_ms = watched (as_bucket_watcher st) source resolution in
               if end_ms = rx then (st, StreamWaits s)
               else if end_ms \<le> last_sent then (st, StreamWaits (SeriesWaiting end_ms last_sent resolution))
               else
                 let (st1, points) = fetch st \<lparr>range_from = last_sent, range_to = end_ms\<rparr> resolution in
                 case latest points of
                   None \<Rightarrow> (st1, StreamWaits (SeriesWaiting end_ms last_sent resolution))
                 | Some ts \<Rightarrow>
                     (st1, StreamYields (SeriesAppend (payload points)) (SeriesWaiting end_ms ts resolution))))"

definition last_point :: "'a list \<Rightarrow> 'a option" where
  "last_point ps = (if ps = [] then None else Some (last ps))"

definition series_subscribe ::
    "app_state \<Rightarrow> metrics_source \<Rightarrow> i64 \<Rightarrow> timestamp_ms \<Rightarrow> series_stream app_result" where
  "series_subscribe st source start now =
     and_then (stream_query_parse start now) (\<lambda>(rg, resolution).
       Inr (SeriesInitial (watched (as_bucket_watcher st) source resolution) rg resolution))"

subsection \<open>The host\<close>

definition fetch_host :: "app_state \<Rightarrow> time_range \<Rightarrow> metrics_resolution \<Rightarrow> app_state \<times> host_point list" where
  "fetch_host st rg resolution =
     (let (ms, res) = query_host (as_metrics st) rg resolution in
      (st\<lparr>as_metrics := ms\<rparr>, case res of Inl _ \<Rightarrow> [] | Inr points \<Rightarrow> points))"

definition host_stream_poll ::
    "app_state \<Rightarrow> wake \<Rightarrow> series_stream
      \<Rightarrow> app_state \<times> ((host_point list, host_point) series_event, series_stream) polled" where
  "host_stream_poll =
     series_poll fetch_host (\<lambda>points. map_option hp_ts (last_point points)) last HostSource"

subsection \<open>The services\<close>

definition latest_ts_by_service :: "(string, group_point list) hash_map \<Rightarrow> timestamp_ms option" where
  "latest_ts_by_service series =
     list_max (List.map_filter (\<lambda>(_, points). map_option gp_ts (last_point points)) series)"

definition cross_section_by_service ::
    "(string, group_point list) hash_map \<Rightarrow> (string, group_point) hash_map" where
  "cross_section_by_service series =
     hm_collect (List.map_filter
       (\<lambda>(service, points). map_option (\<lambda>p. (service, p)) (last_point points)) series)"

definition fetch_series ::
    "app_state \<Rightarrow> time_range \<Rightarrow> metrics_resolution \<Rightarrow> app_state \<times> (string, group_point list) hash_map" where
  "fetch_series st rg resolution =
     (let (st1, res) = metrics_by_service st rg resolution;
          by_service = (case res of Inl _ \<Rightarrow> [] | Inr m \<Rightarrow> m) in
      (st1, hm_collect (map (\<lambda>(service, g). (service, gm_sum g)) by_service)))"

definition containers_stream_poll ::
    "app_state \<Rightarrow> wake \<Rightarrow> series_stream
      \<Rightarrow> app_state \<times> (((string, group_point list) hash_map, (string, group_point) hash_map) series_event,
           series_stream) polled" where
  "containers_stream_poll =
     series_poll fetch_series latest_ts_by_service cross_section_by_service ContainersSource"

subsection \<open>One service\<close>

definition latest_ts_in_service :: "container_group_metrics \<Rightarrow> timestamp_ms option" where
  "latest_ts_in_service g =
     (let sum_ts = map_option gp_ts (last_point (gm_sum g));
          containers_ts = list_max (List.map_filter (\<lambda>(_, points). map_option cp_ts (last_point points))
            (gm_containers g)) in
      list_max (option_list sum_ts @ option_list containers_ts))"

definition group_append :: "container_group_metrics \<Rightarrow> container_group_metrics_append" where
  "group_append g =
     \<lparr>ga_sum = last_point (gm_sum g),
      ga_containers = hm_collect (List.map_filter
        (\<lambda>(cid, points). map_option (\<lambda>p. (cid, p)) (last_point points)) (gm_containers g))\<rparr>"

definition fetch_group ::
    "string \<Rightarrow> app_state \<Rightarrow> time_range \<Rightarrow> metrics_resolution \<Rightarrow> app_state \<times> container_group_metrics" where
  "fetch_group service st rg resolution =
     (let (st1, res) = metrics_by_service st rg resolution;
          by_service = (case res of Inl _ \<Rightarrow> [] | Inr m \<Rightarrow> m) in
      (st1, unwrap_or default_group_metrics (hm_get by_service service)))"

definition container_stream_poll ::
    "string \<Rightarrow> app_state \<Rightarrow> wake \<Rightarrow> series_stream
      \<Rightarrow> app_state \<times> ((container_group_metrics, container_group_metrics_append) series_event,
           series_stream) polled" where
  "container_stream_poll service =
     series_poll (fetch_group service) latest_ts_in_service group_append ContainersSource"

end
