(* ===== verification/Api_Streams_Laws.thy ===== *)
theory Api_Streams_Laws
  imports Api_Streams
begin

text \<open>
  What the event streams guarantee to a client that applies their events: differences of container
  lists and of service maps are exact patches, a stream that wakes shows the current state, and the
  points of the host stream come in order.
\<close>

section \<open>Differences of container lists\<close>

lemma diff_fold:
  "foldl (diff_step last_sent) (d, S) cs =
     (d\<lparr>cd_added := cd_added d @ filter (\<lambda>c. hm_get last_sent (ct_id c) = None) cs,
        cd_updated := cd_updated d @ filter (\<lambda>c. \<exists>p. hm_get last_sent (ct_id c) = Some p \<and> p \<noteq> c) cs\<rparr>,
      S \<union> ct_id ` set cs)"
  by (induction cs arbitrary: d S) (auto simp: diff_step_def split: option.splits)

lemma diff_containers_fields:
  "cd_added (diff_containers m cs) = filter (\<lambda>c. hm_get m (ct_id c) = None) cs"
  "cd_updated (diff_containers m cs) = filter (\<lambda>c. \<exists>p. hm_get m (ct_id c) = Some p \<and> p \<noteq> c) cs"
  "cd_removed (diff_containers m cs) = filter (\<lambda>cid. cid \<notin> ct_id ` set cs) (map fst m)"
  by (simp_all add: diff_containers_def diff_fold)

definition distinct_ids :: "container_summary list \<Rightarrow> bool" where
  "distinct_ids cs \<longleftrightarrow> distinct (map ct_id cs)"

lemma index_get:
  assumes "distinct_ids cs"
  shows "hm_get (index_by_id cs) i = find (\<lambda>c. ct_id c = i) cs"
proof -
  have "map_of (map (\<lambda>c. (ct_id c, c)) cs) i = find (\<lambda>c. ct_id c = i) cs"
    by (induction cs) auto
  then show ?thesis
    using assms unfolding index_by_id_def distinct_ids_def
    by (subst hm_get_collect_distinct) (simp_all add: comp_def)
qed

lemma find_id: "distinct_ids cs \<Longrightarrow> find (\<lambda>c. ct_id c = i) cs = Some c \<longleftrightarrow> c \<in> set cs \<and> ct_id c = i"
  by (induction cs) (auto simp: distinct_ids_def)

text \<open>What a client makes of the events: a snapshot replaces its view, a difference changes it.\<close>

definition patch_containers ::
    "container_diff \<Rightarrow> (container_id, container_summary) hash_map \<Rightarrow> (container_id, container_summary) hash_map"
where
  "patch_containers d m =
     foldl (\<lambda>m cid. hm_remove cid m)
       (foldl (\<lambda>m c. hm_insert (ct_id c) c m) m (cd_added d @ cd_updated d)) (cd_removed d)"

lemma insert_all_get:
  "distinct_ids cs \<Longrightarrow> hm_get (foldl (\<lambda>m c. hm_insert (ct_id c) c m) m cs) i =
     (case find (\<lambda>c. ct_id c = i) cs of Some c \<Rightarrow> Some c | None \<Rightarrow> hm_get m i)"
proof (induction cs arbitrary: m)
  case (Cons c cs)
  have "find (\<lambda>c. ct_id c = i) cs = None" if "ct_id c = i"
    using Cons.prems that by (simp add: distinct_ids_def find_None_iff) (metis image_eqI)
  with Cons show ?case by (auto simp: distinct_ids_def split: option.splits)
qed simp

lemma remove_all_get:
  "hm_get (foldl (\<lambda>m i. hm_remove i m) m is) i = (if i \<in> set is then None else hm_get m i)"
  for "is" :: "container_id list"
  by (induction "is" arbitrary: m) auto

lemma patch_diff:
  assumes "distinct_ids cs" "hm_get v = hm_get m"
  shows "hm_get (patch_containers (diff_containers m cs) v) = hm_get (index_by_id cs)"
proof
  fix i
  let ?d = "diff_containers m cs"
  let ?new = "cd_added ?d @ cd_updated ?d"
  have d: "distinct_ids ?new"
    using assms(1) by (auto simp: distinct_ids_def diff_containers_fields distinct_map_filter)
  have new: "find (\<lambda>c. ct_id c = i) ?new = Some c \<longleftrightarrow> c \<in> set cs \<and> ct_id c = i \<and> hm_get m i \<noteq> Some c" for c
    by (subst find_id [OF d], cases "hm_get m i") (auto simp: diff_containers_fields)
  have gone: "i \<in> set (cd_removed ?d) \<longleftrightarrow> hm_get m i \<noteq> None \<and> find (\<lambda>c. ct_id c = i) cs = None"
    by (force simp: diff_containers_fields map_of_eq_None_iff find_None_iff)
  have patched: "hm_get (patch_containers ?d v) i = (if i \<in> set (cd_removed ?d) then None
      else case find (\<lambda>c. ct_id c = i) ?new of Some c \<Rightarrow> Some c | None \<Rightarrow> hm_get m i)"
    by (simp only: patch_containers_def remove_all_get insert_all_get [OF d] assms(2))
  show "hm_get (patch_containers ?d v) i = hm_get (index_by_id cs) i"
  proof (cases "find (\<lambda>c. ct_id c = i) cs")
    case None
    then have "find (\<lambda>c. ct_id c = i) ?new = None"
      using new find_id [OF assms(1)] by (metis not_Some_eq)
    with None gone show ?thesis
      by (simp add: patched index_get [OF assms(1)])
  next
    case (Some c)
    then have c: "c \<in> set cs" "ct_id c = i" using find_id [OF assms(1)] by auto
    have "(case find (\<lambda>c. ct_id c = i) ?new of Some c \<Rightarrow> Some c | None \<Rightarrow> hm_get m i) = Some c"
    proof (cases "hm_get m i = Some c")
      case True
      then have "find (\<lambda>c. ct_id c = i) ?new = None"
        using new Some find_id [OF assms(1)] by (metis not_Some_eq option.inject)
      with True show ?thesis by simp
    next
      case False
      then have "find (\<lambda>c. ct_id c = i) ?new = Some c" using new c by blast
      then show ?thesis by simp
    qed
    with Some gone show ?thesis
      by (simp add: patched index_get [OF assms(1)])
  qed
qed

lemma diff_empty:
  assumes "distinct_ids cs" "container_diff_empty (diff_containers m cs)"
  shows "hm_get m = hm_get (index_by_id cs)"
proof -
  have "patch_containers (diff_containers m cs) m = m"
    using assms(2) by (simp add: container_diff_empty_def patch_containers_def)
  with patch_diff [OF assms(1), of m m] show ?thesis by simp
qed

section \<open>Differences of service maps\<close>

definition patch_services ::
    "service_diff \<Rightarrow> (string, service_status) btree_map \<Rightarrow> (string, service_status) btree_map" where
  "patch_services d m =
     filter (\<lambda>(service, _). service \<notin> set (sd_removed d))
       (fold (\<lambda>(k, v). bt_insert k v) (sd_updated d) (fold (\<lambda>(k, v). bt_insert k v) (sd_added d) m))"

lemma removed_fold:
  "foldl (\<lambda>d service. if P service then d\<lparr>sd_removed := sd_removed d @ [service]\<rparr> else d) d ks =
     d\<lparr>sd_removed := sd_removed d @ filter P ks\<rparr>"
  by (induction ks arbitrary: d) auto

lemma changed_fold:
  fixes last_sent current :: "(string, service_status) btree_map"
  assumes "bt_wf (sd_added d)" "bt_wf (sd_updated d)" "distinct (map fst current)"
  defines "step \<equiv> \<lambda>d (service, status).
            case map_of last_sent service of
              None \<Rightarrow> d\<lparr>sd_added := bt_insert service status (sd_added d)\<rparr>
            | Some previous \<Rightarrow>
                if previous \<noteq> status then d\<lparr>sd_updated := bt_insert service status (sd_updated d)\<rparr> else d"
  shows "bt_wf (sd_added (foldl step d current)) \<and> bt_wf (sd_updated (foldl step d current)) \<and>
    sd_removed (foldl step d current) = sd_removed d \<and>
    map_of (sd_added (foldl step d current)) k =
      (if map_of current k \<noteq> None \<and> map_of last_sent k = None then map_of current k else map_of (sd_added d) k) \<and>
    map_of (sd_updated (foldl step d current)) k =
      (if map_of current k \<noteq> None \<and> map_of last_sent k \<noteq> None \<and> map_of last_sent k \<noteq> map_of current k
       then map_of current k else map_of (sd_updated d) k)"
  using assms(1-3)
proof (induction current arbitrary: d)
  case (Cons e current)
  obtain service status where e: "e = (service, status)" by fastforce
  have wf: "bt_wf (sd_added (step d e))" "bt_wf (sd_updated (step d e))"
    using Cons.prems by (auto simp: step_def e split: option.splits)
  have none: "map_of current service = None" using Cons.prems(3) by (simp add: e map_of_eq_None_iff)
  have d: "distinct (map fst current)" using Cons.prems(3) by simp
  have added: "map_of (sd_added (step d e)) =
      (if map_of last_sent service = None then (map_of (sd_added d))(service \<mapsto> status) else map_of (sd_added d))"
    using Cons.prems(1) by (simp add: step_def e bt_get_insert split: option.split)
  have updated: "map_of (sd_updated (step d e)) =
      (if map_of last_sent service \<noteq> None \<and> map_of last_sent service \<noteq> Some status
       then (map_of (sd_updated d))(service \<mapsto> status) else map_of (sd_updated d))"
    using Cons.prems(2) by (simp add: step_def e bt_get_insert split: option.split)
  have removed: "sd_removed (step d e) = sd_removed d"
    by (simp add: step_def e split: option.split)
  show ?case
    using Cons.IH [OF wf d] none by (cases "k = service") (simp_all add: e added [unfolded e] updated [unfolded e] removed [unfolded e])
qed simp

lemma diff_services_get:
  assumes "bt_wf current"
  shows "bt_wf (sd_added (diff_services m current))" "bt_wf (sd_updated (diff_services m current))"
    "sd_removed (diff_services m current) = filter (\<lambda>k. map_of current k = None) (map fst m)"
    "map_of (sd_added (diff_services m current)) k =
      (if map_of current k \<noteq> None \<and> map_of m k = None then map_of current k else None)"
    "map_of (sd_updated (diff_services m current)) k =
      (if map_of current k \<noteq> None \<and> map_of m k \<noteq> None \<and> map_of m k \<noteq> map_of current k
       then map_of current k else None)"
  using changed_fold [of "\<lparr>sd_added = [], sd_updated = [], sd_removed = []\<rparr>" current m k]
    bt_wf_hm_wf [OF assms]
  by (simp_all add: diff_services_def removed_fold hm_wf_def)

lemma patch_services_wf: "bt_wf m \<Longrightarrow> bt_wf (patch_services d m)"
  by (simp add: patch_services_def bt_fold)

lemma patch_diff_services:
  assumes "bt_wf m" "bt_wf current"
  shows "patch_services (diff_services m current) m = current"
proof (rule bt_wf_eqI [OF patch_services_wf [OF assms(1)] assms(2)])
  let ?d = "diff_services m current"
  let ?m = "fold (\<lambda>(k, v). bt_insert k v) (sd_updated ?d) (fold (\<lambda>(k, v). bt_insert k v) (sd_added ?d) m)"
  note d = diff_services_get [OF assms(2), of m]
  have rev: "map_of (rev xs) = map_of xs" if "bt_wf xs" for xs :: "(string, service_status) btree_map"
    using bt_get_collect_distinct [of xs] bt_wf_hm_wf [OF that] by (simp add: bt_get_collect hm_wf_def)
  have wf: "bt_wf ?m" using assms(1) by (simp add: bt_fold)
  have get: "map_of ?m = map_of m ++ map_of (sd_added ?d) ++ map_of (sd_updated ?d)"
    using assms(1) d(1,2) by (simp add: bt_fold rev)
  show "map_of (patch_services ?d m) = map_of current"
  proof
    fix k
    have "map_of (patch_services ?d m) k =
        (if k \<in> set (sd_removed ?d) then None else map_of ?m k)"
      using hm_get_filter [OF bt_wf_hm_wf [OF wf], of "\<lambda>(s, _). s \<notin> set (sd_removed ?d)" k]
      by (auto simp: patch_services_def split_def split: option.splits)
    also have "\<dots> = map_of current k"
    proof -
      have "k \<in> set (sd_removed ?d) \<longleftrightarrow> map_of current k = None \<and> map_of m k \<noteq> None"
        by (auto simp: d(3) map_of_eq_None_iff)
      then show ?thesis
        unfolding get map_add_def d(4,5) by (cases "map_of current k"; cases "map_of m k") auto
    qed
    finally show "map_of (patch_services ?d m) k = map_of current k" .
  qed
qed

lemma diff_services_empty_iff:
  assumes "bt_wf m" "bt_wf current"
  shows "service_diff_empty (diff_services m current) \<longleftrightarrow> m = current"
proof
  assume "service_diff_empty (diff_services m current)"
  then have "patch_services (diff_services m current) m = m"
    by (simp add: service_diff_empty_def patch_services_def)
  with patch_diff_services [OF assms] show "m = current" by simp
next
  assume "m = current"
  have empty: "xs = []" if "\<And>k. map_of xs k = None" for xs :: "(string, service_status) btree_map"
    using that by (metis map_of_eq_empty_iff ext)
  show "service_diff_empty (diff_services m current)"
    using \<open>m = current\<close> diff_services_get(3-5) [OF assms(2), of m]
    by (auto simp: service_diff_empty_def filter_empty_conv map_of_eq_None_iff intro!: empty)
qed


section \<open>Following a stream\<close>

text \<open>
  \<open>stream::unfold\<close>: the events of a sequence of iterations and the state after them, which is \<open>None\<close>
  once the stream has ended. An input is what an iteration sees of the program, and the ready branch.
\<close>

fun follow :: "('i \<Rightarrow> 's \<Rightarrow> ('e, 's) polled) \<Rightarrow> 'i list \<Rightarrow> 's \<Rightarrow> 'e list \<times> 's option" where
  "follow poll [] s = ([], Some s)"
| "follow poll (i # inputs) s =
     (case poll i s of
        StreamEnds \<Rightarrow> ([], None)
      | StreamWaits s1 \<Rightarrow> follow poll inputs s1
      | StreamYields e s1 \<Rightarrow> (let (es, r) = follow poll inputs s1 in (e # es, r)))"

text \<open>An invariant of the state and of what the client has made of the events.\<close>

lemma follow_invariant:
  assumes "follow poll inputs s = (es, r)" "I s v"
    and "\<And>i s v s'. I s v \<Longrightarrow> poll i s = StreamWaits s' \<Longrightarrow> I s' v"
    and "\<And>i s v e s'. I s v \<Longrightarrow> poll i s = StreamYields e s' \<Longrightarrow> I s' (f v e)"
  shows "\<exists>s'. I s' (foldl f v es) \<and> (r = None \<or> r = Some s')"
  using assms(1,2)
proof (induction inputs arbitrary: s v es)
  case (Cons i inputs)
  show ?case
  proof (cases "poll i s")
    case StreamEnds
    with Cons.prems show ?thesis by (auto intro: exI [of _ s])
  next
    case (StreamWaits s1)
    with Cons.prems(1) have "follow poll inputs s1 = (es, r)" by simp
    from Cons.IH [OF this assms(3) [OF Cons.prems(2) StreamWaits]] show ?thesis .
  next
    case (StreamYields e s1)
    with Cons.prems(1) obtain es1 where es: "follow poll inputs s1 = (es1, r)" "es = e # es1"
      by (auto split: prod.splits)
    from Cons.IH [OF es(1) assms(4) [OF Cons.prems(2) StreamYields]] show ?thesis
      by (simp add: es(2))
  qed
qed auto

section \<open>The container stream\<close>

fun show_containers ::
    "(container_id, container_summary) hash_map \<Rightarrow> containers_event \<Rightarrow> (container_id, container_summary) hash_map"
where
  "show_containers m (ContainersSnapshot cs) = index_by_id cs"
| "show_containers m (ContainersDiff d) = patch_containers d m"

text \<open>
  A stream beside the registry: updates of the list, every other change of the registry, and polls in
  any order. The third argument counts the updates, the last is the view of the client. The lists
  hold no two containers with the same short id.
\<close>

inductive containers_run ::
    "container_registry \<Rightarrow> container_registry \<Rightarrow> nat \<Rightarrow> containers_stream
      \<Rightarrow> (container_id, container_summary) hash_map \<Rightarrow> bool" for rg0 where
  run_subscribed: "distinct_ids (cy_info rg0) \<Longrightarrow> containers_run rg0 rg0 0 (containers_subscribe rg0) []"
| run_listed: "containers_run rg0 rg n s v
    \<Longrightarrow> update_containers_info_now nanos_of listed inspect order rg = (rg', res)
    \<Longrightarrow> distinct_ids (cy_info rg') \<Longrightarrow> containers_run rg0 rg' (Suc n) s v"
| run_other: "containers_run rg0 rg n s v \<Longrightarrow> cy_info rg' = cy_info rg
    \<Longrightarrow> cy_info_poisoned rg' = cy_info_poisoned rg \<Longrightarrow> cy_revision rg' = cy_revision rg
    \<Longrightarrow> containers_run rg0 rg' n s v"
| run_waits: "containers_run rg0 rg n s v \<Longrightarrow> containers_poll rg shutdown w s = StreamWaits s'
    \<Longrightarrow> containers_run rg0 rg n s' v"
| run_yields: "containers_run rg0 rg n s v \<Longrightarrow> containers_poll rg shutdown w s = StreamYields e s'
    \<Longrightarrow> containers_run rg0 rg n s' (show_containers v e)"

definition containers_inv ::
    "u64 \<Rightarrow> container_registry \<Rightarrow> nat \<Rightarrow> containers_stream \<Rightarrow> (container_id, container_summary) hash_map \<Rightarrow> bool"
where
  "containers_inv start rg n s v \<longleftrightarrow>
     distinct_ids (cy_info rg) \<and>
     (\<exists>a b. b \<le> a \<and> a \<le> n \<and> cy_revision rg = start + of_nat a \<and>
        (case s of ContainersInitial rx \<Rightarrow> rx = start + of_nat b
         | ContainersWaiting rx last_sent \<Rightarrow>
             rx = start + of_nat b \<and> hm_get v = hm_get last_sent \<and>
             (a = b \<longrightarrow> hm_get last_sent = hm_get (index_by_id (listed_containers rg)))))"

lemma listed_distinct: "distinct_ids (cy_info rg) \<Longrightarrow> distinct_ids (listed_containers rg)"
  by (simp add: listed_containers_def containers_info_def distinct_ids_def)

lemma containers_inv_listed:
  assumes "containers_inv start rg n s v" "update_containers_info_now nanos_of listed inspect order rg = (rg', res)"
    "distinct_ids (cy_info rg')"
  shows "containers_inv start rg' (Suc n) s v"
proof -
  obtain a b where ab: "b \<le> a" "a \<le> n" "cy_revision rg = start + of_nat a"
    "case s of ContainersInitial rx \<Rightarrow> rx = start + of_nat b
     | ContainersWaiting rx last_sent \<Rightarrow> rx = start + of_nat b \<and> hm_get v = hm_get last_sent \<and>
         (a = b \<longrightarrow> hm_get last_sent = hm_get (index_by_id (listed_containers rg)))"
    using assms(1) unfolding containers_inv_def by blast
  consider "rg' = rg" | "cy_revision rg' = start + of_nat (Suc a)"
    using assms(2) ab(3) by (auto simp: update_containers_info_now_def split: if_splits sum.splits)
  then show ?thesis
  proof cases
    case 1
    then show ?thesis using assms(3) ab unfolding containers_inv_def by (blast intro: le_SucI)
  next
    case 2
    have "case s of ContainersInitial rx \<Rightarrow> rx = start + of_nat b
     | ContainersWaiting rx last_sent \<Rightarrow> rx = start + of_nat b \<and> hm_get v = hm_get last_sent \<and>
         (Suc a = b \<longrightarrow> hm_get last_sent = hm_get (index_by_id (listed_containers rg')))"
      using ab(1,4) by (auto split: containers_stream.splits)
    then show ?thesis using assms(3) ab(1,2) 2 unfolding containers_inv_def by (intro conjI exI [of _ "Suc a"] exI [of _ b]) auto
  qed
qed

lemma containers_inv_polled:
  assumes "containers_inv start rg n s v"
  shows "containers_poll rg shutdown w s = StreamWaits s' \<Longrightarrow> containers_inv start rg n s' v"
    "containers_poll rg shutdown w s = StreamYields e s' \<Longrightarrow> containers_inv start rg n s' (show_containers v e)"
proof -
  obtain a b where d: "distinct_ids (cy_info rg)" and ab: "b \<le> a" "a \<le> n" "cy_revision rg = start + of_nat a"
    "case s of ContainersInitial rx \<Rightarrow> rx = start + of_nat b
     | ContainersWaiting rx last_sent \<Rightarrow> rx = start + of_nat b \<and> hm_get v = hm_get last_sent \<and>
         (a = b \<longrightarrow> hm_get last_sent = hm_get (index_by_id (listed_containers rg)))"
    using assms unfolding containers_inv_def by blast
  let ?cs = "listed_containers rg"
  note dl = listed_distinct [OF d]
  have seen: "containers_inv start rg n (ContainersWaiting (cy_revision rg) m) v'"
    if "hm_get v' = hm_get m" "hm_get m = hm_get (index_by_id ?cs)" for m v'
    using that d ab(2,3) unfolding containers_inv_def by (intro conjI exI [of _ a]) auto
  show "containers_inv start rg n s' v" if p: "containers_poll rg shutdown w s = StreamWaits s'"
  proof (cases s)
    case (ContainersInitial rx)
    with p show ?thesis by (simp add: containers_poll_def Let_def)
  next
    case (ContainersWaiting rx m)
    then have view: "hm_get v = hm_get m" using ab(4) by simp
    show ?thesis
    proof (cases "s' = s")
      case True
      with assms show ?thesis by simp
    next
      case False
      then have "s' = ContainersWaiting (cy_revision rg) m" "container_diff_empty (diff_containers m ?cs)"
        using p by (auto simp: ContainersWaiting containers_poll_def Let_def split: wake.splits if_splits)
      then show ?thesis using seen [OF view] diff_empty [OF dl] by simp
    qed
  qed
  show "containers_inv start rg n s' (show_containers v e)"
    if p: "containers_poll rg shutdown w s = StreamYields e s'"
  proof (cases s)
    case (ContainersInitial rx)
    then have "s' = ContainersWaiting rx (index_by_id ?cs)" "e = ContainersSnapshot ?cs"
      using p by (simp_all add: containers_poll_def Let_def)
    then show ?thesis
      using d ab ContainersInitial unfolding containers_inv_def
      by (intro conjI exI [of _ a] exI [of _ b]) auto
  next
    case (ContainersWaiting rx m)
    then have view: "hm_get v = hm_get m" using ab(4) by simp
    have "s' = ContainersWaiting (cy_revision rg) (index_by_id ?cs)" "e = ContainersDiff (diff_containers m ?cs)"
      using p by (auto simp: ContainersWaiting containers_poll_def Let_def split: wake.splits if_splits)
    then show ?thesis using seen [of _ "index_by_id ?cs"] patch_diff [OF dl view] by simp
  qed
qed

lemma containers_run_inv: "containers_run rg0 rg n s v \<Longrightarrow> containers_inv (cy_revision rg0) rg n s v"
proof (induction rule: containers_run.induct)
  case run_subscribed
  then show ?case
    unfolding containers_inv_def by (intro conjI exI [of _ 0]) (auto simp: containers_subscribe_def)
next
  case (run_other rg n s v rg')
  then have same: "listed_containers rg' = listed_containers rg"
    by (simp add: listed_containers_def containers_info_def)
  show ?case using run_other.IH unfolding containers_inv_def run_other(2,4) same .
qed (auto intro: containers_inv_listed containers_inv_polled)




section \<open>The group stream\<close>

fun show_groups :: "(string, service_status) btree_map \<Rightarrow> groups_event \<Rightarrow> (string, service_status) btree_map" where
  "show_groups m (GroupsSnapshot g) = g"
| "show_groups m (GroupsDiff d) = patch_services d m"

definition groups_input :: "app_state \<times> wake \<Rightarrow> groups_stream \<Rightarrow> (groups_event, groups_stream) polled" where
  "groups_input i s = snd (groups_poll (fst i) (snd i) s)"

lemma current_groups_wf: "bt_wf (snd (current_groups st))"
proof -
  have "bt_wf (case res of Inl _ \<Rightarrow> [] | Inr m \<Rightarrow> m)" if "resolve_watermarks st = (st1, res)" for st1 and res :: "(string, i64) btree_map app_result"
    using that by (cases res) (auto simp: resolve_watermarks_def and_then_Inr_iff split: prod.splits)
  then show ?thesis using merge_services_get
    by (cases "resolve_watermarks st") (simp add: current_groups_def)
qed

definition groups_inv :: "groups_stream \<Rightarrow> (string, service_status) btree_map \<Rightarrow> bool" where
  "groups_inv s v \<longleftrightarrow> (case s of GroupsInitial _ _ \<Rightarrow> True | GroupsWaiting _ _ last_sent \<Rightarrow> v = last_sent \<and> bt_wf v)"

lemma groups_wake_result:
  assumes "bt_wf m"
  shows "snd (groups_wake st f c m) =
    (if m = snd (current_groups st) then StreamWaits (GroupsWaiting f c m)
     else StreamYields (GroupsDiff (diff_services m (snd (current_groups st)))) (GroupsWaiting f c (snd (current_groups st))))"
  using diff_services_empty_iff [OF assms current_groups_wf [of st]]
  by (simp add: groups_wake_def Let_def split_def)

lemma groups_inv_polled:
  assumes "groups_inv s v"
  shows "groups_input i s = StreamWaits s' \<Longrightarrow> groups_inv s' v"
    "groups_input i s = StreamYields e s' \<Longrightarrow> groups_inv s' (show_groups v e)"
proof -
  obtain st w where i: "i = (st, w)" by fastforce
  show "groups_inv s' v" if "groups_input i s = StreamWaits s'"
    using that assms groups_wake_result [of v st]
    by (cases s; cases w) (auto simp: groups_input_def i groups_poll_def groups_inv_def Let_def split_def split: if_splits)
  show "groups_inv s' (show_groups v e)" if "groups_input i s = StreamYields e s'"
    using that assms groups_wake_result [of v st] patch_diff_services [of v] current_groups_wf [of st]
    by (cases s; cases w) (auto simp: groups_input_def i groups_poll_def groups_inv_def Let_def split_def split: if_splits)
qed

text \<open>
  C34. The differences of the group stream add up: whatever the polls before saw, a poll on a change
  leaves the client with exactly the groups that the server computes then.
\<close>

theorem groups_stream_shows_groups:
  assumes "follow groups_input inputs (groups_subscribe st0) = (es, Some (GroupsWaiting f c last_sent))"
    and "w = FirstChanged \<and> fl_any (as_log_flush_watcher st) \<noteq> f \<or>
      w = SecondChanged \<and> cy_revision (dk_registry (as_docker st)) \<noteq> c"
  shows "foldl show_groups [] (es @ (case groups_input (st, w) (GroupsWaiting f c last_sent) of
      StreamYields e _ \<Rightarrow> [e] | _ \<Rightarrow> [])) = snd (current_groups st)"
proof -
  have "\<exists>s'. groups_inv s' (foldl show_groups [] es) \<and>
      (Some (GroupsWaiting f c last_sent) = None \<or> Some (GroupsWaiting f c last_sent) = Some s')"
    by (rule follow_invariant [OF assms(1)])
      (simp add: groups_inv_def groups_subscribe_def, erule (1) groups_inv_polled(1), erule (1) groups_inv_polled(2))
  then have v: "foldl show_groups [] es = last_sent" "bt_wf last_sent" by (auto simp: groups_inv_def)
  show ?thesis
    using assms(2) groups_wake_result [OF v(2), of st] patch_diff_services [OF v(2) current_groups_wf [of st]] v(1)
    by (auto simp: groups_input_def groups_poll_def Let_def split_def)
qed

text \<open>When the watermarks cannot be read, the client is told that the stored services are gone.\<close>

lemma failed_read_drops_groups:
  assumes "md_faults (as_metadata st) = Some m # fs"
    "\<forall>c \<in> set (listed_containers (dk_registry (as_docker st))). ct_service c \<noteq> s"
  shows "map_of (snd (current_groups st)) s = None"
proof -
  have "resolve_watermarks st = (put_metadata ((as_metadata st)\<lparr>md_faults := fs\<rparr>) st, Inl (Storage m))"
    using assms(1) by (simp add: resolve_watermarks_def list_service_log_watermarks_def md_next_def)
  then show ?thesis
    using assms(2) merge_services_get [of "[]" "listed_containers (dk_registry (as_docker st))" s]
    by (simp add: current_groups_def put_metadata_def)
qed


theorem groups_stream_shows_groups_witness:
  "\<exists>es s. follow groups_input [(web_state, FirstChanged)] (groups_subscribe web_state) = (es, Some s) \<and>
     (let st = web_state\<lparr>as_log_flush_watcher := flush_notify ''web'' flush_watcher_new\<rparr> in
      foldl show_groups [] (es @ (case groups_input (st, FirstChanged) s of StreamYields e _ \<Rightarrow> [e] | _ \<Rightarrow> []))
        = snd (current_groups st))"
proof -
  let ?st = "web_state\<lparr>as_log_flush_watcher := flush_notify ''web'' flush_watcher_new\<rparr>"
  have f: "follow groups_input [(web_state, FirstChanged)] (groups_subscribe web_state) =
      ([GroupsSnapshot (snd (current_groups web_state))],
       Some (GroupsWaiting (fl_any (as_log_flush_watcher web_state)) (cy_revision (dk_registry (as_docker web_state)))
         (snd (current_groups web_state))))"
    by (simp add: groups_input_def groups_poll_def groups_subscribe_def flush_subscribe_any_def split_def Let_def)
  have "fl_any (as_log_flush_watcher ?st) \<noteq> fl_any (as_log_flush_watcher web_state)"
    by (simp add: web_state_def app_state_new_def flush_notify_def flush_watcher_new_def)
  with groups_stream_shows_groups [OF f, of FirstChanged ?st] f show ?thesis by (simp add: Let_def)
qed

section \<open>The series streams\<close>

lemma host_row_ts: "host_sample_from_row w = Inr s \<Longrightarrow> hs_ts s = hw_ts w"
  by (auto simp: host_sample_from_row_def and_then_Inr_iff)

lemma sorted_last_ge: "sorted xs \<Longrightarrow> x \<in> set xs \<Longrightarrow> x \<le> last xs" for xs :: "int list"
  by (induction xs) auto

lemma host_rows_ts: "map host_sample_from_row rows = map Inr ss \<Longrightarrow> map hs_ts ss = map hw_ts rows"
proof (induction ss arbitrary: rows)
  case (Cons s ss)
  then obtain w ws where "rows = w # ws" by (cases rows) auto
  with Cons show ?case by (auto dest: host_row_ts)
qed simp

lemma query_host_points:
  assumes "query_host ms rg r = (ms', Inr points)"
  shows "sorted (map hp_ts points)"
    "hp_ts ` set points = {t \<in> hw_ts ` set (db_host (mt_db ms) r). in_range rg t}"
proof -
  let ?rows = "sort_key hw_ts (filter (\<lambda>w. in_range rg (hw_ts w)) (db_host (mt_db ms) r))"
  obtain db ss where q: "schema_select_host (mt_db ms) r rg = (db, Inr ss)" "points = map host_point_of_sample ss"
    using assms by (cases "schema_select_host (mt_db ms) r rg") (auto simp: query_host_def and_then_Inr_iff)
  obtain db1 where n: "next_fault (mt_db ms) = (None, db1)" using q(1)
    by (cases "next_fault (mt_db ms)") (auto simp: schema_select_host_def split: option.splits)
  have same: "db_host db1 = db_host (mt_db ms)" using n by (auto simp: next_fault_def split: list.splits)
  have "map host_sample_from_row ?rows = map Inr ss"
    using q(1) by (simp add: schema_select_host_def n same collect_results_iff)
  then have ts: "map hp_ts points = map hw_ts ?rows"
    using host_rows_ts [of ?rows ss] by (simp add: q(2) comp_def host_point_of_sample_def)
  show "sorted (map hp_ts points)" unfolding ts by (rule sorted_sort_key)
  have "hp_ts ` set points = hw_ts ` set ?rows" using arg_cong [OF ts, of set] by simp
  then show "hp_ts ` set points = {t \<in> hw_ts ` set (db_host (mt_db ms) r). in_range rg t}" by auto
qed

lemma fetch_host_points:
  "fetch_host st rg r = (st1, points) \<Longrightarrow> sorted (map hp_ts points) \<and> (\<forall>p \<in> set points. in_range rg (hp_ts p))"
  using query_host_points [of "as_metrics st" rg r]
  by (cases "query_host (as_metrics st) rg r"; cases "snd (query_host (as_metrics st) rg r)")
    (fastforce simp: fetch_host_def)+

definition host_input :: "app_state \<times> wake \<Rightarrow> series_stream
    \<Rightarrow> ((host_point list, host_point) series_event, series_stream) polled" where
  "host_input i s = snd (host_stream_poll (fst i) (snd i) s)"

fun event_times :: "(host_point list, host_point) series_event \<Rightarrow> timestamp_ms list" where
  "event_times (SeriesSnapshot m) = map hp_ts (mr_data m)"
| "event_times (SeriesAppend p) = [hp_ts p]"

lemma host_waiting:
  assumes "host_input i (SeriesWaiting rx last_sent r) = StreamYields e s'"
  shows "\<exists>p. e = SeriesAppend p \<and> last_sent \<le> hp_ts p \<and>
    s' = SeriesWaiting (watched (as_bucket_watcher (fst i)) HostSource r) (hp_ts p) r"
proof -
  let ?upto = "watched (as_bucket_watcher (fst i)) HostSource r"
  obtain st1 points where f: "fetch_host (fst i) \<lparr>range_from = last_sent, range_to = ?upto\<rparr> r = (st1, points)" by fastforce
  have "points \<noteq> []" "e = SeriesAppend (last points)" "s' = SeriesWaiting ?upto (hp_ts (last points)) r"
    using assms f by (auto simp: host_input_def host_stream_poll_def series_poll_def Let_def last_point_def
        split: wake.splits if_splits)
  moreover have "last_sent \<le> hp_ts (last points)"
    using fetch_host_points [OF f] \<open>points \<noteq> []\<close> by (auto simp: in_range_def)
  ultimately show ?thesis by blast
qed

definition series_inv :: "series_stream \<Rightarrow> timestamp_ms list \<Rightarrow> bool" where
  "series_inv s ts \<longleftrightarrow>
     (case s of SeriesInitial _ _ _ \<Rightarrow> ts = []
      | SeriesWaiting _ last_sent _ \<Rightarrow> sorted ts \<and> (\<forall>t \<in> set ts. t \<le> last_sent))"

lemma series_inv_sorted: "series_inv s ts \<Longrightarrow> sorted ts"
  by (cases s) (auto simp: series_inv_def)

lemma series_inv_polled:
  assumes "series_inv s ts"
  shows "host_input i s = StreamWaits s' \<Longrightarrow> series_inv s' ts"
    "host_input i s = StreamYields e s' \<Longrightarrow> series_inv s' (ts @ event_times e)"
proof -
  show "series_inv s' ts" if "host_input i s = StreamWaits s'"
    using that assms
    by (cases s) (auto simp: host_input_def host_stream_poll_def series_poll_def series_inv_def Let_def
        split: wake.splits if_splits prod.splits option.splits)
  show "series_inv s' (ts @ event_times e)" if p: "host_input i s = StreamYields e s'"
  proof (cases s)
    case (SeriesInitial rx rg r)
    obtain st1 points where f: "fetch_host (fst i) rg r = (st1, points)" by fastforce
    have "ts = []" using assms by (simp add: SeriesInitial series_inv_def)
    moreover have "t \<le> unwrap_or (range_from rg) (map_option hp_ts (last_point points))"
      if "t \<in> set (map hp_ts points)" for t
    proof -
      have "map hp_ts points \<noteq> []" using that by auto
      with fetch_host_points [OF f] that have "t \<le> last (map hp_ts points)"
        by (auto intro: sorted_last_ge)
      with \<open>map hp_ts points \<noteq> []\<close> show ?thesis by (simp add: last_point_def unwrap_or_def last_map)
    qed
    ultimately show ?thesis
      using p f fetch_host_points [OF f]
      by (auto simp: SeriesInitial host_input_def host_stream_poll_def series_poll_def Let_def series_inv_def)
  next
    case (SeriesWaiting rx last_sent r)
    from host_waiting [OF p [unfolded SeriesWaiting]] assms show ?thesis
      by (fastforce simp: SeriesWaiting series_inv_def sorted_append)
  qed
qed

lemma foldl_times: "foldl (\<lambda>ts e. ts @ g e) ts es = ts @ concat (map g es)"
  by (induction es arbitrary: ts) simp_all

text \<open>
  A host stream never goes back in time: the points of its snapshot and of all its later events
  are in the order of their time stamps, whatever the store answers to its queries.
\<close>

theorem host_stream_in_order:
  assumes "follow host_input inputs (SeriesInitial rx rg r) = (es, last_state)"
  shows "sorted (concat (map event_times es))"
proof -
  have "\<exists>s'. series_inv s' (foldl (\<lambda>ts e. ts @ event_times e) [] es) \<and> (last_state = None \<or> last_state = Some s')"
    by (rule follow_invariant [OF assms])
      (simp add: series_inv_def, erule (1) series_inv_polled(1), erule (1) series_inv_polled(2))
  then obtain s' where "series_inv s' (concat (map event_times es))" by (auto simp: foldl_times)
  then show ?thesis by (rule series_inv_sorted)
qed

theorem host_stream_in_order_witness:
  "\<exists>es. follow host_input [(web_state, FirstChanged), (web_state, FirstChanged)]
     (SeriesInitial 0 \<lparr>range_from = 0, range_to = 60000\<rparr> TenSeconds) = (es, snd (follow host_input
       [(web_state, FirstChanged), (web_state, FirstChanged)] (SeriesInitial 0 \<lparr>range_from = 0, range_to = 60000\<rparr> TenSeconds))) \<and>
     es \<noteq> [] \<and> sorted (concat (map event_times es))"
proof -
  let ?f = "follow host_input [(web_state, FirstChanged), (web_state, FirstChanged)]
     (SeriesInitial 0 \<lparr>range_from = 0, range_to = 60000\<rparr> TenSeconds)"
  have "fst ?f \<noteq> []"
    by (simp add: host_input_def host_stream_poll_def series_poll_def Let_def split_def)
  with host_stream_in_order [of "[(web_state, FirstChanged), (web_state, FirstChanged)]" 0
      "\<lparr>range_from = 0, range_to = 60000\<rparr>" TenSeconds "fst ?f" "snd ?f"]
  show ?thesis by (intro exI [of _ "fst ?f"]) simp
qed

section \<open>The host stream beside the collector\<close>

text \<open>
  The 10s host stream is exact as long as announced buckets are stored, which the collection tasks
  guarantee: when it wakes for a newer announced bucket and its query is answered, the event it sends
  is the point of that bucket, and it will not send it again.
\<close>

theorem host_stream_sends_announced:
  assumes "announced = watched (as_bucket_watcher st) HostSource TenSeconds"
    and "announced \<in> stored_ts (as_metrics st) HostSource" "last_sent < announced" "rx \<noteq> announced"
    and "query_host (as_metrics st) \<lparr>range_from = last_sent, range_to = announced\<rparr> TenSeconds = (ms, Inr points)"
  shows "\<exists>p. host_stream_poll st FirstChanged (SeriesWaiting rx last_sent TenSeconds) =
      (st\<lparr>as_metrics := ms\<rparr>, StreamYields (SeriesAppend p) (SeriesWaiting announced announced TenSeconds)) \<and>
    hp_ts p = announced \<and> p \<in> set points"
proof -
  have "announced \<in> hw_ts ` set (db_host (mt_db (as_metrics st)) TenSeconds)"
    using assms(2) by (simp add: stored_ts_def)
  with query_host_points [OF assms(5)] assms(3) have top: "announced \<in> hp_ts ` set points"
    and below: "\<forall>p \<in> set points. hp_ts p \<le> announced" and sorted: "sorted (map hp_ts points)"
    by (auto simp: in_range_def)
  then have "points \<noteq> []" by auto
  have "hp_ts (last points) = announced"
  proof (rule antisym)
    show "hp_ts (last points) \<le> announced" using below \<open>points \<noteq> []\<close> by simp
    have "announced \<le> last (map hp_ts points)"
      using top sorted_last_ge [OF sorted, of announced] by simp
    then show "announced \<le> hp_ts (last points)" using \<open>points \<noteq> []\<close> by (simp add: last_map)
  qed
  then show ?thesis
    using assms(1,3,4,5) \<open>points \<noteq> []\<close>
    by (simp add: host_stream_poll_def series_poll_def fetch_host_def Let_def last_point_def)
qed

definition stored_bucket :: host_row where
  "stored_bucket =
     \<lparr>hw_ts = 20000, hw_cpu_pct_mill = 7, hw_mem_used = 7, hw_storage_used = 7, hw_metrics_size = 7,
      hw_logs_size = 7, hw_net_rx_rate_mill = None, hw_net_tx_rate_mill = None, hw_disk_read_rate_mill = None,
      hw_disk_write_rate_mill = None, hw_log_pressure_pct_mill = None, hw_app_rss_bytes = None\<rparr>"

definition announced_state :: app_state where
  "announced_state = web_state
     \<lparr>as_metrics := (fresh_store 40)\<lparr>mt_db := empty_db\<lparr>db_host := (\<lambda>_. [stored_bucket])\<rparr>\<rparr>,
      as_bucket_watcher := observe_sample watcher_new HostSource 20000\<rparr>"

theorem host_stream_sends_announced_witness:
  "\<exists>p. snd (host_stream_poll announced_state FirstChanged (SeriesWaiting 0 10000 TenSeconds)) =
     StreamYields (SeriesAppend p) (SeriesWaiting 20000 20000 TenSeconds) \<and> hp_ts p = 20000"
proof -
  have w: "20000 = watched (as_bucket_watcher announced_state) HostSource TenSeconds"
    by (simp add: announced_state_def watched_def watcher_new_def channels_new_def observe_channels_def
        channel_observe_def channel_new_def bucket_end_def coarse_def all_resolutions_def i64_wrap_def Let_def)
  have s: "20000 \<in> stored_ts (as_metrics announced_state) HostSource"
    by (simp add: announced_state_def stored_ts_def stored_bucket_def)
  have "snd (query_host (as_metrics announced_state) \<lparr>range_from = 10000, range_to = 20000\<rparr> TenSeconds)
      = Inr [host_point_of_sample (projr (host_sample_from_row stored_bucket))]"
    by (simp add: announced_state_def query_host_def schema_select_host_def next_fault_def empty_db_def in_range_def
        stored_bucket_def host_sample_from_row_def unsigned_integer_def unsigned_rate_def u64_of_i64_def
        fresh_store_def transpose_option_def)
  then obtain ms points where q: "query_host (as_metrics announced_state)
      \<lparr>range_from = 10000, range_to = 20000\<rparr> TenSeconds = (ms, Inr points)"
    by (metis prod.collapse)
  from host_stream_sends_announced [OF w s _ _ q, of 0] show ?thesis by auto
qed

text \<open>In every state of the collection tasks the hypothesis on the store holds.\<close>

lemma announced_is_stored:
  assumes "collector_reach name_of (loop_new interval st0) l" "0 < watched (cl_watcher l) HostSource TenSeconds"
  shows "watched (cl_watcher l) HostSource TenSeconds \<in> stored_ts (cl_metrics l) HostSource"
proof -
  have "announced_stored l"
    using reach_inv [OF assms(1) loop_inv_new] by (simp add: loop_inv_def)
  then have "watched (cl_watcher l) HostSource TenSeconds = 0 \<or>
      watched (cl_watcher l) HostSource TenSeconds \<in> stored_ts (cl_metrics l) HostSource"
    unfolding announced_stored_def by blast
  with assms(2) show ?thesis by simp
qed

text \<open>
  Two points of one wake: only the last is sent, and no later query reaches the other; with no new
  point the last one is sent again.
\<close>

lemma host_stream_skips_bucket:
  assumes "query_host (as_metrics st) \<lparr>range_from = last_sent, range_to = watched (as_bucket_watcher st) HostSource r\<rparr> r
      = (ms, Inr [p, q])"
    and "rx \<noteq> watched (as_bucket_watcher st) HostSource r" "last_sent < watched (as_bucket_watcher st) HostSource r"
  shows "host_stream_poll st FirstChanged (SeriesWaiting rx last_sent r) =
    (st\<lparr>as_metrics := ms\<rparr>, StreamYields (SeriesAppend q)
       (SeriesWaiting (watched (as_bucket_watcher st) HostSource r) (hp_ts q) r))"
  using assms by (simp add: host_stream_poll_def series_poll_def fetch_host_def Let_def last_point_def)

lemma host_stream_repeats_point:
  assumes "query_host (as_metrics st) \<lparr>range_from = hp_ts p, range_to = watched (as_bucket_watcher st) HostSource r\<rparr> r
      = (ms, Inr [p])"
    and "rx \<noteq> watched (as_bucket_watcher st) HostSource r" "hp_ts p < watched (as_bucket_watcher st) HostSource r"
  shows "host_stream_poll st FirstChanged (SeriesWaiting rx (hp_ts p) r) =
    (st\<lparr>as_metrics := ms\<rparr>, StreamYields (SeriesAppend p)
       (SeriesWaiting (watched (as_bucket_watcher st) HostSource r) (hp_ts p) r))"
  using assms by (simp add: host_stream_poll_def series_poll_def fetch_host_def Let_def last_point_def)


subsection \<open>The series of the services\<close>

lemma map_filter_last_keys:
  "hm_wf m \<Longrightarrow> distinct (map fst (List.map_filter (\<lambda>(k, ps). map_option (\<lambda>p. (k, p)) (last_point ps)) m))"
proof (induction m)
  case (Cons e m)
  obtain k1 ps where e: "e = (k1, ps)" by fastforce
  have "k1 \<notin> fst ` set (List.map_filter (\<lambda>(k, ps). map_option (\<lambda>p. (k, p)) (last_point ps)) m)"
    using Cons.prems by (force simp: e hm_wf_def set_map_filter)
  with Cons show ?case by (cases "last_point ps") (auto simp: e hm_wf_def List.map_filter_simps)
qed (simp add: List.map_filter_simps)

lemma map_filter_last_get:
  assumes "hm_wf m"
  shows "map_of (List.map_filter (\<lambda>(k, ps). map_option (\<lambda>p. (k, p)) (last_point ps)) m) k =
     Option.bind (hm_get m k) last_point" (is "map_of ?l k = ?r")
proof -
  have "map_of ?l k = Some p \<longleftrightarrow> ?r = Some p" for p
  proof -
    have "map_of ?l k = Some p \<longleftrightarrow> (k, p) \<in> set ?l" by (rule map_of_eq_Some_iff [OF map_filter_last_keys [OF assms]])
    also have "\<dots> \<longleftrightarrow> (\<exists>ps. (k, ps) \<in> set m \<and> last_point ps = Some p)"
      by (force simp: set_map_filter)
    also have "\<dots> \<longleftrightarrow> ?r = Some p" by (simp add: hm_get_in_set [OF assms] bind_eq_Some_conv)
    finally show ?thesis .
  qed
  then show ?thesis by (metis option.exhaust)
qed

lemma cross_section_get:
  "hm_wf series \<Longrightarrow> hm_get (cross_section_by_service series) s = Option.bind (hm_get series s) last_point"
  unfolding cross_section_by_service_def
  by (subst hm_get_collect_distinct) (simp_all add: map_filter_last_keys map_filter_last_get)

text \<open>
  The range of an append starts at the point sent last, so the last point of a service that has no
  data in the new bucket is sent again, beside the points of the new one.
\<close>

lemma append_carries_old_point:
  assumes "fetch_series st \<lparr>range_from = gp_ts p, range_to = end_ms\<rparr> r = (st1, [(a, [p]), (b, [q])])"
    and "end_ms = watched (as_bucket_watcher st) ContainersSource r" "rx \<noteq> end_ms" "gp_ts p < gp_ts q"
      "gp_ts q \<le> end_ms" "a \<noteq> b"
  shows "\<exists>m. containers_stream_poll st FirstChanged (SeriesWaiting rx (gp_ts p) r) =
      (st1, StreamYields (SeriesAppend m) (SeriesWaiting end_ms (gp_ts q) r)) \<and>
    hm_get m a = Some p \<and> hm_get m b = Some q"
proof -
  have "latest_ts_by_service [(a, [p]), (b, [q])] = Some (gp_ts q)"
    using assms(4) by (simp add: latest_ts_by_service_def List.map_filter_simps last_point_def list_max_def)
  moreover have "hm_wf [(a, [p]), (b, [q])]" using assms(6) by (simp add: hm_wf_def)
  ultimately show ?thesis
    using assms cross_section_get [of "[(a, [p]), (b, [q])]"]
    by (simp add: containers_stream_poll_def series_poll_def Let_def last_point_def)
qed

end
