(* ===== verification/Log_Tail.thy ===== *)
theory Log_Tail
  imports Log_Paging Api_Streams_Laws
begin

text \<open>
  The forward tail of one service in \<open>api/logs_stream.rs\<close>: its query, the state of the stream and an
  iteration of its loop, with the theorem that the events follow the sorted contents of the store.
\<close>

section \<open>The stream\<close>

record log_tail_query =
  ltq_q :: "string option"
  ltq_level :: "string option"
  ltq_stream :: "string option"
  ltq_after :: "string option"

definition tail_query_filter :: "log_tail_query \<Rightarrow> log_filter app_result" where
  "tail_query_filter q =
     and_then (parse_levels (ltq_level q)) (\<lambda>levels.
     and_then (parse_streams (ltq_stream q)) (\<lambda>streams.
       Inr \<lparr>lf_from = None, lf_to = None, lf_query = ltq_q q, lf_levels = levels, lf_streams = streams,
            lf_limit = None, lf_before = None, lf_after = ltq_after q\<rparr>))"

record tail_state =
  tl_rx :: u64
  tl_service :: string
  tl_filter :: log_filter
  tl_first :: bool

definition tail_subscribe :: "app_state \<Rightarrow> string \<Rightarrow> log_tail_query \<Rightarrow> app_state \<times> tail_state app_result" where
  "tail_subscribe st service q =
     (case tail_query_filter q of
        Inl e \<Rightarrow> (st, Inl e)
      | Inr f \<Rightarrow>
          (let (watcher, rx) = flush_subscribe service (as_log_flush_watcher st) in
           (st\<lparr>as_log_flush_watcher := watcher\<rparr>,
            Inr \<lparr>tl_rx = rx, tl_service = service, tl_filter = f, tl_first = True\<rparr>)))"

text \<open>The body of the loop after it has woken. \<open>None\<close> is a panic of the query.\<close>

definition tail_read ::
    "log_env \<Rightarrow> app_state \<Rightarrow> tail_state \<Rightarrow> app_state \<times> (log_tail_append, tail_state) polled option" where
  "tail_read env st s =
     (let (ls, res) = logs_query env (tl_service s) (tl_filter s) (as_logs st) in
      (st\<lparr>as_logs := ls\<rparr>,
       map_option (\<lambda>r. case r of
           Inl _ \<Rightarrow> StreamWaits s
         | Inr page \<Rightarrow>
             if pg_items page = [] then StreamWaits s
             else StreamYields \<lparr>lt_items = pg_items page, lt_newer_cursor = pg_newer_cursor page\<rparr>
                    (s\<lparr>tl_filter := (tl_filter s)\<lparr>lf_after := pg_newer_cursor page\<rparr>\<rparr>)) res))"

definition tail_poll ::
    "log_env \<Rightarrow> app_state \<Rightarrow> wake \<Rightarrow> tail_state
      \<Rightarrow> app_state \<times> (log_tail_append, tail_state) polled option" where
  "tail_poll env st w s =
     (if tl_first s then tail_read env st (s\<lparr>tl_first := False\<rparr>)
      else case w of
        Cancelled \<Rightarrow> (st, Some (if as_shutdown st then StreamEnds else StreamWaits s))
      | SenderGone \<Rightarrow> (st, Some StreamEnds)
      | _ \<Rightarrow>
          (let revision = unwrap_or 0 (hm_get (fl_services (as_log_flush_watcher st)) (tl_service s)) in
           if revision = tl_rx s then (st, Some (StreamWaits s))
           else tail_read env st (s\<lparr>tl_rx := revision\<rparr>)))"

text \<open>A panic ends the stream, as its task is gone.\<close>

definition tail_input :: "log_env \<Rightarrow> app_state \<times> wake \<Rightarrow> tail_state \<Rightarrow> (log_tail_append, tail_state) polled" where
  "tail_input env i s = unwrap_or StreamEnds (snd (tail_poll env (fst i) (snd i) s))"

section \<open>One read\<close>

text \<open>
  The codec of the cursors: JSON and base64 read back what they wrote. A store that can be read: well
  formed, without I/O errors, and with a directory for the service.
\<close>

definition cursor_codec :: "log_env \<Rightarrow> bool" where
  "cursor_codec env \<longleftrightarrow> (\<forall>c. \<exists>s. encode_cursor (en_to_json env) (en_b64_encode env) c = Inr s \<and>
     decode_cursor (en_b64_decode env) (en_from_json env) s = Inr c)"

definition readable :: "log_env \<Rightarrow> log_store \<Rightarrow> string \<Rightarrow> bool" where
  "readable env st service \<longleftrightarrow>
     store_wf env st \<and> ls_faults st = [] \<and> hm_get (ls_dirs st) (safe_service_path service) \<noteq> None"

text \<open>The entries after a cursor that a filter lets through, in order.\<close>

definition entries_after :: "log_env \<Rightarrow> log_filter \<Rightarrow> log_cursor \<Rightarrow> log_store \<Rightarrow> string \<Rightarrow> stored_log list" where
  "entries_after env f c st service =
     sorted_matches env f (Option.bind (lf_query f) sanitize_fts_query) (Some c) Forward (service_log env st service)"

lemma entry_cursor_ok:
  assumes "iso_calendar env" "store_wf env st" "e \<in> set (service_log env st service)"
  shows "Log_Store.cursor_ok env (Some (cursor_of e))" "calm (sl_ts e)"
proof -
  let ?fs = "files_of st (safe_service_path service)"
  have wf: "files_wf env ?fs" using assms(2) by (simp add: store_wf_def)
  obtain w rows where f: "(w, rows) \<in> set ?fs" "e \<in> set (week_entries env service (w, rows))"
    using assms(3) by (auto simp: service_log_def)
  obtain s where s: "week_start_ms env w = Some s" using week_entries_start [OF f(2)] by blast
  note a = files_wf_week [OF assms(1) wf f(1) s]
  note e = week_entries_elem [OF a(1,2) s f(2)]
  show "Log_Store.cursor_ok env (Some (cursor_of e))"
    using e(1-3) s by (simp add: Log_Store.cursor_ok_def cursor_of_def)
  show "calm (sl_ts e)" using e(1,2) a(2) by (auto simp: calm_def week_start_ok_def week_ms_def)
qed

lemma entries_after_cong [simp]:
  "entries_after env (f\<lparr>lf_after := a\<rparr>) c st service = entries_after env f c st service"
  by (simp add: entries_after_def sorted_matches_def entry_matches_def [abs_def])

lemma tail_read_yields:
  assumes "snd (tail_read env st s) = Some (StreamYields e s')"
  shows "\<exists>a. s' = s\<lparr>tl_filter := (tl_filter s)\<lparr>lf_after := a\<rparr>\<rparr>"
proof -
  obtain ls r where q: "logs_query env (tl_service s) (tl_filter s) (as_logs st) = (ls, r)" by fastforce
  show ?thesis
  proof (cases r)
    case None
    with assms q show ?thesis by (simp add: tail_read_def)
  next
    case (Some res)
    with assms q show ?thesis
      by (cases res) (auto simp: tail_read_def Let_def split: if_splits)
  qed
qed

lemma tail_read_waits:
  assumes "snd (tail_read env st s) = Some (StreamWaits s')"
  shows "s' = s"
proof -
  obtain ls r where q: "logs_query env (tl_service s) (tl_filter s) (as_logs st) = (ls, r)" by fastforce
  show ?thesis
  proof (cases r)
    case None
    with assms q show ?thesis by (simp add: tail_read_def)
  next
    case (Some res)
    with assms q show ?thesis
      by (cases res) (auto simp: tail_read_def Let_def split: if_splits)
  qed
qed

lemma tail_read_forward:
  assumes "iso_calendar env" "cursor_codec env" "readable env (as_logs st) (tl_service s)"
    and "lf_before (tl_filter s) = None" "lf_from (tl_filter s) = None" "lf_to (tl_filter s) = None"
    and "lf_after (tl_filter s) = Some tok" "decode_cursor (en_b64_decode env) (en_from_json env) tok = Inr c"
    and "Log_Store.cursor_ok env (Some c)" "calm (cu_ts c)"
  defines "m \<equiv> entries_after env (tl_filter s) c (as_logs st) (tl_service s)"
    and "limit \<equiv> page_limit (tl_filter s)"
  shows "case snd (tail_read env st s) of
      Some (StreamWaits s') \<Rightarrow> m = [] \<and> s' = s
    | Some (StreamYields e s') \<Rightarrow> m \<noteq> [] \<and> lt_items e = map sl_line (take limit m) \<and>
        (\<exists>tok'. s' = s\<lparr>tl_filter := (tl_filter s)\<lparr>lf_after := Some tok'\<rparr>\<rparr> \<and>
           decode_cursor (en_b64_decode env) (en_from_json env) tok' = Inr (cursor_of (m ! (min limit (length m) - 1))))
    | _ \<Rightarrow> False"
proof -
  let ?f = "tl_filter s"
  have q: "query_cursor env ?f = Some (Some c, Forward)"
    using assms(4,7,8) by (simp add: query_cursor_def transpose_cursor_def)
  have "calm_filter ?f (Some c)" using assms(5,6,10) by (simp add: calm_filter_def)
  from logs_query_result [OF assms(1) _ _ _ q assms(9) this, of "as_logs st" "tl_service s"] assms(3)
  obtain ls where ls: "logs_query env (tl_service s) ?f (as_logs st) =
      (ls, Some (Inr (page_of env ?f Forward limit (take (limit + 1) m))))"
    by (auto simp: readable_def m_def entries_after_def limit_def)
  have "1 \<le> limit" by (simp add: limit_def page_limit_def)
  then have page: "take limit (take (limit + 1) m) = take limit m" by (simp add: min_def)
  show ?thesis
  proof (cases "m = []")
    case True
    then show ?thesis by (simp add: tail_read_def ls page_of_def empty_page_def Let_def)
  next
    case False
    then have ne: "take limit m \<noteq> []" using \<open>1 \<le> limit\<close> by simp
    have last: "last (take limit m) = m ! (min limit (length m) - 1)"
      using ne False \<open>1 \<le> limit\<close> by (simp add: last_conv_nth min.commute)
    obtain tok' where tok': "encode_cursor (en_to_json env) (en_b64_encode env) (cursor_of (last (take limit m))) = Inr tok'"
      "decode_cursor (en_b64_decode env) (en_from_json env) tok' = Inr (cursor_of (last (take limit m)))"
      using assms(2) unfolding cursor_codec_def by blast
    obtain a as where ta: "take limit m = a # as" using ne by (cases "take limit m") auto
    have p: "pg_items (page_of env ?f Forward limit (take (limit + 1) m)) = map sl_line (take limit m)"
      "pg_newer_cursor (page_of env ?f Forward limit (take (limit + 1) m)) = Some tok'"
      using tok'(1) unfolding page_of_def direction.case page ta by (simp_all add: Let_def ok_string_def)
    then show ?thesis using False ne tok'(2) last
      by (auto simp: tail_read_def ls Let_def)
  qed
qed


section \<open>Following the contents\<close>

text \<open>
  The state of a tail that has sent the first \<open>j\<close> of the entries \<open>m\<close> after the cursor \<open>c\<close>: its filter
  carries the cursor of the last one.
\<close>

definition tail_at :: "log_env \<Rightarrow> log_filter \<Rightarrow> log_cursor \<Rightarrow> string \<Rightarrow> stored_log list \<Rightarrow> nat \<Rightarrow> tail_state \<Rightarrow> bool" where
  "tail_at env f c service m j s \<longleftrightarrow> tl_service s = service \<and> j \<le> length m \<and>
     (\<exists>tok. tl_filter s = f\<lparr>lf_after := Some tok\<rparr> \<and>
        decode_cursor (en_b64_decode env) (en_from_json env) tok = Inr (if j = 0 then c else cursor_of (m ! (j - 1))))"

lemma tail_at_prefix:
  assumes "tail_at env f c service m j s" "prefix m m'"
  shows "tail_at env f c service m' j s"
  using assms by (cases j) (auto simp: tail_at_def prefix_def nth_append)

lemma entries_resume:
  fixes f :: log_filter and service :: string
  assumes "iso_calendar env" "readable env st service" "Log_Store.cursor_ok env (Some c)" "calm (cu_ts c)"
  defines "m \<equiv> entries_after env f c st service"
  assumes "j \<le> length m"
  defines "cur \<equiv> if j = 0 then c else cursor_of (m ! (j - 1))"
  shows "entries_after env f cur st service = drop j m" "Log_Store.cursor_ok env (Some cur)" "calm (cu_ts cur)"
proof -
  have wf: "store_wf env st" using assms(2) by (simp add: readable_def)
  show "entries_after env f cur st service = drop j m"
  proof (cases j)
    case (Suc n)
    then have n: "n < length m" using assms(6) by simp
    from sorted_matches_next [OF assms(1) wf, where n = n, OF n [unfolded m_def entries_after_def]]
    show ?thesis by (simp add: entries_after_def cur_def Suc m_def)
  qed (simp add: m_def cur_def)
  have "Log_Store.cursor_ok env (Some cur) \<and> calm (cu_ts cur)"
  proof (cases j)
    case (Suc n)
    then have "m ! n \<in> set m" using assms(6) by simp
    then have "m ! n \<in> set (service_log env st service)" by (auto simp: m_def entries_after_def sorted_matches_def)
    from entry_cursor_ok [OF assms(1) wf this] show ?thesis by (simp add: cur_def Suc cursor_of_def)
  qed (simp add: cur_def assms(3,4))
  then show "Log_Store.cursor_ok env (Some cur)" "calm (cu_ts cur)" by simp_all
qed

text \<open>What the query of a tail never has.\<close>

definition tail_filter :: "log_filter \<Rightarrow> bool" where
  "tail_filter f \<longleftrightarrow> lf_before f = None \<and> lf_from f = None \<and> lf_to f = None"

definition tail_setting :: "log_env \<Rightarrow> log_filter \<Rightarrow> log_cursor \<Rightarrow> bool" where
  "tail_setting env f c \<longleftrightarrow> iso_calendar env \<and> cursor_codec env \<and> tail_filter f \<and>
     Log_Store.cursor_ok env (Some c) \<and> calm (cu_ts c)"

lemma tail_read_at:
  assumes "tail_setting env f c" "readable env (as_logs st) service"
  defines "m \<equiv> entries_after env f c (as_logs st) service"
  assumes "tail_at env f c service m j s"
  shows "case snd (tail_read env st s) of
      Some (StreamWaits s') \<Rightarrow> j = length m \<and> s' = s
    | Some (StreamYields e s') \<Rightarrow> lt_items e = map sl_line (take (page_limit f) (drop j m)) \<and>
        tail_at env f c service m (min (length m) (j + page_limit f)) s' \<and> tl_first s' = tl_first s
    | _ \<Rightarrow> False"
proof -
  have o: "iso_calendar env" "cursor_codec env" "tail_filter f" "Log_Store.cursor_ok env (Some c)" "calm (cu_ts c)"
    using assms(1) by (simp_all add: tail_setting_def)
  define cur where "cur = (if j = 0 then c else cursor_of (m ! (j - 1)))"
  obtain tok where s: "tl_service s = service" "j \<le> length m" "tl_filter s = f\<lparr>lf_after := Some tok\<rparr>"
    "decode_cursor (en_b64_decode env) (en_from_json env) tok = Inr cur"
    using assms(4) by (auto simp: tail_at_def cur_def)
  note r = entries_resume [OF o(1) assms(2) o(4,5), where f = f and j = j, folded m_def, OF s(2), folded cur_def]
  have lim: "page_limit (tl_filter s) = page_limit f" by (simp add: s(3) page_limit_def)
  have after: "entries_after env (tl_filter s) cur (as_logs st) (tl_service s) = drop j m"
    using r(1) by (simp add: s(1,3))
  have side: "readable env (as_logs st) (tl_service s)" "lf_before (tl_filter s) = None" "lf_from (tl_filter s) = None"
    "lf_to (tl_filter s) = None" "lf_after (tl_filter s) = Some tok"
    using assms(2) o(3) by (simp_all add: s tail_filter_def)
  note step = tail_read_forward [OF o(1,2) side s(4) r(2,3), unfolded after lim]
  have ge: "1 \<le> page_limit f" by (simp add: page_limit_def)
  show ?thesis
  proof (cases "snd (tail_read env st s)")
    case None
    with step show ?thesis by simp
  next
    case (Some p)
    show ?thesis
    proof (cases p)
      case StreamEnds
      with step Some show ?thesis by simp
    next
      case (StreamWaits s')
      with step Some s(2) show ?thesis by simp
    next
      case (StreamYields e s')
      with step Some obtain tok' where y: "drop j m \<noteq> []" "lt_items e = map sl_line (take (page_limit f) (drop j m))"
        "s' = s\<lparr>tl_filter := (tl_filter s)\<lparr>lf_after := Some tok'\<rparr>\<rparr>"
        "decode_cursor (en_b64_decode env) (en_from_json env) tok' =
           Inr (cursor_of (drop j m ! (min (page_limit f) (length m - j) - 1)))" by auto
      have j: "j < length m" using y(1) by simp
      let ?k = "min (length m) (j + page_limit f)"
      have "drop j m ! (min (page_limit f) (length m - j) - 1) = m ! (?k - 1)"
      proof -
        have "j + (min (page_limit f) (length m - j) - 1) = ?k - 1" using j ge by (auto simp: min_def)
        then show ?thesis using j by simp
      qed
      moreover have "?k \<noteq> 0" "?k \<le> length m" using j ge by (cases m; simp)+
      ultimately have "decode_cursor (en_b64_decode env) (en_from_json env) tok' =
          Inr (if ?k = 0 then c else cursor_of (m ! (?k - 1)))" "?k \<le> length m"
        using y(4) by (simp_all only: if_False refl)
      then have "tail_at env f c service m ?k s'"
        unfolding tail_at_def by (intro conjI exI [of _ tok']) (simp_all only: y(3) s(1,3), simp_all add: s(1))
      with y(2,3) show ?thesis by (simp add: Some StreamYields)
    qed
  qed
qed

lemma tail_input_at:
  assumes "tail_setting env f c" "readable env (as_logs st) service"
  defines "m \<equiv> entries_after env f c (as_logs st) service"
  assumes "tail_at env f c service m j s"
  shows "case tail_input env (st, w) s of
      StreamEnds \<Rightarrow> \<not> tl_first s \<and> w \<in> {Cancelled, SenderGone}
    | StreamWaits s' \<Rightarrow> tail_at env f c service m j s' \<and>
        (tl_first s \<or> w \<in> {FirstChanged, SecondChanged} \<and>
           unwrap_or 0 (hm_get (fl_services (as_log_flush_watcher st)) service) \<noteq> tl_rx s \<longrightarrow> j = length m)
    | StreamYields e s' \<Rightarrow> lt_items e = map sl_line (take (page_limit f) (drop j m)) \<and>
        tail_at env f c service m (min (length m) (j + page_limit f)) s'"
proof -
  have service: "tl_service s = service" using assms(4) by (simp add: tail_at_def)
  have at: "tail_at env f c service m j (s\<lparr>tl_first := b\<rparr>)" "tail_at env f c service m j (s\<lparr>tl_rx := r\<rparr>)" for b r
    using assms(4) by (simp_all add: tail_at_def)
  note read = tail_read_at [OF assms(1,2), folded m_def]
  show ?thesis
  proof (cases "tl_first s")
    case True
    from read [OF at(1) [of False]] show ?thesis
      using at(1) [of False]
      by (auto simp: tail_input_def tail_poll_def True unwrap_or_def split: option.splits polled.splits)
  next
    case False
    let ?rev = "unwrap_or 0 (hm_get (fl_services (as_log_flush_watcher st)) service)"
    from read [OF at(2) [of ?rev]] show ?thesis
      using at(2) [of ?rev] assms(4)
      by (cases w) (auto simp: tail_input_def tail_poll_def False service Let_def unwrap_or_def split: option.splits polled.splits)
  qed
qed


text \<open>The contents of the polls: each has those of the one before and newer entries.\<close>

definition growing :: "log_env \<Rightarrow> log_filter \<Rightarrow> log_cursor \<Rightarrow> string \<Rightarrow> (app_state \<times> wake) list \<Rightarrow> bool" where
  "growing env f c service inputs \<longleftrightarrow>
     (\<forall>(st, w) \<in> set inputs. readable env (as_logs st) service) \<and>
     sorted_wrt (\<lambda>a b. prefix (entries_after env f c (as_logs (fst a)) service)
       (entries_after env f c (as_logs (fst b)) service)) inputs"

lemma follow_tail:
  assumes "tail_setting env f c" "growing env f c service (inputs @ [next])"
    and "follow (tail_input env) inputs s = (es, Some s')"
  defines "m \<equiv> entries_after env f c (as_logs (fst next)) service"
  assumes "tail_at env f c service m j s"
    and "\<And>i. i \<in> set inputs \<Longrightarrow> j \<le> length (entries_after env f c (as_logs (fst i)) service)"
  shows "\<exists>k. tail_at env f c service m k s' \<and> concat (map lt_items es) = map sl_line (drop j (take k m)) \<and> j \<le> k"
  using assms(2,3,5,6)
proof (induction inputs arbitrary: s j es)
  case Nil
  then show ?case by (intro exI [of _ j]) simp
next
  case (Cons i inputs)
  obtain st w where i: "i = (st, w)" by fastforce
  let ?m = "entries_after env f c (as_logs st) service"
  have pre: "prefix ?m m" and grow: "growing env f c service (inputs @ [next])"
    and ok: "readable env (as_logs st) service"
    and later: "\<And>b. b \<in> set inputs \<Longrightarrow> prefix ?m (entries_after env f c (as_logs (fst b)) service)"
    using Cons.prems(1) by (auto simp: growing_def i m_def)
  have j: "j \<le> length ?m" using Cons.prems(4) [of i] by (simp add: i)
  have here: "tail_at env f c service ?m j s"
    using Cons.prems(3) pre j by (cases j) (auto simp: tail_at_def prefix_def nth_append)
  note step = tail_input_at [OF assms(1) ok here, of w]
  have rest: "\<exists>k. tail_at env f c service m k s' \<and> concat (map lt_items es1) = map sl_line (drop j1 (take k m)) \<and> j1 \<le> k"
    if "follow (tail_input env) inputs s1 = (es1, Some s')" "tail_at env f c service ?m j1 s1" for s1 es1 j1
  proof (rule Cons.IH [OF grow that(1) tail_at_prefix [OF that(2) pre]])
    fix b assume "b \<in> set inputs"
    then show "j1 \<le> length (entries_after env f c (as_logs (fst b)) service)"
      using prefix_length_le [OF later] that(2) unfolding tail_at_def by (meson le_trans)
  qed
  show ?case
  proof (cases "tail_input env i s")
    case StreamEnds
    with Cons.prems(2) show ?thesis by simp
  next
    case (StreamWaits s1)
    then show ?thesis using rest [of s1 es j] step Cons.prems(2) by (simp add: i)
  next
    case (StreamYields e s1)
    with Cons.prems(2) obtain es1 where es: "follow (tail_input env) inputs s1 = (es1, Some s')" "es = e # es1"
      by (auto split: prod.splits)
    let ?j = "min (length ?m) (j + page_limit f)"
    from step StreamYields have e: "lt_items e = map sl_line (take (page_limit f) (drop j ?m))"
      "tail_at env f c service ?m ?j s1" by (simp_all add: i)
    from rest [OF es(1) e(2)] obtain k where k: "tail_at env f c service m k s'"
      "concat (map lt_items es1) = map sl_line (drop ?j (take k m))" "?j \<le> k" by blast
    obtain zs where zs: "m = ?m @ zs" using pre by (auto simp: prefix_def)
    have "take (page_limit f) (drop j ?m) = drop j (take ?j m)"
      using j by (subst zs) (simp add: drop_take min_def)
    then have "lt_items e @ map sl_line (drop ?j (take k m)) = map sl_line (drop j (take ?j m) @ drop ?j (take k m))"
      by (simp add: e(1))
    also have "drop j (take ?j m) @ drop ?j (take k m) = drop j (take k m)"
    proof -
      have "take k m = take ?j m @ drop ?j (take k m)"
        using k(3) by (metis append_take_drop_id min.absorb1 take_take)
      moreover have "j \<le> length (take ?j m)" using j zs by (simp add: min_def)
      ultimately show ?thesis by (metis drop_append diff_is_0_eq drop0)
    qed
    finally show ?thesis using k(1,2) j k(3) e(1) es(2) by (intro exI [of _ k]) (auto simp: min_def split: if_splits)
  qed
qed

text \<open>
  C30. The tail of a service loses, repeats and reorders nothing. Whatever polls came before, while the
  store grew at its end, the next one that wakes continues exactly where the events stopped: together
  they are the lines that follow the client's cursor in the sorted contents, up to a full page more;
  and a poll that sends nothing found that everything had been sent.
\<close>

theorem tail_continues_exactly:
  assumes "tail_setting env f c" "growing env f c service (inputs @ [(st, FirstChanged)])"
    and "follow (tail_input env) inputs s0 = (es, Some s)"
    and "tail_at env f c service [] 0 s0"
    and "tl_first s \<or> unwrap_or 0 (hm_get (fl_services (as_log_flush_watcher st)) service) \<noteq> tl_rx s"
  defines "sent \<equiv> concat (map lt_items es)"
    and "contents \<equiv> entries_after env f c (as_logs st) service"
  shows "case tail_input env (st, FirstChanged) s of
      StreamEnds \<Rightarrow> False
    | StreamWaits _ \<Rightarrow> sent = map sl_line contents
    | StreamYields e _ \<Rightarrow> sent @ lt_items e = map sl_line (take (length sent + page_limit f) contents)"
proof -
  have "tail_at env f c service contents 0 s0" by (rule tail_at_prefix [OF assms(4)]) simp
  from follow_tail [OF assms(1-3), where j = 0] this obtain k where
    k: "tail_at env f c service contents k s" "sent = map sl_line (take k contents)"
    by (auto simp: contents_def sent_def)
  have kl: "k \<le> length contents" using k(1) by (simp add: tail_at_def)
  then have "length sent = k" by (simp add: k(2))
  have ok: "readable env (as_logs st) service" using assms(2) by (simp add: growing_def)
  from tail_input_at [OF assms(1) ok, folded contents_def, OF k(1), of FirstChanged] assms(5)
  show ?thesis
    by (cases "tail_input env (st, FirstChanged) s") (auto simp: \<open>length sent = k\<close> k(2) take_add min.absorb2 [OF kl])
qed

text \<open>
  A concrete setting: a codec that writes the numbers in unary, and the store of one week. After a
  first poll the stream continues with the second.
\<close>

definition unary :: "int \<Rightarrow> string" where
  "unary n = (if n < 0 then ''-'' else []) @ replicate (nat \<bar>n\<bar>) CHR ''1'' @ '',''"

definition read_unary :: "string \<Rightarrow> int \<times> string" where
  "read_unary s =
     (let digits = takeWhile (\<lambda>c. c \<noteq> CHR '','') s; n = int (length (filter (\<lambda>c. c = CHR ''1'') digits)) in
      (if take 1 digits = ''-'' then - n else n, drop (Suc (length digits)) s))"

lemma read_unary_unary: "read_unary (unary n @ rest) = (n, rest)"
proof -
  have plain: "takeWhile (\<lambda>c. c \<noteq> CHR '','') (replicate k CHR ''1'' @ CHR '','' # rest) = replicate k CHR ''1''" for k
    by (simp add: takeWhile_append)
  have "take 1 (replicate k CHR ''1'') \<noteq> ''-''" for k by (cases k) simp_all
  then show ?thesis by (auto simp: read_unary_def unary_def plain Let_def)
qed

definition unary_env :: log_env where
  "unary_env = week_one_env\<lparr>
     en_to_json := (\<lambda>c. Inr (unary (cu_ts c) @ unary (cu_id c) @ cu_week c)),
     en_from_json := (\<lambda>s. case read_unary s of (ts, rest) \<Rightarrow> (case read_unary rest of (i, week) \<Rightarrow>
       Inr \<lparr>cu_ts = ts, cu_week = week, cu_id = i\<rparr>))\<rparr>"

lemma unary_env_ok: "cursor_codec unary_env" "iso_calendar unary_env" "store_wf unary_env week_one_store"
proof -
  show "cursor_codec unary_env"
    by (simp add: cursor_codec_def encode_cursor_def decode_cursor_def unary_env_def week_one_env_def read_unary_unary)
  show "iso_calendar unary_env"
    using week_one_calendar by (simp add: iso_calendar_def unary_env_def)
  have "week_name unary_env = week_name week_one_env" "week_start_ms unary_env = week_start_ms week_one_env"
    by (simp_all add: fun_eq_iff week_name_def week_start_ms_def unary_env_def)
  then show "store_wf unary_env week_one_store"
    using week_one_wf by (simp add: store_wf_def files_wf_def)
qed

definition tailed_state :: app_state where
  "tailed_state = web_state\<lparr>as_logs := week_one_store, as_log_flush_watcher := flush_watcher_new\<rparr>"

definition week_one_cursor :: log_cursor where
  "week_one_cursor = \<lparr>cu_ts = 0, cu_week = ''1970_w01.db'', cu_id = 0\<rparr>"

definition all_tailed :: log_filter where
  "all_tailed = all_logs\<lparr>lf_from := None, lf_limit := None\<rparr>"

definition tail_start :: tail_state where
  "tail_start = \<lparr>tl_rx = 1, tl_service = ''web'',
     tl_filter = all_tailed\<lparr>lf_after := Some (unary 0 @ unary 0 @ ''1970_w01.db'')\<rparr>, tl_first = True\<rparr>"

lemma tail_start_ok:
  "tail_setting unary_env all_tailed week_one_cursor" "readable unary_env (as_logs tailed_state) ''web''"
  "tail_at unary_env all_tailed week_one_cursor ''web'' [] 0 tail_start"
proof -
  have "week_start_ms unary_env ''1970_w01.db'' = Some (- 259200000)"
    using week_one_start by (simp add: week_start_ms_def unary_env_def)
  then show "tail_setting unary_env all_tailed week_one_cursor"
    by (simp add: tail_setting_def unary_env_ok tail_filter_def all_tailed_def all_logs_def
        Log_Store.cursor_ok_def week_one_cursor_def calm_def week_ms_def)
  have "safe_service_path ''web'' = ''web''" by (simp add: safe_service_path_def path_parts_def)
  then show "readable unary_env (as_logs tailed_state) ''web''"
    using unary_env_ok(3) unfolding readable_def
    by (intro conjI) (simp_all add: tailed_state_def, simp_all add: week_one_store_def log_store_new_def)
  have "decode_cursor (en_b64_decode unary_env) (en_from_json unary_env) (unary 0 @ unary 0 @ ''1970_w01.db'') =
      Inr week_one_cursor"
    by (simp add: decode_cursor_def unary_env_def week_one_env_def read_unary_unary week_one_cursor_def)
  then show "tail_at unary_env all_tailed week_one_cursor ''web'' [] 0 tail_start"
    unfolding tail_at_def
    by (intro conjI exI [of _ "unary 0 @ unary 0 @ ''1970_w01.db''"]) (simp_all add: tail_start_def)
qed

lemma tail_start_follows:
  "\<exists>es s. follow (tail_input unary_env) [(tailed_state, FirstChanged)] tail_start = (es, Some s) \<and> tl_rx s = 1"
proof -
  have first: "tail_input unary_env (tailed_state, FirstChanged) tail_start =
      unwrap_or StreamEnds (snd (tail_read unary_env tailed_state (tail_start\<lparr>tl_first := False\<rparr>)))"
    by (simp add: tail_input_def tail_poll_def tail_start_def)
  note step = tail_input_at [OF tail_start_ok(1,2) tail_at_prefix [OF tail_start_ok(3)], of FirstChanged]
  show ?thesis
  proof (cases "tail_input unary_env (tailed_state, FirstChanged) tail_start")
    case StreamEnds
    with step show ?thesis by (simp add: tail_start_def)
  next
    case (StreamWaits s)
    with first have "snd (tail_read unary_env tailed_state (tail_start\<lparr>tl_first := False\<rparr>)) = Some (StreamWaits s)"
      by (simp add: unwrap_or_def split: option.splits)
    from tail_read_waits [OF this] have "tl_rx s = tl_rx tail_start" by simp
    with StreamWaits show ?thesis by (simp add: tail_start_def)
  next
    case (StreamYields e s)
    with first have "snd (tail_read unary_env tailed_state (tail_start\<lparr>tl_first := False\<rparr>)) = Some (StreamYields e s)"
      by (simp add: unwrap_or_def split: option.splits)
    from tail_read_yields [OF this] have "tl_rx s = tl_rx tail_start" by auto
    with StreamYields show ?thesis by (simp add: tail_start_def)
  qed
qed

theorem tail_continues_exactly_witness:
  "\<exists>es s. follow (tail_input unary_env) [(tailed_state, FirstChanged)] tail_start = (es, Some s) \<and>
     (case tail_input unary_env (tailed_state, FirstChanged) s of
        StreamEnds \<Rightarrow> False
      | StreamWaits _ \<Rightarrow> concat (map lt_items es) =
          map sl_line (entries_after unary_env all_tailed week_one_cursor week_one_store ''web'')
      | StreamYields e _ \<Rightarrow> concat (map lt_items es) @ lt_items e =
          map sl_line (take (length (concat (map lt_items es)) + page_limit all_tailed)
            (entries_after unary_env all_tailed week_one_cursor week_one_store ''web'')))"
proof -
  obtain es s where f: "follow (tail_input unary_env) [(tailed_state, FirstChanged)] tail_start = (es, Some s)"
    and rx: "tl_rx s = 1" using tail_start_follows by blast
  have "hm_get (fl_services (as_log_flush_watcher tailed_state)) ''web'' = None"
    by (simp add: tailed_state_def flush_watcher_new_def)
  then have "unwrap_or 0 (hm_get (fl_services (as_log_flush_watcher tailed_state)) ''web'') \<noteq> tl_rx s"
    by (simp add: rx unwrap_or_def)
  moreover have "growing unary_env all_tailed week_one_cursor ''web'' ([(tailed_state, FirstChanged)] @ [(tailed_state, FirstChanged)])"
    using tail_start_ok(2) by (simp add: growing_def)
  moreover have logs: "as_logs tailed_state = week_one_store" by (simp add: tailed_state_def)
  ultimately have conds: "growing unary_env all_tailed week_one_cursor ''web'' ([(tailed_state, FirstChanged)] @ [(tailed_state, FirstChanged)])"
    "tl_first s \<or> unwrap_or 0 (hm_get (fl_services (as_log_flush_watcher tailed_state)) ''web'') \<noteq> tl_rx s" by simp_all
  have "case tail_input unary_env (tailed_state, FirstChanged) s of
        StreamEnds \<Rightarrow> False
      | StreamWaits _ \<Rightarrow> concat (map lt_items es) =
          map sl_line (entries_after unary_env all_tailed week_one_cursor week_one_store ''web'')
      | StreamYields e _ \<Rightarrow> concat (map lt_items es) @ lt_items e =
          map sl_line (take (length (concat (map lt_items es)) + page_limit all_tailed)
            (entries_after unary_env all_tailed week_one_cursor week_one_store ''web''))"
    by (rule tail_continues_exactly [OF tail_start_ok(1) conds(1) f tail_start_ok(3) conds(2), unfolded logs])
  with f show ?thesis by blast
qed

text \<open>
  A page that does not hold all that is waiting: the rest stays unsent until the next flush of the
  service, although the store has it.
\<close>

lemma tail_stalls_behind_page:
  assumes "tail_setting env f c" "readable env (as_logs st) service"
    and "tail_at env f c service (entries_after env f c (as_logs st) service) j s"
    and "j + page_limit f < length (entries_after env f c (as_logs st) service)"
    and "tail_input env (st, FirstChanged) s = StreamYields e s'" "\<not> tl_first s"
    and "as_log_flush_watcher st' = as_log_flush_watcher st"
  shows "tail_input env (st', FirstChanged) s' = StreamWaits s'"
    "tail_at env f c service (entries_after env f c (as_logs st) service) (j + page_limit f) s'"
proof -
  let ?rev = "unwrap_or 0 (hm_get (fl_services (as_log_flush_watcher st)) (tl_service s))"
  have "?rev \<noteq> tl_rx s" "snd (tail_read env st (s\<lparr>tl_rx := ?rev\<rparr>)) = Some (StreamYields e s')"
    using assms(5,6) by (auto simp: tail_input_def tail_poll_def unwrap_or_def Let_def split: if_splits option.splits)
  from tail_read_yields [OF this(2)] assms(6)
  have "tl_rx s' = ?rev \<and> tl_service s' = tl_service s \<and> \<not> tl_first s'" by auto
  then show "tail_input env (st', FirstChanged) s' = StreamWaits s'"
    using assms(7) by (simp add: tail_input_def tail_poll_def unwrap_or_def Let_def)
  show "tail_at env f c service (entries_after env f c (as_logs st) service) (j + page_limit f) s'"
    using tail_input_at [OF assms(1-3), of FirstChanged] assms(4,5) by (simp add: min_def split: if_splits)
qed

end
