(* ===== verification/Sqlite.thy ===== *)
theory Sqlite
  imports Metrics_Schema "HOL-Library.Multiset"
begin

text \<open>
  \<^verbatim>\<open>src/sqlite.rs\<close> and the statements that set the databases up: \<^verbatim>\<open>src/logs/schema.rs\<close>, the table
  creation of \<^verbatim>\<open>src/metrics/schema.rs\<close> and of the two stores. A database is the part of it that these
  statements read and change: the columns of its tables, its indexes and triggers, the lines of the
  table \<open>logs\<close> with the contents of the full-text index, and the number of free pages. Each statement
  is its documented effect; any statement may fail instead, as the list of faults says.
\<close>

section \<open>Databases and statements\<close>

record sql_db =
  sq_tables :: "(string, string list) hash_map"
  sq_indexes :: "(string, string \<times> string list) hash_map"
  sq_triggers :: "string list"
  sq_rows :: "(int \<times> string) list"
  sq_fts :: "(int \<times> string) list"
  sq_free :: i64
  sq_faults :: "string option list"
  sq_executed :: nat

type_synonym effect = "sql_db \<Rightarrow> string + sql_db"

text \<open>One statement, which fails when the next fault says so or when its own effect is an error.\<close>

definition statement :: "effect \<Rightarrow> sql_db \<Rightarrow> sql_db \<times> unit app_result" where
  "statement effect db =
     (let db1 = db\<lparr>sq_faults := tl (sq_faults db), sq_executed := Suc (sq_executed db)\<rparr> in
      case sq_faults db of
        Some m # _ \<Rightarrow> (db1, Inl (Storage m))
      | _ \<Rightarrow> (case effect db1 of Inl m \<Rightarrow> (db1, Inl (Storage m)) | Inr db2 \<Rightarrow> (db2, Inr ())))"

fun statements :: "effect list \<Rightarrow> sql_db \<Rightarrow> sql_db \<times> unit app_result" where
  "statements [] db = (db, Inr ())"
| "statements (effect # later) db =
     (case statement effect db of (db1, Inl e) \<Rightarrow> (db1, Inl e)
      | (db1, Inr _) \<Rightarrow> statements later db1)"

text \<open>
  A transaction with its begin and its commit. Dropping it uncommitted rolls its effects back.
\<close>

definition transaction :: "effect list \<Rightarrow> sql_db \<Rightarrow> sql_db \<times> unit app_result" where
  "transaction effects db =
     (case statements (Inr # effects @ [Inr]) db of
        (db1, Inl e) \<Rightarrow> (db\<lparr>sq_faults := sq_faults db1, sq_executed := sq_executed db1\<rparr>, Inl e)
      | (db1, Inr _) \<Rightarrow> (db1, Inr ()))"

definition has_table :: "sql_db \<Rightarrow> string \<Rightarrow> bool" where
  "has_table db name \<longleftrightarrow> hm_get (sq_tables db) name \<noteq> None"

definition create_table :: "string \<Rightarrow> string list \<Rightarrow> effect" where
  "create_table name columns db =
     Inr (if has_table db name then db
          else db\<lparr>sq_tables := hm_insert name columns (sq_tables db)\<rparr>)"

definition add_column :: "string \<Rightarrow> string \<Rightarrow> effect" where
  "add_column table column db =
     (case hm_get (sq_tables db) table of
        None \<Rightarrow> Inl (''no such table: '' @ table)
      | Some columns \<Rightarrow>
          if column \<in> set columns then Inl (''duplicate column name: '' @ column)
          else Inr (db\<lparr>sq_tables := hm_insert table (columns @ [column]) (sq_tables db)\<rparr>))"

definition create_index :: "string \<Rightarrow> string \<Rightarrow> string list \<Rightarrow> effect" where
  "create_index name table columns db =
     (if hm_get (sq_indexes db) name \<noteq> None then Inr db
      else case hm_get (sq_tables db) table of
        None \<Rightarrow> Inl (''no such table: '' @ table)
      | Some present \<Rightarrow>
          if set columns \<subseteq> set present
          then Inr (db\<lparr>sq_indexes := hm_insert name (table, columns) (sq_indexes db)\<rparr>)
          else Inl ''no such column'')"

definition create_trigger :: "string \<Rightarrow> string \<Rightarrow> effect" where
  "create_trigger name table db =
     (if \<not> has_table db table then Inl (''no such table: '' @ table)
      else Inr (if name \<in> set (sq_triggers db) then db
                else db\<lparr>sq_triggers := sq_triggers db @ [name]\<rparr>))"

section \<open>The shared helpers\<close>

definition statement_cache_capacity :: nat where "statement_cache_capacity = 32"
definition analysis_limit :: nat where "analysis_limit = 400"
definition vacuum_chunk_pages :: nat where "vacuum_chunk_pages = 1000"

record connect_options =
  co_filename :: string
  co_create_if_missing :: bool
  co_journal_delete :: bool
  co_synchronous_full :: bool
  co_incremental_vacuum :: bool
  co_busy_timeout :: nat
  co_foreign_keys :: bool
  co_statement_cache :: nat
  co_optimize_on_close :: "nat option"
  co_cache_size :: string
  co_max_connections :: nat
  co_min_connections :: nat

definition open_options :: "string \<Rightarrow> u64 \<Rightarrow> nat \<Rightarrow> bool \<Rightarrow> connect_options" where
  "open_options db_path cache_size_kb busy_timeout auto_vacuum =
     \<lparr>co_filename = db_path, co_create_if_missing = True, co_journal_delete = True, co_synchronous_full = True,
      co_incremental_vacuum = auto_vacuum, co_busy_timeout = busy_timeout, co_foreign_keys = False,
      co_statement_cache = statement_cache_capacity, co_optimize_on_close = Some analysis_limit,
      co_cache_size = ''-'' @ nat_to_string (unat cache_size_kb), co_max_connections = 1, co_min_connections = 1\<rparr>"

text \<open>
  \<^verbatim>\<open>open_pool\<close>: creating the directory and connecting are calls of the system and of the driver, whose
  outcomes are arguments.
\<close>

definition open_pool ::
    "(string \<Rightarrow> string + unit) \<Rightarrow> (connect_options \<Rightarrow> string + sql_db) \<Rightarrow> string option \<Rightarrow> string
      \<Rightarrow> u64 \<Rightarrow> nat \<Rightarrow> bool \<Rightarrow> sql_db app_result" where
  "open_pool create_dir_all connect parent db_path cache_size_kb busy_timeout auto_vacuum =
     and_then (case parent of None \<Rightarrow> Inr () | Some dir \<Rightarrow> map_sum Storage id (create_dir_all dir)) (\<lambda>_.
       map_sum Storage id (connect (open_options db_path cache_size_kb busy_timeout auto_vacuum)))"

definition add_column_if_missing :: "string \<Rightarrow> string \<Rightarrow> sql_db \<Rightarrow> sql_db \<times> unit app_result" where
  "add_column_if_missing table column db =
     (case statement Inr db of (db1, Inl e) \<Rightarrow> (db1, Inl e)
      | (db1, Inr _) \<Rightarrow>
          let existing = (case hm_get (sq_tables db1) table of None \<Rightarrow> [] | Some columns \<Rightarrow> columns) in
          if column \<in> set existing then (db1, Inr ())
          else statement (add_column table column) db1)"

definition incremental_vacuum :: "nat \<Rightarrow> effect" where
  "incremental_vacuum n db = Inr (db\<lparr>sq_free := (if 0 < sq_free db then max 0 (sq_free db - int n) else sq_free db)\<rparr>)"

fun vacuum_loop :: "nat \<Rightarrow> sql_db \<Rightarrow> sql_db \<times> unit app_result" where
  "vacuum_loop 0 db = (db, Inr ())"
| "vacuum_loop (Suc n) db =
     (case statement (incremental_vacuum vacuum_chunk_pages) db of (db1, Inl e) \<Rightarrow> (db1, Inl e)
      | (db1, Inr _) \<Rightarrow> vacuum_loop n db1)"

definition div_ceil :: "nat \<Rightarrow> nat \<Rightarrow> nat" where
  "div_ceil a b = (if a mod b = 0 then a div b else a div b + 1)"

definition reclaim_free_pages :: "sql_db \<Rightarrow> sql_db" where
  "reclaim_free_pages db =
     (case statement Inr db of (db1, Inl _) \<Rightarrow> db1
      | (db1, Inr _) \<Rightarrow>
          (case vacuum_loop (div_ceil (nat \<bar>sq_free db1\<bar>) vacuum_chunk_pages) db1 of
             (db2, Inl _) \<Rightarrow> db2
           | (db2, Inr _) \<Rightarrow> fst (statement Inr db2)))"

section \<open>The schemas\<close>

definition logs_columns :: "string list" where
  "logs_columns = [''id'', ''ts_rel'', ''cid'', ''stream'', ''level'', ''line'']"

definition create_fts :: effect where
  "create_fts db =
     Inr (if has_table db ''logs_fts'' then db
          else db\<lparr>sq_tables := hm_insert ''logs_fts'' [''line''] (sq_tables db), sq_fts := []\<rparr>)"

definition rebuild_fts :: effect where
  "rebuild_fts db =
     (if \<not> has_table db ''logs_fts'' then Inl ''no such table: logs_fts''
      else Inr (db\<lparr>sq_fts := sq_rows db\<rparr>))"

definition initialize_fts :: "sql_db \<Rightarrow> sql_db \<times> unit app_result" where
  "initialize_fts =
     transaction [create_fts, create_trigger ''logs_fts_ai'' ''logs'', create_trigger ''logs_fts_bd'' ''logs'', rebuild_fts]"

definition migrate :: "sql_db \<Rightarrow> sql_db \<times> unit app_result" where
  "migrate db =
     (case statements [create_table ''logs'' logs_columns, create_index ''idx_ts'' ''logs'' [''ts_rel''],
                       create_index ''idx_level_ts'' ''logs'' [''level'', ''ts_rel''], Inr] db of
        (db1, Inl e) \<Rightarrow> (db1, Inl e)
      | (db1, Inr _) \<Rightarrow>
          if has_table db1 ''logs_fts'' then (db1, Inr ()) else initialize_fts db1)"

text \<open>What an insert and a delete of a line do, with the triggers that keep the index.\<close>

definition insert_line :: "int \<Rightarrow> string \<Rightarrow> effect" where
  "insert_line rid line db =
     (if \<not> has_table db ''logs'' then Inl ''no such table: logs''
      else if rid \<in> fst ` set (sq_rows db) then Inl ''UNIQUE constraint failed: logs.id''
      else if ''logs_fts_ai'' \<in> set (sq_triggers db) \<and> \<not> has_table db ''logs_fts''
        then Inl ''no such table: logs_fts''
      else Inr (db\<lparr>sq_rows := sq_rows db @ [(rid, line)],
        sq_fts := (if ''logs_fts_ai'' \<in> set (sq_triggers db) then sq_fts db @ [(rid, line)] else sq_fts db)\<rparr>))"

definition delete_line :: "int \<Rightarrow> effect" where
  "delete_line rid db =
     (if \<not> has_table db ''logs'' then Inl ''no such table: logs''
      else case hm_get (sq_rows db) rid of
        None \<Rightarrow> Inr db
      | Some line \<Rightarrow>
          if ''logs_fts_bd'' \<in> set (sq_triggers db) \<and> \<not> has_table db ''logs_fts''
          then Inl ''no such table: logs_fts''
          else Inr (db\<lparr>sq_rows := remove1 (rid, line) (sq_rows db),
            sq_fts := (if ''logs_fts_bd'' \<in> set (sq_triggers db) then remove1 (rid, line) (sq_fts db) else sq_fts db)\<rparr>))"

definition host_columns :: "string list" where
  "host_columns = [''ts'', ''cpu_pct_mill'', ''mem_used'', ''storage_used'', ''metrics_size'', ''logs_size'',
     ''net_rx_rate_mill'', ''net_tx_rate_mill'', ''disk_read_rate_mill'', ''disk_write_rate_mill'',
     ''log_pressure_pct_mill'', ''app_rss_bytes'']"

definition create_host_table :: "metrics_resolution \<Rightarrow> sql_db \<Rightarrow> sql_db \<times> unit app_result" where
  "create_host_table r db =
     (case statement (create_table (host_table r) host_columns) db of (db1, Inl e) \<Rightarrow> (db1, Inl e)
      | (db1, Inr _) \<Rightarrow>
          (case add_column_if_missing (host_table r) ''log_pressure_pct_mill'' db1 of (db2, Inl e) \<Rightarrow> (db2, Inl e)
           | (db2, Inr _) \<Rightarrow> add_column_if_missing (host_table r) ''app_rss_bytes'' db2))"

definition container_columns :: "string list" where
  "container_columns = [''ts'', ''cid'', ''sid'', ''cpu_pct_mill'', ''mem_used'', ''net_rx_rate_mill'',
     ''net_tx_rate_mill'', ''blk_read_rate_mill'', ''blk_write_rate_mill'']"

definition create_container_table :: "metrics_resolution \<Rightarrow> sql_db \<Rightarrow> sql_db \<times> unit app_result" where
  "create_container_table r = statement (create_table (container_table r) container_columns)"

fun create_tables :: "metrics_resolution list \<Rightarrow> sql_db \<Rightarrow> sql_db \<times> unit app_result" where
  "create_tables [] db = (db, Inr ())"
| "create_tables (r # rs) db =
     (case create_host_table r db of (db1, Inl e) \<Rightarrow> (db1, Inl e)
      | (db1, Inr _) \<Rightarrow>
          (case create_container_table r db1 of (db2, Inl e) \<Rightarrow> (db2, Inl e)
           | (db2, Inr _) \<Rightarrow> create_tables rs db2))"

definition create_schema :: "sql_db \<Rightarrow> sql_db \<times> unit app_result" where
  "create_schema = create_tables [TenSeconds, OneMinute, FiveMinutes, OneHour]"

definition metadata_schema :: "sql_db \<Rightarrow> sql_db \<times> unit app_result" where
  "metadata_schema = statements
     [create_table ''services'' [''sid'', ''name'', ''last_seen_ms''],
      create_table ''log_checkpoints'' [''sid'', ''cid'', ''ts'', ''line_hash'']]"


section \<open>Statements in general\<close>

definition tick :: "sql_db \<Rightarrow> sql_db" where
  "tick db = db\<lparr>sq_faults := tl (sq_faults db), sq_executed := Suc (sq_executed db)\<rparr>"

lemma tick_parts [simp]:
  "sq_tables (tick db) = sq_tables db" "sq_triggers (tick db) = sq_triggers db" "sq_rows (tick db) = sq_rows db"
  "sq_fts (tick db) = sq_fts db" "sq_free (tick db) = sq_free db" "sq_indexes (tick db) = sq_indexes db"
  "sq_faults (tick db) = tl (sq_faults db)" "sq_executed (tick db) = Suc (sq_executed db)"
  by (simp_all add: tick_def)

lemma statement_cases:
  obtains (fails) m where "statement effect db = (tick db, Inl (Storage m))"
  | (works) db2 where "statement effect db = (db2, Inr ())" "effect (tick db) = Inr db2"
proof (cases "statement effect db = (tick db, Inl (Storage (projl (effect (tick db))))) \<or>
    (\<exists>m. statement effect db = (tick db, Inl (Storage m)))")
  case False
  then have "\<exists>db2. statement effect db = (db2, Inr ()) \<and> effect (tick db) = Inr db2"
    by (auto simp: statement_def tick_def [symmetric] Let_def split: list.splits option.splits sum.splits)
  then show thesis using works by blast
qed (use fails in blast)

lemma statement_ok:
  "statement effect db = (db', Inr u) \<longleftrightarrow> (\<forall>m. take 1 (sq_faults db) \<noteq> [Some m]) \<and> effect (tick db) = Inr db'"
  unfolding statement_def tick_def Let_def by (auto split: list.splits option.splits sum.splits)

lemma statement_calm:
  "sq_faults db = [] \<Longrightarrow> effect (tick db) = Inr db2 \<Longrightarrow> statement effect db = (db2, Inr ())"
  by (simp add: statement_def tick_def)

lemma statements_ok_Cons:
  "statements (effect # later) db = (db', Inr u) \<longleftrightarrow>
     (\<exists>db1. statement effect db = (db1, Inr ()) \<and> statements later db1 = (db', Inr u))"
  by (auto split: prod.splits sum.splits)

text \<open>What every effect keeps, every statement and every sequence of statements keeps.\<close>

lemma statement_keeps:
  assumes "P db" "\<And>d. P d \<Longrightarrow> P (tick d)" "\<And>d d'. P d \<Longrightarrow> effect d = Inr d' \<Longrightarrow> P d'"
  shows "P (fst (statement effect db))"
  by (cases rule: statement_cases [of effect db]) (use assms in auto)

lemma statements_keep:
  assumes "P db" "\<And>d. P d \<Longrightarrow> P (tick d)"
    and "\<And>effect d d'. effect \<in> set effects \<Longrightarrow> P d \<Longrightarrow> effect d = Inr d' \<Longrightarrow> P d'"
  shows "P (fst (statements effects db))"
  using assms
proof (induction effects arbitrary: db)
  case (Cons effect later)
  obtain db1 r where s: "statement effect db = (db1, r)" by fastforce
  have "P (fst (statement effect db))"
    by (rule statement_keeps [OF Cons.prems(1,2)]) (auto intro: Cons.prems(3))
  then show ?case using Cons.IH [of db1] Cons.prems(2,3) s by (auto split: sum.splits)
qed simp

section \<open>The full-text index follows the lines\<close>

text \<open>
  Either there is no index and there are no triggers, or both triggers exist and the index holds
  exactly the lines of the table.
\<close>

definition fts_in_step :: "sql_db \<Rightarrow> bool" where
  "fts_in_step db \<longleftrightarrow> distinct (map fst (sq_rows db)) \<and>
     (''logs_fts_ai'' \<in> set (sq_triggers db) \<longleftrightarrow> has_table db ''logs_fts'') \<and>
     (''logs_fts_bd'' \<in> set (sq_triggers db) \<longleftrightarrow> has_table db ''logs_fts'') \<and>
     (has_table db ''logs_fts'' \<longrightarrow> mset (sq_fts db) = mset (sq_rows db))"

lemma has_table_tick [simp]: "has_table (tick db) = has_table db"
  by (simp add: has_table_def fun_eq_iff)

lemma fts_in_step_tick [simp]: "fts_in_step (tick db) = fts_in_step db"
  by (simp add: fts_in_step_def)

text \<open>What the statements of the schema leave alone.\<close>

definition same_lines :: "sql_db \<Rightarrow> sql_db \<Rightarrow> bool" where
  "same_lines db db' \<longleftrightarrow> sq_rows db' = sq_rows db \<and> sq_fts db' = sq_fts db \<and> sq_triggers db' = sq_triggers db \<and>
     (has_table db' ''logs_fts'' \<longleftrightarrow> has_table db ''logs_fts'')"

lemma same_lines_tick [simp]: "same_lines db (tick d) = same_lines db d"
  by (simp add: same_lines_def)

lemma create_table_lines: "name \<noteq> ''logs_fts'' \<Longrightarrow> create_table name columns d = Inr d' \<Longrightarrow> same_lines d d'"
  by (auto simp: create_table_def same_lines_def has_table_def split: if_splits)

lemma create_index_lines: "create_index name table columns d = Inr d' \<Longrightarrow> same_lines d d'"
  by (auto simp: create_index_def same_lines_def has_table_def split: if_splits option.splits)

lemma same_lines_trans: "same_lines a b \<Longrightarrow> same_lines b c \<Longrightarrow> same_lines a c"
  by (simp add: same_lines_def)

lemma same_lines_in_step: "same_lines db db' \<Longrightarrow> fts_in_step db' = fts_in_step db"
  by (simp add: same_lines_def fts_in_step_def)

lemma create_trigger_ok:
  assumes "create_trigger name table d = Inr d'"
  shows "set (sq_triggers d') = insert name (set (sq_triggers d)) \<and> sq_rows d' = sq_rows d \<and> sq_fts d' = sq_fts d \<and>
    has_table d' = has_table d"
  using assms by (auto simp: create_trigger_def has_table_def fun_eq_iff split: if_splits)

lemma initialize_fts_ok:
  assumes "initialize_fts db = (db', Inr u)"
  shows "has_table db' ''logs_fts'' \<and> {''logs_fts_ai'', ''logs_fts_bd''} \<subseteq> set (sq_triggers db') \<and>
    sq_fts db' = sq_rows db' \<and> sq_rows db' = sq_rows db"
proof -
  obtain d0 d1 d2 d3 d4 where d: "statement Inr db = (d0, Inr ())" "statement create_fts d0 = (d1, Inr ())"
    "statement (create_trigger ''logs_fts_ai'' ''logs'') d1 = (d2, Inr ())"
    "statement (create_trigger ''logs_fts_bd'' ''logs'') d2 = (d3, Inr ())"
    "statement rebuild_fts d3 = (d4, Inr ())" "statement Inr d4 = (db', Inr ())"
    using assms by (auto simp: initialize_fts_def transaction_def split: prod.splits sum.splits)
  have "sq_rows d0 = sq_rows db" using d(1) by (auto simp: statement_ok)
  moreover have "sq_rows d1 = sq_rows d0 \<and> has_table d1 ''logs_fts''"
    using d(2) by (auto simp: statement_ok create_fts_def has_table_def split: if_splits)
  moreover note create_trigger_ok [OF d(3) [unfolded statement_ok, THEN conjunct2]]
    create_trigger_ok [OF d(4) [unfolded statement_ok, THEN conjunct2]]
  moreover have "sq_fts d4 = sq_rows d4 \<and> sq_rows d4 = sq_rows d3 \<and> sq_triggers d4 = sq_triggers d3 \<and> has_table d4 = has_table d3"
    using d(5) by (auto simp: statement_ok rebuild_fts_def has_table_def fun_eq_iff split: if_splits)
  moreover have "db' = tick d4" using d(6) by (auto simp: statement_ok)
  ultimately show ?thesis by simp
qed

lemma initialize_fts_failed:
  assumes "initialize_fts db = (db', Inl e)"
  shows "same_lines db db'"
proof -
  from assms obtain f n where "db' = db\<lparr>sq_faults := f, sq_executed := n\<rparr>"
    by (auto simp del: statements.simps simp: initialize_fts_def transaction_def split: prod.splits sum.splits)
  then show ?thesis by (simp add: same_lines_def has_table_def)
qed

text \<open>A migration never changes the lines, and it keeps the index in step wherever it fails.\<close>

lemma migrate_keeps:
  assumes "fts_in_step db" "migrate db = (db', r)"
  shows "fts_in_step db'" "sq_rows db' = sq_rows db" "\<not> isl r \<or> has_table db ''logs_fts'' \<Longrightarrow> has_table db' ''logs_fts''"
proof -
  define first where "first = statements [create_table ''logs'' logs_columns, create_index ''idx_ts'' ''logs'' [''ts_rel''],
                       create_index ''idx_level_ts'' ''logs'' [''level'', ''ts_rel''], Inr] db"
  have "same_lines db (fst first)"
    unfolding first_def
    by (rule statements_keep)
      (auto simp: same_lines_def intro: same_lines_trans dest: create_index_lines create_table_lines [rotated])
  then obtain db1 r1 where f: "first = (db1, r1)" "same_lines db db1" by (cases first) auto
  have m: "migrate db = (case first of (db1, Inl e) \<Rightarrow> (db1, Inl e)
      | (db1, Inr _) \<Rightarrow> if has_table db1 ''logs_fts'' then (db1, Inr ()) else initialize_fts db1)"
    by (simp only: migrate_def first_def)
  have "fts_in_step db' \<and> sq_rows db' = sq_rows db \<and>
      (\<not> isl r \<or> has_table db ''logs_fts'' \<longrightarrow> has_table db' ''logs_fts'')"
  proof (cases "isl r1 \<or> has_table db1 ''logs_fts''")
    case True
    with assms(2) m f(1) have "db' = db1" "isl r \<or> has_table db1 ''logs_fts''" by (auto split: sum.splits if_splits)
    moreover have "fts_in_step db1" using same_lines_in_step [OF f(2)] assms(1) by simp
    ultimately show ?thesis using f(2) unfolding same_lines_def by blast
  next
    case False
    then have i: "initialize_fts db1 = (db', r)" using assms(2) m f(1) by (auto split: sum.splits)
    show ?thesis
    proof (cases r)
      case (Inl e)
      from same_lines_trans [OF f(2) initialize_fts_failed [OF i [unfolded Inl]]] assms(1) show ?thesis
        by (simp add: Inl same_lines_in_step) (simp add: same_lines_def)
    next
      case (Inr v)
      from initialize_fts_ok [OF i [unfolded Inr]] f(2) assms(1) show ?thesis
        by (simp add: fts_in_step_def same_lines_def)
    qed
  qed
  then show "fts_in_step db'" "sq_rows db' = sq_rows db"
    "\<not> isl r \<or> has_table db ''logs_fts'' \<Longrightarrow> has_table db' ''logs_fts''" by simp_all
qed

datatype line_op = Migrate | InsertLine int string | DeleteLine int

fun line_step :: "line_op \<Rightarrow> sql_db \<Rightarrow> sql_db" where
  "line_step Migrate db = fst (migrate db)"
| "line_step (InsertLine rid line) db = fst (statement (insert_line rid line) db)"
| "line_step (DeleteLine rid) db = fst (statement (delete_line rid) db)"

lemma insert_line_keeps:
  "insert_line rid line db = Inr db' \<Longrightarrow> fts_in_step db \<Longrightarrow> fts_in_step db' \<and> has_table db' = has_table db"
  by (auto simp: insert_line_def fts_in_step_def has_table_def fun_eq_iff split: if_splits)

lemma distinct_keys_remove1: "distinct (map fst xs) \<Longrightarrow> distinct (map fst (remove1 y xs))"
  by (induction xs) (auto dest!: set_remove1_subset [THEN subsetD] intro: rev_image_eqI)

lemma delete_line_keeps:
  "delete_line rid db = Inr db' \<Longrightarrow> fts_in_step db \<Longrightarrow> fts_in_step db' \<and> has_table db' = has_table db"
  by (auto simp: delete_line_def fts_in_step_def has_table_def fun_eq_iff distinct_keys_remove1
      split: if_splits option.splits)

lemma line_step_keeps:
  assumes "fts_in_step db"
  shows "fts_in_step (line_step op db) \<and> (has_table db ''logs_fts'' \<longrightarrow> has_table (line_step op db) ''logs_fts'')"
proof (cases op)
  case Migrate
  obtain db' r where "migrate db = (db', r)" by fastforce
  from migrate_keeps [OF assms this] this show ?thesis by (simp add: Migrate)
next
  case (InsertLine rid line)
  show ?thesis using assms
    by (cases rule: statement_cases [of "insert_line rid line" db]) (auto simp: InsertLine dest!: insert_line_keeps)
next
  case (DeleteLine rid)
  show ?thesis using assms
    by (cases rule: statement_cases [of "delete_line rid" db]) (auto simp: DeleteLine dest!: delete_line_keeps)
qed

lemma line_steps_keep:
  "fts_in_step db \<Longrightarrow> fts_in_step (fold line_step ops db) \<and>
     (has_table db ''logs_fts'' \<longrightarrow> has_table (fold line_step ops db) ''logs_fts'')"
proof (induction ops arbitrary: db)
  case (Cons op ops)
  with line_step_keeps [OF Cons.prems, of op] show ?case by simp
qed simp

text \<open>
  C32. The full-text index always holds the lines of its table. Whatever was inserted and deleted
  before and after, and wherever earlier migrations were interrupted by a failing statement: once a
  migration has succeeded the index exists, and from then on every search sees exactly the stored
  lines; a migration itself changes no line.
\<close>

theorem index_follows_lines:
  assumes "fts_in_step db" "migrate (fold line_step before db) = (db', Inr ())"
  shows "mset (sq_fts (fold line_step after db')) = mset (sq_rows (fold line_step after db')) \<and>
    sq_rows db' = sq_rows (fold line_step before db)"
  using line_steps_keep [OF assms(1), of before] migrate_keeps [OF _ assms(2)] line_steps_keep [of db' after]
  by (auto simp: fts_in_step_def)


definition legacy_logs :: sql_db where
  "legacy_logs = \<lparr>sq_tables = [(''logs'', logs_columns)], sq_indexes = [], sq_triggers = [],
     sq_rows = [(1, ''one''), (2, ''two'')], sq_fts = [], sq_free = 0,
     sq_faults = [None, None, None, None, None, None, None, Some ''disk full''], sq_executed = 0\<rparr>"

theorem index_follows_lines_witness:
  "\<exists>db'. snd (migrate legacy_logs) = Inl (Storage ''disk full'') \<and>
     migrate (fold line_step [Migrate, InsertLine 3 ''three''] legacy_logs) = (db', Inr ()) \<and>
     mset (sq_fts (fold line_step [DeleteLine 1, InsertLine 4 ''four''] db')) =
       mset (sq_rows (fold line_step [DeleteLine 1, InsertLine 4 ''four''] db')) \<and>
     sq_rows db' = sq_rows (fold line_step [Migrate, InsertLine 3 ''three''] legacy_logs)"
proof -
  have "fts_in_step legacy_logs" by (simp add: fts_in_step_def has_table_def legacy_logs_def)
  moreover have fail: "snd (migrate legacy_logs) = Inl (Storage ''disk full'')" by code_simp
  moreover have "snd (migrate (fold line_step [Migrate, InsertLine 3 ''three''] legacy_logs)) = Inr ()" by code_simp
  then obtain db' where "migrate (fold line_step [Migrate, InsertLine 3 ''three''] legacy_logs) = (db', Inr ())"
    by (metis surjective_pairing)
  ultimately show ?thesis using index_follows_lines by blast
qed

section \<open>An older metrics database\<close>

definition tables_grow :: "sql_db \<Rightarrow> sql_db \<Rightarrow> bool" where
  "tables_grow db db' \<longleftrightarrow> (\<forall>t columns. hm_get (sq_tables db) t = Some columns \<longrightarrow>
     (\<exists>new. hm_get (sq_tables db') t = Some (columns @ new)))"

definition has_columns :: "sql_db \<Rightarrow> string \<Rightarrow> string list \<Rightarrow> bool" where
  "has_columns db t columns \<longleftrightarrow> (\<exists>present. hm_get (sq_tables db) t = Some present \<and> set columns \<subseteq> set present)"

text \<open>The tables as they were before the two nullable columns, or later ones.\<close>

definition legacy_metrics :: "sql_db \<Rightarrow> bool" where
  "legacy_metrics db \<longleftrightarrow> (\<forall>r. (has_table db (host_table r) \<longrightarrow> has_columns db (host_table r) (take 10 host_columns)) \<and>
     (has_table db (container_table r) \<longrightarrow> has_columns db (container_table r) container_columns))"

definition metrics_complete :: "sql_db \<Rightarrow> bool" where
  "metrics_complete db \<longleftrightarrow>
     (\<forall>r. has_columns db (host_table r) host_columns \<and> has_columns db (container_table r) container_columns)"

lemma tables_grow_refl [simp]: "tables_grow db db" "tables_grow db (tick db)"
  by (simp_all add: tables_grow_def)

lemma tables_grow_trans [trans]: "tables_grow a b \<Longrightarrow> tables_grow b c \<Longrightarrow> tables_grow a c"
  unfolding tables_grow_def by (metis append.assoc)

lemma has_columns_grow: "tables_grow a b \<Longrightarrow> has_columns a t columns \<Longrightarrow> has_columns b t columns"
  unfolding tables_grow_def has_columns_def by fastforce

lemma tables_differ:
  "host_table r \<noteq> container_table r'" "host_table r = host_table r' \<longleftrightarrow> r = r'"
  "container_table r = container_table r' \<longleftrightarrow> r = r'"
  by (cases r; cases r'; simp add: host_table_def container_table_def)+


text \<open>A step of the upgrade: tables only gain columns, and a table that appears is complete.\<close>

definition upgrades :: "sql_db \<Rightarrow> sql_db \<Rightarrow> bool" where
  "upgrades db db' \<longleftrightarrow> tables_grow db db' \<and>
     (\<forall>r. (has_table db' (host_table r) \<longrightarrow> has_table db (host_table r) \<or> has_columns db' (host_table r) host_columns) \<and>
       (has_table db' (container_table r) \<longrightarrow>
         has_table db (container_table r) \<or> has_columns db' (container_table r) container_columns))"

lemma upgrades_refl [simp]: "upgrades db db" "upgrades db (tick db)"
  by (simp_all add: upgrades_def)

lemma upgrades_tick [simp]: "upgrades (tick db) db' = upgrades db db'"
  by (simp add: upgrades_def tables_grow_def)

lemma upgrades_trans [trans]:
  assumes "upgrades a b" "upgrades b c"
  shows "upgrades a c"
proof -
  have "tables_grow a c" using assms by (auto simp: upgrades_def intro: tables_grow_trans)
  moreover have grow: "tables_grow b c" using assms(2) by (simp add: upgrades_def)
  ultimately show ?thesis using assms has_columns_grow [OF grow] unfolding upgrades_def by meson
qed

lemma upgrades_table: "upgrades db db' \<Longrightarrow> has_table db t \<Longrightarrow> has_table db' t"
  by (fastforce simp: upgrades_def tables_grow_def has_table_def)

lemma upgrades_columns: "upgrades db db' \<Longrightarrow> has_columns db t columns \<Longrightarrow> has_columns db' t columns"
  by (auto simp: upgrades_def intro: has_columns_grow)

lemma has_columns_table: "has_columns db t columns \<Longrightarrow> has_table db t"
  by (auto simp: has_columns_def has_table_def)

lemma has_columns_subset: "has_columns db t columns \<Longrightarrow> set some \<subseteq> set columns \<Longrightarrow> has_columns db t some"
  by (auto simp: has_columns_def)

lemma legacy_upgrades:
  assumes "legacy_metrics db" "upgrades db db'"
  shows "legacy_metrics db'"
proof -
  have base: "set (take 10 host_columns) \<subseteq> set host_columns" by (rule set_take_subset)
  show ?thesis
    using assms has_columns_subset [OF _ base] upgrades_columns [OF assms(2)]
    unfolding legacy_metrics_def upgrades_def by meson
qed

lemma create_table_upgrades:
  assumes "create_table t columns db = Inr db'"
    and "t = host_table r \<and> columns = host_columns \<or> t = container_table r \<and> columns = container_columns"
  shows "upgrades db db' \<and> has_table db' t \<and> sq_faults db' = sq_faults db \<and>
    (has_table db t \<longrightarrow> sq_tables db' = sq_tables db)"
proof -
  have "upgrades db db'"
    using assms
    by (auto simp: create_table_def upgrades_def tables_grow_def has_table_def has_columns_def tables_differ tables_differ(1) [symmetric]
        split: if_splits)
  then show ?thesis using assms(1) by (auto simp: create_table_def has_table_def split: if_splits)
qed

lemma add_column_upgrades:
  assumes "add_column t c db = Inr db'"
  shows "upgrades db db' \<and> has_columns db' t [c] \<and> sq_faults db' = sq_faults db"
  using assms
  by (auto simp: add_column_def upgrades_def tables_grow_def has_table_def has_columns_def split: if_splits option.splits)

text \<open>
  What a step gives on a database that is at least the old one: \<open>made\<close> if it succeeds, nothing new if
  that already held, and success when no statement fails.
\<close>

definition upgraded ::
    "(sql_db \<Rightarrow> bool) \<Rightarrow> sql_db \<Rightarrow> sql_db \<times> unit app_result \<Rightarrow> bool" where
  "upgraded made db out \<longleftrightarrow> upgrades db (fst out) \<and> (made db \<longrightarrow> sq_tables (fst out) = sq_tables db) \<and>
     (\<not> isl (snd out) \<longrightarrow> made (fst out)) \<and>
     (sq_faults db = [] \<longrightarrow> \<not> isl (snd out) \<and> sq_faults (fst out) = [])"

definition kept :: "(sql_db \<Rightarrow> bool) \<Rightarrow> bool" where
  "kept P \<longleftrightarrow> (\<forall>a b. upgrades a b \<longrightarrow> P a \<longrightarrow> P b)"

lemma same_tables_upgrades: "sq_tables a = sq_tables b \<Longrightarrow> upgrades a b"
  by (simp add: upgrades_def tables_grow_def has_table_def)

lemma upgraded_then:
  assumes "upgraded P db out" "\<And>d. P d \<Longrightarrow> upgrades db d \<Longrightarrow> upgraded Q d (next d)" "kept P" "kept Q"
  shows "upgraded (\<lambda>d. P d \<and> Q d) db (case out of (d, Inl e) \<Rightarrow> (d, Inl e) | (d, Inr _) \<Rightarrow> next d)"
proof -
  obtain d r where out: "out = (d, r)" by fastforce
  show ?thesis
  proof (cases r)
    case (Inl e)
    with assms(1) show ?thesis by (simp add: upgraded_def out)
  next
    case (Inr u)
    have a: "upgrades db d" "P db \<Longrightarrow> sq_tables d = sq_tables db" "P d" "sq_faults db = [] \<Longrightarrow> sq_faults d = []"
      using assms(1) by (simp_all add: upgraded_def out Inr)
    have b: "upgrades d (fst (next d))" "Q d \<Longrightarrow> sq_tables (fst (next d)) = sq_tables d"
      "\<not> isl (snd (next d)) \<Longrightarrow> Q (fst (next d))"
      "sq_faults d = [] \<Longrightarrow> \<not> isl (snd (next d)) \<and> sq_faults (fst (next d)) = []"
      using assms(2) [OF a(3,1)] by (simp_all add: upgraded_def)
    have "P (fst (next d))" "Q db \<Longrightarrow> Q d"
      using assms(3,4) b(1) a(1,3) unfolding kept_def by blast+
    with a b upgrades_trans [OF a(1) b(1)] show ?thesis by (simp add: upgraded_def out Inr)
  qed
qed

lemma kept_simps [simp]:
  "kept (\<lambda>d. has_columns d t columns)" "kept P \<Longrightarrow> kept Q \<Longrightarrow> kept (\<lambda>d. P d \<and> Q d)"
  by (auto simp: kept_def intro: upgrades_columns)

lemma create_table_upgraded:
  assumes "legacy_metrics db" "t = host_table r \<and> columns = host_columns \<and> base = take 10 host_columns
      \<or> t = container_table r \<and> columns = container_columns \<and> base = container_columns"
  shows "upgraded (\<lambda>d. has_columns d t base) db (statement (create_table t columns) db)"
proof (cases rule: statement_cases [of "create_table t columns" db])
  case (fails m)
  then have "sq_faults db \<noteq> []" by (auto simp: statement_def Let_def create_table_def)
  with fails show ?thesis by (simp add: upgraded_def)
next
  case (works db1)
  have "create_table t columns (tick db) = Inr db1" by (rule works(2))
  from create_table_upgrades [OF this, of r] assms(2)
  have c: "upgrades db db1" "has_table db1 t" "sq_faults db1 = tl (sq_faults db)"
    "has_table db t \<Longrightarrow> sq_tables db1 = sq_tables db" by auto
  have "has_columns db1 t base"
    using legacy_upgrades [OF assms(1) c(1)] c(2) assms(2) by (auto simp: legacy_metrics_def)
  with works c show ?thesis by (auto simp: upgraded_def dest: has_columns_table)
qed

lemma add_column_if_missing_eq:
  "add_column_if_missing t c db =
     (case statement Inr db of (db1, Inl e) \<Rightarrow> (db1, Inl e)
      | (db1, Inr _) \<Rightarrow> if has_columns db1 t [c] then (db1, Inr ()) else statement (add_column t c) db1)"
proof -
  have "c \<in> set (case hm_get (sq_tables d) t of None \<Rightarrow> [] | Some columns \<Rightarrow> columns) \<longleftrightarrow> has_columns d t [c]" for d
    by (cases "hm_get (sq_tables d) t") (simp_all add: has_columns_def)
  then show ?thesis by (simp only: add_column_if_missing_def Let_def)
qed

lemma add_column_upgraded:
  assumes "has_table db t" "\<not> has_columns db t [c]"
  shows "upgraded (\<lambda>d. has_columns d t [c]) db (statement (add_column t c) db)"
proof -
  obtain d where d: "add_column t c (tick db) = Inr d"
    using assms by (auto simp: add_column_def has_table_def has_columns_def)
  show ?thesis
  proof (cases rule: statement_cases [of "add_column t c" db])
    case (fails m)
    then have "sq_faults db \<noteq> []" using d statement_calm [of db "add_column t c" d] by auto
    with fails assms(2) show ?thesis by (simp add: upgraded_def)
  next
    case (works d')
    from add_column_upgrades [OF works(2)] works(1) assms(2) show ?thesis by (simp add: upgraded_def)
  qed
qed

lemma add_column_if_missing_upgraded:
  assumes "has_table db t"
  shows "upgraded (\<lambda>d. has_columns d t [c]) db (add_column_if_missing t c db)"
proof -
  have query: "upgraded (\<lambda>d. True) db (statement Inr db)"
  proof (cases rule: statement_cases [of Inr db])
    case (fails m)
    then have "sq_faults db \<noteq> []" by (auto simp: statement_def Let_def)
    with fails show ?thesis by (simp add: upgraded_def)
  next
    case (works db2)
    then have "db2 = tick db" by simp
    with works(1) show ?thesis by (simp add: upgraded_def)
  qed
  have "upgraded (\<lambda>d. True \<and> has_columns d t [c]) db (add_column_if_missing t c db)"
    unfolding add_column_if_missing_eq
    by (rule upgraded_then [OF query])
      (auto simp: kept_def upgrades_columns add_column_upgraded upgrades_table [OF _ assms], simp add: upgraded_def)
  then show ?thesis by simp
qed

lemma create_host_table_upgraded:
  assumes "legacy_metrics db"
  shows "upgraded (\<lambda>d. has_columns d (host_table r) host_columns) db (create_host_table r db)"
proof -
  let ?t = "host_table r" and ?base = "take 10 host_columns"
  have "upgraded (\<lambda>d. has_columns d ?t ?base \<and> has_columns d ?t [''log_pressure_pct_mill''] \<and> has_columns d ?t [''app_rss_bytes''])
      db (create_host_table r db)"
    unfolding create_host_table_def
  proof (rule upgraded_then)
    show "upgraded (\<lambda>d. has_columns d ?t ?base) db (statement (create_table ?t host_columns) db)"
      by (rule create_table_upgraded [OF assms, where r = r]) simp
    fix d assume "has_columns d ?t ?base"
    then have t: "has_table d ?t" by (rule has_columns_table)
    show "upgraded (\<lambda>d. has_columns d ?t [''log_pressure_pct_mill''] \<and> has_columns d ?t [''app_rss_bytes'']) d
        (case add_column_if_missing ?t ''log_pressure_pct_mill'' d of (d, Inl e) \<Rightarrow> (d, Inl e)
         | (d, Inr _) \<Rightarrow> add_column_if_missing ?t ''app_rss_bytes'' d)"
      by (rule upgraded_then [OF add_column_if_missing_upgraded [OF t]])
        (simp_all add: add_column_if_missing_upgraded upgrades_table [OF _ t])
  qed simp_all
  moreover have "has_columns d ?t host_columns \<longleftrightarrow>
      has_columns d ?t ?base \<and> has_columns d ?t [''log_pressure_pct_mill''] \<and> has_columns d ?t [''app_rss_bytes'']" for d
    by (auto simp: has_columns_def host_columns_def)
  ultimately show ?thesis by simp
qed

lemma create_tables_upgraded:
  "legacy_metrics db \<Longrightarrow>
     upgraded (\<lambda>d. \<forall>r \<in> set rs. has_columns d (host_table r) host_columns \<and> has_columns d (container_table r) container_columns)
       db (create_tables rs db)"
proof (induction rs arbitrary: db)
  case (Cons r rs)
  let ?Q = "\<lambda>d. \<forall>r \<in> set rs. has_columns d (host_table r) host_columns \<and> has_columns d (container_table r) container_columns"
  have kept: "kept ?Q" by (auto simp: kept_def intro: upgrades_columns)
  have "upgraded (\<lambda>d. has_columns d (host_table r) host_columns \<and> has_columns d (container_table r) container_columns \<and> ?Q d)
      db (create_tables (r # rs) db)"
    unfolding create_tables.simps
  proof (rule upgraded_then [OF create_host_table_upgraded [OF Cons.prems]])
    fix d assume "upgrades db d"
    then have d: "legacy_metrics d" using Cons.prems legacy_upgrades by blast
    show "upgraded (\<lambda>d. has_columns d (container_table r) container_columns \<and> ?Q d) d
        (case create_container_table r d of (d, Inl e) \<Rightarrow> (d, Inl e) | (d, Inr _) \<Rightarrow> create_tables rs d)"
      unfolding create_container_table_def
      by (rule upgraded_then [OF create_table_upgraded [OF d, where r = r]])
        (use kept Cons.IH legacy_upgrades [OF d] in simp_all)
  qed (use kept in simp_all)
  then show ?case by (rule back_subst [where P = "\<lambda>P. upgraded P db (create_tables (r # rs) db)"]) auto
qed (simp add: upgraded_def)

text \<open>
  C36. Setting up the metrics tables brings an older database up to date without losing anything, and
  it can be interrupted anywhere. Tables only gain columns; a run that succeeds leaves every column
  that the statements use; and after a run that failed at any statement, or succeeded, another run
  without failures succeeds, and changes no table if the first one had succeeded.
\<close>

theorem schema_upgrade_resumes:
  assumes "legacy_metrics db" "create_schema db = (db1, r1)" "create_schema (db1\<lparr>sq_faults := []\<rparr>) = (db2, r2)"
  shows "r2 = Inr () \<and> metrics_complete db2 \<and> tables_grow db db1 \<and> tables_grow db1 db2 \<and>
    (r1 = Inr () \<longrightarrow> metrics_complete db1 \<and> sq_tables db2 = sq_tables db1)"
proof -
  have all: "set [TenSeconds, OneMinute, FiveMinutes, OneHour] = UNIV"
    by (auto intro: metrics_resolution.exhaust)
  have run: "upgraded metrics_complete d (create_schema d)" if "legacy_metrics d" for d
    using create_tables_upgraded [OF that, of "[TenSeconds, OneMinute, FiveMinutes, OneHour]"]
    unfolding all create_schema_def metrics_complete_def [abs_def] by simp
  note a = run [OF assms(1), unfolded assms(2) upgraded_def]
  let ?d = "db1\<lparr>sq_faults := []\<rparr>"
  have same: "upgrades db1 ?d" by (rule same_tables_upgrades) simp
  have "legacy_metrics ?d" using legacy_upgrades [OF legacy_upgrades [OF assms(1)] same] a by simp
  note b = run [OF this, unfolded assms(3) upgraded_def]
  have "r2 = Inr ()" using b by (cases r2) simp_all
  moreover have "metrics_complete db1 \<Longrightarrow> metrics_complete ?d" by (simp add: metrics_complete_def has_columns_def)
  moreover have "tables_grow db1 db2" using b by (simp add: upgrades_def tables_grow_def)
  ultimately show ?thesis using a b by (auto simp: upgrades_def)
qed


definition old_tables :: sql_db where
  "old_tables = \<lparr>sq_tables = [(''host_metrics_10s'', take 10 host_columns)], sq_indexes = [], sq_triggers = [],
     sq_rows = [], sq_fts = [], sq_free = 0, sq_faults = [None, None, None, Some ''disk full''], sq_executed = 0\<rparr>"

theorem schema_upgrade_resumes_witness:
  "\<exists>db1 db2 r2. create_schema old_tables = (db1, Inl (Storage ''disk full'')) \<and>
     create_schema (db1\<lparr>sq_faults := []\<rparr>) = (db2, r2) \<and> r2 = Inr () \<and> metrics_complete db2 \<and>
     tables_grow old_tables db1 \<and> tables_grow db1 db2"
proof -
  have "has_columns old_tables (host_table TenSeconds) (take 10 host_columns)"
    by (simp add: has_columns_def old_tables_def host_table_def)
  moreover have "\<not> has_table old_tables (container_table r)" for r
    by (simp add: has_table_def old_tables_def container_table_def)
  moreover have "has_table old_tables (host_table r) \<longleftrightarrow> r = TenSeconds" for r
    by (cases r) (simp_all add: has_table_def old_tables_def host_table_def)
  ultimately have "legacy_metrics old_tables" by (auto simp: legacy_metrics_def)
  moreover have "snd (create_schema old_tables) = Inl (Storage ''disk full'')" by code_simp
  then obtain db1 where "create_schema old_tables = (db1, Inl (Storage ''disk full''))" by (metis surjective_pairing)
  moreover obtain db2 r2 where "create_schema (db1\<lparr>sq_faults := []\<rparr>) = (db2, r2)" by fastforce
  ultimately show ?thesis using schema_upgrade_resumes by blast
qed

section \<open>Returning free pages\<close>

lemma tick_pages: "\<exists>f k p. tick db = db\<lparr>sq_faults := f, sq_executed := k, sq_free := p\<rparr>"
  unfolding tick_def
  by (intro exI [of _ "tl (sq_faults db)"] exI [of _ "Suc (sq_executed db)"] exI [of _ "sq_free db"]) simp

lemma vacuum_loop_spec:
  assumes "vacuum_loop n db = (db', r)"
  shows "sq_executed db' \<le> sq_executed db + n" "sq_free db' \<le> sq_free db"
    "\<exists>f k p. db' = db\<lparr>sq_faults := f, sq_executed := k, sq_free := p\<rparr>"
    "sq_faults db = [] \<Longrightarrow> 0 \<le> sq_free db \<Longrightarrow>
       r = Inr () \<and> sq_faults db' = [] \<and> sq_free db' = max 0 (sq_free db - int (n * vacuum_chunk_pages))"
    "0 \<le> sq_free db \<Longrightarrow> 0 \<le> sq_free db'"
proof -
  have "sq_executed db' \<le> sq_executed db + n \<and> sq_free db' \<le> sq_free db \<and>
    (\<exists>f k p. db' = db\<lparr>sq_faults := f, sq_executed := k, sq_free := p\<rparr>) \<and>
    (sq_faults db = [] \<and> 0 \<le> sq_free db \<longrightarrow>
       r = Inr () \<and> sq_faults db' = [] \<and> sq_free db' = max 0 (sq_free db - int (n * vacuum_chunk_pages))) \<and>
    (0 \<le> sq_free db \<longrightarrow> 0 \<le> sq_free db')"
    using assms
  proof (induction n arbitrary: db)
    case 0
    then have e: "db' = db" "r = Inr ()" by auto
    have "\<exists>f k p. db = db\<lparr>sq_faults := f, sq_executed := k, sq_free := p\<rparr>"
      by (intro exI [of _ "sq_faults db"] exI [of _ "sq_executed db"] exI [of _ "sq_free db"]) simp
    then show ?case unfolding e by auto
  next
    case (Suc n)
    show ?case
    proof (cases rule: statement_cases [of "incremental_vacuum vacuum_chunk_pages" db])
      case (fails m)
      then have "sq_faults db \<noteq> []" by (auto simp: statement_def Let_def incremental_vacuum_def)
      with fails Suc.prems have d: "db' = tick db" "r = Inl (Storage m)" by auto
      with \<open>sq_faults db \<noteq> []\<close> tick_pages [of db] show ?thesis unfolding d by simp
    next
      case (works db1)
      then have db1: "db1 = (tick db)\<lparr>sq_free := (if 0 < sq_free db then max 0 (sq_free db - int vacuum_chunk_pages) else sq_free db)\<rparr>"
        by (auto simp: incremental_vacuum_def)
      have "vacuum_loop n db1 = (db', r)" using Suc.prems works(1) by simp
      note ih = Suc.IH [OF this]
      obtain f k p where e: "db' = db1\<lparr>sq_faults := f, sq_executed := k, sq_free := p\<rparr>" using ih by blast
      then have "\<exists>f k p. db' = db\<lparr>sq_faults := f, sq_executed := k, sq_free := p\<rparr>"
        by (intro exI [of _ f] exI [of _ k] exI [of _ p]) (simp add: db1 tick_def)
      moreover have "sq_executed db1 = Suc (sq_executed db)" "sq_free db1 \<le> sq_free db" "0 \<le> sq_free db \<Longrightarrow> 0 \<le> sq_free db1"
        by (simp_all add: db1)
      moreover have "r = Inr () \<and> sq_faults db' = [] \<and> sq_free db' = max 0 (sq_free db - int (Suc n * vacuum_chunk_pages))"
        if "sq_faults db = []" "0 \<le> sq_free db"
      proof -
        have "sq_faults db1 = []" "sq_free db1 = max 0 (sq_free db - int vacuum_chunk_pages)"
          using that by (auto simp: db1 vacuum_chunk_pages_def)
        with ih have "r = Inr () \<and> sq_faults db' = [] \<and>
            sq_free db' = max 0 (max 0 (sq_free db - int vacuum_chunk_pages) - int (n * vacuum_chunk_pages))" by simp
        moreover have "max 0 (max 0 (x - a) - b) = max 0 (x - (a + b))" if "0 \<le> b" for x a b :: int
          using that by (simp add: max_def)
        ultimately show ?thesis by simp
      qed
      ultimately show ?thesis using ih by simp
    qed
  qed
  then show "sq_executed db' \<le> sq_executed db + n" "sq_free db' \<le> sq_free db"
    "\<exists>f k p. db' = db\<lparr>sq_faults := f, sq_executed := k, sq_free := p\<rparr>"
    "sq_faults db = [] \<Longrightarrow> 0 \<le> sq_free db \<Longrightarrow>
       r = Inr () \<and> sq_faults db' = [] \<and> sq_free db' = max 0 (sq_free db - int (n * vacuum_chunk_pages))"
    "0 \<le> sq_free db \<Longrightarrow> 0 \<le> sq_free db'" by blast+
qed

lemma div_ceil_covers: "0 < b \<Longrightarrow> a \<le> div_ceil a b * b" "0 < b \<Longrightarrow> div_ceil a b * b < a + b"
proof -
  show "a \<le> div_ceil a b * b" if "0 < b"
  proof (cases "a mod b = 0")
    case False
    have "a = a div b * b + a mod b" "a mod b < b" using that by simp_all
    then have "a \<le> a div b * b + b" by linarith
    with False show ?thesis by (simp add: div_ceil_def)
  qed (auto simp: div_ceil_def)
  show "div_ceil a b * b < a + b" if "0 < b"
  proof (cases "a mod b = 0")
    case True
    then have "a div b * b = a" by auto
    with that True show ?thesis by (simp add: div_ceil_def)
  next
    case False
    have "a = a div b * b + a mod b" by simp
    then have "a div b * b < a" using False by linarith
    with False show ?thesis by (simp add: div_ceil_def)
  qed
qed



end
