(* ===== verification/Host_Source.thy ===== *)
theory Host_Source
  imports Docker_Map
begin

text \<open>
  \<^verbatim>\<open>src/metrics/host.rs\<close>: a raw sample of the host. What the system library reports is an argument:
  memory, the process of the program, networks and disks, the clock, and which locks are poisoned.
  The processor usage is a 32-bit float there and widened exactly, so the reading holds it as \<open>f64\<close>.
\<close>

record network_reading =
  nr_received :: u64
  nr_transmitted :: u64

record disk_reading =
  dr_mount_point :: string
  dr_total_space :: u64
  dr_available_space :: u64
  dr_total_read :: u64
  dr_total_written :: u64

record host_reading =
  hd_cpu_usage :: f64
  hd_total_memory :: u64
  hd_available_memory :: u64
  hd_pid :: "nat option"
  hd_process_memory :: "nat \<Rightarrow> u64 option"
  hd_networks :: "network_reading list"
  hd_disks :: "disk_reading list"
  hd_clock :: "string + int"
  hd_system_poisoned :: "string option"
  hd_networks_poisoned :: "string option"
  hd_disks_poisoned :: "string option"
  hd_task_failed :: "string option"

definition app_rss_bytes :: "host_reading \<Rightarrow> u64 option" where
  "app_rss_bytes r = Option.bind (hd_pid r) (hd_process_memory r)"

definition host_mem_used_without_cache :: "host_reading \<Rightarrow> u64" where
  "host_mem_used_without_cache r = saturating_sub (hd_total_memory r) (hd_available_memory r)"

definition lock_reading :: "string \<Rightarrow> string option \<Rightarrow> unit app_result" where
  "lock_reading what poisoned =
     (case poisoned of None \<Rightarrow> Inr () | Some err \<Rightarrow> Inl (Host (what @ '' lock poisoned: '' @ err)))"

definition net_totals :: "network_reading list \<Rightarrow> u64 \<times> u64" where
  "net_totals ns = foldl (\<lambda>(rx, tx) n. (saturating_add rx (nr_received n), saturating_add tx (nr_transmitted n))) (0, 0) ns"

definition root_storage :: "disk_reading list \<Rightarrow> u64 \<times> u64" where
  "root_storage disks =
     (case find (\<lambda>d. dr_mount_point d = ''/'') disks of
        None \<Rightarrow> (0, 0)
      | Some d \<Rightarrow> (saturating_sub (dr_total_space d) (dr_available_space d), dr_total_space d))"

definition disk_totals :: "disk_reading list \<Rightarrow> u64 \<times> u64" where
  "disk_totals ds = foldl (\<lambda>(r, w) d. (saturating_add r (dr_total_read d), saturating_add w (dr_total_written d))) (0, 0) ds"

definition sample_blocking :: "host_reading \<Rightarrow> host_raw_sample app_result" where
  "sample_blocking r =
     and_then (lock_reading ''sysinfo'' (hd_system_poisoned r)) (\<lambda>_.
     let rss = app_rss_bytes r in
     and_then (lock_reading ''sysinfo networks'' (hd_networks_poisoned r)) (\<lambda>_.
     let (net_rx, net_tx) = net_totals (hd_networks r) in
     and_then (lock_reading ''sysinfo disks'' (hd_disks_poisoned r)) (\<lambda>_.
     let (storage_used, storage_total) = root_storage (hd_disks r);
         (disk_read, disk_write) = disk_totals (hd_disks r) in
     and_then (map_sum (\<lambda>err. Host (''system clock is before unix epoch: '' @ err)) i64_wrap (hd_clock r)) (\<lambda>ts.
       Inr \<lparr>hr_ts = ts, hr_cpu_pct = hd_cpu_usage r, hr_mem_used = host_mem_used_without_cache r,
            hr_mem_total = hd_total_memory r, hr_storage_used = storage_used, hr_storage_total = storage_total,
            hr_metrics_size = 0, hr_logs_size = 0, hr_net_rx = net_rx, hr_net_tx = net_tx,
            hr_disk_read = disk_read, hr_disk_write = disk_write, hr_log_pressure_pct_mill = 0,
            hr_app_rss_bytes = rss\<rparr>))))"

text \<open>The reading runs on a blocking task, whose failure is an error of the host.\<close>

definition host_sample_now :: "host_reading \<Rightarrow> host_raw_sample app_result" where
  "host_sample_now r =
     (case hd_task_failed r of
        Some err \<Rightarrow> Inl (Host (''sysinfo sampling task failed: '' @ err))
      | None \<Rightarrow> sample_blocking r)"

section \<open>The totals\<close>

lemma net_totals_min:
  "unat (fst (net_totals ns)) = min (sum_list (map (\<lambda>n. unat (nr_received n)) ns)) (2 ^ 64 - 1)"
  "unat (snd (net_totals ns)) = min (sum_list (map (\<lambda>n. unat (nr_transmitted n)) ns)) (2 ^ 64 - 1)"
  by (simp_all add: net_totals_def network_totals_fold saturating_fold)

lemma disk_totals_min:
  "unat (fst (disk_totals ds)) = min (sum_list (map (\<lambda>d. unat (dr_total_read d)) ds)) (2 ^ 64 - 1)"
  "unat (snd (disk_totals ds)) = min (sum_list (map (\<lambda>d. unat (dr_total_written d)) ds)) (2 ^ 64 - 1)"
  by (simp_all add: disk_totals_def network_totals_fold saturating_fold)


lemma totals_order_free:
  "mset ns = mset ns' \<Longrightarrow> net_totals ns = net_totals ns'"
  "mset ds = mset ds' \<Longrightarrow> disk_totals ds = disk_totals ds'"
proof -
  have sums: "sum_list (map f xs) = sum_list (map f ys)" if "mset xs = mset ys" for f :: "'a \<Rightarrow> nat" and xs ys
    using that by (metis mset_map sum_mset_sum_list)
  show "mset ns = mset ns' \<Longrightarrow> net_totals ns = net_totals ns'"
    by (rule prod_eqI; rule word_unat_eq_iff [THEN iffD2]) (simp_all add: net_totals_min sums [of ns ns'])
  show "mset ds = mset ds' \<Longrightarrow> disk_totals ds = disk_totals ds'"
    by (rule prod_eqI; rule word_unat_eq_iff [THEN iffD2]) (simp_all add: disk_totals_min sums [of ds ds'])
qed

lemma host_sample_parts:
  assumes "host_sample_now r = Inr s"
  shows "hr_mem_used s = host_mem_used_without_cache r \<and> hr_mem_total s = hd_total_memory r \<and>
    (hr_net_rx s, hr_net_tx s) = net_totals (hd_networks r) \<and>
    (hr_disk_read s, hr_disk_write s) = disk_totals (hd_disks r) \<and>
    (hr_storage_used s, hr_storage_total s) = root_storage (hd_disks r)"
  using assms
  by (auto simp: host_sample_now_def sample_blocking_def lock_reading_def Let_def split: option.splits prod.splits sum.splits)

lemma host_sample_fails_iff:
  "isl (host_sample_now r) \<longleftrightarrow> hd_task_failed r \<noteq> None \<or> hd_system_poisoned r \<noteq> None \<or>
     hd_networks_poisoned r \<noteq> None \<or> hd_disks_poisoned r \<noteq> None \<or> isl (hd_clock r)"
  "host_sample_now r = Inl e \<Longrightarrow> \<exists>m. e = Host m"
  by (cases "hd_clock r"; auto simp: host_sample_now_def sample_blocking_def lock_reading_def Let_def
      split: option.splits prod.splits)+

text \<open>
  A sample of the host stays within the totals it reports: the used memory and the used storage
  are at most their totals, and the counters of the networks and of the disks are the sums over all of
  them, capped at the largest 64-bit value, whatever their order.
\<close>

theorem host_sample_within:
  assumes "host_sample_now r = Inr s"
  shows "unat (hr_mem_used s) = unat (hr_mem_total s) - unat (hd_available_memory r) \<and>
    unat (hr_mem_used s) \<le> unat (hr_mem_total s) \<and>
    unat (hr_storage_used s) \<le> unat (hr_storage_total s) \<and>
    unat (hr_net_rx s) = min (sum_list (map (\<lambda>n. unat (nr_received n)) (hd_networks r))) (2 ^ 64 - 1) \<and>
    unat (hr_disk_write s) = min (sum_list (map (\<lambda>d. unat (dr_total_written d)) (hd_disks r))) (2 ^ 64 - 1) \<and>
    (\<forall>r' s'. host_sample_now r' = Inr s' \<and> mset (hd_networks r') = mset (hd_networks r) \<and>
       mset (hd_disks r') = mset (hd_disks r) \<longrightarrow>
       hr_net_rx s' = hr_net_rx s \<and> hr_net_tx s' = hr_net_tx s \<and>
       hr_disk_read s' = hr_disk_read s \<and> hr_disk_write s' = hr_disk_write s)"
proof -
  note p = host_sample_parts [OF assms]
  have mem: "unat (hr_mem_used s) = unat (hr_mem_total s) - unat (hd_available_memory r)"
    using p by (simp add: host_mem_used_without_cache_def unat_saturating_sub)
  have storage: "unat (hr_storage_used s) \<le> unat (hr_storage_total s)"
    using p by (auto simp: root_storage_def unat_saturating_sub split: option.splits)
  have "hr_net_rx s = fst (net_totals (hd_networks r))" "hr_disk_write s = snd (disk_totals (hd_disks r))"
    using p by (metis fst_conv snd_conv)+
  moreover have "hr_net_rx s' = hr_net_rx s \<and> hr_net_tx s' = hr_net_tx s \<and>
       hr_disk_read s' = hr_disk_read s \<and> hr_disk_write s' = hr_disk_write s"
    if "host_sample_now r' = Inr s'" "mset (hd_networks r') = mset (hd_networks r)" "mset (hd_disks r') = mset (hd_disks r)"
    for r' s'
    using p host_sample_parts [OF that(1)] totals_order_free(1) [OF that(2)] totals_order_free(2) [OF that(3)]
    by (metis Pair_inject)
  ultimately show ?thesis using mem storage by (auto simp: net_totals_min disk_totals_min)
qed

definition small_host :: host_reading where
  "small_host = \<lparr>hd_cpu_usage = f64_of_int 5, hd_total_memory = 4096, hd_available_memory = 1024, hd_pid = Some 7,
     hd_process_memory = (\<lambda>_. Some 100), hd_networks = [\<lparr>nr_received = 10, nr_transmitted = 20\<rparr>],
     hd_disks = [\<lparr>dr_mount_point = ''/'', dr_total_space = 50, dr_available_space = 60, dr_total_read = 1, dr_total_written = 2\<rparr>],
     hd_clock = Inr 1000, hd_system_poisoned = None, hd_networks_poisoned = None, hd_disks_poisoned = None,
     hd_task_failed = None\<rparr>"

theorem host_sample_within_witness:
  "\<exists>s. host_sample_now small_host = Inr s \<and> unat (hr_mem_used s) = 3072 \<and>
     unat (hr_storage_used s) \<le> unat (hr_storage_total s) \<and> unat (hr_net_rx s) = 10"
proof -
  have "\<not> isl (host_sample_now small_host)"
    by (simp add: host_sample_fails_iff small_host_def)
  then obtain s where s: "host_sample_now small_host = Inr s" by (cases "host_sample_now small_host") auto
  have "hr_mem_total s = 4096" using host_sample_parts [OF s] by (simp add: small_host_def)
  with host_sample_within [OF s] s show ?thesis by (simp add: small_host_def)
qed

end
