(* ===== verification/Startup.thy ===== *)
theory Startup
  imports Log_Tail Sqlite Host_Source
begin

text \<open>
  \<^verbatim>\<open>src/main.rs\<close>: the number of worker threads, the start of the program up to the bound listener, the
  router and the shutdown. What the system and the drivers answer is the record \<open>surroundings\<close>; the
  \<open>expect\<close>s of the start are the outcome \<open>Failed\<close>, its exit with an error message is \<open>Refused\<close>.
\<close>

section \<open>The start\<close>

record surroundings =
  su_parallelism :: "u64 option"
  su_environment :: environment
  su_json :: versions_json
  su_log_env :: log_env
  su_create_dir_all :: "string \<Rightarrow> string + unit"
  su_connect :: "connect_options \<Rightarrow> string + sql_db"
  su_now :: int
  su_bind :: "string option"

text \<open>What the data directory holds: its files, as the version guard sees them, and the databases.\<close>

record disk =
  sk_dir :: data_dir
  sk_metadata :: metadata_db
  sk_metrics :: metrics_db
  sk_logs :: "(string, week_files) hash_map"
  sk_log_faults :: "string option list"

datatype start_outcome =
    BadConfig config_panic
  | Refused string
  | Failed string app_error
  | CleanupPanicked
  | BindFailed string
  | Serving u64 app_state

definition configured_worker_threads :: "u64 option \<Rightarrow> environment \<Rightarrow> u64 configured" where
  "configured_worker_threads parallelism env =
     map_sum id (\<lambda>limit. min (max (unwrap_or 1 parallelism) 1) limit) (worker_thread_limit_from_env env)"

text \<open>The databases after the guard: those whose directory is gone are created anew.\<close>

definition wiped :: "data_dir \<Rightarrow> disk \<Rightarrow> disk" where
  "wiped d k =
     k\<lparr>sk_dir := d,
       sk_metadata := (if dd_files d MetadataDb = None then empty_metadata\<lparr>md_faults := md_faults (sk_metadata k)\<rparr>
                       else sk_metadata k),
       sk_metrics := (if dd_files d MetricsDb = None then empty_db\<lparr>db_faults := db_faults (sk_metrics k)\<rparr>
                      else sk_metrics k),
       sk_logs := (if dd_files d LogsDb = None then [] else sk_logs k)\<rparr>"

definition metadata_connect :: "surroundings \<Rightarrow> config \<Rightarrow> unit app_result" where
  "metadata_connect su cfg =
     and_then (open_pool (su_create_dir_all su) (su_connect su) (Some (metadata_dir (data_path cfg)))
         (path_join (metadata_dir (data_path cfg)) ''metadata.db'')
         (sqlite_cache_size_kb cfg) (sqlite_busy_timeout cfg) False)
       (\<lambda>pool. snd (metadata_schema pool))"

definition metrics_connect :: "surroundings \<Rightarrow> config \<Rightarrow> metrics_db \<Rightarrow> metrics_db \<times> metrics_store app_result" where
  "metrics_connect su cfg db =
     (case and_then (open_pool (su_create_dir_all su) (su_connect su) (Some (metrics_dir (data_path cfg)))
             (path_join (metrics_dir (data_path cfg)) ''metrics.db'')
             (sqlite_cache_size_kb cfg) (sqlite_busy_timeout cfg) True)
           (\<lambda>pool. snd (create_schema pool)) of
        Inl e \<Rightarrow> (db, Inl e)
      | Inr _ \<Rightarrow> store_connect db (downsample_max_gap_pct cfg))"

definition wired_state ::
    "config \<Rightarrow> service_registry \<times> metadata_db \<Rightarrow> metrics_store \<Rightarrow> disk \<Rightarrow> app_state" where
  "wired_state cfg meta metrics k =
     app_state_new cfg
       (docker_service_new (docker_controls_mode cfg) (unat (log_channel_capacity cfg))
          (unat (docker_events_channel_capacity cfg)) meta (retention_weeks cfg))
       metrics ((log_store_new (sqlite_keep_alive cfg))\<lparr>ls_dirs := sk_logs k, ls_faults := sk_log_faults k\<rparr>)"

definition first_cleanup :: "surroundings \<Rightarrow> app_state \<Rightarrow> app_state option" where
  "first_cleanup su st =
     map_option (\<lambda>r. st\<lparr>as_metrics := rt_metrics r, as_logs := rt_logs r,
         as_docker := (as_docker st)\<lparr>dk_meta := (rt_registry r, rt_meta r)\<rparr>\<rparr>)
       (cleanup_once (su_log_env su) (su_now su) (retention_weeks (as_config st))
          \<lparr>rt_metrics = as_metrics st, rt_logs = as_logs st, rt_registry = as_services st, rt_meta = as_metadata st\<rparr>)"

definition open_stores :: "surroundings \<Rightarrow> config \<Rightarrow> u64 \<Rightarrow> disk \<Rightarrow> start_outcome" where
  "open_stores su cfg workers k =
     (case metadata_connect su cfg of
        Inl e \<Rightarrow> Failed ''failed to open metadata database'' e
      | Inr _ \<Rightarrow>
     (case registry_load sqlite_ops (sk_metadata k) of
        (_, Inl e) \<Rightarrow> Failed ''failed to load service dictionary'' e
      | (meta, Inr services) \<Rightarrow>
     (case metrics_connect su cfg (sk_metrics k) of
        (_, Inl e) \<Rightarrow> Failed ''failed to open metrics database'' e
      | (_, Inr metrics) \<Rightarrow>
     (case first_cleanup su (wired_state cfg (services, meta) metrics k) of
        None \<Rightarrow> CleanupPanicked
      | Some st \<Rightarrow>
     (case su_bind su of
        Some err \<Rightarrow> BindFailed err
      | None \<Rightarrow> Serving workers st)))))"

text \<open>
  \<open>main\<close> and \<open>async_main\<close> up to the server. Of a directory that the guard could only delete in part
  the contents are not followed: that start has failed.
\<close>

definition start_up :: "surroundings \<Rightarrow> disk \<Rightarrow> disk \<times> start_outcome" where
  "start_up su k =
     (case configured_worker_threads (su_parallelism su) (su_environment su) of
        Inl p \<Rightarrow> (k, BadConfig p)
      | Inr workers \<Rightarrow>
     (case from_env (su_environment su) of
        Inl p \<Rightarrow> (k, BadConfig p)
      | Inr cfg \<Rightarrow>
     (case ensure_compatible (su_json su) (data_path cfg) (su_environment su env_force) (sk_dir k) of
        (d, Inl message) \<Rightarrow> (wiped d k, Refused message)
      | (d, Inr _) \<Rightarrow> (wiped d k, open_stores su cfg workers (wiped d k)))))"

section \<open>The router and the shutdown\<close>

definition build_router :: "config \<Rightarrow> routes \<times> (string \<times> string) option" where
  "build_router cfg =
     (nest ''/api'' router, map_option (\<lambda>dir. (dir, path_join dir ''index.html'')) (static_dir cfg))"

definition shutdown_signal :: "app_state \<Rightarrow> app_state" where
  "shutdown_signal st = st\<lparr>as_shutdown := True\<rparr>"

text \<open>
  After the server has ended: the stores are closed in order, each for at most five seconds. Closing
  the two connections of the other stores is the driver's, so only the log store changes.
\<close>

definition close_with_timeout :: "bool \<Rightarrow> ('s \<Rightarrow> 's) \<Rightarrow> 's \<Rightarrow> 's" where
  "close_with_timeout in_time close st = (if in_time then close st else st)"

definition close_stores :: "bool \<Rightarrow> app_state \<Rightarrow> app_state" where
  "close_stores in_time st = close_with_timeout in_time (\<lambda>s. s\<lparr>as_logs := close_all (as_logs s)\<rparr>) st"

lemma served_routes_unambiguous: "distinct (map (\<lambda>(m, path, _). (m, path)) (fst (build_router cfg)))"
proof -
  let ?key = "\<lambda>(m, path, _). (m, path)" and ?put = "\<lambda>(m, path). (m, ''/api'' @ path)"
  have "map ?key (fst (build_router cfg)) = map ?put (map ?key router)"
    by (simp add: build_router_def nest_def case_prod_unfold)
  moreover have "inj ?put" by (auto simp: inj_def)
  ultimately show ?thesis
    using routes_unambiguous by (simp only: distinct_map) (blast intro: inj_on_subset)
qed

section \<open>A start that serves\<close>

lemma load_names:
  assumes "services_ok db" "registry_load sqlite_ops db = (db', Inr rg)"
  shows "\<forall>n s. registry_name rg s = Some n \<longrightarrow> dictionary db n = Some s" "hm_wf (rg_by_id rg)" "services_ok db'"
    "md_services db' = md_services db"
proof -
  let ?I = "{(n, s). dictionary db n = Some s}"
  have "sqlite.issued_inv registry_empty db ?I"
    using assms(1) sqlite.view_inj [OF assms(1)] sqlite.view_used [OF assms(1)]
    by (simp add: sqlite.issued_inv_def registry_empty_def)
  note inv = sqlite.load_inv(2) [OF this assms(2) refl]
  show "\<forall>n s. registry_name rg s = Some n \<longrightarrow> dictionary db n = Some s"
    using sqlite.issued_invD(5) [OF inv] by (simp add: registry_name_def)
  show "services_ok db'" by (rule sqlite.issued_invD(1) [OF inv])
  obtain xs where l: "list_services db = (db', Inr xs)" and rg: "rg = foldl (\<lambda>rg (sid, name).
      rg\<lparr>rg_by_name := hm_insert name sid (rg_by_name rg), rg_by_id := hm_insert sid name (rg_by_id rg)\<rparr>) registry_empty xs"
    using assms(2) by (auto simp: registry_load_def sqlite_ops_def split: prod.splits sum.splits)
  show "md_services db' = md_services db"
    using l by (auto simp: list_services_def dest!: md_next_tables split: prod.splits option.splits)
  show "hm_wf (rg_by_id rg)"
    unfolding rg by (induction xs rule: rev_induct) (auto simp: registry_empty_def)
qed

lemma forget_by_id: "\<exists>P. rg_by_id (forget rg sids) = filter P (rg_by_id rg)"
proof (induction sids rule: rev_induct)
  case (snoc sid sids)
  then obtain P where P: "rg_by_id (forget rg sids) = filter P (rg_by_id rg)" by blast
  let ?rg = "forget rg sids"
  have "rg_by_id (forget_one ?rg sid) = rg_by_id ?rg \<or> rg_by_id (forget_one ?rg sid) = hm_remove sid (rg_by_id ?rg)"
    by (simp add: forget_one_def Let_def split: option.splits)
  then show ?case
    using P by (auto simp: forget_def hm_remove_def AList.delete_eq)
qed (auto simp: forget_def intro: exI [of _ "\<lambda>_. True"])

text \<open>What the first pass of the retention leaves of the dictionary and of the registry.\<close>

lemma cleanup_names:
  assumes "services_ok (rt_meta r)" "\<forall>n s. registry_name (rt_registry r) s = Some n \<longrightarrow> dictionary db n = Some s"
    and "hm_wf (rg_by_id (rt_registry r))" "cleanup_once env now_s weeks r = Some r'"
  shows "services_ok (rt_meta r')" "\<forall>n s. registry_name (rt_registry r') s = Some n \<longrightarrow> dictionary db n = Some s"
    "hm_wf (rg_by_id (rt_registry r'))"
proof -
  obtain cutoff where cut: "retention_cutoff_ms now_s weeks = Some cutoff"
    using assms(4) by (auto simp: cleanup_once_def split: option.splits)
  obtain metrics mres where m: "store_delete_before (rt_metrics r) cutoff = (metrics, mres)" by fastforce
  obtain logs lres where l: "logs_delete_before env cutoff (rt_logs r) = (logs, lres)" by fastforce
  obtain meta kres where k: "delete_checkpoints_before (rt_meta r) cutoff = (meta, kres)" by fastforce
  define meta1 where "meta1 = (if isl lres then rt_meta r else meta)"
  obtain rg db1 sres where rc: "reclaim_before sqlite_ops (rt_registry r, meta1) (reclaim_cutoff_ms cutoff) = ((rg, db1), sres)"
    by (metis surj_pair)
  have r': "rt_registry r' = (if isl mres \<or> isl lres then rt_registry r else rg)"
    "rt_meta r' = (if isl mres \<or> isl lres then meta1 else db1)"
    using assms(4) m l k rc by (auto simp: cleanup_once_def cut meta1_def Let_def split: if_splits)
  have ok1: "services_ok meta1"
  proof -
    have "md_sequence meta = md_sequence (rt_meta r)"
      using k by (auto simp: delete_checkpoints_before_def md_next_def split: list.splits option.splits)
    with assms(1) delete_checkpoints_tables(1) [OF k] show ?thesis by (simp add: meta1_def services_ok_def)
  qed
  obtain dres where d: "delete_services_before meta1 (reclaim_cutoff_ms cutoff) = (db1, dres)"
    "rg = rt_registry r \<or> (\<exists>sids. rg = forget (rt_registry r) sids)"
    using rc by (auto simp: reclaim_before_def sqlite_ops_def split: prod.splits sum.splits)
  have "services_ok db1" using delete_services_laws [OF ok1 d(1)] by blast
  then show "services_ok (rt_meta r')" using ok1 by (simp add: r')
  have "\<exists>P. rg_by_id rg = filter P (rg_by_id (rt_registry r))"
    using d(2) forget_by_id [of "rt_registry r"] by (auto intro: exI [of _ "\<lambda>_. True"])
  then obtain P where P: "rg_by_id rg = filter P (rg_by_id (rt_registry r))" by blast
  show "hm_wf (rg_by_id (rt_registry r'))" using assms(3) by (simp add: r' P)
  have "registry_name rg s = Some n \<Longrightarrow> registry_name (rt_registry r) s = Some n" for s n
    using assms(3) by (auto simp: registry_name_def P hm_get_filter split: option.splits if_splits)
  then show "\<forall>n s. registry_name (rt_registry r') s = Some n \<longrightarrow> dictionary db n = Some s"
    using assms(2) by (auto simp: r')
qed

lemma names_unique_dictionary:
  assumes "services_ok db" "hm_wf (rg_by_id rg)" "\<forall>n s. registry_name rg s = Some n \<longrightarrow> dictionary db n = Some s"
  shows "names_unique rg"
proof -
  have "distinct (map snd (rg_by_id rg))"
  proof -
    have "distinct (rg_by_id rg)" using assms(2) by (simp add: hm_wf_def distinct_map)
    moreover have "inj_on snd (set (rg_by_id rg))"
    proof (rule inj_onI)
      fix x y assume xy: "x \<in> set (rg_by_id rg)" "y \<in> set (rg_by_id rg)" "snd x = snd y"
      have "dictionary db (snd z) = Some (fst z)" if "z \<in> set (rg_by_id rg)" for z
        using that assms(3) hm_get_in_set [OF assms(2), of "fst z" "snd z"] by (simp add: registry_name_def)
      from this [OF xy(1)] this [OF xy(2)] have "dictionary db (snd x) = Some (fst x)" "dictionary db (snd y) = Some (fst y)" .
      with xy(3) show "x = y" by (simp add: prod_eq_iff)
    qed
    ultimately show ?thesis by (simp add: distinct_map)
  qed
  with assms(2) show ?thesis by (simp add: names_unique_def)
qed



section \<open>A start without failures\<close>

text \<open>
  No call fails: directories can be created, each database opens and is at least an old one, no
  statement fails, the ids of the dictionary fit 32 bits, and the cutoff of the retention is a date.
\<close>

definition calm_start :: "surroundings \<Rightarrow> config \<Rightarrow> disk \<Rightarrow> bool" where
  "calm_start su cfg k \<longleftrightarrow> from_env (su_environment su) = Inr cfg \<and>
     \<not> isl (worker_thread_limit_from_env (su_environment su)) \<and>
     (\<forall>dir. su_create_dir_all su dir = Inr ()) \<and>
     (\<forall>opts. \<exists>pool. su_connect su opts = Inr pool \<and> sq_faults pool = [] \<and> legacy_metrics pool) \<and>
     dd_faults (sk_dir k) = [] \<and> md_faults (sk_metadata k) = [] \<and> db_faults (sk_metrics k) = [] \<and>
     (\<forall>r \<in> set (md_services (sk_metadata k)). \<not> isl (stored_service_id (sr_sid r))) \<and>
     retention_cutoff_ms (su_now su) (retention_weeks cfg) \<noteq> None \<and> su_bind su = None"

definition incompatible :: "surroundings \<Rightarrow> disk \<Rightarrow> bool" where
  "incompatible su k \<longleftrightarrow> \<not> force_enabled (su_environment su env_force) \<and>
     (\<exists>raw recorded kind. dd_manifest (sk_dir k) = Some raw \<and> vj_from_slice (su_json su) raw = Inr recorded \<and>
        dir_exists (sk_dir k) kind \<and> recorded_version kind recorded \<noteq> expected_version kind)"

lemma create_schema_succeeds:
  assumes "sq_faults pool = []" "legacy_metrics pool"
  shows "\<not> isl (snd (create_schema pool))"
  using create_tables_upgraded [OF assms(2)] assms(1) unfolding create_schema_def upgraded_def by blast

lemma metadata_schema_succeeds: "sq_faults pool = [] \<Longrightarrow> \<not> isl (snd (metadata_schema pool))"
  by (simp add: metadata_schema_def statement_def create_table_def Let_def)

lemma pool_opens:
  assumes "calm_start su cfg k"
  obtains pool where "open_pool (su_create_dir_all su) (su_connect su) (Some dir) path cache timeout vacuum = Inr pool"
    "sq_faults pool = []" "legacy_metrics pool"
proof -
  obtain pool where "su_connect su (open_options path cache timeout vacuum) = Inr pool"
    "sq_faults pool = []" "legacy_metrics pool" using assms unfolding calm_start_def by blast
  moreover have "su_create_dir_all su dir = Inr ()" using assms by (simp add: calm_start_def)
  ultimately show thesis using that by (simp add: open_pool_def)
qed

lemma registry_loads:
  assumes "md_faults db = []" "\<forall>r \<in> set (md_services db). \<not> isl (stored_service_id (sr_sid r))"
  shows "\<exists>db' rg. registry_load sqlite_ops db = (db', Inr rg)"
proof -
  have "\<exists>xs. collect_results (map (\<lambda>r. and_then (stored_service_id (sr_sid r)) (\<lambda>sid. Inr (sid, sr_name r))) rows) = Inr xs"
    if "\<forall>r \<in> set rows. \<not> isl (stored_service_id (sr_sid r))" for rows
    using that
  proof (induction rows)
    case (Cons r rows)
    then obtain sid where "stored_service_id (sr_sid r) = Inr sid" by (cases "stored_service_id (sr_sid r)") auto
    with Cons show ?case by auto
  qed simp
  from this [OF assms(2)] show ?thesis
    using assms(1) by (auto simp: registry_load_def sqlite_ops_def list_services_def md_next_def)
qed

lemma stores_open:
  assumes "calm_start su cfg k" "md_faults (sk_metadata k') = []" "db_faults (sk_metrics k') = []"
    and "\<forall>r \<in> set (md_services (sk_metadata k')). \<not> isl (stored_service_id (sr_sid r))"
  shows "\<exists>st. open_stores su cfg workers k' = Serving workers st"
proof -
  have meta: "\<exists>u. metadata_connect su cfg = Inr u"
  proof (rule pool_opens [OF assms(1)])
    fix pool assume "open_pool (su_create_dir_all su) (su_connect su) (Some (metadata_dir (data_path cfg)))
         (path_join (metadata_dir (data_path cfg)) ''metadata.db'')
         (sqlite_cache_size_kb cfg) (sqlite_busy_timeout cfg) False = Inr pool" "sq_faults pool = []"
    then show ?thesis
      using metadata_schema_succeeds [of pool] by (cases "snd (metadata_schema pool)") (simp_all add: metadata_connect_def)
  qed
  have metrics: "\<exists>db ms. metrics_connect su cfg (sk_metrics k') = (db, Inr ms)"
  proof (rule pool_opens [OF assms(1)])
    fix pool assume "open_pool (su_create_dir_all su) (su_connect su) (Some (metrics_dir (data_path cfg)))
         (path_join (metrics_dir (data_path cfg)) ''metrics.db'')
         (sqlite_cache_size_kb cfg) (sqlite_busy_timeout cfg) True = Inr pool" "sq_faults pool = []" "legacy_metrics pool"
    moreover from this obtain v where "snd (create_schema pool) = Inr v"
      using create_schema_succeeds [of pool] by (cases "snd (create_schema pool)") simp_all
    ultimately show ?thesis using assms(3)
      by (simp add: metrics_connect_def store_connect_def select_host_max_ts_def select_containers_max_ts_def next_fault_def)
  qed
  obtain meta rg where load: "registry_load sqlite_ops (sk_metadata k') = (meta, Inr rg)"
    using registry_loads [OF assms(2,4)] by blast
  obtain u db ms where m: "metadata_connect su cfg = Inr u" "metrics_connect su cfg (sk_metrics k') = (db, Inr ms)"
    using meta metrics by blast
  have "as_config (wired_state cfg (rg, meta) ms k') = cfg" by (simp add: wired_state_def app_state_new_def)
  then obtain st where "first_cleanup su (wired_state cfg (rg, meta) ms k') = Some st"
    using assms(1) by (auto simp: first_cleanup_def cleanup_once_def calm_start_def split_def Let_def)
  then show ?thesis using assms(1) by (simp add: open_stores_def m load calm_start_def)
qed

lemma calm_guard:
  assumes "calm_start su cfg k" "vj_to_vec_pretty (su_json su) current_versions = Inr body"
  shows "incompatible su k \<Longrightarrow> \<exists>message. ensure_compatible (su_json su) (data_path cfg) (su_environment su env_force) (sk_dir k) =
      (sk_dir k, Inl message)"
    "\<not> incompatible su k \<Longrightarrow> \<exists>d v. ensure_compatible (su_json su) (data_path cfg) (su_environment su env_force) (sk_dir k) =
      (d, Inr v)"
proof -
  have "dd_faults (sk_dir k) = []" using assms(1) by (simp add: calm_start_def)
  note guard = guard_refuses_iff [OF this assms(2), of "data_path cfg" "force_enabled (su_environment su env_force)"]
  { assume "incompatible su k"
    then obtain raw recorded where r: "dd_manifest (sk_dir k) = Some raw" "vj_from_slice (su_json su) raw = Inr recorded"
      "\<not> force_enabled (su_environment su env_force) \<and>
         (\<exists>kind. dir_exists (sk_dir k) kind \<and> recorded_version kind recorded \<noteq> expected_version kind)"
      unfolding incompatible_def by blast
    have "ensure_compatible (su_json su) (data_path cfg) (su_environment su env_force) (sk_dir k) =
        (sk_dir k, Inl (incompatible_message (data_path cfg) recorded (stale_kinds recorded (sk_dir k))))"
      unfolding ensure_compatible_def guard r(1,2) option.case sum.case if_P [OF r(3)] by (rule refl)
    then show "\<exists>message. ensure_compatible (su_json su) (data_path cfg) (su_environment su env_force) (sk_dir k) =
      (sk_dir k, Inl message)" by blast }
  { assume "\<not> incompatible su k"
    then have "\<not> isl (snd (ensure_compatible (su_json su) (data_path cfg) (su_environment su env_force) (sk_dir k)))"
      unfolding ensure_compatible_def guard by (auto simp: incompatible_def split: option.splits sum.splits)
    then show "\<exists>d v. ensure_compatible (su_json su) (data_path cfg) (su_environment su env_force) (sk_dir k) =
      (d, Inr v)"
      by (cases "ensure_compatible (su_json su) (data_path cfg) (su_environment su env_force) (sk_dir k)")
        (auto simp: isl_def intro: sum.exhaust) }
qed

lemma calm_threads:
  assumes "calm_start su cfg k"
  shows "\<exists>workers. configured_worker_threads (su_parallelism su) (su_environment su) = Inr workers"
  using assms by (cases "worker_thread_limit_from_env (su_environment su)")
    (auto simp: calm_start_def configured_worker_threads_def)

lemma calm_start_serves:
  assumes "calm_start su cfg k" "vj_to_vec_pretty (su_json su) current_versions = Inr body" "\<not> incompatible su k"
  shows "\<exists>k' workers st. start_up su k = (k', Serving workers st)"
proof -
  obtain workers d v where w: "configured_worker_threads (su_parallelism su) (su_environment su) = Inr workers"
    and d: "ensure_compatible (su_json su) (data_path cfg) (su_environment su env_force) (sk_dir k) = (d, Inr v)"
    using calm_threads [OF assms(1)] calm_guard(2) [OF assms] by blast
  have "\<exists>st. open_stores su cfg workers (wiped d k) = Serving workers st"
    by (rule stores_open [OF assms(1)]) (use assms(1) in \<open>auto simp: calm_start_def wiped_def empty_metadata_def empty_db_def\<close>)
  moreover have "from_env (su_environment su) = Inr cfg" using assms(1) by (simp add: calm_start_def)
  ultimately show ?thesis by (auto simp: start_up_def w d)
qed


text \<open>
  The retention in weeks may be any 32-bit number. Where the cutoff would lie before the first date of
  the calendar, the first clean-up panics, so the program cannot start with such a setting although
  the configuration accepts it.
\<close>

lemma huge_retention_cannot_start:
  assumes "from_env (su_environment su) = Inr cfg" "4000000 < uint (retention_weeks cfg)" "su_now su < 253402300800"
  shows "\<nexists>workers st. snd (start_up su k) = Serving workers st"
proof -
  have "retention_cutoff_ms (su_now su) (retention_weeks cfg) = None"
  proof -
    have "su_now su div 86400 < 2932897" using assms(3) by linarith
    moreover have "0 \<le> days_from_monday (su_now su div 86400)" by (simp add: days_from_monday_def)
    ultimately have "su_now su div 86400 - days_from_monday (su_now su div 86400) - 7 * uint (retention_weeks cfg) < date_min_day"
      using assms(2) by (simp add: date_min_day_def)
    then show ?thesis by (simp add: retention_cutoff_ms_def Let_def)
  qed
  moreover have "as_config (wired_state cfg meta ms k') = cfg" for meta ms k'
    by (simp add: wired_state_def app_state_new_def)
  ultimately have "first_cleanup su (wired_state cfg meta ms k') = None" for meta ms k'
    by (simp add: first_cleanup_def cleanup_once_def)
  then show ?thesis
    using assms(1) by (auto simp: start_up_def open_stores_def split: sum.splits prod.splits option.splits)
qed

section \<open>Stopping the streams\<close>

text \<open>
  What all streams share: only the first poll is free of waiting, and a stream that has waited ends
  when it is told to.
\<close>

locale stoppable =
  fixes poll :: "'i \<Rightarrow> 's \<Rightarrow> ('e, 's) polled"
    and stop :: "'i \<Rightarrow> bool"
    and fresh :: "'s \<Rightarrow> bool"
  assumes waits_settled: "poll i s = StreamWaits s' \<Longrightarrow> \<not> fresh s'"
    and yields_settled: "poll i s = StreamYields e s' \<Longrightarrow> \<not> fresh s'"
    and settled_stops: "stop i \<Longrightarrow> \<not> fresh s \<Longrightarrow> poll i s = StreamEnds"
begin

lemma settled_ends:
  "\<not> fresh s \<Longrightarrow> i \<in> set inputs \<Longrightarrow> stop i \<Longrightarrow> snd (follow poll inputs s) = None"
proof (induction inputs arbitrary: s)
  case (Cons j inputs)
  show ?case
  proof (cases "stop j")
    case True
    with settled_stops Cons.prems(1) show ?thesis by simp
  next
    case False
    with Cons.prems have "i \<in> set inputs" by auto
    with Cons.IH Cons.prems(3) show ?thesis
      by (cases "poll j s") (auto dest: waits_settled yields_settled simp: Let_def split_def)
  qed
qed simp

lemma ends:
  assumes "i \<in> set later" "stop i"
  shows "snd (follow poll (first # later) s) = None"
  using settled_ends [OF _ assms]
  by (cases "poll first s") (auto dest: waits_settled yields_settled simp: Let_def split_def)

end

definition told :: "app_state \<times> wake \<Rightarrow> bool" where
  "told i \<longleftrightarrow> as_shutdown (fst i) \<and> snd i = Cancelled"

definition current_input ::
    "(app_state \<Rightarrow> timestamp_ms) \<Rightarrow> app_state \<times> wake \<Rightarrow> stream_state \<Rightarrow> (snapshot_event, stream_state) polled" where
  "current_input now_of i s = current_poll (fst i) (now_of (fst i)) (snd i) s"

definition containers_input ::
    "app_state \<times> wake \<Rightarrow> containers_stream \<Rightarrow> (containers_event, containers_stream) polled" where
  "containers_input i s = containers_poll (dk_registry (as_docker (fst i))) (as_shutdown (fst i)) (snd i) s"

definition series_input ::
    "(app_state \<Rightarrow> time_range \<Rightarrow> metrics_resolution \<Rightarrow> app_state \<times> 'd) \<Rightarrow> ('d \<Rightarrow> timestamp_ms option)
      \<Rightarrow> ('d \<Rightarrow> 'a) \<Rightarrow> metrics_source \<Rightarrow> app_state \<times> wake \<Rightarrow> series_stream \<Rightarrow> (('d, 'a) series_event, series_stream) polled" where
  "series_input fetch latest payload source i s = snd (series_poll fetch latest payload source (fst i) (snd i) s)"

interpretation current_stop: stoppable "current_input now_of" told "\<lambda>s. \<exists>h c. s = CurrentInitial h c" for now_of
  by unfold_locales
    (auto simp: current_input_def current_poll_def told_def split: stream_state.splits wake.splits if_splits)

interpretation containers_stop: stoppable containers_input told "\<lambda>s. \<exists>rx. s = ContainersInitial rx"
  by unfold_locales
    (auto simp: containers_input_def containers_poll_def told_def Let_def
      split: containers_stream.splits wake.splits if_splits)

interpretation groups_stop: stoppable groups_input told "\<lambda>s. \<exists>f c. s = GroupsInitial f c"
  by unfold_locales
    (auto simp: groups_input_def groups_poll_def groups_wake_def told_def Let_def split_def
      split: groups_stream.splits wake.splits if_splits)

interpretation series_stop: stoppable "series_input fetch latest payload source" told
    "\<lambda>s. \<exists>rx rg r. s = SeriesInitial rx rg r" for fetch latest payload source
  by unfold_locales
    (auto simp: series_input_def series_poll_def told_def Let_def split_def
      split: series_stream.splits wake.splits if_splits option.splits)

interpretation tail_stop: stoppable "tail_input env" told tl_first for env
proof
  fix i :: "app_state \<times> wake" and s s' :: tail_state and e
  have read: "snd (tail_read env st t) = Some p \<Longrightarrow> \<not> tl_first t \<Longrightarrow>
      (case p of StreamEnds \<Rightarrow> True | StreamWaits t' \<Rightarrow> \<not> tl_first t' | StreamYields _ t' \<Rightarrow> \<not> tl_first t')" for st t p
    using tail_read_waits [of env st t] tail_read_yields [of env st t] by (cases p) auto
  have polled: "case tail_input env i s of StreamEnds \<Rightarrow> True | StreamWaits t \<Rightarrow> \<not> tl_first t | StreamYields _ t \<Rightarrow> \<not> tl_first t"
  proof (cases "snd (tail_poll env (fst i) (snd i) s)")
    case None
    then show ?thesis by (simp add: tail_input_def unwrap_or_def)
  next
    case (Some p)
    have "p = StreamEnds \<or> p = StreamWaits s \<and> \<not> tl_first s \<or>
        (\<exists>t. \<not> tl_first t \<and> snd (tail_read env (fst i) t) = Some p)"
    proof (cases "tl_first s")
      case True
      then show ?thesis using Some by (intro disjI2 exI [of _ "s\<lparr>tl_first := False\<rparr>"]) (simp add: tail_poll_def)
    next
      case False
      let ?t = "s\<lparr>tl_rx := unwrap_or 0 (hm_get (fl_services (as_log_flush_watcher (fst i))) (tl_service s))\<rparr>"
      from Some False show ?thesis
        by (cases "snd i") (auto simp: tail_poll_def Let_def intro!: exI [of _ ?t] split: if_splits)
    qed
    then show ?thesis using read by (auto simp: tail_input_def unwrap_or_def Some)
  qed
  show "tail_input env i s = StreamWaits s' \<Longrightarrow> \<not> tl_first s'"
    "tail_input env i s = StreamYields e s' \<Longrightarrow> \<not> tl_first s'" using polled by auto
  show "told i \<Longrightarrow> \<not> tl_first s \<Longrightarrow> tail_input env i s = StreamEnds"
    by (simp add: told_def tail_input_def tail_poll_def unwrap_or_def)
qed

text \<open>
  C35. A shutdown ends every event stream. Once it has been signalled, each of the seven kinds of
  streams ends as soon as it sees the signal after its first event, whatever state it is in and
  whatever else wakes it before; so the open connections do not keep the server from stopping.
\<close>

theorem shutdown_ends_streams:
  assumes "(shutdown_signal st, Cancelled) \<in> set later"
  shows "snd (follow (current_input now_of) (first # later) s1) = None \<and>
    snd (follow containers_input (first # later) s2) = None \<and>
    snd (follow groups_input (first # later) s3) = None \<and>
    snd (follow host_input (first # later) s4) = None \<and>
    snd (follow (\<lambda>i s. snd (containers_stream_poll (fst i) (snd i) s)) (first # later) s4) = None \<and>
    snd (follow (\<lambda>i s. snd (container_stream_poll service (fst i) (snd i) s)) (first # later) s4) = None \<and>
    snd (follow (tail_input env) (first # later) s5) = None"
proof -
  have "told (shutdown_signal st, Cancelled)" by (simp add: told_def shutdown_signal_def)
  note ends = current_stop.ends [OF assms this] containers_stop.ends [OF assms this] groups_stop.ends [OF assms this]
    series_stop.ends [OF assms this] tail_stop.ends [OF assms this]
  have series: "host_input = series_input fetch_host (\<lambda>points. map_option hp_ts (last_point points)) last HostSource"
    "(\<lambda>i s. snd (containers_stream_poll (fst i) (snd i) s)) =
      series_input fetch_series latest_ts_by_service cross_section_by_service ContainersSource"
    "(\<lambda>i s. snd (container_stream_poll service (fst i) (snd i) s)) =
      series_input (fetch_group service) latest_ts_in_service group_append ContainersSource"
    by (simp_all add: fun_eq_iff host_input_def series_input_def host_stream_poll_def containers_stream_poll_def
        container_stream_poll_def)
  show ?thesis unfolding series by (simp only: ends)
qed

theorem shutdown_ends_streams_witness:
  "snd (follow (tail_input unary_env) [(tailed_state, FirstChanged), (shutdown_signal tailed_state, Cancelled)] tail_start) = None"
  using shutdown_ends_streams [of tailed_state "[(shutdown_signal tailed_state, Cancelled)]"] by simp


section \<open>Examples\<close>

text \<open>A first start on an empty directory, and one on a directory with the metrics of another build.\<close>

definition new_pool :: sql_db where
  "new_pool = \<lparr>sq_tables = [], sq_indexes = [], sq_triggers = [], sq_rows = [], sq_fts = [], sq_free = 0,
     sq_faults = [], sq_executed = 0\<rparr>"

definition plain_surroundings :: surroundings where
  "plain_surroundings = \<lparr>su_parallelism = Some 4, su_environment = (\<lambda>_. None), su_json = unary_json,
     su_log_env = week_one_env, su_create_dir_all = (\<lambda>_. Inr ()), su_connect = (\<lambda>_. Inr new_pool),
     su_now = 1787443200, su_bind = None\<rparr>"

definition disk_with :: "data_dir \<Rightarrow> disk" where
  "disk_with d = \<lparr>sk_dir = d, sk_metadata = empty_metadata, sk_metrics = empty_db, sk_logs = [], sk_log_faults = []\<rparr>"

definition empty_dir :: data_dir where
  "empty_dir = \<lparr>dd_manifest = None, dd_files = (\<lambda>_. None), dd_hidden = [], dd_faults = []\<rparr>"

lemma plain_calm:
  assumes "dd_faults d = []"
  shows "\<exists>cfg. calm_start plain_surroundings cfg (disk_with d)"
proof -
  obtain cfg where cfg: "from_env (\<lambda>_. None) = Inr cfg" using config_without_variables by blast
  then have weeks: "retention_weeks cfg = default_retention_weeks"
    using parse_or_result [of parse_uint "\<lambda>_. None" env_retention_weeks default_retention_weeks]
    by (simp add: from_env_Inr_iff env_var_def option_filter_def)
  have "worker_thread_limit_from_env (\<lambda>_. None) = Inr default_worker_threads"
    by (simp add: worker_thread_limit_from_env_def positive_result parse_or_def env_var_def option_filter_def default_worker_threads_def)
  moreover have "legacy_metrics new_pool"
    by (simp add: legacy_metrics_def has_table_def new_pool_def)
  moreover have "retention_cutoff_ms 1787443200 default_retention_weeks \<noteq> None"
    by (simp add: retention_cutoff_ms_def Let_def days_from_monday_def date_min_day_def default_retention_weeks_def)
  ultimately have "calm_start plain_surroundings cfg (disk_with d)"
    using cfg weeks assms
    by (simp add: calm_start_def plain_surroundings_def disk_with_def new_pool_def empty_metadata_def empty_db_def)
  then show ?thesis by blast
qed

lemma unary_current: "\<exists>body. vj_to_vec_pretty unary_json current_versions = Inr body"
  by (simp add: unary_json_def)



end
