(* ===== verification/Log_Read.thy ===== *)
theory Log_Read
  imports Log_Tail
begin

text \<open>
  Reading a service to its beginning: a client asks for the newest page and follows the older cursor
  while the page says that there is more. What it collects is the sorted contents of the store; with
  the law of an append this is what was written.
\<close>

section \<open>A client that pages back\<close>

text \<open>The pages are put together oldest first. \<open>None\<close>: a query failed, or the requests ran out.\<close>

fun read_back :: "log_env \<Rightarrow> string \<Rightarrow> log_filter \<Rightarrow> nat \<Rightarrow> log_store \<Rightarrow> log_line list option" where
  "read_back env service f 0 st = None"
| "read_back env service f (Suc n) st =
     (case logs_query env service f st of
        (st1, Some (Inr page)) \<Rightarrow>
          if pg_has_older page
          then map_option (\<lambda>older. older @ pg_items page)
                 (read_back env service (f\<lparr>lf_before := pg_older_cursor page\<rparr>) n st1)
          else Some (pg_items page)
      | _ \<Rightarrow> None)"

lemma page_back:
  assumes "iso_calendar env" "cursor_codec env" "readable env st service"
    and "query_cursor env f = Some (cursor, Backward)" "Log_Store.cursor_ok env cursor" "calm_filter f cursor"
  defines "m \<equiv> sorted_matches env f (Option.bind (lf_query f) sanitize_fts_query) cursor Backward (service_log env st service)"
  shows "\<exists>st1 page. logs_query env service f st = (st1, Some (Inr page)) \<and> ls_dirs st1 = ls_dirs st \<and> ls_faults st1 = [] \<and>
    pg_items page = map sl_line (drop (length m - page_limit f) m) \<and> pg_has_older page = (page_limit f < length m) \<and>
    (page_limit f < length m \<longrightarrow> (\<exists>tok. pg_older_cursor page = Some tok \<and>
       decode_cursor (en_b64_decode env) (en_from_json env) tok = Inr (cursor_of (m ! (length m - page_limit f)))))"
proof -
  let ?k = "page_limit f"
  have ge: "1 \<le> ?k" by (simp add: page_limit_def)
  obtain st1 where q: "logs_query env service f st =
      (st1, Some (Inr (page_of env f Backward ?k (take (?k + 1) (rev m)))))" "ls_dirs st1 = ls_dirs st" "ls_faults st1 = []"
    using logs_query_result [OF assms(1) _ _ _ assms(4-6), of st service] assms(3) by (auto simp: readable_def m_def)
  have items: "rev (take ?k (take (?k + 1) (rev m))) = drop (length m - ?k) m" by (simp add: rev_take min_def)
  show ?thesis
  proof (cases "m = []")
    case True
    then show ?thesis using q by (simp add: page_of_def empty_page_def Let_def)
  next
    case False
    then have lt: "length m - ?k < length m" using ge by (simp add: diff_less)
    then obtain e es where es: "drop (length m - ?k) m = e # es"
      by (cases "drop (length m - ?k) m") (simp_all del: diff_is_0_eq)
    have more: "?k < length (take (?k + 1) (rev m)) \<longleftrightarrow> ?k < length m" by auto
    obtain tok where tok: "encode_cursor (en_to_json env) (en_b64_encode env) (cursor_of e) = Inr tok"
      "decode_cursor (en_b64_decode env) (en_from_json env) tok = Inr (cursor_of e)"
      using assms(2) unfolding cursor_codec_def by blast
    have first: "e = m ! (length m - ?k)" using es False ge by (metis hd_drop_conv_nth list.sel(1) diff_less length_greater_0_conv less_le_trans zero_less_one)
    have page: "page_of env f Backward ?k (take (?k + 1) (rev m)) =
        \<lparr>pg_items = map sl_line (drop (length m - ?k) m), pg_older_cursor = Some tok,
         pg_newer_cursor = ok_string (encode_cursor (en_to_json env) (en_b64_encode env) (cursor_of (last (e # es)))),
         pg_has_older = ?k < length m, pg_has_newer = lf_before f \<noteq> None\<rparr>"
      unfolding page_of_def Let_def direction.case items es more by (simp add: tok(1) ok_string_def)
    show ?thesis using q(2,3) tok(2) unfolding q(1) page first by simp
  qed
qed

lemma sorted_matches_before [simp]:
  "sorted_matches env (f\<lparr>lf_before := b\<rparr>) fts cursor dirn es = sorted_matches env f fts cursor dirn es"
  by (simp add: sorted_matches_def entry_matches_def [abs_def])

lemma service_log_dirs: "ls_dirs st1 = ls_dirs st \<Longrightarrow> service_log env st1 service = service_log env st service"
  by (simp add: service_log_def files_of_def)

lemma readable_dirs:
  "readable env st service \<Longrightarrow> ls_dirs st1 = ls_dirs st \<Longrightarrow> ls_faults st1 = [] \<Longrightarrow> readable env st1 service"
  by (simp add: readable_def store_wf_def files_of_def)

text \<open>With as many requests as entries, and one more, the client has everything.\<close>

lemma read_back_all:
  fixes f :: log_filter
  assumes "iso_calendar env" "cursor_codec env" "readable env st0 service" "lf_after f = None" "calm_filter f None"
  defines "M \<equiv> sorted_matches env f (Option.bind (lf_query f) sanitize_fts_query) None Backward (service_log env st0 service)"
  assumes "readable env st service" "ls_dirs st = ls_dirs st0" "k \<le> length M" "k < n"
    and "query_cursor env (f\<lparr>lf_before := b\<rparr>) = Some (cursor, Backward)"
    and "cursor = None \<and> k = length M \<or> k < length M \<and> cursor = Some (cursor_of (M ! k))"
  shows "read_back env service (f\<lparr>lf_before := b\<rparr>) n st = Some (map sl_line (take k M))"
  using assms(7-)
proof (induction k arbitrary: n b cursor st rule: less_induct)
  case (less k)
  obtain n' where n: "n = Suc n'" using less.prems(4) by (cases n) auto
  let ?f = "f\<lparr>lf_before := b\<rparr>" and ?lim = "page_limit f"
  have lim: "page_limit ?f = ?lim" "1 \<le> ?lim" by (simp_all add: page_limit_def)
  have wf: "store_wf env st0" using assms(3) by (simp add: readable_def)
  have log: "service_log env st service = service_log env st0 service" by (rule service_log_dirs [OF less.prems(2)])
  have m: "sorted_matches env ?f (Option.bind (lf_query ?f) sanitize_fts_query) cursor Backward (service_log env st service) = take k M"
    using less.prems(6) sorted_matches_previous [OF assms(1) wf, where cursor = None and f = f
        and fts = "Option.bind (lf_query f) sanitize_fts_query" and service = service and n = k]
    by (auto simp: log M_def)
  have cur: "Log_Store.cursor_ok env cursor \<and> calm_filter ?f cursor"
  proof (cases cursor)
    case None
    then show ?thesis using assms(5) by (simp add: Log_Store.cursor_ok_def calm_filter_def)
  next
    case (Some c)
    with less.prems(6) have "M ! k \<in> set M" "c = cursor_of (M ! k)" by auto
    moreover from this(1) have "M ! k \<in> set (service_log env st0 service)" by (auto simp: M_def sorted_matches_def)
    ultimately show ?thesis
      using entry_cursor_ok [OF assms(1) wf, of "M ! k" service] assms(5) by (simp add: Some calm_filter_def cursor_of_def)
  qed
  from page_back [OF assms(1,2) less.prems(1,5)] cur obtain st1 page where p:
    "logs_query env service ?f st = (st1, Some (Inr page))" "ls_dirs st1 = ls_dirs st" "ls_faults st1 = []"
    "pg_items page = map sl_line (drop (length (take k M) - ?lim) (take k M))"
    "pg_has_older page = (?lim < length (take k M))"
    "?lim < length (take k M) \<longrightarrow> (\<exists>tok. pg_older_cursor page = Some tok \<and>
       decode_cursor (en_b64_decode env) (en_from_json env) tok = Inr (cursor_of (take k M ! (length (take k M) - ?lim))))"
    unfolding m lim by blast
  have len: "length (take k M) = k" using less.prems(3) by simp
  show ?case
  proof (cases "?lim < k")
    case False
    then show ?thesis using p by (simp add: n len)
  next
    case True
    with p(6) obtain tok where tok: "pg_older_cursor page = Some tok"
      "decode_cursor (en_b64_decode env) (en_from_json env) tok = Inr (cursor_of (M ! (k - ?lim)))"
      using lim(2) less.prems(3) by (auto simp: len min_def split: if_splits)
    have small: "k - ?lim < k" using True lim(2) by simp
    have "query_cursor env (f\<lparr>lf_before := Some tok\<rparr>) = Some (Some (cursor_of (M ! (k - ?lim))), Backward)"
      using assms(4) tok(2) by (simp add: query_cursor_def transpose_cursor_def)
    from less.IH [OF small readable_dirs [OF less.prems(1) p(2,3)] _ _ _ this] less.prems(2-4) p(2) small
    have "read_back env service (f\<lparr>lf_before := Some tok\<rparr>) n' st1 = Some (map sl_line (take (k - ?lim) M))"
      by (simp add: n)
    moreover have "take (k - ?lim) M @ drop (k - ?lim) (take k M) = take k M"
      using append_take_drop_id [of "k - ?lim" "take k M"] by (simp add: min_def)
    ultimately have "map_option (\<lambda>older. older @ pg_items page) (read_back env service (f\<lparr>lf_before := Some tok\<rparr>) n' st1) =
        Some (map sl_line (take k M))"
      unfolding p(4) len by (simp add: map_append [symmetric] del: map_append)
    moreover have "pg_has_older page" using p(5) True by (simp only: len)
    ultimately show ?thesis using p(1) tok(1) by (simp add: n)
  qed
qed


lemma paging_back_reads_all:
  assumes "iso_calendar env" "cursor_codec env" "readable env st service"
    and "lf_before f = None" "lf_after f = None" "calm_filter f None" "length (service_log env st service) < n"
  shows "read_back env service f n st =
    Some (map sl_line (sorted_matches env f (Option.bind (lf_query f) sanitize_fts_query) None Backward (service_log env st service)))"
proof -
  let ?M = "sorted_matches env f (Option.bind (lf_query f) sanitize_fts_query) None Backward (service_log env st service)"
  have "length ?M \<le> length (service_log env st service)" by (simp add: sorted_matches_def)
  moreover have "query_cursor env (f\<lparr>lf_before := None\<rparr>) = Some (None, Backward)"
    using assms(5) by (simp add: query_cursor_def transpose_cursor_def)
  ultimately have "read_back env service (f\<lparr>lf_before := None\<rparr>) n st = Some (map sl_line (take (length ?M) ?M))"
    using assms(7) by (intro read_back_all [OF assms(1-3,5,6,3)]) simp_all
  moreover have "f\<lparr>lf_before := None\<rparr> = f" using assms(4) by (cases f) simp
  ultimately show ?thesis by simp
qed

text \<open>The lines come in the order of their time stamps.\<close>

lemma entry_time: "e \<in> set (service_log env st service) \<Longrightarrow> sl_ts e = ll_ts (sl_line e)"
  by (auto simp: service_log_def week_entries_def List.map_filter_def decode_row_def Let_def
      split: option.splits)

lemma sorted_matches_times:
  "sorted (map ll_ts (map sl_line (sorted_matches env f fts cursor dirn (service_log env st service))))"
proof -
  let ?m = "sorted_matches env f fts cursor dirn (service_log env st service)"
  have "sorted (map entry_order ?m)" by (simp add: sorted_matches_def)
  then have "sorted_wrt (\<lambda>a b. sl_ts a \<le> sl_ts b) ?m"
    by (simp add: sorted_map) (rule sorted_wrt_mono_rel, auto simp: entry_order_def)
  moreover have "\<forall>e \<in> set ?m. sl_ts e = ll_ts (sl_line e)"
    by (auto simp: sorted_matches_def entry_time)
  ultimately show ?thesis
    by (simp add: sorted_map) (rule sorted_wrt_mono_rel [rotated], assumption, simp)
qed

text \<open>A filter without conditions.\<close>

definition unfiltered :: "log_filter \<Rightarrow> bool" where
  "unfiltered f \<longleftrightarrow> lf_from f = None \<and> lf_to f = None \<and> lf_query f = None \<and> lf_levels f = [] \<and> lf_streams f = [] \<and>
     lf_before f = None \<and> lf_after f = None"

lemma unfiltered_matches:
  "unfiltered f \<Longrightarrow> mset (sorted_matches env f (Option.bind (lf_query f) sanitize_fts_query) None Backward es) = mset es"
  by (simp add: sorted_matches_def entry_matches_def [abs_def] unfiltered_def)

end
