(* ===== verification/Log_Schedule.thy ===== *)
theory Log_Schedule
  imports Log_Buffer
begin

text \<open>
  The scheduling of flushes in \<^verbatim>\<open>src/logs/buffer.rs\<close>: no line waits without a worker that will flush it.
  Between the locked part of \<^verbatim>\<open>push\<close> and its call of \<^verbatim>\<open>schedule_flush\<close>, and between the end of a debounce
  and the moment at which the flush takes the lines, other tasks may run; the state lists the services
  whose push or flush is at such a point.
\<close>

section \<open>Runs with the calls that are still owed\<close>

record 'ls schedule_run =
  sc_buffer :: "'ls log_buffer"
  sc_flights :: "(string \<times> log_line list \<times> line_checkpoint list) list"
  sc_schedules :: "string list"
  sc_takes :: "string list"

definition schedule_from :: "'ls log_buffer \<Rightarrow> 'ls schedule_run" where
  "schedule_from b = \<lparr>sc_buffer = b, sc_flights = [], sc_schedules = [], sc_takes = []\<rparr>"

definition sleeps :: "'ls log_buffer \<Rightarrow> string \<Rightarrow> bool" where
  "sleeps b service = (case sh_worker (handle_of b service) of None \<Rightarrow> False | Some w \<Rightarrow> fw_sleeping w)"

definition awake_soon :: "'ls log_buffer \<Rightarrow> string \<Rightarrow> bool" where
  "awake_soon b service =
     (case sh_worker (handle_of b service) of None \<Rightarrow> False | Some w \<Rightarrow> fw_pending w \<or> fw_sleeping w)"

text \<open>
  A flush that finds the service without a worker and fails asks nobody for a retry
  (\<open>inline_failure_not_scheduled\<close>), and a panic of the store ends the task that flushes;
  \<open>sched_land\<close> leaves both cases out.
\<close>

inductive schedule_reach ::
  "'ls append_fn \<Rightarrow> line_hash \<Rightarrow> 'ls log_buffer \<Rightarrow> 'ls schedule_run \<Rightarrow> bool"
  for append_lines h b0 where
  sched_start: "schedule_reach append_lines h b0 (schedule_from b0)"
| sched_drop: "schedule_reach append_lines h b0 r \<Longrightarrow> dated (ll_ts line) \<Longrightarrow>
    push_locked h line (sc_buffer r) = (b, None) \<Longrightarrow>
    schedule_reach append_lines h b0 (r\<lparr>sc_buffer := b\<rparr>)"
| sched_push: "schedule_reach append_lines h b0 r \<Longrightarrow> dated (ll_ts line) \<Longrightarrow>
    push_locked h line (sc_buffer r) = (b, Some buffered) \<Longrightarrow> buffered < lb_max_lines b \<Longrightarrow>
    schedule_reach append_lines h b0 (r\<lparr>sc_buffer := b, sc_schedules := ll_service line # sc_schedules r\<rparr>)"
| sched_push_full: "schedule_reach append_lines h b0 r \<Longrightarrow> dated (ll_ts line) \<Longrightarrow>
    push_locked h line (sc_buffer r) = (b, Some buffered) \<Longrightarrow> lb_max_lines b \<le> buffered \<Longrightarrow>
    schedule_reach append_lines h b0 (r\<lparr>sc_buffer := b, sc_takes := ll_service line # sc_takes r\<rparr>)"
| sched_schedule: "schedule_reach append_lines h b0 r \<Longrightarrow> service \<in> set (sc_schedules r) \<Longrightarrow>
    schedule_reach append_lines h b0
      (r\<lparr>sc_buffer := schedule_flush service (sc_buffer r), sc_schedules := remove1 service (sc_schedules r)\<rparr>)"
| sched_receive: "schedule_reach append_lines h b0 r \<Longrightarrow>
    schedule_reach append_lines h b0 (r\<lparr>sc_buffer := worker_receive service (sc_buffer r)\<rparr>)"
| sched_wake: "schedule_reach append_lines h b0 r \<Longrightarrow> sleeps (sc_buffer r) service \<Longrightarrow>
    schedule_reach append_lines h b0
      (r\<lparr>sc_buffer := worker_wake service (sc_buffer r), sc_takes := service # sc_takes r\<rparr>)"
| sched_idle: "schedule_reach append_lines h b0 r \<Longrightarrow>
    schedule_reach append_lines h b0 (r\<lparr>sc_buffer := worker_idle service (sc_buffer r)\<rparr>)"
| sched_take_none: "schedule_reach append_lines h b0 r \<Longrightarrow> service \<in> set (sc_takes r) \<Longrightarrow>
    flush_take (sh_state (handle_of (sc_buffer r) service)) = (None, s) \<Longrightarrow>
    schedule_reach append_lines h b0 (r\<lparr>sc_takes := remove1 service (sc_takes r)\<rparr>)"
| sched_take: "schedule_reach append_lines h b0 r \<Longrightarrow> service \<in> set (sc_takes r) \<Longrightarrow>
    flush_take (sh_state (handle_of (sc_buffer r) service)) = (Some (lines, cps), s) \<Longrightarrow>
    schedule_reach append_lines h b0
      (r\<lparr>sc_buffer := update_state service (\<lambda>_. s) (sc_buffer r),
        sc_flights := sc_flights r @ [(service, lines, cps)], sc_takes := remove1 service (sc_takes r)\<rparr>)"
| sched_land: "schedule_reach append_lines h b0 r \<Longrightarrow>
    sc_flights r = fs1 @ (service, lines, cps) # fs2 \<Longrightarrow>
    append_lines service lines (lb_logs (sc_buffer r)) = (logs, Some res) \<Longrightarrow>
    (isl res \<Longrightarrow> sh_worker (handle_of (sc_buffer r) service) \<noteq> None) \<Longrightarrow>
    schedule_reach append_lines h b0
      (r\<lparr>sc_buffer := flush_land append_lines service lines cps now (sc_buffer r), sc_flights := fs1 @ fs2\<rparr>)"

section \<open>No line waits alone\<close>

definition attended :: "'ls schedule_run \<Rightarrow> bool" where
  "attended r \<longleftrightarrow> (\<forall>service. waiting_lines (sc_buffer r) service \<noteq> [] \<longrightarrow>
     awake_soon (sc_buffer r) service \<or> service \<in> set (sc_schedules r) \<or> service \<in> set (sc_takes r))"

lemma update_state_worker [simp]:
  "sh_worker (handle_of (update_state service f b) s) = sh_worker (handle_of b s)"
  by (simp add: update_state_def)

lemma push_locked_worker:
  "push_locked h line b = (b', backlog) \<Longrightarrow> sh_worker (handle_of b' s) = sh_worker (handle_of b s)"
  by (auto simp: push_locked_def split: option.splits)

lemma update_worker_handle:
  "handle_of (update_worker service f b) s =
     (if s = service then (handle_of b s)\<lparr>sh_worker := Option.bind (sh_worker (handle_of b s)) f\<rparr> else handle_of b s)"
  by (cases "sh_worker (handle_of b service)") (simp_all add: update_worker_def)

lemma waiting_update_worker [simp]: "waiting_lines (update_worker service f b) = waiting_lines b"
  using same_lines_update_worker [of b service f] by (simp add: same_lines_def)

lemma flush_land_worker:
  assumes "append_lines service lines (lb_logs b) = (logs, Some res)"
  shows "sh_worker (handle_of (flush_land append_lines service lines cps now b) s) =
    (if s = service \<and> isl res then map_option (\<lambda>w. w\<lparr>fw_pending := True\<rparr>) (sh_worker (handle_of b s))
     else sh_worker (handle_of b s))"
proof -
  have fields: "handle_of (b\<lparr>lb_logs := l\<rparr>) = handle_of b" "handle_of (b\<lparr>lb_logs := l, lb_meta := m, lb_watcher := w\<rparr>) = handle_of b"
    for l m w by (simp_all add: handle_of_def fun_eq_iff)
  have request: "sh_worker (handle_of (request_service_flush service b') s) =
      (if s = service then map_option (\<lambda>w. w\<lparr>fw_pending := True\<rparr>) (sh_worker (handle_of b' s)) else sh_worker (handle_of b' s))"
    for b' :: "'a log_buffer"
    by (auto simp: request_service_flush_def handle_of_def put_handle_def split: option.split)
  show ?thesis
  proof (cases res)
    case (Inl e)
    then show ?thesis by (simp add: flush_land_def assms request fields)
  next
    case (Inr u)
    then show ?thesis by (auto simp: flush_land_def assms fields split: prod.split sum.split)
  qed
qed

lemma attendedI:
  assumes "\<And>service. waiting_lines (sc_buffer r) service \<noteq> [] \<Longrightarrow>
     awake_soon (sc_buffer r) service \<or> service \<in> set (sc_schedules r) \<or> service \<in> set (sc_takes r)"
  shows "attended r"
  using assms by (simp add: attended_def)

lemma in_remove1: "s \<in> set xs \<Longrightarrow> s \<noteq> t \<Longrightarrow> s \<in> set (remove1 t xs)"
  by (simp add: in_set_remove1)

lemma attended_push:
  assumes "attended r" "push_locked h line (sc_buffer r) = (b, backlog)"
    and "backlog \<noteq> None \<Longrightarrow> ll_service line \<in> set ss \<or> ll_service line \<in> set ts"
    and "set (sc_schedules r) \<subseteq> set ss" "set (sc_takes r) \<subseteq> set ts"
  shows "attended (r\<lparr>sc_buffer := b, sc_schedules := ss, sc_takes := ts\<rparr>)"
proof (rule attendedI)
  fix s
  assume w: "waiting_lines (sc_buffer (r\<lparr>sc_buffer := b, sc_schedules := ss, sc_takes := ts\<rparr>)) s \<noteq> []"
  have "awake_soon b s = awake_soon (sc_buffer r) s" by (simp add: awake_soon_def push_locked_worker [OF assms(2)])
  moreover have "waiting_lines (sc_buffer r) s \<noteq> [] \<or> backlog \<noteq> None \<and> s = ll_service line"
    using w push_locked_lines(1,2) [OF assms(2)] by (cases backlog) (auto simp: same_lines_def split: if_splits)
  ultimately show "awake_soon (sc_buffer (r\<lparr>sc_buffer := b, sc_schedules := ss, sc_takes := ts\<rparr>)) s \<or>
      s \<in> set (sc_schedules (r\<lparr>sc_buffer := b, sc_schedules := ss, sc_takes := ts\<rparr>)) \<or>
      s \<in> set (sc_takes (r\<lparr>sc_buffer := b, sc_schedules := ss, sc_takes := ts\<rparr>))"
    using assms by (auto simp: attended_def)
qed

lemma reach_attended:
  assumes "schedule_reach append_lines h b0 r" "\<And>s. waiting_lines b0 s = []"
  shows "attended r"
  using assms(1)
proof (induction rule: schedule_reach.induct)
  case sched_start
  show ?case using assms(2) by (simp add: attended_def schedule_from_def)
next
  case (sched_drop r line b)
  from attended_push [OF sched_drop.IH sched_drop.hyps(3), of "sc_schedules r" "sc_takes r"] show ?case by simp
next
  case (sched_push r line b buffered)
  from attended_push [OF sched_push.IH sched_push.hyps(3), of "ll_service line # sc_schedules r" "sc_takes r"]
  show ?case by auto
next
  case (sched_push_full r line b buffered)
  from attended_push [OF sched_push_full.IH sched_push_full.hyps(3), of "sc_schedules r" "ll_service line # sc_takes r"]
  show ?case by auto
next
  case (sched_schedule r service)
  have "handle_of (schedule_flush service (sc_buffer r)) s = handle_of (sc_buffer r) s" if "s \<noteq> service" for s
    using that by (simp add: schedule_flush_def Let_def)
  moreover have "awake_soon (schedule_flush service (sc_buffer r)) service"
    by (simp add: schedule_flush_def Let_def awake_soon_def)
  moreover have "waiting_lines (schedule_flush service (sc_buffer r)) = waiting_lines (sc_buffer r)"
    using same_lines_schedule [of "sc_buffer r" service] by (simp add: same_lines_def)
  ultimately show ?case
  proof (intro attendedI)
    fix s
    assume other: "\<And>s. s \<noteq> service \<Longrightarrow> handle_of (schedule_flush service (sc_buffer r)) s = handle_of (sc_buffer r) s"
      and soon: "awake_soon (schedule_flush service (sc_buffer r)) service"
      and w: "waiting_lines (schedule_flush service (sc_buffer r)) = waiting_lines (sc_buffer r)"
      and ne: "waiting_lines (sc_buffer (r\<lparr>sc_buffer := schedule_flush service (sc_buffer r),
        sc_schedules := remove1 service (sc_schedules r)\<rparr>)) s \<noteq> []"
    show "awake_soon (sc_buffer (r\<lparr>sc_buffer := schedule_flush service (sc_buffer r),
          sc_schedules := remove1 service (sc_schedules r)\<rparr>)) s \<or>
        s \<in> set (sc_schedules (r\<lparr>sc_buffer := schedule_flush service (sc_buffer r),
          sc_schedules := remove1 service (sc_schedules r)\<rparr>)) \<or>
        s \<in> set (sc_takes (r\<lparr>sc_buffer := schedule_flush service (sc_buffer r),
          sc_schedules := remove1 service (sc_schedules r)\<rparr>))"
    proof (cases "s = service")
      case True
      then show ?thesis using soon by simp
    next
      case False
      then show ?thesis using ne w other [OF False] sched_schedule.IH in_remove1 [of s "sc_schedules r" service]
        by (auto simp: attended_def awake_soon_def)
    qed
  qed
next
  case (sched_receive r service)
  have "awake_soon (worker_receive service b) s = awake_soon b s" for b :: "'a log_buffer" and s
    by (cases "sh_worker (handle_of b service)") (auto simp: worker_receive_def awake_soon_def update_worker_handle)
  then show ?case using sched_receive.IH by (simp add: attended_def worker_receive_def)
next
  case (sched_wake r service)
  have "awake_soon (worker_wake service b) s = awake_soon b s" if "s \<noteq> service" for b :: "'a log_buffer" and s
    using that by (simp add: worker_wake_def awake_soon_def update_worker_handle)
  then show ?case using sched_wake.IH by (auto simp: attended_def worker_wake_def)
next
  case (sched_idle r service)
  have idle: "awake_soon (worker_idle service b) s = awake_soon b s" for b :: "'a log_buffer" and s
    by (cases "sh_worker (handle_of b service)") (auto simp: worker_idle_def awake_soon_def update_worker_handle)
  have "waiting_lines (worker_idle service (sc_buffer r)) = waiting_lines (sc_buffer r)" by (simp add: worker_idle_def)
  with sched_idle.IH show ?case by (simp add: attended_def idle)
next
  case (sched_take_none r service s)
  then have "waiting_lines (sc_buffer r) service = []"
    by (auto simp: flush_take_def waiting_lines_def Let_def split: if_splits)
  then have "s \<noteq> service" if "waiting_lines (sc_buffer r) s \<noteq> []" for s using that by auto
  then show ?case using sched_take_none.IH by (auto simp: attended_def in_set_remove1)
next
  case (sched_take r service lines cps s)
  have "awake_soon (update_state service f b) s = awake_soon b s" for f and b :: "'a log_buffer" and s
    by (simp add: awake_soon_def)
  moreover have "bs_lines s = []" using flush_take_Some [OF sched_take.hyps(3)] by simp
  ultimately show ?case using sched_take.IH by (auto simp: attended_def in_set_remove1 split: if_splits)
next
  case (sched_land r fs1 service lines cps fs2 logs res now)
  note a = sched_land.hyps(3)
  note w = flush_land_worker [where append_lines = append_lines, OF a, of cps now]
    and l = flush_land_lines(2) [where append_lines = append_lines, OF a, of cps now]
  show ?case
  proof (rule attendedI)
    fix s
    assume ne: "waiting_lines (sc_buffer (r\<lparr>sc_buffer := flush_land append_lines service lines cps now (sc_buffer r),
        sc_flights := fs1 @ fs2\<rparr>)) s \<noteq> []"
    show "awake_soon (sc_buffer (r\<lparr>sc_buffer := flush_land append_lines service lines cps now (sc_buffer r),
          sc_flights := fs1 @ fs2\<rparr>)) s \<or> s \<in> set (sc_schedules (r\<lparr>sc_buffer := flush_land append_lines service lines cps now (sc_buffer r),
          sc_flights := fs1 @ fs2\<rparr>)) \<or> s \<in> set (sc_takes (r\<lparr>sc_buffer := flush_land append_lines service lines cps now (sc_buffer r),
          sc_flights := fs1 @ fs2\<rparr>))"
    proof (cases "s = service \<and> isl res")
      case True
      then have "sh_worker (handle_of (sc_buffer r) service) \<noteq> None" using sched_land.hyps(4) by blast
      then show ?thesis using True by (auto simp: awake_soon_def w)
    next
      case False
      then have "waiting_lines (sc_buffer r) s \<noteq> []" using ne by (cases res) (auto simp: l split: if_splits)
      moreover have "awake_soon (flush_land append_lines service lines cps now (sc_buffer r)) s = awake_soon (sc_buffer r) s"
        using False by (auto simp: awake_soon_def w)
      ultimately show ?thesis using sched_land.IH by (auto simp: attended_def)
    qed
  qed
qed

text \<open>Every such run is a run of \<open>buffer_reach\<close>.\<close>

lemma schedule_reach_buffer:
  assumes "schedule_reach append_lines h b0 r"
  shows "\<exists>accepted. buffer_reach False append_lines h b0
    \<lparr>br_buffer = sc_buffer r, br_flights = sc_flights r, br_accepted = accepted\<rparr>"
  using assms
proof (induction rule: schedule_reach.induct)
  case sched_start
  from run_start [of False append_lines h b0] show ?case by (auto simp: schedule_from_def run_from_def)
next
  case (sched_drop r line b)
  then show ?case using run_push [where b' = b and backlog = None and line = line] by fastforce
next
  case (sched_push r line b buffered)
  then show ?case using run_push [where b' = b and backlog = "Some buffered" and line = line] by fastforce
next
  case (sched_push_full r line b buffered)
  then show ?case using run_push [where b' = b and backlog = "Some buffered" and line = line] by fastforce
next
  case (sched_schedule r service)
  then show ?case using run_schedule [where service = service] by fastforce
next
  case (sched_receive r service)
  then show ?case using run_worker [where service = service and step = "worker_receive service"] by fastforce
next
  case (sched_wake r service)
  then show ?case using run_worker [where service = service and step = "worker_wake service"] by fastforce
next
  case (sched_idle r service)
  then show ?case using run_worker [where service = service and step = "worker_idle service"] by fastforce
next
  case (sched_take_none r service s)
  then show ?case by simp
next
  case (sched_take r service lines cps s)
  then obtain accepted where "buffer_reach False append_lines h b0
      \<lparr>br_buffer = sc_buffer r, br_flights = sc_flights r, br_accepted = accepted\<rparr>" by blast
  from run_take [OF this, where service = service and lines = lines and cps = cps and s = s] sched_take.hyps(3)
  show ?case by auto
next
  case (sched_land r fs1 service lines cps fs2 logs res now)
  then obtain accepted where "buffer_reach False append_lines h b0
      \<lparr>br_buffer = sc_buffer r, br_flights = sc_flights r, br_accepted = accepted\<rparr>" by blast
  from run_land [OF this, of fs1 service lines cps fs2 now] sched_land.hyps(2)
  show ?case by auto
qed

section \<open>The turn of a worker\<close>

text \<open>
  One turn of the worker's loop with a request in its channel, undisturbed: it receives, sleeps, and
  flushes. A turn without a request does nothing.
\<close>

definition worker_turn :: "'ls append_fn \<Rightarrow> string \<Rightarrow> i64 \<Rightarrow> 'ls log_buffer \<Rightarrow> 'ls log_buffer" where
  "worker_turn append_lines service now b =
     (let b1 = worker_receive service b in
      if sleeps b1 service then flush_service append_lines service now (worker_wake service b1) else b1)"

lemma turn_sleeps: "awake_soon b service \<Longrightarrow> sleeps (worker_receive service b) service"
  by (auto simp: awake_soon_def sleeps_def worker_receive_def update_worker_handle split: option.splits)

lemma waiting_dated:
  assumes "iso_calendar env" "\<forall>xs. mset (iter xs) = mset xs" "store_wf env (lb_logs b0)"
    and "\<And>s. waiting_lines b0 s = []" "schedule_reach (logs_append env iter) h b0 r"
  shows "store_wf env (lb_logs (sc_buffer r)) \<and> (\<forall>l \<in> set (waiting_lines (sc_buffer r) service). dated (ll_ts l))"
proof -
  from schedule_reach_buffer [OF assms(5)] obtain accepted where
    reach: "buffer_reach False (logs_append env iter) h b0
      \<lparr>br_buffer = sc_buffer r, br_flights = sc_flights r, br_accepted = accepted\<rparr>" by blast
  have "iso_calendar env \<and> (\<forall>xs. mset (iter xs) = mset xs) \<and> store_wf env (lb_logs b0)" using assms(1-3) by simp
  note inv = sqlite_logs.reach_run_inv [OF reach this assms(4)]
  obtain S where S: "mset (lines_of_service service accepted)
      = S + mset (waiting_lines (sc_buffer r) service @ flight_lines (sc_flights r) service)"
    using sqlite_logs.run_invD(3) [OF inv, of service] by auto
  have "l \<in> set accepted" if "l \<in> set (waiting_lines (sc_buffer r) service)" for l
  proof -
    have "l \<in># mset (lines_of_service service accepted)" using that by (simp add: S)
    then show ?thesis by (simp add: lines_of_service_def)
  qed
  then show ?thesis using sqlite_logs.run_invD(1,2) [OF inv] by simp
qed

text \<open>A turn takes all that waits; a flush that fails puts it back and leaves a request.\<close>

lemma worker_turn_flush:
  assumes "awake_soon b service" "waiting_lines b service \<noteq> []"
    and a: "append_lines service (waiting_lines b service) (lb_logs b) = (logs, Some res)"
  shows "lb_logs (worker_turn append_lines service now b) = logs"
    "waiting_lines (worker_turn append_lines service now b) service = (if isl res then waiting_lines b service else [])"
    "isl res \<Longrightarrow> awake_soon (worker_turn append_lines service now b) service"
proof -
  let ?b = "worker_wake service (worker_receive service b)"
  have same: "waiting_lines ?b = waiting_lines b" "lb_logs ?b = lb_logs b"
    using same_lines_step [of "worker_receive service" service b]
      same_lines_step [of "worker_wake service" service "worker_receive service b"] by (auto simp: same_lines_def)
  have worker: "sh_worker (handle_of ?b service) \<noteq> None"
    using assms(1) by (auto simp: awake_soon_def worker_wake_def worker_receive_def update_worker_handle split: option.splits)
  obtain lines cps s where take: "flush_take (sh_state (handle_of ?b service)) = (Some (lines, cps), s)"
    using assms(2) same(1) by (auto simp: flush_take_def waiting_lines_def Let_def fun_eq_iff)
  have lines: "lines = waiting_lines b service" "bs_lines s = []"
    using flush_take_Some(1,2) [OF take] same(1) by (simp_all add: waiting_lines_def fun_eq_iff)
  let ?c = "update_state service (\<lambda>_. s) ?b"
  have turn: "worker_turn append_lines service now b = flush_land append_lines service lines cps now ?c"
    using turn_sleeps [OF assms(1)] by (simp add: worker_turn_def Let_def flush_service_def take)
  have a': "append_lines service lines (lb_logs ?c) = (logs, Some res)" using a by (simp add: lines(1) same(2))
  note land = flush_land_lines [where append_lines = append_lines, OF a', of cps now]
  show "lb_logs (worker_turn append_lines service now b) = logs" by (simp add: turn land(1))
  show "waiting_lines (worker_turn append_lines service now b) service = (if isl res then waiting_lines b service else [])"
    by (cases res; simp add: turn land(2); simp add: lines)
  show "awake_soon (worker_turn append_lines service now b) service" if "isl res"
    using that worker flush_land_worker [where append_lines = append_lines, OF a', of cps now service]
    by (auto simp: turn awake_soon_def)
qed


text \<open>A line is pushed, its flush is scheduled, and the worker takes a turn.\<close>

definition scheduled_run :: "log_store schedule_run" where
  "scheduled_run = (schedule_from small_buffer)\<lparr>sc_buffer :=
     schedule_flush ''web'' (fst (push_locked (\<lambda>_ _. 0) (hello_line 7000) small_buffer))\<rparr>"

lemma scheduled_run_reach: "schedule_reach append_lines (\<lambda>_ _. 0) small_buffer scheduled_run"
proof -
  let ?b = "fst (push_locked (\<lambda>_ _. 0) (hello_line 7000) small_buffer)"
  have p: "push_locked (\<lambda>_ _. 0) (hello_line 7000) (sc_buffer (schedule_from small_buffer)) = (?b, Some 1)"
    by (simp add: schedule_from_def small_buffer_simps)
  have "schedule_reach append_lines (\<lambda>_ _. 0) small_buffer
      ((schedule_from small_buffer)\<lparr>sc_buffer := ?b, sc_schedules := [''web'']\<rparr>)"
    using sched_push [OF sched_start _ p, of append_lines]
    by (simp add: schedule_from_def small_buffer_simps dated_def)
  from sched_schedule [OF this, of "''web''"] show ?thesis by (simp add: scheduled_run_def schedule_from_def)
qed


end
