(* ===== verification/Log_Pipeline.thy ===== *)
theory Log_Pipeline
  imports Docker_Control
begin

text \<open>
  The way of a log line from a container into the store, across crashes. The theory composes the log
  tasks and the log channel of \<open>Docker_Control\<close>, the buffer and its flushes of \<open>Log_Buffer\<close>, the
  clean-up of \<open>Retention\<close> and what a start reads back from the two databases, and shows that no line
  that a task has read is lost and that a checkpoint never passes a line that is not stored.
\<close>

section \<open>What a clean-up keeps in the log store\<close>

definition unexpired_kept :: "log_env \<Rightarrow> i64 \<Rightarrow> log_store \<Rightarrow> log_store \<Rightarrow> bool" where
  "unexpired_kept env cutoff st st' \<longleftrightarrow> (\<forall>dir. \<exists>P. files_of st' dir = filter P (files_of st dir) \<and>
     (\<forall>p. \<not> expired_file env cutoff (fst p) \<longrightarrow> P p))"

lemma unexpired_kept_same: "files_of st' = files_of st \<Longrightarrow> unexpired_kept env cutoff st st'"
  unfolding unexpired_kept_def by (intro allI exI [of _ "\<lambda>_. True"]) simp

lemma unexpired_kept_trans:
  assumes "unexpired_kept env cutoff st st1" "unexpired_kept env cutoff st1 st2"
  shows "unexpired_kept env cutoff st st2"
  unfolding unexpired_kept_def
proof
  fix dir
  obtain P Q where "files_of st1 dir = filter P (files_of st dir)" "files_of st2 dir = filter Q (files_of st1 dir)"
    "\<forall>p. \<not> expired_file env cutoff (fst p) \<longrightarrow> P p" "\<forall>p. \<not> expired_file env cutoff (fst p) \<longrightarrow> Q p"
    using assms unfolding unexpired_kept_def by meson
  then show "\<exists>P. files_of st2 dir = filter P (files_of st dir) \<and> (\<forall>p. \<not> expired_file env cutoff (fst p) \<longrightarrow> P p)"
    by (intro exI [of _ "\<lambda>p. Q p \<and> P p"]) (simp add: conj_commute)
qed

lemma unexpired_kept_remove:
  assumes "expired_file env cutoff name"
  shows "unexpired_kept env cutoff st (remove_file (dir, name) st)"
  unfolding unexpired_kept_def
proof
  fix d
  have "hm_remove name fs = filter (\<lambda>p. fst p \<noteq> name) fs" for fs :: week_files
    unfolding hm_remove_def AList.delete_eq by (intro filter_cong) auto
  then show "\<exists>P. files_of (remove_file (dir, name) st) d = filter P (files_of st d) \<and>
      (\<forall>p. \<not> expired_file env cutoff (fst p) \<longrightarrow> P p)"
    using assms by (intro exI [of _ "\<lambda>p. d = dir \<longrightarrow> fst p \<noteq> name"]) auto
qed

lemma delete_files_keeps:
  "delete_files env cutoff dir names removed st = (st', res) \<Longrightarrow> unexpired_kept env cutoff st st'"
proof (induction names arbitrary: removed st)
  case Nil
  then show ?case by (simp add: unexpired_kept_same)
next
  case (Cons name names)
  show ?case
  proof (cases "expired_file env cutoff name")
    case False
    then show ?thesis using Cons by simp
  next
    case True
    let ?st1 = "evict (dir, name) (lock_path (dir, name) st)"
    have other: "files_of (forget_path p s) = files_of s" "files_of (evict p s) = files_of s"
      "files_of (lock_path p s) = files_of s" for p s
      by (simp_all add: forget_path_def evict_def lock_path_def files_of_def fun_eq_iff)
    obtain f st2 where n: "ls_next ?st1 = (f, st2)" by fastforce
    have k: "unexpired_kept env cutoff st st2"
      using ls_next_files [OF n] by (simp add: unexpired_kept_same other)
    show ?thesis
    proof (cases f)
      case (Some m)
      then show ?thesis using Cons.prems True n k by (simp add: Let_def)
    next
      case None
      note unexpired_kept_trans [OF k unexpired_kept_remove [OF True, of st2 dir]]
      moreover have "unexpired_kept env cutoff (remove_file (dir, name) st2)
          (forget_path (dir, name) (remove_file (dir, name) st2))"
        by (simp add: unexpired_kept_same other)
      ultimately have "unexpired_kept env cutoff st (forget_path (dir, name) (remove_file (dir, name) st2))"
        by (rule unexpired_kept_trans)
      moreover have "unexpired_kept env cutoff (forget_path (dir, name) (remove_file (dir, name) st2)) st'"
        using Cons.IH [of "removed @ [dir @ ''/'' @ name]"] Cons.prems True n None by (simp add: Let_def)
      ultimately show ?thesis by (rule unexpired_kept_trans)
    qed
  qed
qed

lemma delete_dirs_keeps:
  "delete_dirs env cutoff dirs removed st = (st', res) \<Longrightarrow> unexpired_kept env cutoff st st'"
proof (induction dirs arbitrary: removed st)
  case Nil
  then show ?case by (simp add: unexpired_kept_same)
next
  case (Cons dir dirs)
  obtain f st1 where n: "ls_next st = (f, st1)" by fastforce
  have k1: "unexpired_kept env cutoff st st1" using ls_next_files [OF n] by (rule unexpired_kept_same)
  show ?case
  proof (cases f)
    case (Some m)
    then show ?thesis using Cons.prems n k1 by simp
  next
    case None
    obtain st2 r2 where d: "delete_files env cutoff dir (map fst (files_of st1 dir)) removed st1 = (st2, r2)"
      by fastforce
    note k2 = unexpired_kept_trans [OF k1 delete_files_keeps [OF d]]
    show ?thesis
    proof (cases r2)
      case (Inl e)
      then show ?thesis using Cons.prems n None d k2 by simp
    next
      case (Inr removed2)
      have "delete_dirs env cutoff dirs removed2 st2 = (st', res)" using Cons.prems n None d Inr by simp
      from unexpired_kept_trans [OF k2 Cons.IH [OF this]] show ?thesis .
    qed
  qed
qed

lemma logs_delete_before_keeps:
  assumes "logs_delete_before env cutoff st = (st', res)"
  shows "unexpired_kept env cutoff st st'"
proof -
  obtain f st1 where n: "ls_next st = (f, st1)" by fastforce
  have k1: "unexpired_kept env cutoff st st1" using ls_next_files [OF n] by (rule unexpired_kept_same)
  obtain st2 r2 where d: "delete_dirs env cutoff (service_dirs st1) [] st1 = (st2, r2)" by fastforce
  from unexpired_kept_trans [OF k1 delete_dirs_keeps [OF d]] k1 n d assms show ?thesis
    by (cases r2; cases f) (auto simp: logs_delete_before_def)
qed

text \<open>A file that is deleted holds only lines from before the cutoff, which is a Monday.\<close>

lemma unexpired_lines_kept:
  assumes "unexpired_kept env cutoff st st'" "iso_calendar env" "store_wf env st"
    and "cutoff mod week_ms = 345600000" "l \<in># log_content env st service" "cutoff \<le> ll_ts l"
  shows "l \<in># log_content env st' service"
proof -
  obtain e where e: "e \<in> set (service_log env st service)" "sl_line e = l"
    using assms(5) by (auto simp: log_content_def)
  then obtain week rows where w: "(week, rows) \<in> set (files_of st (safe_service_path service))"
    "e \<in> set (week_entries env service (week, rows))" by (auto simp: service_log_def)
  then obtain start where start: "week_start_ms env week = Some start"
    by (cases "week_start_ms env week") (auto simp: week_entries_def)
  then obtain r where r: "r \<in> set rows" "decode_row service week start r = Some e"
    using w(2) by (auto simp: week_entries_def List.map_filter_def split: if_splits)
  have wf: "(\<exists>ts. dated ts \<and> week_name env ts = Some week) \<and> wf_week start rows"
    using assms(3) w(1) start by (fastforce simp: store_wf_def files_wf_def)
  then obtain ts where ts: "dated ts" "week_name env ts = Some week" by blast
  from week_name_start [OF assms(2) this] start have monday: "start mod week_ms = 345600000"
    and near: "start \<le> ts" "ts < start + week_ms" by auto
  have rel: "0 \<le> lr_ts_rel r" "lr_ts_rel r < week_ms" using wf r(1) by (auto simp: wf_week_def)
  have "in_i64 (lr_ts_rel r + start)"
    using rel near ts(1) by (intro in_i64I) (simp_all add: week_ms_def dated_def)
  then have "ll_ts l < start + week_ms"
    using r e(2) rel(2) by (auto simp: decode_row_def i64_wrap_id Let_def split: option.splits)
  then have "cutoff < start + week_ms" using assms(6) by simp
  moreover have "(cutoff - start) mod week_ms = 0"
    using monday assms(4) by (metis mod_diff_eq diff_self mod_0)
  then obtain k where "cutoff - start = week_ms * k" by (auto simp: mod_eq_0_iff_dvd elim: dvdE)
  ultimately have "k < 1" "cutoff = start + week_ms * k" by (auto simp: week_ms_def)
  then have "\<not> start < cutoff" by (simp add: week_ms_def)
  then have "\<not> expired_file env cutoff week" using expired_iff [OF start] by simp
  moreover obtain P where "files_of st' (safe_service_path service) = filter P (files_of st (safe_service_path service))"
    "\<forall>p. \<not> expired_file env cutoff (fst p) \<longrightarrow> P p" using assms(1) unfolding unexpired_kept_def by meson
  ultimately have "(week, rows) \<in> set (files_of st' (safe_service_path service))" using w(1) by simp
  with w(2) have "e \<in> set (service_log env st' service)" by (auto simp: service_log_def)
  with e(2) show ?thesis by (auto simp: log_content_def)
qed

lemma unexpired_store_wf:
  assumes "unexpired_kept env cutoff st st'" "store_wf env st"
  shows "store_wf env st'"
  unfolding store_wf_def
proof
  fix dir
  obtain P where "files_of st' dir = filter P (files_of st dir)" using assms(1) unfolding unexpired_kept_def by meson
  then show "files_wf env (files_of st' dir)" using assms(2) by (fastforce simp: store_wf_def files_wf_def)
qed

section \<open>The pipeline\<close>

text \<open>
  A state of the program as far as the logs are concerned: the Docker service with its channel, the
  buffer with the two databases under it, the flushes in flight, and for each running log task how
  many lines of the container's log it has read. What a container has written and will write is its
  history; Docker delivers the part of it from a second on.
\<close>

record log_pipeline =
  pl_docker :: docker_service
  pl_buffer :: "log_store log_buffer"
  pl_flights :: "(string \<times> log_line list \<times> line_checkpoint list) list"
  pl_read :: "container_id \<Rightarrow> nat option"

definition pipeline_start ::
  "controls_mode \<Rightarrow> nat \<Rightarrow> nat \<Rightarrow> u32 \<Rightarrow> log_store log_buffer \<Rightarrow> log_pipeline" where
  "pipeline_start mode log_capacity events_capacity weeks b =
     \<lparr>pl_docker = docker_service_new mode log_capacity events_capacity (lb_meta b) weeks,
      pl_buffer = b, pl_flights = [], pl_read = Map.empty\<rparr>"

definition skipped_before :: "int \<Rightarrow> log_line list \<Rightarrow> nat" where
  "skipped_before since lines = length (takeWhile (\<lambda>l. ll_ts l < since * 1000) lines)"

definition task_reads ::
  "(container_id \<Rightarrow> log_line list) \<Rightarrow> container_id \<Rightarrow> log_task_start
     \<Rightarrow> (container_id \<Rightarrow> nat option) \<Rightarrow> container_id \<Rightarrow> nat option" where
  "task_reads history cid start read = read(cid := (case start of
     TaskFollows since \<Rightarrow> Some (skipped_before since (history cid)) | _ \<Rightarrow> None))"

text \<open>The databases as a clean-up sees them, next to some metrics store.\<close>

definition retained :: "metrics_store \<Rightarrow> log_store log_buffer \<Rightarrow> retention_state" where
  "retained metrics b = \<lparr>rt_metrics = metrics, rt_logs = lb_logs b, rt_registry = fst (lb_meta b),
     rt_meta = snd (lb_meta b)\<rparr>"

text \<open>
  The steps: log tasks start, read a line into the channel and end; the ingestion takes a line out of
  the channel and buffers it; workers and flushes work as in \<open>buffer_reach\<close>, a service having at most
  one flush in flight; a clean-up runs; and at any moment the program dies and starts again from what
  the two databases hold. The cutoffs of all clean-ups and task starts stay at or before \<open>horizon\<close>.
  A crash inside a flush is a flush whose later statements fail, followed by a crash.
\<close>

inductive pipeline_reach ::
  "log_env \<Rightarrow> ((string \<times> log_line list) list \<Rightarrow> (string \<times> log_line list) list) \<Rightarrow> line_hash \<Rightarrow> (container_id \<Rightarrow> string)
     \<Rightarrow> (container_id \<Rightarrow> log_line list) \<Rightarrow> i64 \<Rightarrow> log_pipeline \<Rightarrow> log_pipeline \<Rightarrow> bool"
  for env iter h service_of history horizon st0 where
  pipe_start: "pipeline_reach env iter h service_of history horizon st0 st0"
| pipe_task: "pipeline_reach env iter h service_of history horizon st0 st \<Longrightarrow>
    oc_service c = service_of (oc_id c) \<Longrightarrow>
    (\<And>cutoff. retention_cutoff_ms now_s (dk_weeks (pl_docker st)) = Some cutoff \<Longrightarrow> cutoff \<le> horizon) \<Longrightarrow>
    container_log_start c now_ms now_s ((pl_docker st)\<lparr>dk_meta := lb_meta (pl_buffer st)\<rparr>) = (sv, start) \<Longrightarrow>
    pipeline_reach env iter h service_of history horizon st0
      (st\<lparr>pl_docker := sv, pl_buffer := (pl_buffer st)\<lparr>lb_meta := dk_meta sv\<rparr>,
        pl_read := task_reads history (oc_id c) start (pl_read st)\<rparr>)"
| pipe_task_ends: "pipeline_reach env iter h service_of history horizon st0 st \<Longrightarrow>
    pipeline_reach env iter h service_of history horizon st0 (st\<lparr>pl_read := (pl_read st)(cid := None)\<rparr>)"
| pipe_send: "pipeline_reach env iter h service_of history horizon st0 st \<Longrightarrow>
    pl_read st cid = Some p \<Longrightarrow> p < length (history cid) \<Longrightarrow>
    send_log_line (history cid ! p) (pl_docker st) = SendDone sv \<Longrightarrow>
    pipeline_reach env iter h service_of history horizon st0
      (st\<lparr>pl_docker := sv, pl_read := (pl_read st)(cid \<mapsto> Suc p)\<rparr>)"
| pipe_receive: "pipeline_reach env iter h service_of history horizon st0 st \<Longrightarrow>
    receive_log_line (pl_docker st) = Some (line, sv) \<Longrightarrow>
    push_locked h line (pl_buffer st) = (b, backlog) \<Longrightarrow>
    pipeline_reach env iter h service_of history horizon st0 (st\<lparr>pl_docker := sv, pl_buffer := b\<rparr>)"
| pipe_worker: "pipeline_reach env iter h service_of history horizon st0 st \<Longrightarrow>
    step \<in> {schedule_flush service, worker_receive service, worker_wake service, worker_idle service} \<Longrightarrow>
    pipeline_reach env iter h service_of history horizon st0 (st\<lparr>pl_buffer := step (pl_buffer st)\<rparr>)"
| pipe_take: "pipeline_reach env iter h service_of history horizon st0 st \<Longrightarrow>
    service \<notin> fst ` set (pl_flights st) \<Longrightarrow>
    flush_take (sh_state (handle_of (pl_buffer st) service)) = (Some (lines, cps), s) \<Longrightarrow>
    pipeline_reach env iter h service_of history horizon st0
      (st\<lparr>pl_buffer := update_state service (\<lambda>_. s) (pl_buffer st),
        pl_flights := pl_flights st @ [(service, lines, cps)]\<rparr>)"
| pipe_land: "pipeline_reach env iter h service_of history horizon st0 st \<Longrightarrow>
    pl_flights st = fs1 @ (service, lines, cps) # fs2 \<Longrightarrow>
    pipeline_reach env iter h service_of history horizon st0
      (st\<lparr>pl_buffer := flush_land (logs_append env iter) service lines cps now (pl_buffer st),
        pl_flights := fs1 @ fs2\<rparr>)"
| pipe_cleanup: "pipeline_reach env iter h service_of history horizon st0 st \<Longrightarrow>
    (\<And>cutoff. retention_cutoff_ms now_s weeks = Some cutoff \<Longrightarrow> cutoff \<le> horizon) \<Longrightarrow> now_s < 253402300800 \<Longrightarrow>
    cleanup_once env now_s weeks (retained metrics (pl_buffer st)) = Some rt \<Longrightarrow>
    pipeline_reach env iter h service_of history horizon st0
      (st\<lparr>pl_buffer := (pl_buffer st)\<lparr>lb_logs := rt_logs rt, lb_meta := (rt_registry rt, rt_meta rt)\<rparr>\<rparr>)"
| pipe_crash: "pipeline_reach env iter h service_of history horizon st0 st \<Longrightarrow>
    registry_load sqlite_ops (snd (lb_meta (pl_buffer st))) = (db, Inr rg) \<Longrightarrow>
    log_buffer_new ((log_store_new keep_alive)\<lparr>ls_dirs := ls_dirs (lb_logs (pl_buffer st)), ls_faults := faults\<rparr>)
      (rg, db) flush_watcher_new max_lines = (db', Inr b) \<Longrightarrow>
    pipeline_reach env iter h service_of history horizon st0
      (pipeline_start mode log_capacity events_capacity weeks b)"

text \<open>
  What is assumed of the containers' logs: each line carries its container and the container's
  service, the time stamps do not decrease and lie where weeks have names, and two different lines
  of a container with the same time stamp have different hashes.
\<close>

definition line_mark :: "line_hash \<Rightarrow> log_line \<Rightarrow> i64 \<times> u64" where
  "line_mark h l = (ll_ts l, hash_line h l)"

definition log_history_ok ::
  "log_env \<Rightarrow> line_hash \<Rightarrow> (container_id \<Rightarrow> string) \<Rightarrow> (container_id \<Rightarrow> log_line list) \<Rightarrow> bool" where
  "log_history_ok env h service_of history \<longleftrightarrow> (\<forall>cid.
     sorted (map ll_ts (history cid)) \<and> inj_on (line_mark h) (set (history cid)) \<and>
     (\<forall>l \<in> set (history cid). ll_cid l = cid \<and> ll_service l = service_of cid \<and> dated (ll_ts l) \<and>
        week_name env (ll_ts l) \<noteq> None))"

section \<open>The marks of the metadata store\<close>

text \<open>The checkpoints that are stored, as what the buffer compares lines with.\<close>

definition stored_marks :: "metadata_db \<Rightarrow> line_checkpoint set" where
  "stored_marks db = {(cid, kr_ts r, decode_hash (kr_line_hash r)) | cid r.
     r \<in> set (md_checkpoints db) \<and> from_bytes (kr_cid r) = Some cid}"

lemma stored_marks_cong: "md_checkpoints db' = md_checkpoints db \<Longrightarrow> stored_marks db' = stored_marks db"
  by (simp add: stored_marks_def)

lemma stored_marks_mono: "set (md_checkpoints db') \<subseteq> set (md_checkpoints db) \<Longrightarrow> stored_marks db' \<subseteq> stored_marks db"
  unfolding stored_marks_def by blast

lemma id_of_marks:
  assumes "id_of sqlite_ops meta service now = (meta', res)"
  shows "stored_marks (snd meta') = stored_marks (snd meta)"
proof -
  have resolve: "md_checkpoints db' = md_checkpoints db" if "resolve_service db n t = (db', r)" for db n t db' r
    using that by (auto simp: resolve_service_def Let_def dest!: md_next_tables split: prod.splits option.splits)
  have touch: "md_checkpoints db' = md_checkpoints db" if "touch_service db n t = (db', r)" for db n t db' r
    using that by (auto simp: touch_service_def dest!: md_next_tables split: prod.splits option.splits)
  have "md_checkpoints (snd meta') = md_checkpoints (snd meta)"
    using assms by (auto simp: id_of_def registry_touch_def sqlite_ops_def Let_def dest: resolve touch
        split: prod.splits sum.splits option.splits if_splits)
  then show ?thesis by (rule stored_marks_cong)
qed

lemma advance_marks:
  "stored_marks (fst (advance_log_checkpoint db sid cid \<lparr>lc_ts = ts, lc_line_hash = x\<rparr>))
    \<subseteq> insert (cid, ts, x) (stored_marks db)"
proof -
  let ?db = "fst (advance_log_checkpoint db sid cid \<lparr>lc_ts = ts, lc_line_hash = x\<rparr>)"
  obtain f db1 where nx: "md_next db = (f, db1)" by fastforce
  then have t: "md_checkpoints db1 = md_checkpoints db" using md_next_tables by blast
  have "r \<in> set (md_checkpoints db) \<or>
      kr_cid r = as_bytes cid \<and> kr_ts r = ts \<and> kr_line_hash r = encode_hash x"
    if "r \<in> set (md_checkpoints ?db)" for r
    using that nx t by (cases f) (auto simp: advance_log_checkpoint_def Let_def checkpoint_key_def split: if_splits)
  then show ?thesis unfolding stored_marks_def by fastforce
qed

lemma advance_all_marks: "stored_marks (advance_checkpoints sid cps db) \<subseteq> stored_marks db \<union> set cps"
proof (induction sid cps db rule: advance_checkpoints.induct)
  case (2 sid cid ts x cps db)
  then show ?case using advance_marks [of db sid cid ts x] by auto
qed simp

lemma loaded_mark:
  assumes "load_log_checkpoint db sid cid = (db', Inr (Some cp))"
  shows "(cid, lc_ts cp, lc_line_hash cp) \<in> stored_marks db"
proof -
  have "r \<in> set rs \<and> P r" if "find P rs = Some r" for P r and rs :: "checkpoint_row list"
    using that by (induction rs) (auto split: if_splits)
  note found = this
  obtain r where "find (\<lambda>r. checkpoint_key r = (sid_int sid, as_bytes cid)) (md_checkpoints db) = Some r"
    "row_checkpoint r = cp"
    using assms by (auto simp: load_log_checkpoint_def dest!: md_next_tables split: prod.splits option.splits)
  with found [OF this(1)] show ?thesis
    unfolding stored_marks_def by (auto simp: checkpoint_key_def row_checkpoint_def intro!: exI [of _ r])
qed

lemma load_checkpoint_marks:
  "load_log_checkpoint db sid cid = (db', res) \<Longrightarrow> stored_marks db' = stored_marks db"
  by (rule stored_marks_cong) (auto simp: load_log_checkpoint_def dest!: md_next_tables split: prod.splits option.splits)

lemma registry_load_marks:
  assumes "registry_load sqlite_ops db = (db', res)"
  shows "stored_marks db' = stored_marks db"
  using assms by (intro stored_marks_cong) (auto simp: registry_load_def sqlite_ops_def list_services_def
      dest!: md_next_tables split: prod.splits option.splits sum.splits)

section \<open>What a start reads back\<close>

definition seeded :: "line_checkpoint set \<Rightarrow> buffer_state \<Rightarrow> bool" where
  "seeded M s \<longleftrightarrow> bs_lines s = [] \<and> (\<forall>cid m. hm_get (bs_checkpoints s) cid = Some m \<longrightarrow> (cid, m) \<in> M)"

lemma seeded_empty [simp]: "seeded M empty_state"
  by (simp add: seeded_def empty_state_def)

lemma hm_insert_values: "p \<in> set (hm_insert k v m) \<Longrightarrow> p = (k, v) \<or> p \<in> set m"
  by (induction m) (auto simp: hm_insert_def split: if_splits)

lemma seed_checkpoints_seeded:
  assumes "\<forall>en \<in> set entries. (le_cid en, lc_ts (le_checkpoint en), lc_line_hash (le_checkpoint en)) \<in> M"
  shows "\<forall>(service, s) \<in> set (seed_checkpoints rg entries). seeded M s"
  using assms
proof (induction entries rule: rev_induct)
  case (snoc en entries)
  let ?m = "seed_checkpoints rg entries"
  have IH: "\<forall>(service, s) \<in> set ?m. seeded M s" using snoc by simp
  show ?case
  proof (cases "registry_name rg (le_sid en)")
    case None
    then show ?thesis using IH by (simp add: seed_checkpoints_def)
  next
    case (Some service)
    let ?old = "case map_of ?m service of None \<Rightarrow> empty_state | Some s \<Rightarrow> s"
    have old: "seeded M ?old"
      using IH by (auto split: option.split dest: map_of_SomeD)
    have m: "seed_checkpoints rg (entries @ [en]) = hm_insert service (?old\<lparr>bs_checkpoints :=
        hm_insert (le_cid en) (lc_ts (le_checkpoint en), lc_line_hash (le_checkpoint en)) (bs_checkpoints ?old)\<rparr>) ?m"
      using Some by (simp add: seed_checkpoints_def hm_entry_def)
    have "seeded M (?old\<lparr>bs_checkpoints :=
        hm_insert (le_cid en) (lc_ts (le_checkpoint en), lc_line_hash (le_checkpoint en)) (bs_checkpoints ?old)\<rparr>)"
      using old snoc.prems by (simp add: seeded_def)
    then show ?thesis unfolding m using IH by (fastforce dest!: hm_insert_values)
  qed
qed (simp add: seed_checkpoints_def)

lemma log_buffer_new_seeded:
  assumes "log_buffer_new logs (rg, db) watcher max_lines = (db', Inr b)"
  shows "waiting_lines b s = []" "checkpoint_at b s cid = Some m \<Longrightarrow> (cid, m) \<in> stored_marks db"
    "lb_logs b = logs" "stored_marks (snd (lb_meta b)) = stored_marks db" "lb_meta b = (rg, db')"
proof -
  obtain entries where l: "list_log_checkpoints db = (db', Inr entries)"
    and b: "b = foldl (\<lambda>b (service, s). seed_service service s b)
       \<lparr>lb_services = [], lb_logs = logs, lb_meta = (rg, db'), lb_watcher = watcher, lb_max_lines = max_lines\<rparr>
       (seed_checkpoints rg entries)"
    using assms by (auto simp: log_buffer_new_def split: prod.splits sum.splits)
  have rows: "md_checkpoints db' = md_checkpoints db"
    using l by (auto simp: list_log_checkpoints_def dest!: md_next_tables split: prod.splits option.splits)
  have "\<forall>en \<in> set entries. (le_cid en, lc_ts (le_checkpoint en), lc_line_hash (le_checkpoint en)) \<in> stored_marks db"
    using l by (fastforce simp: list_log_checkpoints_def List.map_filter_def stored_marks_def row_checkpoint_def
        dest!: md_next_tables split: prod.splits option.splits sum.splits)
  note seeds = seed_checkpoints_seeded [OF this, of rg]
  have "(\<forall>(service, hd) \<in> set (lb_services (foldl (\<lambda>b (service, s). seed_service service s b) b0 m)). seeded M (sh_state hd)) \<and>
      lb_logs (foldl (\<lambda>b (service, s). seed_service service s b) b0 m) = lb_logs b0 \<and>
      lb_meta (foldl (\<lambda>b (service, s). seed_service service s b) b0 m) = lb_meta b0"
    if "\<forall>(service, s) \<in> set m. seeded M s" "\<forall>(service, hd) \<in> set (lb_services b0). seeded M (sh_state hd)"
    for M m and b0 :: "'a log_buffer"
    using that
  proof (induction m arbitrary: b0)
    case (Cons p m)
    obtain service s where p: "p = (service, s)" by (cases p)
    have "\<forall>(t, hd) \<in> set (lb_services (seed_service service s b0)). seeded M (sh_state hd)"
      using Cons.prems by (fastforce simp: p seed_service_def dest!: hm_insert_values)
    with Cons.IH [of "seed_service service s b0"] Cons.prems show ?case
      by (simp add: p) (simp add: seed_service_def)
  qed simp
  from this [OF seeds, of "\<lparr>lb_services = [], lb_logs = logs, lb_meta = (rg, db'), lb_watcher = watcher, lb_max_lines = max_lines\<rparr>"]
  have all: "\<forall>(service, hd) \<in> set (lb_services b). seeded (stored_marks db) (sh_state hd)"
    "lb_logs b = logs" "lb_meta b = (rg, db')" by (simp_all add: b)
  have one: "seeded (stored_marks db) (sh_state (handle_of b s))" for s
    using all(1) by (auto simp: handle_of_def split: option.split dest: map_of_SomeD)
  show "waiting_lines b s = []" using one by (simp add: waiting_lines_def seeded_def)
  show "(cid, m) \<in> stored_marks db" if "checkpoint_at b s cid = Some m"
    using one [of s] that by (cases m) (simp add: checkpoint_at_def seeded_def)
  show "lb_logs b = logs" "stored_marks (snd (lb_meta b)) = stored_marks db" "lb_meta b = (rg, db')"
    using all stored_marks_cong [OF rows] by simp_all
qed

section \<open>The invariant\<close>

text \<open>A line is safe when it is stored, in a flush, or waits in the buffer.\<close>

definition in_store :: "log_env \<Rightarrow> log_store \<Rightarrow> string \<Rightarrow> log_line \<Rightarrow> bool" where
  "in_store env logs s l \<longleftrightarrow> as_stored s l \<in># log_content env logs s"

definition safe_line :: "log_env \<Rightarrow> log_pipeline \<Rightarrow> string \<Rightarrow> log_line \<Rightarrow> bool" where
  "safe_line env st s l \<longleftrightarrow> in_store env (lb_logs (pl_buffer st)) s l \<or>
     l \<in> set (flight_lines (pl_flights st) s @ waiting_lines (pl_buffer st) s)"

text \<open>
  A mark covers a container's log when it is the mark of a line of it and every line before it has
  the property; only lines from the horizon on are looked at.
\<close>

definition covered ::
  "line_hash \<Rightarrow> i64 \<Rightarrow> (log_line \<Rightarrow> bool) \<Rightarrow> log_line list \<Rightarrow> i64 \<times> u64 \<Rightarrow> bool" where
  "covered h horizon S lines m \<longleftrightarrow>
     (\<exists>l \<in> set lines. line_mark h l = m \<and> (horizon \<le> ll_ts l \<longrightarrow> S l)) \<and>
     (\<forall>l \<in> set lines. horizon \<le> ll_ts l \<longrightarrow> ll_ts l < fst m \<longrightarrow> S l)"

lemma covered_mono:
  assumes "covered h horizon S lines m" "\<And>l. l \<in> set lines \<Longrightarrow> horizon \<le> ll_ts l \<Longrightarrow> S l \<Longrightarrow> S' l"
  shows "covered h horizon S' lines m"
  using assms unfolding covered_def by blast

text \<open>The lines of the flushes and of the buffer, the marks of the buffer and of the flushes.\<close>

definition pending :: "(string \<times> log_line list \<times> line_checkpoint list) list \<Rightarrow> (string \<Rightarrow> log_line list)
    \<Rightarrow> string \<Rightarrow> container_id \<Rightarrow> log_line list" where
  "pending fs W s cid = filter (\<lambda>l. ll_cid l = cid) (flight_lines fs s @ W s)"

definition buffer_part ::
  "line_hash \<Rightarrow> (container_id \<Rightarrow> string) \<Rightarrow> (container_id \<Rightarrow> log_line list)
     \<Rightarrow> (string \<times> log_line list \<times> line_checkpoint list) list \<Rightarrow> (string \<Rightarrow> log_line list)
     \<Rightarrow> (string \<Rightarrow> container_id \<Rightarrow> (i64 \<times> u64) option) \<Rightarrow> bool" where
  "buffer_part h service_of history fs W C \<longleftrightarrow>
     distinct (map fst fs) \<and>
     (\<forall>s. \<forall>l \<in> set (flight_lines fs s @ W s). s = service_of (ll_cid l) \<and> l \<in> set (history (ll_cid l))) \<and>
     (\<forall>s cid. pending fs W s cid \<noteq> [] \<longrightarrow> C s cid = Some (line_mark h (last (pending fs W s cid)))) \<and>
     (\<forall>(s, lines, cps) \<in> set fs. \<forall>(cid, ts, x) \<in> set cps.
        (\<exists>l \<in> set lines. ll_cid l = cid \<and> line_mark h l = (ts, x)) \<and>
        (\<exists>ts' x'. C s cid = Some (ts', x') \<and> ts \<le> ts') \<and>
        (\<forall>l \<in> set (W s). ll_cid l = cid \<longrightarrow> ts \<le> ll_ts l))"

lemma buffer_partD:
  assumes "buffer_part h service_of history fs W C"
  shows "distinct (map fst fs)"
    "l \<in> set (flight_lines fs s) \<or> l \<in> set (W s) \<Longrightarrow> s = service_of (ll_cid l) \<and> l \<in> set (history (ll_cid l))"
    "pending fs W s cid \<noteq> [] \<Longrightarrow> C s cid = Some (line_mark h (last (pending fs W s cid)))"
    "(s, lines, cps) \<in> set fs \<Longrightarrow> (cid, ts, x) \<in> set cps \<Longrightarrow>
      (\<exists>l \<in> set lines. ll_cid l = cid \<and> line_mark h l = (ts, x)) \<and>
      (\<exists>ts' x'. C s cid = Some (ts', x') \<and> ts \<le> ts') \<and> (\<forall>l \<in> set (W s). ll_cid l = cid \<longrightarrow> ts \<le> ll_ts l)"
  using assms unfolding buffer_part_def by (simp, force, simp, fast)

lemma buffer_partI:
  assumes "distinct (map fst fs)"
    and "\<And>s l. l \<in> set (flight_lines fs s) \<or> l \<in> set (W s) \<Longrightarrow> s = service_of (ll_cid l) \<and> l \<in> set (history (ll_cid l))"
    and "\<And>s cid. pending fs W s cid \<noteq> [] \<Longrightarrow> C s cid = Some (line_mark h (last (pending fs W s cid)))"
    and "\<And>s lines cps cid ts x. (s, lines, cps) \<in> set fs \<Longrightarrow> (cid, ts, x) \<in> set cps \<Longrightarrow>
      (\<exists>l \<in> set lines. ll_cid l = cid \<and> line_mark h l = (ts, x)) \<and>
      (\<exists>ts' x'. C s cid = Some (ts', x') \<and> ts \<le> ts') \<and> (\<forall>l \<in> set (W s). ll_cid l = cid \<longrightarrow> ts \<le> ll_ts l)"
  shows "buffer_part h service_of history fs W C"
  unfolding buffer_part_def using assms by (intro conjI) (simp, force, simp, fast)

text \<open>What the tasks have read is safe or in the channel; the channel is in order.\<close>

definition task_part ::
  "(container_id \<Rightarrow> string) \<Rightarrow> (container_id \<Rightarrow> log_line list) \<Rightarrow> i64 \<Rightarrow> (string \<Rightarrow> log_line \<Rightarrow> bool)
     \<Rightarrow> log_line list \<Rightarrow> (container_id \<Rightarrow> nat option) \<Rightarrow> bool" where
  "task_part service_of history horizon S Q N \<longleftrightarrow>
     (\<forall>l \<in> set Q. l \<in> set (history (ll_cid l))) \<and>
     (\<forall>cid p l. N cid = Some p \<longrightarrow> l \<in> set (take p (history cid)) \<longrightarrow> horizon \<le> ll_ts l \<longrightarrow>
        S (service_of cid) l \<or> l \<in> set Q) \<and>
     (\<forall>xs l ys l'. Q = xs @ l # ys \<longrightarrow> l' \<in> set (history (ll_cid l)) \<longrightarrow> horizon \<le> ll_ts l' \<longrightarrow>
        ll_ts l' < ll_ts l \<longrightarrow> S (service_of (ll_cid l)) l' \<or> l' \<in> set xs)"

lemma task_partD:
  assumes "task_part service_of history horizon S Q N"
  shows "l \<in> set Q \<Longrightarrow> l \<in> set (history (ll_cid l))"
    "N cid = Some p \<Longrightarrow> l \<in> set (take p (history cid)) \<Longrightarrow> horizon \<le> ll_ts l \<Longrightarrow> S (service_of cid) l \<or> l \<in> set Q"
    "Q = xs @ l # ys \<Longrightarrow> l' \<in> set (history (ll_cid l)) \<Longrightarrow> horizon \<le> ll_ts l' \<Longrightarrow> ll_ts l' < ll_ts l \<Longrightarrow>
      S (service_of (ll_cid l)) l' \<or> l' \<in> set xs"
  using assms unfolding task_part_def by blast+

lemma task_partI:
  assumes "\<And>l. l \<in> set Q \<Longrightarrow> l \<in> set (history (ll_cid l))"
    and "\<And>cid p l. N cid = Some p \<Longrightarrow> l \<in> set (take p (history cid)) \<Longrightarrow> horizon \<le> ll_ts l \<Longrightarrow>
      S (service_of cid) l \<or> l \<in> set Q"
    and "\<And>xs l ys l'. Q = xs @ l # ys \<Longrightarrow> l' \<in> set (history (ll_cid l)) \<Longrightarrow> horizon \<le> ll_ts l' \<Longrightarrow>
      ll_ts l' < ll_ts l \<Longrightarrow> S (service_of (ll_cid l)) l' \<or> l' \<in> set xs"
  shows "task_part service_of history horizon S Q N"
  unfolding task_part_def using assms by blast

lemma task_part_mono:
  assumes "task_part service_of history horizon S Q N"
    and "\<And>cid l. l \<in> set (history cid) \<Longrightarrow> horizon \<le> ll_ts l \<Longrightarrow> S (service_of cid) l \<Longrightarrow> S' (service_of cid) l"
  shows "task_part service_of history horizon S' Q N"
proof (rule task_partI)
  show "l \<in> set (history (ll_cid l))" if "l \<in> set Q" for l using task_partD(1) [OF assms(1) that] .
  show "S' (service_of cid) l \<or> l \<in> set Q"
    if "N cid = Some p" "l \<in> set (take p (history cid))" "horizon \<le> ll_ts l" for cid p l
    using task_partD(2) [OF assms(1) that] assms(2) [OF in_set_takeD [OF that(2)] that(3)] by blast
  show "S' (service_of (ll_cid l)) l' \<or> l' \<in> set xs"
    if "Q = xs @ l # ys" "l' \<in> set (history (ll_cid l))" "horizon \<le> ll_ts l'" "ll_ts l' < ll_ts l" for xs l ys l'
    using task_partD(3) [OF assms(1) that] assms(2) [OF that(2,3)] by blast
qed

definition pipe_inv ::
  "log_env \<Rightarrow> line_hash \<Rightarrow> (container_id \<Rightarrow> string) \<Rightarrow> (container_id \<Rightarrow> log_line list) \<Rightarrow> i64 \<Rightarrow> log_pipeline \<Rightarrow> bool"
where
  "pipe_inv env h service_of history horizon st \<longleftrightarrow>
     store_wf env (lb_logs (pl_buffer st)) \<and>
     buffer_part h service_of history (pl_flights st) (waiting_lines (pl_buffer st)) (checkpoint_at (pl_buffer st)) \<and>
     task_part service_of history horizon (safe_line env st) (dk_log_queue (pl_docker st)) (pl_read st) \<and>
     (\<forall>cid m. checkpoint_at (pl_buffer st) (service_of cid) cid = Some m \<longrightarrow>
        covered h horizon (safe_line env st (service_of cid)) (history cid) m) \<and>
     (\<forall>(cid, m) \<in> stored_marks (snd (lb_meta (pl_buffer st))).
        covered h horizon (in_store env (lb_logs (pl_buffer st)) (service_of cid)) (history cid) m)"

lemma pipe_invD:
  assumes "pipe_inv env h service_of history horizon st"
  shows "store_wf env (lb_logs (pl_buffer st))"
    "buffer_part h service_of history (pl_flights st) (waiting_lines (pl_buffer st)) (checkpoint_at (pl_buffer st))"
    "task_part service_of history horizon (safe_line env st) (dk_log_queue (pl_docker st)) (pl_read st)"
    "checkpoint_at (pl_buffer st) (service_of cid) cid = Some m \<Longrightarrow>
      covered h horizon (safe_line env st (service_of cid)) (history cid) m"
    "(cid, m) \<in> stored_marks (snd (lb_meta (pl_buffer st))) \<Longrightarrow>
      covered h horizon (in_store env (lb_logs (pl_buffer st)) (service_of cid)) (history cid) m"
  using assms unfolding pipe_inv_def by (blast, blast, blast, blast, fast)

lemma pipe_invI:
  assumes "store_wf env (lb_logs (pl_buffer st))"
    and "buffer_part h service_of history (pl_flights st) (waiting_lines (pl_buffer st)) (checkpoint_at (pl_buffer st))"
    and "task_part service_of history horizon (safe_line env st) (dk_log_queue (pl_docker st)) (pl_read st)"
    and "\<And>cid m. checkpoint_at (pl_buffer st) (service_of cid) cid = Some m \<Longrightarrow>
      covered h horizon (safe_line env st (service_of cid)) (history cid) m"
    and "\<And>cid m. (cid, m) \<in> stored_marks (snd (lb_meta (pl_buffer st))) \<Longrightarrow>
      covered h horizon (in_store env (lb_logs (pl_buffer st)) (service_of cid)) (history cid) m"
  shows "pipe_inv env h service_of history horizon st"
  unfolding pipe_inv_def using assms by blast

text \<open>
  A step that keeps lines, marks and channel keeps the invariant, when what was stored stays stored
  from the horizon on and the metadata store gains no mark.
\<close>

lemma pipe_inv_same:
  assumes inv: "pipe_inv env h service_of history horizon st"
    and same: "pl_flights st' = pl_flights st" "waiting_lines (pl_buffer st') = waiting_lines (pl_buffer st)"
      "checkpoint_at (pl_buffer st') = checkpoint_at (pl_buffer st)"
    and task: "task_part service_of history horizon (safe_line env st) (dk_log_queue (pl_docker st')) (pl_read st')"
    and marks: "stored_marks (snd (lb_meta (pl_buffer st'))) \<subseteq> stored_marks (snd (lb_meta (pl_buffer st)))"
    and wf: "store_wf env (lb_logs (pl_buffer st'))"
    and kept: "\<And>cid l. l \<in> set (history cid) \<Longrightarrow> horizon \<le> ll_ts l \<Longrightarrow>
      in_store env (lb_logs (pl_buffer st)) (service_of cid) l \<Longrightarrow> in_store env (lb_logs (pl_buffer st')) (service_of cid) l"
  shows "pipe_inv env h service_of history horizon st'"
proof (rule pipe_invI)
  have safe: "safe_line env st' (service_of cid) l"
    if "l \<in> set (history cid)" "horizon \<le> ll_ts l" "safe_line env st (service_of cid) l" for cid l
    using that kept by (auto simp: safe_line_def same)
  show "store_wf env (lb_logs (pl_buffer st'))" by (rule wf)
  show "buffer_part h service_of history (pl_flights st') (waiting_lines (pl_buffer st')) (checkpoint_at (pl_buffer st'))"
    unfolding same by (rule pipe_invD(2) [OF inv])
  show "task_part service_of history horizon (safe_line env st') (dk_log_queue (pl_docker st')) (pl_read st')"
    by (rule task_part_mono [OF task]) (rule safe)
  show "covered h horizon (safe_line env st' (service_of cid)) (history cid) m"
    if "checkpoint_at (pl_buffer st') (service_of cid) cid = Some m" for cid m
    using pipe_invD(4) [OF inv that [unfolded same]] safe by (rule covered_mono)
  show "covered h horizon (in_store env (lb_logs (pl_buffer st')) (service_of cid)) (history cid) m"
    if "(cid, m) \<in> stored_marks (snd (lb_meta (pl_buffer st')))" for cid m
    using pipe_invD(5) [OF inv subsetD [OF marks that]] kept by (rule covered_mono)
qed

section \<open>Every step keeps the invariant\<close>

lemma send_log_line_done:
  "send_log_line line sv = SendDone sv' \<Longrightarrow> dk_log_queue sv' = dk_log_queue sv @ [line]"
  by (auto simp: send_log_line_def Let_def split: if_splits)

lemma receive_log_line_some:
  "receive_log_line sv = Some (line, sv') \<Longrightarrow> dk_log_queue sv = line # dk_log_queue sv'"
  by (auto simp: receive_log_line_def split: list.splits)

lemma read_before:
  assumes "sorted (map ll_ts ls)" "p < length ls" "l \<in> set ls" "ll_ts l < ll_ts (ls ! p)"
  shows "l \<in> set (take p ls)"
proof -
  obtain i where i: "i < length ls" "l = ls ! i" using assms(3) by (auto simp: in_set_conv_nth)
  have "i < p"
  proof (rule ccontr)
    assume "\<not> i < p"
    then have "map ll_ts ls ! p \<le> map ll_ts ls ! i"
      using assms(1) i(1) by (intro sorted_nth_mono) simp_all
    then show False using assms(2,4) i by simp
  qed
  then show ?thesis using i by (auto simp: in_set_conv_nth)
qed

lemma take_Suc_set: "p < length ls \<Longrightarrow> l \<in> set (take (Suc p) ls) \<longleftrightarrow> l \<in> set (take p ls) \<or> l = ls ! p"
  by (auto simp: take_Suc_conv_app_nth)

lemma task_part_send:
  assumes "task_part service_of history horizon S Q N" "sorted (map ll_ts (history cid))"
    and "N cid = Some p" "p < length (history cid)" "ll_cid (history cid ! p) = cid"
  shows "task_part service_of history horizon S (Q @ [history cid ! p]) (N(cid \<mapsto> Suc p))"
proof (rule task_partI)
  show "l \<in> set (history (ll_cid l))" if "l \<in> set (Q @ [history cid ! p])" for l
    using that task_partD(1) [OF assms(1)] assms(4,5) by auto
  show "S (service_of c) l \<or> l \<in> set (Q @ [history cid ! p])"
    if "(N(cid \<mapsto> Suc p)) c = Some q" "l \<in> set (take q (history c))" "horizon \<le> ll_ts l" for c q l
  proof (cases "c = cid")
    case True
    then have "l \<in> set (take p (history cid)) \<or> l = history cid ! p"
      using that(1,2) take_Suc_set [OF assms(4)] by simp
    then show ?thesis using task_partD(2) [OF assms(1,3) _ that(3)] True by auto
  next
    case False
    then show ?thesis using task_partD(2) [OF assms(1) _ that(2,3)] that(1) by auto
  qed
  show "S (service_of (ll_cid l)) l' \<or> l' \<in> set xs"
    if q: "Q @ [history cid ! p] = xs @ l # ys" and l': "l' \<in> set (history (ll_cid l))" "horizon \<le> ll_ts l'"
      "ll_ts l' < ll_ts l" for xs l ys l'
  proof (cases ys rule: rev_cases)
    case Nil
    then have l: "l = history cid ! p" "xs = Q" using q by auto
    then have "l' \<in> set (take p (history cid))" using read_before [OF assms(2,4)] l' assms(5) by simp
    then show ?thesis using task_partD(2) [OF assms(1,3) _ l'(2)] l assms(5) by simp
  next
    case (snoc ys' z)
    then have "Q = xs @ l # ys'" using q by simp
    then show ?thesis using task_partD(3) [OF assms(1) _ l'] by blast
  qed
qed

lemma task_part_receive:
  assumes "task_part service_of history horizon S (line # Q) N"
    and "horizon \<le> ll_ts line \<Longrightarrow> S' (service_of (ll_cid line)) line"
    and "\<And>cid l. l \<in> set (history cid) \<Longrightarrow> ll_cid l = cid"
    and "\<And>cid l. l \<in> set (history cid) \<Longrightarrow> horizon \<le> ll_ts l \<Longrightarrow> S (service_of cid) l \<Longrightarrow> S' (service_of cid) l"
  shows "task_part service_of history horizon S' Q N"
proof (rule task_partI)
  show "l \<in> set (history (ll_cid l))" if "l \<in> set Q" for l
    using task_partD(1) [OF assms(1)] that by simp
  show "S' (service_of cid) l \<or> l \<in> set Q"
    if "N cid = Some p" "l \<in> set (take p (history cid))" "horizon \<le> ll_ts l" for cid p l
  proof (cases "l = line")
    case True
    then show ?thesis using assms(2,3) that in_set_takeD by metis
  next
    case False
    then show ?thesis
      using task_partD(2) [OF assms(1) that] assms(4) [OF in_set_takeD [OF that(2)] that(3)] by auto
  qed
  show "S' (service_of (ll_cid l)) l' \<or> l' \<in> set xs"
    if q: "Q = xs @ l # ys" and l': "l' \<in> set (history (ll_cid l))" "horizon \<le> ll_ts l'"
      "ll_ts l' < ll_ts l" for xs l ys l'
  proof (cases "l' = line")
    case True
    then show ?thesis using assms(2,3) l'(1,2) by metis
  next
    case False
    have "line # Q = (line # xs) @ l # ys" using q by simp
    from task_partD(3) [OF assms(1) this l'] False show ?thesis using assms(4) [OF l'(1,2)] by auto
  qed
qed

lemma pending_push:
  "pending fs (W(s := W s @ [line])) t cid =
     (if t = s \<and> cid = ll_cid line then pending fs W t cid @ [line] else pending fs W t cid)"
  by (simp add: pending_def)

lemma buffer_part_push:
  assumes part: "buffer_part h service_of history fs W C"
    and line: "line \<in> set (history (ll_cid line))" "s = service_of (ll_cid line)"
    and later: "\<And>ts x. C s (ll_cid line) = Some (ts, x) \<Longrightarrow> ts \<le> ll_ts line"
  shows "buffer_part h service_of history fs (W(s := W s @ [line])) (C(s := (C s)(ll_cid line \<mapsto> line_mark h line)))"
proof (rule buffer_partI)
  show "distinct (map fst fs)" by (rule buffer_partD(1) [OF part])
  show "t = service_of (ll_cid l) \<and> l \<in> set (history (ll_cid l))"
    if "l \<in> set (flight_lines fs t) \<or> l \<in> set ((W(s := W s @ [line])) t)" for t l
    using that buffer_partD(2) [OF part] line by (auto split: if_splits)
  show "(C(s := (C s)(ll_cid line \<mapsto> line_mark h line))) t cid
      = Some (line_mark h (last (pending fs (W(s := W s @ [line])) t cid)))"
    if "pending fs (W(s := W s @ [line])) t cid \<noteq> []" for t cid
    using that buffer_partD(3) [OF part] by (auto simp: pending_push split: if_splits)
  show "(\<exists>l \<in> set lines. ll_cid l = cid \<and> line_mark h l = (ts, x)) \<and>
      (\<exists>ts' x'. (C(s := (C s)(ll_cid line \<mapsto> line_mark h line))) t cid = Some (ts', x') \<and> ts \<le> ts') \<and>
      (\<forall>l \<in> set ((W(s := W s @ [line])) t). ll_cid l = cid \<longrightarrow> ts \<le> ll_ts l)"
    if "(t, lines, cps) \<in> set fs" "(cid, ts, x) \<in> set cps" for t lines cps cid ts x
  proof -
    note old = buffer_partD(4) [OF part that]
    then obtain ts' x' where c: "C t cid = Some (ts', x')" "ts \<le> ts'" by blast
    show ?thesis
    proof (cases "t = s \<and> cid = ll_cid line")
      case True
      then have "ts \<le> ll_ts line" using later c by force
      then show ?thesis using old True by (simp add: line_mark_def)
    next
      case False
      then show ?thesis using old by auto
    qed
  qed
qed

lemma log_history_okD:
  assumes "log_history_ok env h service_of history"
  shows "sorted (map ll_ts (history cid))" "inj_on (line_mark h) (set (history cid))"
    "l \<in> set (history cid) \<Longrightarrow> ll_cid l = cid" "l \<in> set (history cid) \<Longrightarrow> ll_service l = service_of cid"
    "l \<in> set (history cid) \<Longrightarrow> dated (ll_ts l)" "l \<in> set (history cid) \<Longrightarrow> week_name env (ll_ts l) \<noteq> None"
  using assms unfolding log_history_ok_def by blast+

lemma pipe_inv_receive:
  assumes inv: "pipe_inv env h service_of history horizon st" and ok: "log_history_ok env h service_of history"
    and r: "receive_log_line (pl_docker st) = Some (line, sv)" and p: "push_locked h line (pl_buffer st) = (b, backlog)"
  shows "pipe_inv env h service_of history horizon (st\<lparr>pl_docker := sv, pl_buffer := b\<rparr>)"
proof -
  let ?W = "waiting_lines (pl_buffer st)" and ?C = "checkpoint_at (pl_buffer st)" and ?Q = "dk_log_queue sv"
  let ?cid = "ll_cid line" and ?s = "ll_service line" and ?st = "st\<lparr>pl_docker := sv, pl_buffer := b\<rparr>"
  have task: "task_part service_of history horizon (safe_line env st) (line # ?Q) (pl_read st)"
    using pipe_invD(3) [OF inv] by (simp add: receive_log_line_some [OF r])
  have line: "line \<in> set (history ?cid)" using task_partD(1) [OF task, of line] by simp
  then have svc: "?s = service_of ?cid" by (rule log_history_okD(4) [OF ok])
  have meta: "lb_meta b = lb_meta (pl_buffer st)" "lb_logs b = lb_logs (pl_buffer st)"
    using p by (auto simp: push_locked_def update_state_def split: option.splits)
  show ?thesis
  proof (cases "backlog = None")
    case True
    note same = push_locked_lines(1) [OF p True, unfolded same_lines_def]
    have dropped: "accept_line h line (sh_state (handle_of (pl_buffer st) ?s)) = None"
      using p True by (auto simp: push_locked_def split: option.splits)
    then obtain ts x where m: "?C ?s ?cid = Some (ts, x)"
      and le: "ll_ts line < ts \<or> line_mark h line = (ts, x)"
      by (auto simp: accept_line_def checkpoint_at_def line_mark_def Let_def split: option.splits if_splits)
    have cov: "covered h horizon (safe_line env st ?s) (history ?cid) (ts, x)"
      using pipe_invD(4) [OF inv m [unfolded svc]] by (simp add: svc)
    have "safe_line env st ?s line" if "horizon \<le> ll_ts line"
    proof (cases "ll_ts line < ts")
      case True
      then show ?thesis using cov line that by (auto simp: covered_def)
    next
      case False
      with le have "line_mark h line = (ts, x)" by simp
      with cov obtain l where "l \<in> set (history ?cid)" "line_mark h l = line_mark h line"
        "horizon \<le> ll_ts l \<longrightarrow> safe_line env st ?s l" unfolding covered_def by metis
      then show ?thesis using inj_onD [OF log_history_okD(2) [OF ok]] line that by metis
    qed
    then have "task_part service_of history horizon (safe_line env st) ?Q (pl_read st)"
      by (intro task_part_receive [OF task]) (simp_all add: svc log_history_okD(3) [OF ok])
    then show ?thesis using pipe_invD(1) [OF inv] same
      by (intro pipe_inv_same [OF inv]) (simp_all add: meta)
  next
    case False
    note pl = push_locked_lines(2-5) [OF p]
    have w: "waiting_lines b = ?W(?s := ?W ?s @ [line])"
      and c: "checkpoint_at b = ?C(?s := (?C ?s)(?cid \<mapsto> line_mark h line))"
      using pl(1,2) False by (simp_all add: line_mark_def)
    have later: "ts \<le> ll_ts line" if "?C ?s ?cid = Some (ts, x)" for ts x
      using pl(3) False that by blast
    have safe: "safe_line env ?st t l" if "safe_line env st t l" for t l
      using that by (auto simp: safe_line_def w meta)
    have new: "safe_line env ?st ?s line" by (simp add: safe_line_def w)
    show ?thesis
    proof (rule pipe_invI)
      show "store_wf env (lb_logs (pl_buffer ?st))" using pipe_invD(1) [OF inv] by (simp add: meta)
      show "buffer_part h service_of history (pl_flights ?st) (waiting_lines (pl_buffer ?st)) (checkpoint_at (pl_buffer ?st))"
        using buffer_part_push [OF pipe_invD(2) [OF inv] line svc later] by (simp add: w c)
      show "task_part service_of history horizon (safe_line env ?st) (dk_log_queue (pl_docker ?st)) (pl_read ?st)"
        using new safe by (auto simp: svc log_history_okD(3) [OF ok] intro!: task_part_receive [OF task])
      show "covered h horizon (in_store env (lb_logs (pl_buffer ?st)) (service_of cid)) (history cid) m"
        if "(cid, m) \<in> stored_marks (snd (lb_meta (pl_buffer ?st)))" for cid m
        using pipe_invD(5) [OF inv, of cid m] that by (simp add: meta)
      show "covered h horizon (safe_line env ?st (service_of cid)) (history cid) m"
        if m: "checkpoint_at (pl_buffer ?st) (service_of cid) cid = Some m" for cid m
      proof (cases "cid = ?cid")
        case True
        then have "m = line_mark h line" using m svc by (simp add: c)
        moreover have "safe_line env ?st ?s l"
          if "l \<in> set (history ?cid)" "horizon \<le> ll_ts l" "ll_ts l < ll_ts line" for l
          using task_partD(3) [OF task, of "[]" line ?Q l] that safe by (simp add: svc)
        ultimately show ?thesis using line new True svc by (auto simp: covered_def line_mark_def)
      next
        case False
        then have "?C (service_of cid) cid = Some m" using m by (auto simp: c split: if_splits)
        from covered_mono [OF pipe_invD(4) [OF inv this] safe] show ?thesis .
      qed
    qed
  qed
qed

lemma flush_take_marks:
  assumes "flush_take s = (Some (lines, cps), s')" "(cid, ts, x) \<in> set cps"
  shows "cid \<in> ll_cid ` set lines" "hm_get (bs_checkpoints s) cid = Some (ts, x)"
  using assms by (auto simp: flush_take_def Let_def List.map_filter_def split: if_splits)

lemma pipe_inv_take:
  assumes inv: "pipe_inv env h service_of history horizon st" and ex: "service \<notin> fst ` set (pl_flights st)"
    and t: "flush_take (sh_state (handle_of (pl_buffer st) service)) = (Some (lines, cps), s)"
  shows "pipe_inv env h service_of history horizon (st\<lparr>pl_buffer := update_state service (\<lambda>_. s) (pl_buffer st),
      pl_flights := pl_flights st @ [(service, lines, cps)]\<rparr>)" (is "pipe_inv _ _ _ _ _ ?st")
proof -
  note ft = flush_take_Some [OF t]
  let ?b = "update_state service (\<lambda>_. s) (pl_buffer st)" and ?fs = "pl_flights st @ [(service, lines, cps)]"
  let ?W = "waiting_lines (pl_buffer st)" and ?C = "checkpoint_at (pl_buffer st)"
  have w: "waiting_lines ?b = ?W(service := [])" and c: "checkpoint_at ?b = ?C"
    using ft by (auto simp: fun_eq_iff) (simp_all add: checkpoint_at_def)
  have meta: "lb_meta ?b = lb_meta (pl_buffer st)" by (simp add: update_state_def)
  have lines: "lines = ?W service" using ft(1) by (simp add: waiting_lines_def)
  have none: "flight_lines (pl_flights st) service = []" using ex by (rule flight_lines_absent)
  have same: "flight_lines ?fs t @ (?W(service := [])) t = flight_lines (pl_flights st) t @ ?W t" for t
    by (simp add: lines)
  note part = pipe_invD(2) [OF inv]
  have pend: "pending ?fs (?W(service := [])) t cid = pending (pl_flights st) ?W t cid" for t cid
    unfolding pending_def same ..
  have new: "buffer_part h service_of history ?fs (?W(service := [])) ?C"
  proof (rule buffer_partI)
    show "distinct (map fst ?fs)" using buffer_partD(1) [OF part] ex by simp
    show "t = service_of (ll_cid l) \<and> l \<in> set (history (ll_cid l))"
      if "l \<in> set (flight_lines ?fs t) \<or> l \<in> set ((?W(service := [])) t)" for t l
    proof (rule buffer_partD(2) [OF part])
      have "l \<in> set (flight_lines ?fs t @ (?W(service := [])) t)" using that by simp
      then show "l \<in> set (flight_lines (pl_flights st) t) \<or> l \<in> set (?W t)" unfolding same by simp
    qed
    show "?C t cid = Some (line_mark h (last (pending ?fs (?W(service := [])) t cid)))"
      if "pending ?fs (?W(service := [])) t cid \<noteq> []" for t cid
      using buffer_partD(3) [OF part] that unfolding pend .
    show "(\<exists>l \<in> set ls. ll_cid l = cid \<and> line_mark h l = (ts, x)) \<and>
        (\<exists>ts' x'. ?C t cid = Some (ts', x') \<and> ts \<le> ts') \<and>
        (\<forall>l \<in> set ((?W(service := [])) t). ll_cid l = cid \<longrightarrow> ts \<le> ll_ts l)"
      if "(t, ls, cs) \<in> set ?fs" "(cid, ts, x) \<in> set cs" for t ls cs cid ts x
    proof (cases "(t, ls, cs) \<in> set (pl_flights st)")
      case True
      from buffer_partD(4) [OF part this that(2)] show ?thesis by auto
    next
      case False
      then have f: "t = service" "ls = lines" "cs = cps" using that(1) by auto
      note mk = flush_take_marks [OF t that(2) [unfolded f]]
      have cp: "?C service cid = Some (ts, x)" using mk(2) by (simp add: checkpoint_at_def)
      have "pending (pl_flights st) ?W service cid = filter (\<lambda>l. ll_cid l = cid) lines"
        by (simp add: pending_def none lines)
      moreover from this mk(1) have "pending (pl_flights st) ?W service cid \<noteq> []"
        by (auto simp: filter_empty_conv)
      ultimately have "line_mark h (last (filter (\<lambda>l. ll_cid l = cid) lines)) = (ts, x)"
        "filter (\<lambda>l. ll_cid l = cid) lines \<noteq> []"
        using buffer_partD(3) [OF part, of service cid] cp by simp_all
      moreover from last_in_set [OF this(2)] have "last (filter (\<lambda>l. ll_cid l = cid) lines) \<in> set lines"
        "ll_cid (last (filter (\<lambda>l. ll_cid l = cid) lines)) = cid" by simp_all
      ultimately show ?thesis using cp by (auto simp: f)
    qed
  qed
  have safe: "safe_line env ?st = safe_line env st"
  proof (intro ext)
    fix t l
    have "set (flight_lines ?fs t @ (?W(service := [])) t) = set (flight_lines (pl_flights st) t @ ?W t)"
      unfolding same ..
    then show "safe_line env ?st t l = safe_line env st t l" by (simp add: safe_line_def w)
  qed
  show ?thesis
    using new pipe_invD(1,3,4,5) [OF inv] by (intro pipe_invI) (simp_all add: w c meta safe)
qed

lemma flush_land_marks:
  assumes "append_lines service lines (lb_logs b) = (logs, Some res)"
  shows "stored_marks (snd (lb_meta (flush_land append_lines service lines cps now b)))
    \<subseteq> stored_marks (snd (lb_meta b)) \<union> (case res of Inl _ \<Rightarrow> {} | Inr _ \<Rightarrow> set cps)"
proof (cases res)
  case (Inl e)
  have "lb_meta (request_service_flush service b') = lb_meta b'" for b' :: "'a log_buffer"
    by (simp add: request_service_flush_def split: option.split)
  then show ?thesis by (simp add: flush_land_def assms Inl update_state_def)
next
  case (Inr u)
  obtain meta r where m: "id_of sqlite_ops (lb_meta b) service now = (meta, r)" by fastforce
  note marks = id_of_marks [OF m]
  show ?thesis
  proof (cases r)
    case (Inl e)
    then show ?thesis by (simp add: flush_land_def assms Inr m marks)
  next
    case sid: (Inr sid)
    then show ?thesis using advance_all_marks [of sid cps "snd meta"]
      by (simp add: flush_land_def assms Inr m marks)
  qed
qed

lemma flight_lines_one:
  assumes "distinct (map fst (fs1 @ (service, lines, cps) # fs2))"
  shows "flight_lines (fs1 @ fs2) service = []" "flight_lines (fs1 @ (service, lines, cps) # fs2) service = lines"
  using assms by (auto simp: flight_lines_absent)

lemma buffer_part_land:
  assumes part: "buffer_part h service_of history (fs1 @ (service, lines, cps) # fs2) W C"
    and W': "W' = W \<or> W' = W(service := lines @ W service)"
  shows "buffer_part h service_of history (fs1 @ fs2) W' C"
proof (rule buffer_partI)
  let ?fs = "fs1 @ (service, lines, cps) # fs2"
  note one = flight_lines_one [OF buffer_partD(1) [OF part]]
  have other: "flight_lines (fs1 @ fs2) s = flight_lines ?fs s" "W' s = W s" if "s \<noteq> service" for s
    using that W' by auto
  have sub: "l \<in> set (flight_lines ?fs s @ W s)" if "l \<in> set (flight_lines (fs1 @ fs2) s @ W' s)" for l s
    using that W' one other [of s] by (cases "s = service") (auto simp del: flight_lines_append)
  show "distinct (map fst (fs1 @ fs2))" using buffer_partD(1) [OF part] by simp
  show "s = service_of (ll_cid l) \<and> l \<in> set (history (ll_cid l))"
    if "l \<in> set (flight_lines (fs1 @ fs2) s) \<or> l \<in> set (W' s)" for s l
    using sub [of l s] that buffer_partD(2) [OF part, of l s] by (simp del: flight_lines_append)
  show "C s cid = Some (line_mark h (last (pending (fs1 @ fs2) W' s cid)))"
    if "pending (fs1 @ fs2) W' s cid \<noteq> []" for s cid
  proof (cases "s = service")
    case True
    have "pending (fs1 @ fs2) W' s cid = (if W' = W then filter (\<lambda>l. ll_cid l = cid) (W service) else pending ?fs W s cid)"
      using W' one by (auto simp: pending_def True simp del: flight_lines_append)
    moreover have "pending ?fs W s cid = filter (\<lambda>l. ll_cid l = cid) lines @ filter (\<lambda>l. ll_cid l = cid) (W service)"
      by (simp add: pending_def True one del: flight_lines_append)
    ultimately have "last (pending (fs1 @ fs2) W' s cid) = last (pending ?fs W s cid)" "pending ?fs W s cid \<noteq> []"
      using that by (auto split: if_splits)
    then show ?thesis using buffer_partD(3) [OF part] by simp
  next
    case False
    have "pending (fs1 @ fs2) W' s cid = pending ?fs W s cid"
      unfolding pending_def other(1) [OF False] other(2) [OF False] ..
    then show ?thesis using buffer_partD(3) [OF part] that by simp
  qed
  show "(\<exists>l \<in> set ls. ll_cid l = cid \<and> line_mark h l = (ts, x)) \<and>
      (\<exists>ts' x'. C s cid = Some (ts', x') \<and> ts \<le> ts') \<and> (\<forall>l \<in> set (W' s). ll_cid l = cid \<longrightarrow> ts \<le> ll_ts l)"
    if "(s, ls, cs) \<in> set (fs1 @ fs2)" "(cid, ts, x) \<in> set cs" for s ls cs cid ts x
  proof -
    have "s \<in> fst ` set (fs1 @ fs2)" using imageI [OF that(1), of fst] by simp
    moreover have "service \<notin> fst ` set (fs1 @ fs2)" using buffer_partD(1) [OF part] by auto
    ultimately have "s \<noteq> service" by auto
    then have "W' s = W s" by (rule other(2))
    moreover have "(s, ls, cs) \<in> set ?fs" using that(1) by auto
    ultimately show ?thesis using buffer_partD(4) [OF part _ that(2), of s ls] by simp
  qed
qed

lemma pipe_inv_land:
  assumes inv: "pipe_inv env h service_of history horizon st" and ok: "log_history_ok env h service_of history"
    and cal: "iso_calendar env" "\<forall>xs. mset (iter xs) = mset xs"
    and fl: "pl_flights st = fs1 @ (service, lines, cps) # fs2"
  shows "pipe_inv env h service_of history horizon
    (st\<lparr>pl_buffer := flush_land (logs_append env iter) service lines cps now (pl_buffer st), pl_flights := fs1 @ fs2\<rparr>)"
    (is "pipe_inv _ _ _ _ _ ?st")
proof -
  let ?b = "flush_land (logs_append env iter) service lines cps now (pl_buffer st)"
  let ?W = "waiting_lines (pl_buffer st)" and ?C = "checkpoint_at (pl_buffer st)"
  note part = pipe_invD(2) [OF inv, unfolded fl]
  note one = flight_lines_one [OF buffer_partD(1) [OF part]]
  have hist: "service = service_of (ll_cid l) \<and> l \<in> set (history (ll_cid l))" if "l \<in> set lines" for l
    using buffer_partD(2) [OF part, of l service] one(2) that by (simp del: flight_lines_append)
  have dated: "\<forall>l \<in> set lines. dated (ll_ts l)" using hist log_history_okD(5) [OF ok] by blast
  obtain logs r where a: "logs_append env iter service lines (lb_logs (pl_buffer st)) = (logs, r)" by fastforce
  have ok3: "iso_calendar env \<and> (\<forall>xs. mset (iter xs) = mset xs) \<and> store_wf env (lb_logs (pl_buffer st))"
    using cal pipe_invD(1) [OF inv] by simp
  note law = sqlite_logs.append_law [OF ok3 dated a]
  then obtain res where r: "r = Some res" by auto
  note land = flush_land_lines [where append_lines = "logs_append env iter", OF a [unfolded r], of cps now]
  have old: "in_store env logs s l" if "in_store env (lb_logs (pl_buffer st)) s l" for s l
    using law that by (auto simp: in_store_def dest: mset_subset_eqD)
  define W' where "W' = waiting_lines ?b"
  have W': "W' = ?W \<or> W' = ?W(service := lines @ ?W service)" by (cases res) (simp_all add: W'_def land)
  have landed: "in_store env logs service l" if "l \<in> set lines" "\<not> isl res" for l
  proof -
    have "filter (\<lambda>l. week_name env (ll_ts l) \<noteq> None) lines = lines"
      using hist log_history_okD(6) [OF ok] by (intro filter_True) blast
    then show ?thesis using law r that by (cases res) (auto simp: in_store_def)
  qed
  have safe: "safe_line env ?st s l" if "safe_line env st s l" for s l
  proof (cases "s = service \<and> l \<in> set lines")
    case True
    then show ?thesis using landed [of l] by (cases res) (auto simp: safe_line_def land)
  next
    case False
    have "l \<in> set (flight_lines (fs1 @ fs2) s) \<or> l \<in> set (W' s)"
      if "l \<in> set (flight_lines (pl_flights st) s @ ?W s)"
      using that False W' by (auto simp: fl split: if_splits)
    then show ?thesis using \<open>safe_line env st s l\<close> old by (auto simp: safe_line_def land(1) W'_def [symmetric])
  qed
  show ?thesis
  proof (rule pipe_invI)
    show "store_wf env (lb_logs (pl_buffer ?st))" using law by (simp add: land)
    show "buffer_part h service_of history (pl_flights ?st) (waiting_lines (pl_buffer ?st)) (checkpoint_at (pl_buffer ?st))"
      using buffer_part_land [OF part W'] by (simp add: W'_def land(3))
    show "task_part service_of history horizon (safe_line env ?st) (dk_log_queue (pl_docker ?st)) (pl_read ?st)"
      using task_part_mono [OF pipe_invD(3) [OF inv]] safe by simp
    show "covered h horizon (safe_line env ?st (service_of cid)) (history cid) m"
      if "checkpoint_at (pl_buffer ?st) (service_of cid) cid = Some m" for cid m
      using covered_mono [OF pipe_invD(4) [OF inv] safe] that by (simp add: land(3))
    show "covered h horizon (in_store env (lb_logs (pl_buffer ?st)) (service_of cid)) (history cid) m"
      if m: "(cid, m) \<in> stored_marks (snd (lb_meta (pl_buffer ?st)))" for cid m
    proof (cases "(cid, m) \<in> stored_marks (snd (lb_meta (pl_buffer st)))")
      case True
      from covered_mono [OF pipe_invD(5) [OF inv this] old] show ?thesis by (simp add: land(1))
    next
      case False
      with m flush_land_marks [where append_lines = "logs_append env iter", OF a [unfolded r], of cps now] have cps: "(cid, m) \<in> set cps" and "\<not> isl res"
        by (auto split: sum.splits)
      note landed = landed [OF _ this(2)]
      obtain ts x where tx: "m = (ts, x)" by (cases m)
      have "(service, lines, cps) \<in> set (fs1 @ (service, lines, cps) # fs2)" by simp
      note mk = buffer_partD(4) [OF part this cps [unfolded tx]]
      then obtain l where l: "l \<in> set lines" "ll_cid l = cid" "line_mark h l = (ts, x)" by blast
      have svc: "service_of cid = service" and l': "l \<in> set (history cid)" using hist [OF l(1)] l(2) by auto
      from mk obtain ts' x' where c: "?C service cid = Some (ts', x')" "ts \<le> ts'"
        and waiting: "\<forall>l \<in> set (?W service). ll_cid l = cid \<longrightarrow> ts \<le> ll_ts l" by blast
      have "in_store env logs service k" if "k \<in> set (history cid)" "horizon \<le> ll_ts k" "ll_ts k < ts" for k
      proof -
        have "safe_line env st service k"
          using pipe_invD(4) [OF inv c(1) [folded svc]] that c(2) by (simp add: covered_def svc)
        moreover have "k \<notin> set (?W service)"
          using waiting that log_history_okD(3) [OF ok that(1)] by force
        ultimately show ?thesis using old landed one(2) by (auto simp: safe_line_def fl simp del: flight_lines_append)
      qed
      then show ?thesis using l l' landed by (auto simp: covered_def tx svc land(1))
    qed
  qed
qed

lemma container_log_start_marks:
  assumes "container_log_start c now_ms now_s sv = (sv', start)"
  shows "dk_log_queue sv' = dk_log_queue sv" "stored_marks (snd (dk_meta sv')) = stored_marks (snd (dk_meta sv))"
    "start = TaskFollows since \<Longrightarrow> \<exists>cp. log_since_secs cp now_s (dk_weeks sv) = Some since \<and>
      (\<forall>x. cp = Some x \<longrightarrow> (oc_id c, lc_ts x, lc_line_hash x) \<in> stored_marks (snd (dk_meta sv)))"
proof -
  obtain rg db res where m: "id_of sqlite_ops (dk_meta sv) (oc_service c) now_ms = ((rg, db), res)" by (metis surj_pair)
  note marks = id_of_marks [OF m]
  have "dk_log_queue sv' = dk_log_queue sv \<and> stored_marks (snd (dk_meta sv')) = stored_marks (snd (dk_meta sv)) \<and>
    (start = TaskFollows since \<longrightarrow> (\<exists>cp. log_since_secs cp now_s (dk_weeks sv) = Some since \<and>
      (\<forall>x. cp = Some x \<longrightarrow> (oc_id c, lc_ts x, lc_line_hash x) \<in> stored_marks (snd (dk_meta sv)))))"
  proof (cases res)
    case (Inl e)
    then have "sv' = sv\<lparr>dk_meta := (rg, db)\<rparr>" "start = TaskEnds"
      using assms m by (simp_all add: container_log_start_def)
    then show ?thesis using marks by simp
  next
    case (Inr sid)
    obtain db1 loaded where l: "load_log_checkpoint db sid (oc_id c) = (db1, loaded)" by fastforce
    note same = load_checkpoint_marks [OF l]
    show ?thesis
    proof (cases loaded)
      case (Inl e)
      then have "sv' = sv\<lparr>dk_meta := (rg, db1)\<rparr>" "start = TaskEnds"
        using assms m Inr l by (simp_all add: container_log_start_def)
      then show ?thesis using marks same by simp
    next
      case cp: (Inr cp)
      have "(oc_id c, lc_ts x, lc_line_hash x) \<in> stored_marks (snd (dk_meta sv))" if "cp = Some x" for x
        using loaded_mark [of db sid "oc_id c" db1 x] l cp marks that by simp
      moreover have "sv' = sv\<lparr>dk_meta := (rg, db1)\<rparr>"
        "start = (case log_since_secs cp now_s (dk_weeks sv) of None \<Rightarrow> TaskPanics | Some since \<Rightarrow> TaskFollows since)"
        using assms m Inr l cp by (simp_all add: container_log_start_def)
      ultimately show ?thesis using marks same by (simp split: option.split) blast
    qed
  qed
  then show "dk_log_queue sv' = dk_log_queue sv" "stored_marks (snd (dk_meta sv')) = stored_marks (snd (dk_meta sv))"
    "start = TaskFollows since \<Longrightarrow> \<exists>cp. log_since_secs cp now_s (dk_weeks sv) = Some since \<and>
      (\<forall>x. cp = Some x \<longrightarrow> (oc_id c, lc_ts x, lc_line_hash x) \<in> stored_marks (snd (dk_meta sv)))" by blast+
qed

text \<open>The lines that a task skips lie before the checkpoint or before the cutoff.\<close>

lemma skipped_line:
  assumes "log_since_secs cp now_s weeks = Some since" "l \<in> set (take (skipped_before since ls) ls)" "0 \<le> ll_ts l"
    and "\<And>cutoff. retention_cutoff_ms now_s weeks = Some cutoff \<Longrightarrow> cutoff \<le> horizon" "horizon \<le> ll_ts l"
  shows "\<exists>x. cp = Some x \<and> ll_ts l < lc_ts x"
proof -
  have "l \<in> set (takeWhile (\<lambda>l. ll_ts l < since * 1000) ls)"
    using assms(2) by (simp add: skipped_before_def takeWhile_eq_take [symmetric])
  then have l: "ll_ts l < since * 1000" by (rule set_takeWhileD [THEN conjunct2])
  obtain cutoff where cut: "retention_cutoff_ms now_s weeks = Some cutoff"
    using assms(1) by (auto simp: log_since_secs_def)
  define v where "v = (case cp of None \<Rightarrow> cutoff div 1000 | Some x \<Rightarrow> max (lc_ts x div 1000) (cutoff div 1000))"
  have "since = clamp_to_i32 v" using log_since_eq [OF assms(1) cut] by (simp add: v_def)
  then have "since \<le> v" using clamp_bounds(3) [of v] l assms(3) by linarith
  then have "ll_ts l < v * 1000" using l by linarith
  moreover have "cutoff \<le> ll_ts l" using assms(4) [OF cut] assms(5) by simp
  moreover have "cutoff div 1000 * 1000 \<le> cutoff" by (rule secs_bounds)
  ultimately have "cutoff div 1000 < v" by linarith
  then obtain x where x: "cp = Some x" "v = lc_ts x div 1000"
    by (auto simp: v_def max_def split: option.splits if_splits)
  then have "ll_ts l < lc_ts x" using \<open>ll_ts l < v * 1000\<close> secs_bounds(1) [of "lc_ts x"] by linarith
  with x show ?thesis by blast
qed

lemma pipe_inv_task:
  assumes inv: "pipe_inv env h service_of history horizon st" and ok: "log_history_ok env h service_of history"
    and cut: "\<And>cutoff. retention_cutoff_ms now_s (dk_weeks (pl_docker st)) = Some cutoff \<Longrightarrow> cutoff \<le> horizon"
    and start: "container_log_start c now_ms now_s ((pl_docker st)\<lparr>dk_meta := lb_meta (pl_buffer st)\<rparr>) = (sv, start)"
  shows "pipe_inv env h service_of history horizon (st\<lparr>pl_docker := sv,
    pl_buffer := (pl_buffer st)\<lparr>lb_meta := dk_meta sv\<rparr>, pl_read := task_reads history (oc_id c) start (pl_read st)\<rparr>)"
proof (rule pipe_inv_same [OF inv])
  note cs = container_log_start_marks [OF start]
  have fields: "waiting_lines ((pl_buffer st)\<lparr>lb_meta := m\<rparr>) = waiting_lines (pl_buffer st)"
    "checkpoint_at ((pl_buffer st)\<lparr>lb_meta := m\<rparr>) = checkpoint_at (pl_buffer st)" for m
    by (simp_all add: waiting_lines_def checkpoint_at_def handle_of_def fun_eq_iff)
  let ?st = "st\<lparr>pl_docker := sv, pl_buffer := (pl_buffer st)\<lparr>lb_meta := dk_meta sv\<rparr>,
    pl_read := task_reads history (oc_id c) start (pl_read st)\<rparr>"
  note task = pipe_invD(3) [OF inv]
  show "task_part service_of history horizon (safe_line env st) (dk_log_queue (pl_docker ?st)) (pl_read ?st)"
  proof (rule task_partI)
    show "l \<in> set (history (ll_cid l))" if "l \<in> set (dk_log_queue (pl_docker ?st))" for l
      using task_partD(1) [OF task] that by (simp add: cs)
    show "safe_line env st (service_of (ll_cid l)) l' \<or> l' \<in> set xs"
      if "dk_log_queue (pl_docker ?st) = xs @ l # ys" "l' \<in> set (history (ll_cid l))" "horizon \<le> ll_ts l'"
        "ll_ts l' < ll_ts l" for xs l ys l'
      using task_partD(3) [OF task _ that(2-4)] that(1) by (simp add: cs)
    show "safe_line env st (service_of cid) l \<or> l \<in> set (dk_log_queue (pl_docker ?st))"
      if p: "pl_read ?st cid = Some p" and l: "l \<in> set (take p (history cid))" "horizon \<le> ll_ts l" for cid p l
    proof (cases "cid = oc_id c")
      case True
      then obtain since where s: "start = TaskFollows since" "p = skipped_before since (history cid)"
        using p by (auto simp: task_reads_def split: log_task_start.splits)
      have h: "l \<in> set (history cid)" by (rule in_set_takeD [OF l(1)])
      then have "0 \<le> ll_ts l" using log_history_okD(5) [OF ok] by (auto simp: dated_def)
      obtain cp where cp: "log_since_secs cp now_s (dk_weeks (pl_docker st)) = Some since"
        "\<forall>x. cp = Some x \<longrightarrow> (oc_id c, lc_ts x, lc_line_hash x) \<in> stored_marks (snd (lb_meta (pl_buffer st)))"
        using cs(3) [OF s(1)] by auto
      have "\<exists>x. cp = Some x \<and> ll_ts l < lc_ts x"
        by (rule skipped_line [OF cp(1) l(1) [unfolded s(2)] \<open>0 \<le> ll_ts l\<close> _ l(2)]) (rule cut)
      with cp(2) obtain x :: log_checkpoint where x: "(cid, lc_ts x, lc_line_hash x) \<in> stored_marks (snd (lb_meta (pl_buffer st)))" "ll_ts l < lc_ts x"
        using True by auto
      from pipe_invD(5) [OF inv x(1)] x(2) h l(2) have "in_store env (lb_logs (pl_buffer st)) (service_of cid) l"
        by (simp add: covered_def)
      then show ?thesis by (simp add: safe_line_def)
    next
      case False
      then show ?thesis using task_partD(2) [OF task _ l] p by (simp add: cs task_reads_def)
    qed
  qed
qed (use pipe_invD(1) [OF inv] container_log_start_marks(2) [OF start] in
  \<open>simp_all add: waiting_lines_def checkpoint_at_def handle_of_def fun_eq_iff\<close>)

lemma pipe_inv_cleanup:
  assumes inv: "pipe_inv env h service_of history horizon st" and cal: "iso_calendar env"
    and cut: "\<And>cutoff. retention_cutoff_ms now_s weeks = Some cutoff \<Longrightarrow> cutoff \<le> horizon" "now_s < 253402300800"
    and run: "cleanup_once env now_s weeks (retained metrics (pl_buffer st)) = Some rt"
  shows "pipe_inv env h service_of history horizon
    (st\<lparr>pl_buffer := (pl_buffer st)\<lparr>lb_logs := rt_logs rt, lb_meta := (rt_registry rt, rt_meta rt)\<rparr>\<rparr>)"
proof -
  obtain cutoff where c: "retention_cutoff_ms now_s weeks = Some cutoff"
    using run by (auto simp: cleanup_once_def split: option.splits)
  obtain rg db where m: "lb_meta (pl_buffer st) = (rg, db)" by (cases "lb_meta (pl_buffer st)")
  obtain logs removed where d: "logs_delete_before env cutoff (lb_logs (pl_buffer st)) = (logs, removed)" by fastforce
  obtain db1 n where k: "delete_checkpoints_before db cutoff = (db1, n)" by fastforce
  define db2 where "db2 = (if isl removed then db else db1)"
  have db2: "set (md_checkpoints db2) \<subseteq> set (md_checkpoints db)"
    using delete_checkpoints_tables(2) [OF k] by (simp add: db2_def)
  obtain rg3 db3 sids where r: "reclaim_before sqlite_ops (rg, db2) (reclaim_cutoff_ms cutoff) = ((rg3, db3), sids)"
    by (metis surj_pair)
  have rt: "rt_logs rt = logs \<and> (rt_meta rt = db2 \<or> rt_meta rt = db3)"
    using run r by (auto simp: cleanup_once_def c retained_def m d k db2_def split: prod.splits if_splits)
  have marks: "stored_marks (rt_meta rt) \<subseteq> stored_marks db"
    using rt db2 reclaim_tables(1) [OF r] by (intro stored_marks_mono) auto
  note kept = logs_delete_before_keeps [OF d]
  have monday: "cutoff mod week_ms = 345600000"
    using retention_cutoff_bounds [OF c cut(2)] by (simp add: week_ms_def)
  have stored: "in_store env logs s l" if "horizon \<le> ll_ts l" "in_store env (lb_logs (pl_buffer st)) s l" for s l
    using unexpired_lines_kept [OF kept cal pipe_invD(1) [OF inv] monday, of "as_stored s l"] that cut(1) [OF c]
    by (simp add: in_store_def) (simp add: as_stored_def)
  show ?thesis
  proof (rule pipe_inv_same [OF inv])
    show "store_wf env (lb_logs (pl_buffer
        (st\<lparr>pl_buffer := (pl_buffer st)\<lparr>lb_logs := rt_logs rt, lb_meta := (rt_registry rt, rt_meta rt)\<rparr>\<rparr>)))"
      using unexpired_store_wf [OF kept pipe_invD(1) [OF inv]] rt by simp
  qed (use marks m rt stored pipe_invD(3) [OF inv] in
    \<open>simp_all add: waiting_lines_def checkpoint_at_def handle_of_def fun_eq_iff\<close>)
qed

lemma pipe_inv_fresh:
  assumes "store_wf env (lb_logs b)" "\<And>s. waiting_lines b s = []"
    and "\<And>s cid m. checkpoint_at b s cid = Some m \<Longrightarrow> (cid, m) \<in> stored_marks (snd (lb_meta b))"
    and "\<And>cid m. (cid, m) \<in> stored_marks (snd (lb_meta b)) \<Longrightarrow>
      covered h horizon (in_store env (lb_logs b) (service_of cid)) (history cid) m"
  shows "pipe_inv env h service_of history horizon (pipeline_start mode log_capacity events_capacity weeks b)"
proof (rule pipe_invI)
  let ?st = "pipeline_start mode log_capacity events_capacity weeks b"
  have f: "pl_buffer ?st = b" "pl_flights ?st = []" "pl_read ?st = Map.empty" "dk_log_queue (pl_docker ?st) = []"
    by (simp_all add: pipeline_start_def docker_service_new_def)
  show "store_wf env (lb_logs (pl_buffer ?st))" by (simp add: f assms(1))
  show "buffer_part h service_of history (pl_flights ?st) (waiting_lines (pl_buffer ?st)) (checkpoint_at (pl_buffer ?st))"
    by (rule buffer_partI) (simp_all add: f assms(2) pending_def)
  show "task_part service_of history horizon (safe_line env ?st) (dk_log_queue (pl_docker ?st)) (pl_read ?st)"
    by (rule task_partI) (simp_all add: f)
  show "covered h horizon (in_store env (lb_logs (pl_buffer ?st)) (service_of cid)) (history cid) m"
    if "(cid, m) \<in> stored_marks (snd (lb_meta (pl_buffer ?st)))" for cid m
    using that assms(4) by (simp add: f)
  show "covered h horizon (safe_line env ?st (service_of cid)) (history cid) m"
    if "checkpoint_at (pl_buffer ?st) (service_of cid) cid = Some m" for cid m
    using covered_mono [OF assms(4) [OF assms(3) [OF that [unfolded f]]], of "safe_line env ?st (service_of cid)"]
    by (simp add: safe_line_def f)
qed

lemma pipe_inv_crash:
  assumes inv: "pipe_inv env h service_of history horizon st"
    and load: "registry_load sqlite_ops (snd (lb_meta (pl_buffer st))) = (db, Inr rg)"
    and new: "log_buffer_new ((log_store_new keep_alive)\<lparr>ls_dirs := ls_dirs (lb_logs (pl_buffer st)), ls_faults := faults\<rparr>)
      (rg, db) flush_watcher_new max_lines = (db', Inr b)"
  shows "pipe_inv env h service_of history horizon (pipeline_start mode log_capacity events_capacity weeks b)"
proof (rule pipe_inv_fresh)
  note seeds = log_buffer_new_seeded [OF new]
  have files: "files_of (lb_logs b) = files_of (lb_logs (pl_buffer st))"
    by (rule files_of_cong) (simp add: seeds(3))
  show "store_wf env (lb_logs b)" using pipe_invD(1) [OF inv] store_wf_cong [OF files] by simp
  show "waiting_lines b s = []" for s by (rule seeds(1))
  show "(cid, m) \<in> stored_marks (snd (lb_meta b))" if "checkpoint_at b s cid = Some m" for s cid m
    using seeds(2) [OF that] by (simp add: seeds(4))
  show "covered h horizon (in_store env (lb_logs b) (service_of cid)) (history cid) m"
    if "(cid, m) \<in> stored_marks (snd (lb_meta b))" for cid m
  proof -
    have "(cid, m) \<in> stored_marks (snd (lb_meta (pl_buffer st)))"
      using that registry_load_marks [OF load] by (simp add: seeds(4))
    from pipe_invD(5) [OF inv this] show ?thesis
      by (simp add: in_store_def [abs_def] log_content_cong [OF files])
  qed
qed

lemma pipeline_reach_inv:
  assumes "pipeline_reach env iter h service_of history horizon st0 st"
    and "pipe_inv env h service_of history horizon st0" "log_history_ok env h service_of history"
    and "iso_calendar env" "\<forall>xs. mset (iter xs) = mset xs"
  shows "pipe_inv env h service_of history horizon st"
  using assms(1)
proof (induction rule: pipeline_reach.induct)
  case pipe_start
  show ?case by (rule assms(2))
next
  case (pipe_task st c now_s now_ms sv start)
  then show ?case by (intro pipe_inv_task assms(3))
next
  case (pipe_task_ends st cid)
  have "task_part service_of history horizon (safe_line env st) (dk_log_queue (pl_docker st)) ((pl_read st)(cid := None))"
    using task_partD [OF pipe_invD(3) [OF pipe_task_ends.IH]] by (intro task_partI) (auto split: if_splits)
  then show ?case using pipe_invD(1) [OF pipe_task_ends.IH] by (intro pipe_inv_same [OF pipe_task_ends.IH]) simp_all
next
  case (pipe_send st cid p sv)
  have "ll_cid (history cid ! p) = cid" using log_history_okD(3) [OF assms(3) nth_mem] pipe_send.hyps(3) .
  note task_part_send [OF pipe_invD(3) [OF pipe_send.IH] log_history_okD(1) [OF assms(3)] pipe_send.hyps(2,3) this]
  then show ?case using pipe_invD(1) [OF pipe_send.IH] send_log_line_done [OF pipe_send.hyps(4)]
    by (intro pipe_inv_same [OF pipe_send.IH]) simp_all
next
  case (pipe_receive st line sv b backlog)
  then show ?case by (intro pipe_inv_receive assms(3))
next
  case (pipe_worker st step service)
  have same: "same_lines (pl_buffer st) (step (pl_buffer st))"
    using pipe_worker.hyps(2) same_lines_schedule same_lines_step by blast
  have "lb_meta (step (pl_buffer st)) = lb_meta (pl_buffer st)"
    using pipe_worker.hyps(2) by (auto simp: schedule_flush_def worker_receive_def worker_wake_def worker_idle_def
        update_worker_def Let_def split: option.splits)
  then show ?case using same pipe_invD(1,3) [OF pipe_worker.IH]
    by (intro pipe_inv_same [OF pipe_worker.IH]) (simp_all add: same_lines_def)
next
  case (pipe_take st service lines cps s)
  then show ?case by (intro pipe_inv_take)
next
  case (pipe_land st fs1 service lines cps fs2 now)
  then show ?case by (intro pipe_inv_land assms(3-5))
next
  case (pipe_cleanup st now_s weeks metrics rt)
  then show ?case by (intro pipe_inv_cleanup assms(4))
next
  case (pipe_crash st db rg keep_alive faults max_lines db' b mode log_capacity events_capacity weeks)
  then show ?case by (intro pipe_inv_crash)
qed


section \<open>A run with a crash\<close>

definition web_container :: observed_container where
  "web_container = \<lparr>oc_id = ContainerId 1 2 3 4 5 6, oc_full_id = ''010203040506'', oc_name = ''web'', oc_service = ''web''\<rparr>"

definition two_lines :: "container_id \<Rightarrow> log_line list" where
  "two_lines cid = (if cid = ContainerId 1 2 3 4 5 6 then [hello_line 7000, hello_line 8000] else [])"

definition web_meta :: "service_registry \<times> metadata_db" where
  "web_meta = (\<lparr>rg_by_name = [(''web'', ServiceId 1)], rg_by_id = [(ServiceId 1, ''web'')],
      rg_touched_ms = [(ServiceId 1, 0)]\<rparr>,
     empty_metadata\<lparr>md_services := [\<lparr>sr_sid = 1, sr_name = ''web'', sr_last_seen_ms = 0\<rparr>], md_sequence := 1\<rparr>)"

definition started_pipeline :: log_pipeline where
  "started_pipeline = pipeline_start ControlsEnabled 8 8 0 small_buffer"

lemma two_lines_ok: "log_history_ok week_one_env (\<lambda>_ _. 0) (\<lambda>_. ''web'') two_lines"
  by (auto simp: log_history_ok_def two_lines_def hello_line_def line_mark_def dated_def week_name_def
      week_database_name_def week_one_env_def inj_on_def)

lemma web_task:
  "container_log_start web_container 0 0 ((pl_docker started_pipeline)\<lparr>dk_meta := lb_meta small_buffer\<rparr>)
    = ((pl_docker started_pipeline)\<lparr>dk_meta := web_meta\<rparr>, TaskFollows (- 259200))"
  by (simp add: container_log_start_def started_pipeline_def pipeline_start_def docker_service_new_def small_buffer_def
      id_of_def fresh_cached_id_def cached_id_def registry_empty_def sqlite_ops_def resolve_service_def empty_metadata_def
      md_next_def web_container_def web_meta_def stored_service_id_def load_log_checkpoint_def log_since_secs_def
      retention_cutoff_ms_def days_from_monday_def date_min_day_def i64_wrap_def clamp_to_i32_def hm_insert_def Let_def)

abbreviation web_reach :: "log_pipeline \<Rightarrow> bool" where
  "web_reach \<equiv> pipeline_reach week_one_env id (\<lambda>_ _. 0) (\<lambda>_. ''web'') two_lines 0 started_pipeline"

definition web_buffer :: "log_line list \<Rightarrow> (container_id \<times> (i64 \<times> u64)) list \<Rightarrow> log_store log_buffer" where
  "web_buffer waiting marks = small_buffer\<lparr>lb_meta := web_meta, lb_services := [(''web'',
     \<lparr>sh_state = \<lparr>bs_lines = waiting, bs_checkpoints = marks\<rparr>, sh_worker = None\<rparr>)]\<rparr>"

lemma web_reach_task:
  "\<exists>sv. web_reach \<lparr>pl_docker = sv, pl_buffer = small_buffer\<lparr>lb_meta := web_meta\<rparr>, pl_flights = [],
     pl_read = [ContainerId 1 2 3 4 5 6 \<mapsto> 0]\<rparr> \<and> dk_log_queue sv = [] \<and> \<not> dk_logs_closed sv \<and> dk_log_capacity sv = 8"
proof -
  have cut: "cutoff \<le> 0" if "retention_cutoff_ms 0 (dk_weeks (pl_docker started_pipeline)) = Some cutoff" for cutoff
    using that by (simp add: retention_cutoff_ms_def days_from_monday_def date_min_day_def i64_wrap_def
        started_pipeline_def pipeline_start_def docker_service_new_def)
  have b: "pl_buffer started_pipeline = small_buffer" by (simp add: started_pipeline_def pipeline_start_def)
  have read: "task_reads two_lines (oc_id web_container) (TaskFollows (- 259200)) (pl_read started_pipeline)
      = [ContainerId 1 2 3 4 5 6 \<mapsto> 0]"
    by (simp add: task_reads_def skipped_before_def two_lines_def web_container_def started_pipeline_def
        pipeline_start_def hello_line_def)
  have "web_reach (started_pipeline\<lparr>pl_docker := (pl_docker started_pipeline)\<lparr>dk_meta := web_meta\<rparr>,
      pl_buffer := (pl_buffer started_pipeline)\<lparr>lb_meta := dk_meta ((pl_docker started_pipeline)\<lparr>dk_meta := web_meta\<rparr>)\<rparr>,
      pl_read := task_reads two_lines (oc_id web_container) (TaskFollows (- 259200)) (pl_read started_pipeline)\<rparr>)"
  proof (rule pipe_task [OF pipe_start])
    show "oc_service web_container = ''web''" by (simp add: web_container_def)
    show "container_log_start web_container 0 0 ((pl_docker started_pipeline)\<lparr>dk_meta := lb_meta (pl_buffer started_pipeline)\<rparr>)
        = ((pl_docker started_pipeline)\<lparr>dk_meta := web_meta\<rparr>, TaskFollows (- 259200))" unfolding b by (rule web_task)
  qed (rule cut)
  then have "web_reach (started_pipeline\<lparr>pl_docker := (pl_docker started_pipeline)\<lparr>dk_meta := web_meta\<rparr>,
      pl_buffer := small_buffer\<lparr>lb_meta := web_meta\<rparr>, pl_read := [ContainerId 1 2 3 4 5 6 \<mapsto> 0]\<rparr>)"
    by (simp add: b read)
  then show ?thesis
    by (intro exI [of _ "(pl_docker started_pipeline)\<lparr>dk_meta := web_meta\<rparr>"])
      (simp add: started_pipeline_def pipeline_start_def docker_service_new_def)
qed

lemma web_reach_line:
  assumes "web_reach \<lparr>pl_docker = sv, pl_buffer = b, pl_flights = [], pl_read = [ContainerId 1 2 3 4 5 6 \<mapsto> p]\<rparr>"
    and "dk_log_queue sv = []" "\<not> dk_logs_closed sv" "dk_log_capacity sv = 8" "p < 2"
    and "push_locked (\<lambda>_ _. 0) (two_lines (ContainerId 1 2 3 4 5 6) ! p) b = (b', backlog)"
  shows "\<exists>sv. web_reach \<lparr>pl_docker = sv, pl_buffer = b', pl_flights = [], pl_read = [ContainerId 1 2 3 4 5 6 \<mapsto> Suc p]\<rparr>
    \<and> dk_log_queue sv = [] \<and> \<not> dk_logs_closed sv \<and> dk_log_capacity sv = 8"
proof -
  let ?line = "two_lines (ContainerId 1 2 3 4 5 6) ! p"
  obtain sv1 where s: "send_log_line ?line sv = SendDone sv1" and q: "dk_log_queue sv1 = [?line]"
    and o: "\<not> dk_logs_closed sv1" "dk_log_capacity sv1 = 8"
    using assms(2-4) by (simp add: send_log_line_def Let_def)
  have "p < length (two_lines (ContainerId 1 2 3 4 5 6))" using assms(5) by (simp add: two_lines_def)
  from pipe_send [OF assms(1) _ this, of sv1] s
  have sent: "web_reach \<lparr>pl_docker = sv1, pl_buffer = b, pl_flights = [], pl_read = [ContainerId 1 2 3 4 5 6 \<mapsto> Suc p]\<rparr>"
    by simp
  have "receive_log_line sv1 = Some (?line, sv1\<lparr>dk_log_queue := []\<rparr>)" by (simp add: receive_log_line_def q)
  from pipe_receive [OF sent, of ?line "sv1\<lparr>dk_log_queue := []\<rparr>" b' backlog] this assms(6)
  have "web_reach \<lparr>pl_docker = sv1\<lparr>dk_log_queue := []\<rparr>, pl_buffer = b', pl_flights = [],
      pl_read = [ContainerId 1 2 3 4 5 6 \<mapsto> Suc p]\<rparr>" by simp
  then show ?thesis by (intro exI [of _ "sv1\<lparr>dk_log_queue := []\<rparr>"]) (simp add: o)
qed

lemmas web_simps = web_buffer_def push_locked_def accept_line_def hello_line_def hash_line_def handle_of_def
  update_state_def put_handle_def small_buffer_def empty_state_def hm_insert_def

lemma web_reach_read:
  "\<exists>sv. web_reach \<lparr>pl_docker = sv, pl_buffer = web_buffer [hello_line 7000, hello_line 8000] [(ContainerId 1 2 3 4 5 6, 8000, 0)],
     pl_flights = [], pl_read = [ContainerId 1 2 3 4 5 6 \<mapsto> 2]\<rparr>"
proof -
  have lines: "two_lines (ContainerId 1 2 3 4 5 6) ! 0 = hello_line 7000"
    "two_lines (ContainerId 1 2 3 4 5 6) ! 1 = hello_line 8000" by (simp_all add: two_lines_def)
  have p1: "push_locked (\<lambda>_ _. 0) (two_lines (ContainerId 1 2 3 4 5 6) ! 0) (small_buffer\<lparr>lb_meta := web_meta\<rparr>)
      = (web_buffer [hello_line 7000] [(ContainerId 1 2 3 4 5 6, 7000, 0)], Some 1)"
    unfolding lines by (simp add: web_simps Let_def)
  have p2: "push_locked (\<lambda>_ _. 0) (two_lines (ContainerId 1 2 3 4 5 6) ! 1) (web_buffer [hello_line 7000] [(ContainerId 1 2 3 4 5 6, 7000, 0)])
      = (web_buffer [hello_line 7000, hello_line 8000] [(ContainerId 1 2 3 4 5 6, 8000, 0)], Some 2)"
    unfolding lines by (simp add: web_simps Let_def)
  obtain sv where "web_reach \<lparr>pl_docker = sv, pl_buffer = small_buffer\<lparr>lb_meta := web_meta\<rparr>, pl_flights = [],
     pl_read = [ContainerId 1 2 3 4 5 6 \<mapsto> 0]\<rparr>" "dk_log_queue sv = []" "\<not> dk_logs_closed sv" "dk_log_capacity sv = 8"
    using web_reach_task by blast
  from web_reach_line [OF this _ p1] obtain sv1 where
    "web_reach \<lparr>pl_docker = sv1, pl_buffer = web_buffer [hello_line 7000] [(ContainerId 1 2 3 4 5 6, 7000, 0)],
       pl_flights = [], pl_read = [ContainerId 1 2 3 4 5 6 \<mapsto> 1]\<rparr>"
    "dk_log_queue sv1 = []" "\<not> dk_logs_closed sv1" "dk_log_capacity sv1 = 8" by auto
  from web_reach_line [OF this _ p2] show ?thesis by (auto simp: numeral_2_eq_2)
qed

definition marked_metadata :: metadata_db where
  "marked_metadata = (snd web_meta)\<lparr>md_checkpoints :=
     [\<lparr>kr_sid = 1, kr_cid = [1, 2, 3, 4, 5, 6], kr_ts = 8000, kr_line_hash = 0\<rparr>]\<rparr>"

lemma web_reach_crashed:
  "\<exists>b. web_reach (pipeline_start ControlsEnabled 8 8 0 b) \<and> snd (lb_meta b) = marked_metadata"
proof -
  let ?b = "web_buffer [hello_line 7000, hello_line 8000] [(ContainerId 1 2 3 4 5 6, 8000, 0)]"
  let ?lines = "[hello_line 7000, hello_line 8000]" and ?cps = "[(ContainerId 1 2 3 4 5 6, 8000, 0)]"
  obtain sv where read: "web_reach \<lparr>pl_docker = sv, pl_buffer = ?b, pl_flights = [],
      pl_read = [ContainerId 1 2 3 4 5 6 \<mapsto> 2]\<rparr>" using web_reach_read by blast
  have "flush_take (sh_state (handle_of ?b ''web'')) = (Some (?lines, ?cps), (sh_state (handle_of ?b ''web''))\<lparr>bs_lines := []\<rparr>)"
    by (simp add: web_simps flush_take_def List.map_filter_def Let_def)
  from pipe_take [OF read, of "''web''"] this
  have taken: "web_reach \<lparr>pl_docker = sv, pl_buffer = web_buffer [] [(ContainerId 1 2 3 4 5 6, 8000, 0)],
      pl_flights = [(''web'', ?lines, ?cps)], pl_read = [ContainerId 1 2 3 4 5 6 \<mapsto> 2]\<rparr>"
    by (simp add: web_simps)
  let ?b1 = "web_buffer [] [(ContainerId 1 2 3 4 5 6, 8000, 0)]"
  have "\<forall>line \<in> set ?lines. dated (ll_ts line)" "ls_faults (lb_logs ?b1) = []"
    by (simp_all add: hello_line_def dated_def web_buffer_def small_buffer_def week_one_store_def log_store_new_def)
  from logs_append_succeeds [OF week_one_calendar _ this, of id "''web''"] obtain logs where
    a: "logs_append week_one_env id ''web'' ?lines (lb_logs ?b1) = (logs, Some (Inr ()))" by auto
  define b2 where "b2 = flush_land (logs_append week_one_env id) ''web'' ?lines ?cps 0 ?b1"
  have meta: "snd (lb_meta b2) = marked_metadata"
    unfolding b2_def flush_land_def a
    by (simp add: web_buffer_def small_buffer_def web_meta_def id_of_def fresh_cached_id_def i64_wrap_def
        touch_interval_ms_def advance_log_checkpoint_def empty_metadata_def md_next_def sid_int_def encode_hash_def
        marked_metadata_def checkpoint_key_def Let_def)
  from pipe_land [OF taken, of "[]" "''web''" ?lines ?cps "[]" 0]
  have landed: "web_reach \<lparr>pl_docker = sv, pl_buffer = b2, pl_flights = [], pl_read = [ContainerId 1 2 3 4 5 6 \<mapsto> 2]\<rparr>"
    by (simp add: b2_def)
  obtain rg where load: "registry_load sqlite_ops marked_metadata = (marked_metadata, Inr rg)"
    by (simp add: registry_load_def sqlite_ops_def list_services_def marked_metadata_def web_meta_def empty_metadata_def
        md_next_def stored_service_id_def)
  obtain b where new: "log_buffer_new ((log_store_new 300)\<lparr>ls_dirs := ls_dirs (lb_logs b2), ls_faults := []\<rparr>)
      (rg, marked_metadata) flush_watcher_new 1000 = (marked_metadata, Inr b)"
    by (simp add: log_buffer_new_def list_log_checkpoints_def md_next_def marked_metadata_def web_meta_def empty_metadata_def)
  have "web_reach (pipeline_start ControlsEnabled 8 8 0 b)"
    using pipe_crash [OF landed, where db = marked_metadata and rg = rg and keep_alive = 300 and faults = "[]"
        and max_lines = 1000 and db' = marked_metadata and b = b] load new meta by simp
  then show ?thesis using log_buffer_new_seeded(5) [OF new] by auto
qed


section \<open>Two flushes of a service\<close>

text \<open>
  The exclusion is needed. A \<^verbatim>\<open>push\<close> that reaches the backlog limit flushes on its own while the worker's
  flush may still wait for the store. When the later of the two lands first, the stored checkpoint lies
  beyond the lines of the earlier one: a crash at that moment loses them, since a restart resumes at the
  checkpoint.
\<close>

lemma overlapping_flush_passes_line:
  "\<exists>r. buffer_reach False (logs_append week_one_env id) (\<lambda>_ _. 0) small_buffer r \<and>
     hello_line 7000 \<in> set (br_accepted r) \<and>
     (ContainerId 1 2 3 4 5 6, 8000, 0) \<in> stored_marks (snd (lb_meta (br_buffer r))) \<and>
     as_stored ''web'' (hello_line 7000) \<notin># log_content week_one_env (lb_logs (br_buffer r)) ''web''"
proof -
  let ?reach = "buffer_reach False (logs_append week_one_env id) (\<lambda>_ _. 0) small_buffer"
  define buf where "buf = (\<lambda>waiting marks. small_buffer\<lparr>lb_services := [(''web'',
     \<lparr>sh_state = \<lparr>bs_lines = waiting, bs_checkpoints = [(ContainerId 1 2 3 4 5 6, marks, 0)]\<rparr>, sh_worker = None\<rparr>)]\<rparr>)"
  define fl where "fl = (\<lambda>ts. (''web'', [hello_line ts], [(ContainerId 1 2 3 4 5 6, ts, 0 :: u64)]))"
  have d: "dated (ll_ts (hello_line 7000))" "dated (ll_ts (hello_line 8000))" by (simp_all add: hello_line_def dated_def)
  have take: "flush_take (sh_state (handle_of (buf [hello_line ts] ts) ''web'')) =
      (Some ([hello_line ts], [(ContainerId 1 2 3 4 5 6, ts, 0)]), \<lparr>bs_lines = [], bs_checkpoints = [(ContainerId 1 2 3 4 5 6, ts, 0)]\<rparr>)"
    "update_state ''web'' (\<lambda>_. \<lparr>bs_lines = [], bs_checkpoints = [(ContainerId 1 2 3 4 5 6, ts, 0)]\<rparr>) (buf [hello_line ts] ts) = buf [] ts"
    for ts
    by (simp_all add: buf_def handle_of_def flush_take_def hello_line_def List.map_filter_def Let_def update_state_def
        put_handle_def hm_insert_def)
  have push: "push_locked (\<lambda>_ _. 0) (hello_line 7000) small_buffer = (buf [hello_line 7000] 7000, Some 1)"
    "push_locked (\<lambda>_ _. 0) (hello_line 8000) (buf [] 7000) = (buf [hello_line 8000] 8000, Some 1)"
    by (simp_all add: buf_def web_simps Let_def)
  have "?reach \<lparr>br_buffer = buf [hello_line 7000] 7000, br_flights = [], br_accepted = [hello_line 7000]\<rparr>"
    using run_push [OF run_start d(1), where b' = "buf [hello_line 7000] 7000" and backlog = "Some 1"] push(1)
    by (simp add: run_from_def)
  from run_take [OF this, of "''web''"] take
  have "?reach \<lparr>br_buffer = buf [] 7000, br_flights = [fl 7000], br_accepted = [hello_line 7000]\<rparr>" by (simp add: fl_def)
  from run_push [OF this d(2), where b' = "buf [hello_line 8000] 8000" and backlog = "Some 1"] push(2)
  have "?reach \<lparr>br_buffer = buf [hello_line 8000] 8000, br_flights = [fl 7000],
      br_accepted = [hello_line 7000, hello_line 8000]\<rparr>" by simp
  from run_take [OF this, of "''web''"] take
  have taken: "?reach \<lparr>br_buffer = buf [] 8000, br_flights = [fl 7000, fl 8000],
      br_accepted = [hello_line 7000, hello_line 8000]\<rparr>" by (simp add: fl_def)
  have logs: "lb_logs (buf [] 8000) = week_one_store" by (simp add: buf_def small_buffer_def)
  have dated: "\<forall>line \<in> set [hello_line 8000]. dated (ll_ts line)" using d(2) by simp
  have "ls_faults week_one_store = []" by (simp add: week_one_store_def log_store_new_def)
  from logs_append_succeeds [OF week_one_calendar _ dated this, of id "''web''"] obtain logs where
    a: "logs_append week_one_env id ''web'' [hello_line 8000] week_one_store = (logs, Some (Inr ()))" by auto
  define b where "b = flush_land (logs_append week_one_env id) ''web'' [hello_line 8000] [(ContainerId 1 2 3 4 5 6, 8000, 0)] 0 (buf [] 8000)"
  have r: "?reach \<lparr>br_buffer = b, br_flights = [fl 7000], br_accepted = [hello_line 7000, hello_line 8000]\<rparr>"
    using run_land [OF taken, of "[fl 7000]" "''web''" "[hello_line 8000]" "[(ContainerId 1 2 3 4 5 6, 8000, 0)]" "[]" 0]
    by (simp add: b_def fl_def)
  have stored: "log_content week_one_env logs ''web'' = log_content week_one_env week_one_store ''web''
      + mset (map (as_stored ''web'') (filter (\<lambda>l. week_name week_one_env (ll_ts l) \<noteq> None) [hello_line 8000]))"
    using logs_append_law [OF week_one_calendar week_one_wf _ dated, of id "''web''"] by (simp add: a appended_def)
  have b_logs: "lb_logs b = logs"
    using flush_land_lines(1) [where append_lines = "logs_append week_one_env id" and b = "buf [] 8000", OF a [folded logs]]
    by (simp add: b_def)
  have ts: "ll_ts l \<noteq> 7000" if "l \<in># log_content week_one_env week_one_store ''web''" for l
    using that by (auto simp: log_content_def service_log_def week_one_store_def log_store_new_def files_of_def
        safe_service_path_def path_parts_def week_entries_def List.map_filter_def decode_row_def example_row_def
        i64_wrap_def week_one_start Let_def split: option.splits if_splits)
  have "as_stored ''web'' (hello_line 7000) \<notin># log_content week_one_env (lb_logs b) ''web''"
    unfolding b_logs stored using ts [of "as_stored ''web'' (hello_line 7000)"]
    by (auto simp: as_stored_def hello_line_def)
  moreover have "(ContainerId 1 2 3 4 5 6, 8000, 0) \<in> stored_marks (snd (lb_meta b))"
    unfolding b_def flush_land_def logs a
    by (simp add: buf_def small_buffer_def id_of_def fresh_cached_id_def cached_id_def registry_empty_def sqlite_ops_def
        resolve_service_def empty_metadata_def md_next_def stored_service_id_def advance_log_checkpoint_def
        stored_marks_def sid_int_def encode_hash_def decode_hash_def Let_def)
  ultimately show ?thesis using r by (intro exI) (rule conjI, assumption, simp)
qed

end
