(* ===== verification/Metrics_Pipeline.thy ===== *)
theory Metrics_Pipeline
  imports Collector_Loop
begin

text \<open>
  From the samples of the machine to the points of a query. The theory composes the collection of
  \<open>Collector_Loop\<close>, the store and its rollup of \<open>Metrics_Store\<close>, restarts of the program and the query
  that the host metrics handler and the host stream use.
\<close>

section \<open>A life of the collection\<close>

text \<open>
  What happens to the collection: a tick of the host task with the outcomes of its three
  measurements, a batch of container samples, a new peak of the log channel, a restart of the program.
\<close>

datatype collector_input =
    HostTick "host_raw_sample app_result" "u64 app_result" "u64 app_result"
  | ContainerBatch "container_raw_sample list"
  | LogPressure u64
  | Restart

fun collector_apply ::
  "(service_id \<Rightarrow> string option) \<Rightarrow> nat \<Rightarrow> u8 \<Rightarrow> collector_loop \<Rightarrow> collector_input \<Rightarrow> collector_loop" where
  "collector_apply name_of interval pct l (HostTick sampled ms ls) = collect_host_once l sampled ms ls"
| "collector_apply name_of interval pct l (ContainerBatch batch) = collect_containers_once name_of l batch"
| "collector_apply name_of interval pct l (LogPressure p) = l\<lparr>cl_log_pressure := p\<rparr>"
| "collector_apply name_of interval pct l Restart =
     (case store_connect (mt_db (cl_metrics l)) pct of
        (_, Inl _) \<Rightarrow> l
      | (_, Inr st) \<Rightarrow> loop_new interval st)"

definition collector_run ::
  "(service_id \<Rightarrow> string option) \<Rightarrow> nat \<Rightarrow> u8 \<Rightarrow> collector_loop \<Rightarrow> collector_input list \<Rightarrow> collector_loop" where
  "collector_run name_of interval pct = foldl (collector_apply name_of interval pct)"

text \<open>The sample that a tick observes, and the row that it flushes.\<close>

fun tick_sample :: "collector_loop \<Rightarrow> collector_input \<Rightarrow> host_raw_sample option" where
  "tick_sample l (HostTick (Inr s) (Inr ms) (Inr ls)) =
     Some (s\<lparr>hr_metrics_size := ms, hr_logs_size := ls, hr_log_pressure_pct_mill := cl_log_pressure l\<rparr>)"
| "tick_sample l _ = None"

definition tick_row :: "collector_loop \<Rightarrow> collector_input \<Rightarrow> host_sample option" where
  "tick_row l i = Option.bind (tick_sample l i) (\<lambda>s. snd (host_observe (cl_host l) s))"

fun tick_time :: "collector_input \<Rightarrow> i64 option" where
  "tick_time (HostTick (Inr s) (Inr ms) (Inr ls)) = Some (hr_ts s)"
| "tick_time _ = None"

text \<open>The rows that a run flushes, in order.\<close>

fun flushed_rows ::
  "(service_id \<Rightarrow> string option) \<Rightarrow> nat \<Rightarrow> u8 \<Rightarrow> collector_loop \<Rightarrow> collector_input list \<Rightarrow> host_sample list" where
  "flushed_rows name_of interval pct l [] = []"
| "flushed_rows name_of interval pct l (i # inputs) =
     option_list (tick_row l i) @ flushed_rows name_of interval pct (collector_apply name_of interval pct l i) inputs"

definition host_table :: "metrics_resolution \<Rightarrow> u8 \<Rightarrow> host_sample list \<Rightarrow> host_sample list" where
  "host_table r pct rows = (if r = TenSeconds then rows else coarse_view r pct rows)"

section \<open>Containers leave the host tables alone\<close>

lemma insert_chunks_faultless:
  "insert_chunks rp cs db t = (db1, res) \<Longrightarrow> db_faults db = [] \<Longrightarrow> db_faults db1 = []"
  by (induction cs arbitrary: db t) (auto split: option.splits)

lemma schema_insert_containers_faultless:
  assumes "schema_insert_containers db r samples = (db1, res)" "db_faults db = []"
  shows "db_faults db1 = []"
  using assms insert_chunks_faultless
  by (fastforce simp: schema_insert_containers_def split: if_splits sum.splits prod.splits option.splits)

lemma roll_containers_closed_faultless:
  "roll_containers_closed samples pct cs db = (db1, res) \<Longrightarrow> db_faults db = [] \<Longrightarrow> db_faults db1 = []"
proof (induction cs arbitrary: db)
  case (Cons rc cs)
  then show ?case using schema_insert_containers_faultless
    by (cases rc) (fastforce simp: Let_def split: prod.splits sum.splits)
qed simp

lemma roll_up_containers_faultless:
  "db_faults db = [] \<Longrightarrow> db_faults (fst (roll_up_containers db p n pct)) = []"
  by (auto simp: roll_up_containers_def Let_def schema_select_containers_def
      split: option.splits sum.splits) (metis fst_conv roll_containers_closed_faultless surj_pair)

lemma store_insert_containers_host:
  assumes "host_view S st" "store_insert_containers st rows = (st', res)"
  shows "host_view S st' \<and> mt_max_gap_pct st' = mt_max_gap_pct st"
proof -
  have f: "db_faults (mt_db st) = []" using assms(1) by (simp add: host_view_def)
  obtain db1 res1 where i: "schema_insert_containers (mt_db st) TenSeconds rows = (db1, res1)" by fastforce
  have db1: "db_host db1 = db_host (mt_db st)" "db_faults db1 = []"
    using schema_insert_containers_other(1) [OF i] schema_insert_containers_faultless [OF i f] by simp_all
  have "db_host (mt_db st') = db_host (mt_db st) \<and> db_faults (mt_db st') = [] \<and>
      mt_last_host_ts st' = mt_last_host_ts st \<and> mt_max_gap_pct st' = mt_max_gap_pct st"
    using assms(2) db1 f
    by (auto simp: store_insert_containers_def i Let_def roll_up_containers_table(2) roll_up_containers_faultless
        split: option.splits sum.splits prod.splits)
  then show ?thesis using assms(1) by (simp add: host_view_def)
qed

section \<open>The run keeps the view\<close>

lemma collect_host_once_store:
  "cl_metrics (collect_host_once l sampled ms ls) = (case tick_row l (HostTick sampled ms ls) of
     None \<Rightarrow> cl_metrics l | Some row \<Rightarrow> fst (store_insert_host (cl_metrics l) row))"
  "cl_host (collect_host_once l sampled ms ls) = (case tick_sample l (HostTick sampled ms ls) of
     None \<Rightarrow> cl_host l | Some s \<Rightarrow> fst (host_observe (cl_host l) s))"
  by (auto simp: collect_host_once_def tick_row_def Let_def split: sum.splits option.splits prod.splits)

lemma collect_containers_once_store:
  "cl_host (collect_containers_once name_of l batch) = cl_host l"
  "host_view S (cl_metrics l) \<Longrightarrow> host_view S (cl_metrics (collect_containers_once name_of l batch)) \<and>
     mt_max_gap_pct (cl_metrics (collect_containers_once name_of l batch)) = mt_max_gap_pct (cl_metrics l)"
  using store_insert_containers_host [of S "cl_metrics l"]
  by (auto simp: collect_containers_once_def Let_def split: sum.splits option.splits prod.splits)

text \<open>
  The rows so far lie in buckets that ended before the bucket of the newest sample, which is the one
  the collector is filling.
\<close>

definition run_view :: "u8 \<Rightarrow> host_sample list \<Rightarrow> i64 option \<Rightarrow> collector_loop \<Rightarrow> bool" where
  "run_view pct S newest l \<longleftrightarrow>
     host_view S (cl_metrics l) \<and> mt_max_gap_pct (cl_metrics l) = pct \<and> stream_ok S \<and>
     (case newest of None \<Rightarrow> S = [] \<and> hcs_last_raw_bucket_end (cl_host l) = None
      | Some t \<Rightarrow> clock_ok t \<and> (\<forall>s \<in> set S. hs_ts s < bucket_end t 10000) \<and>
          hcs_last_raw_bucket_end (cl_host l) \<in> {None, Some (bucket_end t 10000)})"

lemma bucket_end_clock:
  assumes "clock_ok t"
  shows "ts_ok t" "ts_ok (bucket_end t 10000)"
proof -
  show t: "ts_ok t" using assms by (simp add: clock_ok_def ts_ok_def)
  from bucket_end_window [OF this, of TenSeconds] assms show "ts_ok (bucket_end t 10000)"
    by (simp add: clock_ok_def ts_ok_def)
qed

lemma raw_bucket_mono:
  assumes "clock_ok t" "clock_ok u" "t \<le> u"
  shows "bucket_end t 10000 \<le> bucket_end u 10000"
  using sorted_bucket_ends [of "[t, u]" TenSeconds] assms bucket_end_clock(1) by simp

text \<open>A row with a value beyond SQLite's integers is refused and leaves no trace.\<close>

lemma unstorable_row_refused:
  assumes "\<not> host_storable row"
  shows "fst (store_insert_host st row) = st"
proof -
  obtain e where "host_row_of row = Inl e"
    using assms by (cases "host_row_of row") auto
  then show ?thesis by (simp add: store_insert_host_def schema_insert_host_def)
qed

lemma run_view_tick:
  assumes view: "run_view pct S newest l" and s: "tick_sample l i = Some s" "i = HostTick sampled ms ls"
    and t: "clock_ok (hr_ts s)" "\<And>u. newest = Some u \<Longrightarrow> u \<le> hr_ts s"
  shows "run_view pct (S @ filter host_storable (option_list (tick_row l i))) (Some (hr_ts s)) (collector_apply name_of interval pct l i)"
proof -
  let ?l = "collector_apply name_of interval pct l i" and ?t = "hr_ts s"
  note v = view [unfolded run_view_def]
  have host: "hcs_last_raw_bucket_end (cl_host ?l) = Some (bucket_end ?t 10000)"
    using s by (simp add: collect_host_once_store)
  have old: "hs_ts r < bucket_end ?t 10000" if "r \<in> set S" for r
    using v that t raw_bucket_mono [of _ ?t] by (cases newest) (auto intro: less_le_trans)
  show ?thesis
  proof (cases "tick_row l i")
    case None
    then have "cl_metrics ?l = cl_metrics l" using s(2) by (simp add: collect_host_once_store)
    then show ?thesis using v host old t(1) None by (simp add: run_view_def option_list_def)
  next
    case (Some row)
    then have row: "snd (host_observe (cl_host l) s) = Some row" using s(1) by (simp add: tick_row_def)
    note last = host_observe_row [OF row]
    have metrics: "cl_metrics ?l = fst (store_insert_host (cl_metrics l) row)"
      using s(2) Some by (simp add: collect_host_once_store)
    show ?thesis
    proof (cases "host_storable row")
      case False
      then have "cl_metrics ?l = cl_metrics l" unfolding metrics by (simp add: unstorable_row_refused)
      then show ?thesis using v host old t(1) Some False by (simp add: run_view_def option_list_def)
    next
      case storable: True
      obtain u where u: "newest = Some u" "hs_ts row = bucket_end u 10000" "clock_ok u"
        using v last(1) by (cases newest) auto
      have ok: "stream_ok (S @ [row])"
        using v u storable bucket_end_clock(2) [OF u(3)] by (auto simp: stream_ok_snoc)
      from host_view_step [OF _ this, of "cl_metrics l"] v
      have "host_view (S @ [row]) (cl_metrics ?l)" "mt_max_gap_pct (cl_metrics ?l) = pct"
        unfolding metrics by simp_all
      then show ?thesis using ok host old t(1) last(2) Some storable by (auto simp: run_view_def option_list_def)
    qed
  qed
qed

lemma run_view_step:
  assumes view: "run_view pct S newest l"
    and t: "\<And>t. tick_time i = Some t \<Longrightarrow> clock_ok t" "\<And>t u. tick_time i = Some t \<Longrightarrow> newest = Some u \<Longrightarrow> u \<le> t"
  shows "run_view pct (S @ filter host_storable (option_list (tick_row l i))) (case tick_time i of None \<Rightarrow> newest | t \<Rightarrow> t)
    (collector_apply name_of interval pct l i)"
proof (cases "tick_sample l i")
  case (Some s)
  then obtain sampled ms ls where i: "i = HostTick sampled ms ls" by (cases "(l, i)" rule: tick_sample.cases) auto
  have time: "tick_time i = Some (hr_ts s)" using Some by (cases "(l, i)" rule: tick_sample.cases) auto
  from run_view_tick [OF view Some i t(1) [OF time] t(2) [OF time], of name_of interval] time
  show ?thesis by simp
next
  case None
  then have none: "tick_row l i = None" "tick_time i = None"
    by (simp_all add: tick_row_def, cases "(l, i)" rule: tick_sample.cases) auto
  note v = view [unfolded run_view_def]
  have "run_view pct S newest (collector_apply name_of interval pct l i)"
  proof (cases i)
    case (HostTick sampled ms ls)
    then have "cl_metrics (collect_host_once l sampled ms ls) = cl_metrics l" "cl_host (collect_host_once l sampled ms ls) = cl_host l"
      using None none by (simp_all add: collect_host_once_store)
    then show ?thesis using v HostTick unfolding run_view_def by (cases newest) auto
  next
    case (ContainerBatch batch)
    then show ?thesis using v collect_containers_once_store(2) [of S l name_of batch]
        collect_containers_once_store(1) [of name_of l batch]
      unfolding run_view_def by (cases newest) auto
  next
    case (LogPressure p)
    then show ?thesis using v unfolding run_view_def by (cases newest) auto
  next
    case Restart
    obtain db res where c: "store_connect (mt_db (cl_metrics l)) pct = (db, res)" by fastforce
    show ?thesis
    proof (cases res)
      case (Inl e)
      then show ?thesis using Restart c view by simp
    next
      case (Inr st)
      then have "host_view S st \<and> mt_max_gap_pct st = pct"
        using host_view_restart [of S "cl_metrics l" db st] v c by simp
      then show ?thesis using v Restart c Inr
        by (auto simp: run_view_def loop_new_def host_collector_new_def split: option.splits)
    qed
  qed
  then show ?thesis using none by (simp add: option_list_def)
qed

lemma run_view_run:
  assumes "run_view pct S newest l"
    and "sorted (option_list newest @ List.map_filter tick_time inputs)"
    and "list_all clock_ok (List.map_filter tick_time inputs)"
  shows "\<exists>newest'. run_view pct (S @ filter host_storable (flushed_rows name_of interval pct l inputs)) newest'
    (collector_run name_of interval pct l inputs)"
  using assms
proof (induction inputs arbitrary: S newest l)
  case Nil
  then show ?case by (auto simp: collector_run_def)
next
  case (Cons i inputs)
  let ?newest = "case tick_time i of None \<Rightarrow> newest | t \<Rightarrow> t"
  have "run_view pct (S @ filter host_storable (option_list (tick_row l i))) ?newest (collector_apply name_of interval pct l i)"
  proof (rule run_view_step [OF Cons.prems(1)])
    show "clock_ok t" if "tick_time i = Some t" for t
      using that Cons.prems(3) by (simp add: map_filter_simps)
    show "u \<le> t" if "tick_time i = Some t" "newest = Some u" for t u
      using that Cons.prems(2) by (simp add: map_filter_simps option_list_def)
  qed
  from Cons.IH [OF this] Cons.prems show ?case
    by (auto simp: collector_run_def map_filter_simps option_list_def split: option.splits)
qed

lemma coarse_view_sorted:
  assumes "stream_ok S"
  shows "sorted (map hs_ts (coarse_view r pct S))"
proof -
  define F where "F = filter (\<lambda>s. bucket_end (hs_ts s) (bucket_ms r) < bucket_end (hs_ts (last S)) (bucket_ms r)) S"
  have F: "sorted (map hs_ts F)" "list_all ts_ok (map hs_ts F)"
    using assms by (auto simp: F_def stream_ok_def list_all_iff intro: sorted_filter strict_sorted_imp_sorted)
  have "sorted_wrt (<) (map hs_ts (grouped (\<lambda>s. bucket_end (hs_ts s) (bucket_ms r)) (host_bucket r pct) F))"
    using sorted_bucket_ends [OF F, of r]
    by (intro grouped_sorted(1)) (auto simp: comp_def host_bucket_def split: if_splits)
  then show ?thesis using host_grouped [OF F, of r pct]
    by (simp add: coarse_view_def F_def [symmetric] strict_sorted_imp_sorted)
qed


text \<open>
  A bucket in progress at a restart is given up; the one after it is closed by the last tick, unless
  its measurement fails.
\<close>

definition restarted_inputs :: "collector_input list" where
  "restarted_inputs = [HostTick (Inr (host_raw_at 0 7)) (Inr 1) (Inr 2), Restart,
     HostTick (Inr (host_raw_at 10000 7)) (Inr 1) (Inr 2), ContainerBatch [],
     HostTick (Inl (Host ''unreadable'')) (Inr 1) (Inr 2), HostTick (Inr (host_raw_at 20000 7)) (Inr 1) (Inr 2),
     HostTick (Inr (host_raw_at 30000 7)) (Inr 1) (Inr 2)]"


end
