(* ===== verification/Spec2Isabelle.thy ===== *)
theory Spec2Isabelle
  imports Startup Log_Read Log_Schedule Log_Pipeline Metrics_Pipeline
begin

text \<open>
  \<^bold>\<open>vpsiner\<close> is a Rust program that watches one host: it follows the containers of a Docker daemon,
  samples the host and the containers, archives the log lines of every container, and serves all of it
  over an HTTP interface with event streams. This library models its backend, the crate under
  \<^verbatim>\<open>src/src\<close>, and proves what makes its parts correct.

  \<^bold>\<open>The parts and how they interact.\<close> The Docker service (\<^verbatim>\<open>docker/\<close>) keeps the list of containers and
  feeds two channels: raw samples and log lines. The host source (\<^verbatim>\<open>metrics/host.rs\<close>) gives raw samples
  of the machine. The collection loops (\<^verbatim>\<open>metrics/collector*.rs\<close>) show each raw sample in the snapshot,
  turn the samples of each closed 10s bucket into rows with the bucketizers, insert the rows into the
  metrics store, which rolls closed coarser buckets up (\<^verbatim>\<open>metrics/rollup.rs\<close>, \<^verbatim>\<open>downsampling.rs\<close>), and
  announce the bucket to the streams (\<^verbatim>\<open>bucket_watcher.rs\<close>). Log lines go to the log buffer
  (\<^verbatim>\<open>logs/buffer.rs\<close>), which drops what a replay repeats, flushes them to the week databases of the log
  store (\<^verbatim>\<open>logs/store.rs\<close>), advances the checkpoints of the metadata store (\<^verbatim>\<open>metadata/\<close>) and notifies
  the tails. The service registry gives every service name a number that is never used again. A daily
  pass (\<^verbatim>\<open>retention.rs\<close>) deletes what is too old. The handlers (\<^verbatim>\<open>api/\<close>) read all of these. \<^verbatim>\<open>main.rs\<close>
  starts them in order, after the version guard (\<^verbatim>\<open>db_version.rs\<close>) has looked at the data directory.

  \<^bold>\<open>Conventions.\<close> \<open>u64\<close>, \<open>u32\<close>, \<open>u16\<close> and \<open>u8\<close> are words; an \<open>i64\<close> is an \<open>int\<close> whose plain arithmetic
  is wrapped by \<open>i64_wrap\<close>; an \<open>f64\<close> is a value of \<open>Float64\<close>, every operation rounded to nearest even;
  a \<open>str\<close> is its UTF-8 bytes; a \<open>HashMap\<close> is an association list whose order is the unspecified
  iteration order, a \<open>BTreeMap\<close> one sorted by its keys. An error is the left side of \<open>app_error + 'a\<close>;
  a panic is \<open>None\<close>. Shared state behind a lock is a record that every operation returns updated. A
  database is the contents of its tables with a list of faults: each statement takes the next entry,
  \<open>Some\<close> message for a failure; a theorem without a hypothesis on the faults holds for every pattern of
  failures. Concurrent tasks are step relations or lists of steps in any order. Third-party code
  (Docker's answers, JSON, base64, calendars, the full-text index, the system library, the driver) is an
  argument, with its documented behaviour as a hypothesis where a theorem needs it.

  \<^bold>\<open>Theories.\<close>
  \<^item> \<open>Prelude\<close>, \<open>Float64\<close>, \<open>Rust_Str\<close>, \<open>BTree_Map\<close>: integers, maps, results, floating point, strings and
    ordered maps of the standard library, with the simplification rules that the rest uses.
  \<^item> \<open>Model\<close>: \<^verbatim>\<open>model/\<close> and \<^verbatim>\<open>error.rs\<close>, all types, their conversions and codes.
  \<^item> \<open>Bucketizer\<close>: \<^verbatim>\<open>metrics/bucketizer.rs\<close>, \<^verbatim>\<open>rate.rs\<close>. The sample buffer refines its specification; a
    gauge lies within its samples, a counter is exact; the three bucketizers share the locale
    \<open>bucketizer_contract\<close>.
  \<^item> \<open>Downsampling\<close>: \<^verbatim>\<open>metrics/downsampling.rs\<close>. Bucket ends, and the single pass over the samples as the
    grouping by bucket, by the locale \<open>downsampler\<close>.
  \<^item> \<open>Collector\<close>, \<open>Collector_Loop\<close>, \<open>Host_Source\<close>: \<^verbatim>\<open>metrics/collector_host.rs\<close>,
    \<^verbatim>\<open>collector_containers.rs\<close>, \<^verbatim>\<open>collector.rs\<close>, \<^verbatim>\<open>host.rs\<close>. The invariant of the tracking map, the
    announced bucket is stored, a sample stays within its totals.
  \<^item> \<open>Metrics_Schema\<close>, \<open>Metrics_Store\<close>, \<open>Metrics_Laws\<close>: \<^verbatim>\<open>metrics/schema.rs\<close>, \<^verbatim>\<open>rollup.rs\<close>, \<^verbatim>\<open>store.rs\<close>.
    The coarse host tables are a materialised view, across a restart too; container queries group the
    rows.
  \<^item> \<open>Bucket_Watcher\<close>, \<open>Snapshot\<close>: \<^verbatim>\<open>metrics/bucket_watcher.rs\<close>, \<^verbatim>\<open>snapshot.rs\<close>.
  \<^item> \<open>Metadata\<close>, \<open>Service_Registry\<close>: \<^verbatim>\<open>metadata/\<close>. Checkpoints only move forward; the locale
    \<open>service_store\<close> states what the registry needs of its store, its interpretation \<open>sqlite\<close> proves it
    of the statements, and ids are stable over any life of the registry.
  \<^item> \<open>Log_Helpers\<close>: \<^verbatim>\<open>logs/helpers.rs\<close>. Levels, escape codes, week names, the query sanitiser.
  \<^item> \<open>Log_Store\<close>, \<open>Log_Store_Laws\<close>, \<open>Log_Paging\<close>, \<open>Log_Read\<close>: \<^verbatim>\<open>logs/store.rs\<close>. A query is one page of
    the sorted matches; an append adds exactly its lines (locale \<open>log_sink\<close>); the cursor of an entry
    splits the matches there; paging back reads them all.
  \<^item> \<open>Log_Buffer\<close>: \<^verbatim>\<open>logs/buffer.rs\<close>, \<^verbatim>\<open>flush_watcher.rs\<close>, \<^verbatim>\<open>mod.rs\<close>. A flush is two steps, taking the
    lines and landing them, between which anything may happen; accepted lines are kept, checkpoints
    cover only stored lines, a replay is dropped.
  \<^item> \<open>Log_Schedule\<close>: the workers of \<^verbatim>\<open>logs/buffer.rs\<close> again, as runs in which a push still owes its
    call of \<^verbatim>\<open>schedule_flush\<close> and a debounce still owes its flush. Every service with waiting lines is
    attended (\<open>reach_attended\<close>), and a turn of its worker writes them.
  \<^item> \<open>Docker_Map\<close>, \<open>Container_Registry\<close>, \<open>Docker_Control\<close>: \<^verbatim>\<open>docker/\<close>. Answers to types, the observed
    containers and their events, coalesced requests, commands and their guards, the log tasks.
  \<^item> \<open>Retention\<close>, \<open>Db_Version\<close>, \<open>Sqlite\<close>: \<^verbatim>\<open>retention.rs\<close>, \<^verbatim>\<open>db_version.rs\<close>, \<^verbatim>\<open>sqlite.rs\<close> and
    \<^verbatim>\<open>logs/schema.rs\<close>. What a pass removes and must keep, the guard, the set-up of the tables and of the
    full-text index with failures at any statement, the return of free pages.
  \<^item> \<open>Metrics_Pipeline\<close>: the collection loops, the store and its rollup, restarts and the host query in
    one: a query of any resolution is a function of the buckets that were collected.
  \<^item> \<open>Log_Pipeline\<close>: the log tasks and their channel, the buffer, the flushes, the checkpoints, the
    clean-up and the crashes in one step relation, with an invariant that says where each line is. A
    container's history is what Docker replays; a service has at most one flush in flight.
  \<^item> \<open>Config\<close>, \<open>Api\<close>: \<^verbatim>\<open>config.rs\<close>, \<^verbatim>\<open>state.rs\<close> and the handlers of \<^verbatim>\<open>api/\<close>.
  \<^item> \<open>Api_Streams\<close>, \<open>Api_Streams_Laws\<close>, \<open>Log_Tail\<close>: the event streams of \<^verbatim>\<open>api/stream.rs\<close>,
    \<^verbatim>\<open>metrics_stream.rs\<close> and \<^verbatim>\<open>logs_stream.rs\<close>. A stream is its state and one iteration of its loop, whose
    argument is the branch that woke it; the events put together give what they stand for, and the tail
    loses and repeats nothing.
  \<^item> \<open>Startup\<close>: \<^verbatim>\<open>main.rs\<close>. A start that serves has established what the other theories assume of the
    registry and the settings; without failures it refuses exactly for an incompatible database; a
    shutdown ends every stream (locale \<open>stoppable\<close>, interpreted on each kind).
  \<^item> This theory: the way of a line from an append to the pages of a reader.

  \<^bold>\<open>Bounds and fuel.\<close> Loops are structural recursion or have a termination proof. The one client with
  fuel, \<open>read_back\<close>, is given one request for each stored entry and one more, and the theorem shows that
  it succeeds. Time stamps are assumed to lie where the calendar names weeks (\<open>dated\<close>) or within
  \<open>2 ^ 60\<close> milliseconds of the epoch (\<open>clock_ok\<close>) where arithmetic on them could wrap.

  \<^bold>\<open>Deviations that the proofs showed.\<close> Several lemmas state concrete misbehaviour: the container rollup
  that loses a row (\<open>container_rollup_loses_row\<close>), the escape code that panics (\<open>strip_ansi_panics\<close>),
  colliding directories (\<open>safe_service_path_collision\<close>), a partly committed append
  (\<open>partial_append\<close>), a cursor that panics (\<open>cursor_week_panics\<close>), the torn manifest
  (\<open>torn_manifest_wipes\<close>), the tail that waits with lines unsent (\<open>tail_stalls_behind_page\<close>), skipped and
  repeated points of a stream (\<open>host_stream_skips_bucket\<close>, \<open>host_stream_repeats_point\<close>), and a retention
  that prevents every start (\<open>huge_retention_cannot_start\<close>), and two flushes of a service in flight
  whose checkpoint passes lines that are not stored (\<open>overlapping_flush_passes_line\<close>).

  \<^bold>\<open>Not modelled.\<close> The text of log messages of the program itself, the spawning and aborting of tasks and
  the waiting of timers (a step happens when its list of inputs says so), the transport of Docker's
  client library, HTTP extraction, serialisation and event framing, SQL parsing, pragmas and the file
  format of SQLite, and the frontend. Of \<^verbatim>\<open>metrics/mod.rs\<close> and \<^verbatim>\<open>model/mod.rs\<close> there is nothing to model.
\<close>

section \<open>From a written line to a page\<close>

text \<open>
  C10. What is written can be read. After an append that reports success, a client that asks for the
  newest page of the service and follows the older cursors, without a filter and while nothing fails,
  gets after at most one request for each entry and one more the lines that were stored before together
  with exactly the appended lines, each once, in the order of their time stamps.
\<close>

theorem appended_lines_are_read_back:
  assumes "iso_calendar env" "cursor_codec env" "store_wf env st" "\<forall>xs. mset (iter xs) = mset xs"
    and "\<forall>line \<in> set lines. dated (ll_ts line)" "\<exists>line \<in> set lines. week_name env (ll_ts line) \<noteq> None"
    and "logs_append env iter service lines st = (st', Some (Inr ()))" "unfiltered f"
  shows "\<exists>read. read_back env service f (Suc (length (service_log env st' service))) (st'\<lparr>ls_faults := []\<rparr>) = Some read \<and>
    mset read = log_content env st service
      + mset (map (as_stored service) (filter (\<lambda>l. week_name env (ll_ts l) \<noteq> None) lines)) \<and>
    sorted (map ll_ts read)"
proof -
  let ?st = "st'\<lparr>ls_faults := []\<rparr>"
  have log: "service_log env ?st service = service_log env st' service" by (rule service_log_dirs) simp
  have stored: "store_wf env st'" "log_content env st' service = log_content env st service
      + mset (map (as_stored service) (filter (\<lambda>l. week_name env (ll_ts l) \<noteq> None) lines))"
    using logs_append_law [OF assms(1,3-5), of service] by (simp_all add: assms(7) appended_def)
  have "filter (\<lambda>l. week_name env (ll_ts l) \<noteq> None) lines \<noteq> []" using assms(6) by (simp add: filter_empty_conv)
  with stored(2) have "service_log env st' service \<noteq> []" by (auto simp: log_content_def)
  then have "hm_get (ls_dirs st') (safe_service_path service) \<noteq> None"
    by (cases "hm_get (ls_dirs st') (safe_service_path service)") (simp_all add: service_log_def files_of_def)
  then have "readable env ?st service" using stored(1) by (simp add: readable_def store_wf_def files_of_def)
  moreover have "lf_before f = None" "lf_after f = None" "calm_filter f None"
    using assms(8) by (simp_all add: unfiltered_def calm_filter_def)
  ultimately have read: "read_back env service f (Suc (length (service_log env st' service))) ?st = Some (map sl_line
      (sorted_matches env f (Option.bind (lf_query f) sanitize_fts_query) None Backward (service_log env st' service)))"
    using paging_back_reads_all [OF assms(1,2), of ?st service f "Suc (length (service_log env st' service))"]
    unfolding log by simp
  have "mset (map sl_line (sorted_matches env f (Option.bind (lf_query f) sanitize_fts_query) None Backward
      (service_log env st' service))) = log_content env st' service"
    using unfiltered_matches [OF assms(8), of env "service_log env st' service"] by (simp add: log_content_def)
  with stored(2) read sorted_matches_times show ?thesis by metis
qed

theorem appended_lines_are_read_back_witness:
  "\<exists>st' read. logs_append unary_env id ''web'' [hello_line 7000] week_one_store = (st', Some (Inr ())) \<and>
     read_back unary_env ''web'' all_tailed (Suc (length (service_log unary_env st' ''web''))) (st'\<lparr>ls_faults := []\<rparr>) = Some read \<and>
     as_stored ''web'' (hello_line 7000) \<in># mset read \<and> sorted (map ll_ts read)"
proof -
  have dated: "\<forall>line \<in> set [hello_line 7000]. dated (ll_ts line)" by (simp add: hello_line_def dated_def)
  have week: "week_name unary_env 7000 \<noteq> None"
    by (simp add: week_name_def week_database_name_def unary_env_def week_one_env_def)
  have "ls_faults week_one_store = []" by (simp add: week_one_store_def log_store_new_def)
  from logs_append_succeeds [OF unary_env_ok(2) _ dated this, of id "''web''"] obtain st' where
    a: "logs_append unary_env id ''web'' [hello_line 7000] week_one_store = (st', Some (Inr ()))" by auto
  have "unfiltered all_tailed" by (simp add: unfiltered_def all_tailed_def all_logs_def)
  moreover have "\<exists>line \<in> set [hello_line 7000]. week_name unary_env (ll_ts line) \<noteq> None"
    using week by (simp add: hello_line_def)
  ultimately obtain read where r: "read_back unary_env ''web'' all_tailed (Suc (length (service_log unary_env st' ''web'')))
      (st'\<lparr>ls_faults := []\<rparr>) = Some read"
    "mset read = log_content unary_env week_one_store ''web''
      + mset (map (as_stored ''web'') (filter (\<lambda>l. week_name unary_env (ll_ts l) \<noteq> None) [hello_line 7000]))"
    "sorted (map ll_ts read)"
    using appended_lines_are_read_back [OF unary_env_ok(2,1,3) _ dated _ a] by auto
  have "as_stored ''web'' (hello_line 7000) \<in># mset read"
    unfolding r(2) using week by (simp add: hello_line_def)
  with a r show ?thesis by blast
qed

end
